(* ===== verification/Prelude.thy ===== *)
theory Prelude
  imports Main "HOL-Library.Word" "HOL-Library.Monad_Syntax"
begin

text \<open>
  Shared vocabulary of the development: the integer types and error codes of
  \<^verbatim>\<open>rt-thread/include/rtdef.h\<close>, the result of a call that may halt, byte
  buffers with checked copies (what \<^verbatim>\<open>memcpy\<close> does on arrays of known length),
  and the generic lemmas on lists and words that the component theories use.

  A C function that may fail an \<^verbatim>\<open>RT_ASSERT\<close> or touch memory outside an
  array is a HOL function into \<open>option\<close>: \<open>None\<close> is the call that does not
  come back (the assertion handler of \<^verbatim>\<open>kservice.c\<close> spins for ever) or that has no
  defined behaviour. The error numbers the C code returns are ordinary values.
\<close>

unbundle bit_operations_syntax

section \<open>Collections of rules\<close>

named_theorems kernel_defs \<open>unfolding of small kernel helpers\<close>
named_theorems kernel_frame \<open>fields an operation leaves alone\<close>

section \<open>Integer types and error codes (rtdef.h)\<close>

type_synonym u8 = "8 word"
type_synonym u16 = "16 word"
type_synonym u32 = "32 word"
type_synonym rt_err_t = int

definition RT_EOK :: rt_err_t where "RT_EOK = 0"
definition RT_ERROR :: rt_err_t where "RT_ERROR = 1"
definition RT_ETIMEOUT :: rt_err_t where "RT_ETIMEOUT = 2"
definition RT_EFULL :: rt_err_t where "RT_EFULL = 3"
definition RT_EEMPTY :: rt_err_t where "RT_EEMPTY = 4"
definition RT_ENOSYS :: rt_err_t where "RT_ENOSYS = 6"
definition RT_EBUSY :: rt_err_t where "RT_EBUSY = 7"
definition RT_EINTR :: rt_err_t where "RT_EINTR = 9"

lemmas rt_err_defs =
  RT_EOK_def RT_ERROR_def RT_ETIMEOUT_def RT_EFULL_def RT_EEMPTY_def RT_ENOSYS_def RT_EBUSY_def RT_EINTR_def

definition RT_ALIGN_SIZE :: nat where "RT_ALIGN_SIZE = 4"

text \<open>\<^verbatim>\<open>RT_ALIGN_DOWN(size, align)\<close> and \<^verbatim>\<open>RT_ALIGN(size, align)\<close> at any width.\<close>

definition rt_align_down :: "'a::len word \<Rightarrow> 'a word \<Rightarrow> 'a word" where
  "rt_align_down sz align = sz AND NOT (align - 1)"

definition rt_align_up :: "'a::len word \<Rightarrow> 'a word \<Rightarrow> 'a word" where
  "rt_align_up sz align = (sz + align - 1) AND NOT (align - 1)"

section \<open>Calls that may halt\<close>

definition rt_assert :: "bool \<Rightarrow> unit option" where
  "rt_assert b = (if b then Some () else None)"

lemma rt_assert_True [simp]: "rt_assert True = Some ()"
  by (simp add: rt_assert_def)

lemma rt_assert_False [simp]: "rt_assert False = None"
  by (simp add: rt_assert_def)

lemma rt_assert_bind_Some [simp]:
  "(rt_assert b \<bind> f = Some r) \<longleftrightarrow> b \<and> f () = Some r"
  by (cases b) auto

lemma rt_assert_eq_Some [simp]: "rt_assert b = Some u \<longleftrightarrow> b"
  by (cases b) auto

section \<open>Byte buffers\<close>

text \<open>
  \<open>buf_read b off n\<close> reads \<open>n\<close> cells from \<open>b\<close> at \<open>off\<close>;
  \<open>buf_write b off xs\<close> overwrites cells. Both are undefined as soon as one cell
  lies outside the array.
\<close>

definition buf_read :: "'a list \<Rightarrow> nat \<Rightarrow> nat \<Rightarrow> 'a list option" where
  "buf_read b off n = (if off + n \<le> length b then Some (take n (drop off b)) else None)"

definition buf_write :: "'a list \<Rightarrow> nat \<Rightarrow> 'a list \<Rightarrow> 'a list option" where
  "buf_write b off xs =
     (if off + length xs \<le> length b
      then Some (take off b @ xs @ drop (off + length xs) b) else None)"

lemma buf_read_ok [simp]:
  "off + n \<le> length b \<Longrightarrow> buf_read b off n = Some (take n (drop off b))"
  by (simp add: buf_read_def)

lemma buf_write_ok [simp]:
  "off + length xs \<le> length b \<Longrightarrow>
   buf_write b off xs = Some (take off b @ xs @ drop (off + length xs) b)"
  by (simp add: buf_write_def)

lemma buf_write_length: "buf_write b off xs = Some b' \<Longrightarrow> length b' = length b"
  by (auto simp: buf_write_def split: if_splits)

section \<open>Lists cut into pieces\<close>

lemma split_at: "k \<le> length b \<Longrightarrow> \<exists>A B. b = A @ B \<and> length A = k"
  by (metis append_take_drop_id length_take min.absorb2)

lemma split_at4:
  assumes "i + j + k \<le> length b"
  shows "\<exists>A B C D. b = A @ B @ C @ D \<and> length A = i \<and> length B = j \<and> length C = k"
proof -
  obtain A X where 1: "b = A @ X" "length A = i" using split_at [of i b] assms by auto
  obtain B Y where 2: "X = B @ Y" "length B = j" using split_at [of j X] assms 1 by auto
  obtain C Z where 3: "Y = C @ Z" "length C = k" using split_at [of k Y] assms 1 2 by auto
  show ?thesis using 1 2 3 by auto
qed

lemma length_remove1_Suc: "x \<in> set xs \<Longrightarrow> Suc (length (remove1 x xs)) = length xs"
  by (induction xs) auto

section \<open>Words\<close>

lemma unat_of_nat_small [simp]:
  "n < 2 ^ LENGTH('a::len) \<Longrightarrow> unat (of_nat n :: 'a word) = n"
  by (simp add: unat_of_nat take_bit_nat_eq_self)

lemma unat_ucast_up [simp]:
  assumes "LENGTH('a::len) \<le> LENGTH('b::len)"
  shows "unat (ucast (x :: 'a word) :: 'b word) = unat x"
proof -
  have "unat x < 2 ^ LENGTH('a)" by (rule unsigned_less)
  also have "\<dots> \<le> 2 ^ LENGTH('b)" using assms by simp
  finally show ?thesis by (simp add: unsigned_ucast_eq take_bit_nat_eq_self)
qed

lemma unat_ucast_fit [simp]:
  "unat (x :: 'a::len word) < 2 ^ LENGTH('b::len) \<Longrightarrow> unat (ucast x :: 'b word) = unat x"
  by (simp add: unsigned_ucast_eq take_bit_nat_eq_self)

lemma unat_word_of_int [simp]:
  "0 \<le> i \<Longrightarrow> i < 2 ^ LENGTH('a::len) \<Longrightarrow> unat (word_of_int i :: 'a word) = nat i"
  by (simp add: unat_eq_nat_uint uint_word_of_int)

lemma unat_add_fit:
  "unat (x :: 'a::len word) + unat y < 2 ^ LENGTH('a) \<Longrightarrow> unat (x + y) = unat x + unat y"
  by (simp add: unat_word_ariths)

lemma sint_pos_uint:
  assumes "0 < sint (x :: 'a::len word)"
  shows "uint x = sint x"
proof -
  have "uint x = take_bit LENGTH('a) (sint x)"
    by (metis of_int_sint scast_id uint_word_of_int_eq)
  moreover have "sint x < 2 ^ LENGTH('a)"
    using sint_lt [of x] by (rule less_le_trans) simp
  ultimately show ?thesis using assms by (simp add: take_bit_int_eq_self)
qed

lemma and_not_mask_diff: "x AND NOT (mask n) = x - take_bit n (x :: 'a::len word)"
proof -
  have "x AND NOT (mask n) = push_bit n (drop_bit n x)"
    by (rule bit_word_eqI) (auto simp: bit_simps)
  then show ?thesis using bits_ident [of n x] by (metis add_diff_cancel_right')
qed

lemma unat_align_down_pow:
  "unat (rt_align_down (x :: 'a::len word) (2 ^ n)) = unat x - unat x mod 2 ^ n"
proof -
  have t: "unat (take_bit n x) = unat x mod 2 ^ n"
    unfolding unsigned_take_bit_eq by (simp add: take_bit_eq_mod)
  then have "take_bit n x \<le> x" by (simp add: word_le_nat_alt)
  then have "unat (x - take_bit n x) = unat x - unat (take_bit n x)" by (rule unat_sub)
  then show ?thesis
    unfolding rt_align_down_def mask_eq_exp_minus_1 [symmetric] and_not_mask_diff by (simp add: t)
qed

lemma unat_align_down [simp]:
  "unat (rt_align_down (x :: 'a::len word) (of_nat RT_ALIGN_SIZE)) = unat x - unat x mod 4"
  using unat_align_down_pow [of x 2] by (simp add: RT_ALIGN_SIZE_def)

lemma NOT_one_bit [simp]: "NOT (NOT (x :: 1 word)) = x"
  by simp

lemma one_bit_NOT_neq [simp]: "(NOT (x :: 1 word)) \<noteq> x" "x \<noteq> NOT (x :: 1 word)"
proof -
  have "bit (NOT x) 0 \<noteq> bit x 0" by (simp add: bit_not_iff)
  then show "NOT x \<noteq> x" "x \<noteq> NOT x" by metis+
qed

lemma one_bit_cases: "(x :: 1 word) = 0 \<or> x = 1"
proof -
  have "unat x < 2" using unsigned_less [of x, where 'a = nat] by simp
  then have "unat x = 0 \<or> unat x = 1" by linarith
  then show ?thesis by (metis unsigned_0 unsigned_1 word_unat_eq_iff)
qed

lemma one_bit_NOT_eq: "NOT (x :: 1 word) = y \<longleftrightarrow> x \<noteq> y"
proof -
  have n0: "NOT (0 :: 1 word) = 1" and n1: "NOT (1 :: 1 word) = 0" by simp_all
  show ?thesis
    using one_bit_cases [of x] one_bit_cases [of y] n0 n1 by auto
qed

text \<open>Setting and clearing flag bits.\<close>

lemma flag_bits_other:
  fixes f a b :: "'a::len word"
  assumes "a AND b = 0"
  shows "(f AND NOT a) AND b = f AND b" "(f OR a) AND b = f AND b"
proof -
  have "\<not> (bit a n \<and> bit b n)" for n
    using arg_cong [OF assms, of "\<lambda>w. bit w n"] by (simp add: bit_and_iff)
  then show "(f AND NOT a) AND b = f AND b" "(f OR a) AND b = f AND b"
    by (auto intro!: bit_word_eqI simp: bit_simps)
qed

lemma flag_bits_same:
  fixes f a :: "'a::len word"
  shows "(f AND NOT a) AND a = 0" "(f OR a) AND a = a"
  by (auto intro!: bit_word_eqI simp: bit_simps)

lemma flag_clear_absent:
  fixes f a :: "'a::len word"
  assumes "f AND a = 0"
  shows "f AND NOT a = f"
proof -
  have "\<not> (bit f n \<and> bit a n)" for n
    using arg_cong [OF assms, of "\<lambda>w. bit w n"] by (simp add: bit_and_iff)
  then show ?thesis by (auto intro!: bit_word_eqI simp: bit_simps)
qed

end
