(* ===== verification/Ringbuffer.thy ===== *)
theory Ringbuffer
  imports Prelude
begin

text \<open>
  The byte ring buffer of \<^verbatim>\<open>components/drivers/src/ringbuffer.c\<close> (used by the
  serial drivers), at the widths of the C bit fields: a 15-bit index and a 1-bit
  mirror for each side, a signed 16-bit size, a 32-bit \<^verbatim>\<open>rt_size_t\<close>. The memory
  behind \<^verbatim>\<open>buffer_ptr\<close> is the list of its bytes, and every copy is checked against
  the length of that list and of the caller's array. The abstraction is the list of
  queued bytes.
\<close>

section \<open>Data and operations\<close>

datatype rt_ringbuffer_state =
  RT_RINGBUFFER_EMPTY | RT_RINGBUFFER_FULL | RT_RINGBUFFER_HALFFULL

record rt_ringbuffer =
  buffer_ptr :: "u8 list"
  read_mirror :: "1 word"
  read_index :: "15 word"
  write_mirror :: "1 word"
  write_index :: "15 word"
  buffer_size :: u16

definition rt_ringbuffer_status :: "rt_ringbuffer \<Rightarrow> rt_ringbuffer_state" where
  "rt_ringbuffer_status rb =
     (if read_index rb = write_index rb
      then if read_mirror rb = write_mirror rb then RT_RINGBUFFER_EMPTY else RT_RINGBUFFER_FULL
      else RT_RINGBUFFER_HALFFULL)"

definition rt_ringbuffer_init :: "u8 list \<Rightarrow> u16 \<Rightarrow> rt_ringbuffer option" where
  "rt_ringbuffer_init pool sz = do {
     rt_assert (0 < sint sz);
     Some \<lparr>buffer_ptr = pool, read_mirror = 0, read_index = 0, write_mirror = 0,
           write_index = 0, buffer_size = rt_align_down sz (of_nat RT_ALIGN_SIZE)\<rparr> }"

definition rt_ringbuffer_data_len :: "rt_ringbuffer \<Rightarrow> u32" where
  "rt_ringbuffer_data_len rb =
     (case rt_ringbuffer_status rb of
        RT_RINGBUFFER_EMPTY \<Rightarrow> 0
      | RT_RINGBUFFER_FULL \<Rightarrow> word_of_int (sint (buffer_size rb))
      | RT_RINGBUFFER_HALFFULL \<Rightarrow>
          if read_index rb < write_index rb
          then word_of_int (uint (write_index rb) - uint (read_index rb))
          else word_of_int (sint (buffer_size rb) - (uint (read_index rb) - uint (write_index rb))))"

definition rt_ringbuffer_space_len :: "rt_ringbuffer \<Rightarrow> u32" where
  "rt_ringbuffer_space_len rb = word_of_int (sint (buffer_size rb)) - rt_ringbuffer_data_len rb"

text \<open>
  \<^verbatim>\<open>rb->buffer_size - rb->write_index\<close> is computed as an \<^verbatim>\<open>int\<close>; used as the
  length of a copy it is converted to \<^verbatim>\<open>size_t\<close>.
\<close>

definition write_room :: "rt_ringbuffer \<Rightarrow> int" where
  "write_room rb = sint (buffer_size rb) - uint (write_index rb)"

definition read_room :: "rt_ringbuffer \<Rightarrow> int" where
  "read_room rb = sint (buffer_size rb) - uint (read_index rb)"

definition copy_len :: "int \<Rightarrow> nat" where
  "copy_len i = unat (word_of_int i :: u32)"

definition rt_ringbuffer_put :: "rt_ringbuffer \<Rightarrow> u8 list \<Rightarrow> u16 \<Rightarrow> (u32 \<times> rt_ringbuffer) option" where
  "rt_ringbuffer_put rb ptr len0 =
     (let sz = (ucast (rt_ringbuffer_space_len rb) :: u16) in
      if sz = 0 then Some (0, rb)
      else
        let len = (if sz < len0 then sz else len0) in
        if write_room rb > uint len
        then do {
          src \<leftarrow> buf_read ptr 0 (unat len);
          b \<leftarrow> buf_write (buffer_ptr rb) (unat (write_index rb)) src;
          Some (ucast len,
                rb\<lparr>buffer_ptr := b, write_index := write_index rb + ucast len\<rparr>) }
        else do {
          src1 \<leftarrow> buf_read ptr 0 (copy_len (write_room rb));
          b1 \<leftarrow> buf_write (buffer_ptr rb) (unat (write_index rb)) src1;
          src2 \<leftarrow> buf_read ptr (copy_len (write_room rb)) (copy_len (uint len - write_room rb));
          b2 \<leftarrow> buf_write b1 0 src2;
          Some (ucast len,
                rb\<lparr>buffer_ptr := b2, write_mirror := NOT (write_mirror rb),
                   write_index := word_of_int (uint len - write_room rb)\<rparr>) })"

definition rt_ringbuffer_put_force :: "rt_ringbuffer \<Rightarrow> u8 list \<Rightarrow> u16 \<Rightarrow> (u32 \<times> rt_ringbuffer) option" where
  "rt_ringbuffer_put_force rb ptr0 len0 =
     (let space_length = (ucast (rt_ringbuffer_space_len rb) :: u16);
          (ptr, len) = (if uint len0 > sint (buffer_size rb)
                        then (drop (copy_len (uint len0 - sint (buffer_size rb))) ptr0, buffer_size rb)
                        else (ptr0, len0)) in
      if write_room rb > uint len
      then do {
        src \<leftarrow> buf_read ptr 0 (unat len);
        b \<leftarrow> buf_write (buffer_ptr rb) (unat (write_index rb)) src;
        let rb1 = rb\<lparr>buffer_ptr := b, write_index := write_index rb + ucast len\<rparr>;
        Some (ucast len,
              if len > space_length then rb1\<lparr>read_index := write_index rb1\<rparr> else rb1) }
      else do {
        src1 \<leftarrow> buf_read ptr 0 (copy_len (write_room rb));
        b1 \<leftarrow> buf_write (buffer_ptr rb) (unat (write_index rb)) src1;
        src2 \<leftarrow> buf_read ptr (copy_len (write_room rb)) (copy_len (uint len - write_room rb));
        b2 \<leftarrow> buf_write b1 0 src2;
        let rb1 = rb\<lparr>buffer_ptr := b2, write_mirror := NOT (write_mirror rb),
                     write_index := word_of_int (uint len - write_room rb)\<rparr>;
        Some (ucast len,
              if len > space_length
              then rb1\<lparr>read_mirror := NOT (read_mirror rb1), read_index := write_index rb1\<rparr>
              else rb1) })"

text \<open>
  \<open>rt_ringbuffer_get\<close> writes into the caller's array; the model returns the bytes
  that were stored there, together with the count.
\<close>

definition rt_ringbuffer_get :: "rt_ringbuffer \<Rightarrow> u16 \<Rightarrow> (u32 \<times> u8 list \<times> rt_ringbuffer) option" where
  "rt_ringbuffer_get rb len0 =
     (let sz = rt_ringbuffer_data_len rb in
      if sz = 0 then Some (0, [], rb)
      else
        let len = (if sz < ucast len0 then ucast sz else len0) in
        if read_room rb > uint len
        then do {
          xs \<leftarrow> buf_read (buffer_ptr rb) (unat (read_index rb)) (unat len);
          Some (ucast len, xs, rb\<lparr>read_index := read_index rb + ucast len\<rparr>) }
        else do {
          xs1 \<leftarrow> buf_read (buffer_ptr rb) (unat (read_index rb)) (copy_len (read_room rb));
          xs2 \<leftarrow> buf_read (buffer_ptr rb) 0 (copy_len (uint len - read_room rb));
          Some (ucast len, xs1 @ xs2,
                rb\<lparr>read_mirror := NOT (read_mirror rb),
                   read_index := word_of_int (uint len - read_room rb)\<rparr>) })"

definition rt_ringbuffer_putchar :: "rt_ringbuffer \<Rightarrow> u8 \<Rightarrow> (u32 \<times> rt_ringbuffer) option" where
  "rt_ringbuffer_putchar rb ch =
     (if rt_ringbuffer_space_len rb = 0 then Some (0, rb)
      else do {
        b \<leftarrow> buf_write (buffer_ptr rb) (unat (write_index rb)) [ch];
        let rb1 = rb\<lparr>buffer_ptr := b\<rparr>;
        Some (1, if uint (write_index rb1) = sint (buffer_size rb1) - 1
                 then rb1\<lparr>write_mirror := NOT (write_mirror rb1), write_index := 0\<rparr>
                 else rb1\<lparr>write_index := write_index rb1 + 1\<rparr>) })"

definition rt_ringbuffer_putchar_force :: "rt_ringbuffer \<Rightarrow> u8 \<Rightarrow> (u32 \<times> rt_ringbuffer) option" where
  "rt_ringbuffer_putchar_force rb ch =
     (let old_state = rt_ringbuffer_status rb in do {
        b \<leftarrow> buf_write (buffer_ptr rb) (unat (write_index rb)) [ch];
        let rb1 = rb\<lparr>buffer_ptr := b\<rparr>;
        Some (1, if uint (write_index rb1) = sint (buffer_size rb1) - 1
                 then let rb2 = rb1\<lparr>write_mirror := NOT (write_mirror rb1), write_index := 0\<rparr> in
                      if old_state = RT_RINGBUFFER_FULL
                      then rb2\<lparr>read_mirror := NOT (read_mirror rb2), read_index := write_index rb2\<rparr>
                      else rb2
                 else let rb2 = rb1\<lparr>write_index := write_index rb1 + 1\<rparr> in
                      if old_state = RT_RINGBUFFER_FULL
                      then rb2\<lparr>read_index := write_index rb2\<rparr>
                      else rb2) })"

definition rt_ringbuffer_getchar :: "rt_ringbuffer \<Rightarrow> (u32 \<times> u8 option \<times> rt_ringbuffer) option" where
  "rt_ringbuffer_getchar rb =
     (if rt_ringbuffer_data_len rb = 0 then Some (0, None, rb)
      else do {
        xs \<leftarrow> buf_read (buffer_ptr rb) (unat (read_index rb)) 1;
        Some (1, Some (hd xs),
              if uint (read_index rb) = sint (buffer_size rb) - 1
              then rb\<lparr>read_mirror := NOT (read_mirror rb), read_index := 0\<rparr>
              else rb\<lparr>read_index := read_index rb + 1\<rparr>) })"

definition rt_ringbuffer_reset :: "rt_ringbuffer \<Rightarrow> rt_ringbuffer" where
  "rt_ringbuffer_reset rb =
     rb\<lparr>read_mirror := 0, read_index := 0, write_mirror := 0, write_index := 0\<rparr>"

text \<open>
  \<open>rt_ringbuffer_create\<close> takes what the two calls of \<^verbatim>\<open>rt_malloc\<close> return: whether
  the descriptor was allocated, and the memory of the pool.
\<close>

definition rt_ringbuffer_create :: "bool \<Rightarrow> (nat \<Rightarrow> u8 list option) \<Rightarrow> u16 \<Rightarrow> rt_ringbuffer option option" where
  "rt_ringbuffer_create got_rb malloc_pool sz0 = do {
     rt_assert (0 < sz0);
     let sz = rt_align_down sz0 (of_nat RT_ALIGN_SIZE);
     if \<not> got_rb then Some None
     else case malloc_pool (unat sz) of
            None \<Rightarrow> Some None
          | Some pool \<Rightarrow> do { rb \<leftarrow> rt_ringbuffer_init pool sz; Some (Some rb) } }"

section \<open>Well-formed buffers and the queue they hold\<close>

definition rb_cap :: "rt_ringbuffer \<Rightarrow> nat" where
  "rb_cap rb = nat (sint (buffer_size rb))"

definition rb_wf :: "rt_ringbuffer \<Rightarrow> bool" where
  "rb_wf rb \<longleftrightarrow>
     0 < sint (buffer_size rb) \<and> rb_cap rb \<le> length (buffer_ptr rb) \<and>
     unat (read_index rb) < rb_cap rb \<and> unat (write_index rb) < rb_cap rb \<and>
     (if read_mirror rb = write_mirror rb
      then unat (read_index rb) \<le> unat (write_index rb)
      else unat (write_index rb) \<le> unat (read_index rb))"

text \<open>The queued bytes: one stretch in the same mirror, two stretches across it.\<close>

definition ring_list :: "bool \<Rightarrow> nat \<Rightarrow> nat \<Rightarrow> nat \<Rightarrow> 'a list \<Rightarrow> 'a list" where
  "ring_list same r w n b =
     (if same then take (w - r) (drop r b) else drop r (take n b) @ take w b)"

definition rb_list :: "rt_ringbuffer \<Rightarrow> u8 list" where
  "rb_list rb = ring_list (read_mirror rb = write_mirror rb)
     (unat (read_index rb)) (unat (write_index rb)) (rb_cap rb) (buffer_ptr rb)"

subsection \<open>Ring arithmetic on plain lists\<close>

lemma length_ring_list:
  assumes "r < n" "w < n" "n \<le> length b" "if same then r \<le> w else w \<le> r"
  shows "length (ring_list same r w n b) = (if same then w - r else n - r + w)"
  using assms by (auto simp: ring_list_def)

lemma ring_list_same [simp]:
  "length A = r \<Longrightarrow> w = r + length B \<Longrightarrow> ring_list True r w n (A @ B @ C) = B"
  by (simp add: ring_list_def)

lemma ring_list_differ [simp]:
  "length A = w \<Longrightarrow> r = w + length B \<Longrightarrow> n = r + length C \<Longrightarrow>
   ring_list False r w n (A @ B @ C @ D) = C @ A"
  by (simp add: ring_list_def)

lemma ring_list_write:
  assumes "r < n" "n \<le> length b" "if same then r \<le> w else w + length xs \<le> r"
    and "w + length xs < n"
  shows "ring_list same r (w + length xs) n (take w b @ xs @ drop (w + length xs) b) =
         ring_list same r w n b @ xs"
proof (cases same)
  case True
  obtain A B C D where b: "b = A @ B @ C @ D" and l: "length A = r" "length B = w - r" "length C = length xs"
    using split_at4 [of r "w - r" "length xs" b] assms True by auto
  have "take w b = A @ B" "drop (w + length xs) b = D"
    using b l assms True by simp_all
  then show ?thesis
    using ring_list_same [of A r "w + length xs" "B @ xs" n D] ring_list_same [of A r w B n "C @ D"]
      b l assms True by simp
next
  case False
  obtain A X B C where b: "b = A @ X @ B @ C"
    and l: "length A = w" "length X = length xs" "length B = r - w - length xs"
    using split_at4 [of w "length xs" "r - w - length xs" b] assms False by auto
  have "n - r \<le> length C" using assms False b l by simp
  then obtain E F where c: "C = E @ F" "length E = n - r"
    using split_at by blast
  have "take w b = A" "drop (w + length xs) b = B @ C"
    using b l by simp_all
  then show ?thesis
    using ring_list_differ [of "A @ xs" "w + length xs" r B n E F]
      ring_list_differ [of A w r "X @ B" n E F] b c l assms False by simp
qed

lemma ring_list_write_wrap:
  assumes "r \<le> w" "w < n" "n \<le> length b" "length xs = n - w" "length ys \<le> r"
  shows "ring_list False r (length ys) n (ys @ drop (length ys) (take w b @ xs @ drop n b)) =
         ring_list True r w n b @ xs @ ys"
proof -
  obtain Y A B C where b: "b = Y @ A @ B @ C"
    and l: "length Y = length ys" "length A = r - length ys" "length B = w - r"
    using split_at4 [of "length ys" "r - length ys" "w - r" b] assms by auto
  have "drop (length ys) (take w b @ xs @ drop n b) = A @ B @ xs @ drop n b"
    using b l assms by simp
  then show ?thesis
    using ring_list_differ [of ys "length ys" r A n "B @ xs" "drop n b"]
      ring_list_same [of "Y @ A" r w B n C] b l assms by simp
qed

lemma ring_list_read:
  assumes "r + k < n" "w < n" "n \<le> length b" "if same then r + k \<le> w else w \<le> r"
  shows "take k (drop r b) = take k (ring_list same r w n b)"
    and "ring_list same (r + k) w n b = drop k (ring_list same r w n b)"
proof -
  have "take k (drop r b) = take k (ring_list same r w n b) \<and>
        ring_list same (r + k) w n b = drop k (ring_list same r w n b)"
  proof (cases same)
    case True
    obtain A K B C where b: "b = A @ K @ B @ C"
      and l: "length A = r" "length K = k" "length B = w - r - k"
      using split_at4 [of r k "w - r - k" b] assms True by auto
    show ?thesis
      using ring_list_same [of A r w "K @ B" n C] ring_list_same [of "A @ K" "r + k" w B n C]
        b l assms True by simp
  next
    case False
    obtain A B K C where b: "b = A @ B @ K @ C"
      and l: "length A = w" "length B = r - w" "length K = k"
      using split_at4 [of w "r - w" k b] assms False by auto
    have "n - r - k \<le> length C" using assms False b l by simp
    then obtain E F where c: "C = E @ F" "length E = n - r - k"
      using split_at by blast
    show ?thesis
      using ring_list_differ [of A w r B n "K @ E" F]
        ring_list_differ [of A w "r + k" "B @ K" n E F] b c l assms False by simp
  qed
  then show "take k (drop r b) = take k (ring_list same r w n b)"
    and "ring_list same (r + k) w n b = drop k (ring_list same r w n b)" by blast+
qed

lemma ring_list_read_wrap:
  assumes "r < n" "w \<le> r" "n \<le> length b" "k \<le> w"
  shows "take (n - r) (drop r b) @ take k b = take (n - r + k) (ring_list False r w n b)"
    and "ring_list True k w n b = drop (n - r + k) (ring_list False r w n b)"
proof -
  obtain K A B C where b: "b = K @ A @ B @ C"
    and l: "length K = k" "length A = w - k" "length B = r - w"
    using split_at4 [of k "w - k" "r - w" b] assms by auto
  have "n - r \<le> length C" using assms b l by simp
  then obtain E F where c: "C = E @ F" "length E = n - r"
    using split_at by blast
  show "take (n - r) (drop r b) @ take k b = take (n - r + k) (ring_list False r w n b)"
    and "ring_list True k w n b = drop (n - r + k) (ring_list False r w n b)"
    using ring_list_differ [of "K @ A" w r B n E F] ring_list_same [of K k w A n "B @ C"]
      b c l assms by simp_all
qed

subsection \<open>Numbers of a well-formed buffer\<close>

lemma copy_len_of_nat [simp]: "k < 4294967296 \<Longrightarrow> copy_len (int k) = k"
  by (simp add: copy_len_def unat_of_nat)

lemma index_of_int: "k < 32768 \<Longrightarrow> unat (word_of_int (int k) :: 15 word) = k"
  by simp

lemma sint16_bound: "sint (x :: u16) < 32768"
  using sint_lt [of x] by simp

lemma sint16_small: "uint (x :: u16) < 32768 \<Longrightarrow> sint x = uint x"
  using signed_take_bit_int_eq_self [of 15 "uint x"] uint_ge_0 [of x] by (simp add: sint_uint)

lemma rb_wf_numbers:
  assumes "rb_wf rb"
  shows "sint (buffer_size rb) = int (rb_cap rb)" "rb_cap rb < 32768" "0 < rb_cap rb"
    "write_room rb = int (rb_cap rb - unat (write_index rb))"
    "read_room rb = int (rb_cap rb - unat (read_index rb))"
    "rb_cap rb \<le> length (buffer_ptr rb)"
    "unat (read_index rb) < rb_cap rb" "unat (write_index rb) < rb_cap rb"
  using assms sint16_bound [of "buffer_size rb"]
  by (auto simp: rb_wf_def rb_cap_def write_room_def read_room_def of_nat_diff)

lemma rb_wf_order:
  assumes "rb_wf rb"
  shows "if read_mirror rb = write_mirror rb
         then unat (read_index rb) \<le> unat (write_index rb)
         else unat (write_index rb) \<le> unat (read_index rb)"
  using assms by (simp add: rb_wf_def)

lemma rb_list_length:
  assumes "rb_wf rb"
  shows "length (rb_list rb) =
    (if read_mirror rb = write_mirror rb
     then unat (write_index rb) - unat (read_index rb)
     else rb_cap rb - unat (read_index rb) + unat (write_index rb))"
  using rb_wf_numbers [OF assms] rb_wf_order [OF assms]
  by (simp add: rb_list_def length_ring_list)

lemma rb_data_len:
  assumes "rb_wf rb"
  shows "unat (rt_ringbuffer_data_len rb) = length (rb_list rb)"
proof -
  note nums = rb_wf_numbers [OF assms]
  define n r w where "n = rb_cap rb" and "r = unat (read_index rb)" and "w = unat (write_index rb)"
  have rw: "uint (read_index rb) = int r" "uint (write_index rb) = int w" "sint (buffer_size rb) = int n"
    "r < n" "w < n" "n < 32768"
    using nums by (simp_all add: n_def r_def w_def)
  have idx: "read_index rb = write_index rb \<longleftrightarrow> r = w" "read_index rb < write_index rb \<longleftrightarrow> r < w"
    by (simp_all add: r_def w_def word_unat_eq_iff word_less_nat_alt)
  have len: "length (rb_list rb) = (if read_mirror rb = write_mirror rb then w - r else n - r + w)"
    using rb_list_length [OF assms] by (simp add: n_def r_def w_def)
  have ord: "if read_mirror rb = write_mirror rb then r \<le> w else w \<le> r"
    using rb_wf_order [OF assms] by (simp add: r_def w_def)
  have wi: "unat (word_of_int i :: u32) = nat i" if "0 \<le> i" "i < 4294967296" for i
    using that copy_len_of_nat [of "nat i"] by (simp add: copy_len_def)
  show ?thesis
    unfolding len rt_ringbuffer_data_len_def rt_ringbuffer_status_def idx rw
    using ord rw(4-6) wi [of "int n"] wi [of "int w - int r"] wi [of "int n - (int r - int w)"]
    by (cases "r < w"; cases "r = w"; cases "read_mirror rb = write_mirror rb") simp_all
qed

lemma rb_list_le_cap: "rb_wf rb \<Longrightarrow> length (rb_list rb) \<le> rb_cap rb"
  using rb_wf_numbers [of rb] rb_wf_order [of rb] by (auto simp: rb_list_length)

lemma rb_space_len:
  assumes "rb_wf rb"
  shows "unat (rt_ringbuffer_space_len rb) = rb_cap rb - length (rb_list rb)"
proof -
  note nums = rb_wf_numbers [OF assms]
  have c: "unat (word_of_int (sint (buffer_size rb)) :: u32) = rb_cap rb"
    unfolding nums(1) using nums(2) by (simp add: unat_of_nat)
  have le: "rt_ringbuffer_data_len rb \<le> word_of_int (sint (buffer_size rb))"
    using rb_list_le_cap [OF assms] unfolding word_le_nat_alt c by (simp add: rb_data_len [OF assms])
  show ?thesis
    unfolding rt_ringbuffer_space_len_def
    using unat_sub [OF le] c rb_data_len [OF assms] by presburger
qed

lemma rb_space_len16:
  assumes "rb_wf rb"
  shows "unat (ucast (rt_ringbuffer_space_len rb) :: u16) = rb_cap rb - length (rb_list rb)"
proof -
  have "unat (rt_ringbuffer_space_len rb) < 2 ^ 16"
    using rb_wf_numbers [OF assms] by (simp add: rb_space_len [OF assms])
  then have "unat (ucast (rt_ringbuffer_space_len rb) :: u16) = unat (rt_ringbuffer_space_len rb)"
    by (simp add: unsigned_ucast_eq take_bit_nat_eq_self)
  then show ?thesis by (simp add: rb_space_len [OF assms])
qed

subsection \<open>The two ways an index moves\<close>

definition rb_upd :: "rt_ringbuffer \<Rightarrow> rt_ringbuffer \<Rightarrow> bool" where
  "rb_upd rb rb' \<longleftrightarrow> rb_wf rb' \<and> buffer_size rb' = buffer_size rb"

lemma rb_upd_cap: "rb_upd rb rb' \<Longrightarrow> rb_cap rb' = rb_cap rb"
  by (simp add: rb_upd_def rb_cap_def)

lemma rb_cap_update [simp]:
  "rb_cap (rb\<lparr>buffer_ptr := b\<rparr>) = rb_cap rb"
  "rb_cap (rb\<lparr>read_mirror := m\<rparr>) = rb_cap rb" "rb_cap (rb\<lparr>read_index := i\<rparr>) = rb_cap rb"
  "rb_cap (rb\<lparr>write_mirror := m\<rparr>) = rb_cap rb" "rb_cap (rb\<lparr>write_index := i\<rparr>) = rb_cap rb"
  by (simp_all add: rb_cap_def)

lemma rb_write_straight:
  assumes wf: "rb_wf rb" and sp: "length (rb_list rb) + length xs \<le> rb_cap rb"
    and fit: "unat (write_index rb) + length xs < rb_cap rb"
    and i: "unat i = unat (write_index rb) + length xs"
  defines "rb' \<equiv> rb\<lparr>buffer_ptr := take (unat (write_index rb)) (buffer_ptr rb) @ xs @
                       drop (unat (write_index rb) + length xs) (buffer_ptr rb), write_index := i\<rparr>"
  shows "rb_upd rb rb' \<and> rb_list rb' = rb_list rb @ xs"
proof -
  note nums = rb_wf_numbers [OF wf]
  have ord: "if read_mirror rb = write_mirror rb
      then unat (read_index rb) \<le> unat (write_index rb)
      else unat (write_index rb) + length xs \<le> unat (read_index rb)"
    using rb_wf_order [OF wf] sp nums by (auto simp: rb_list_length [OF wf] split: if_splits)
  have "rb_list rb' = rb_list rb @ xs"
    unfolding rb_list_def rb'_def
    using ring_list_write [OF nums(7,6) ord fit] by (simp add: i)
  moreover have "rb_wf rb'"
    using wf nums fit i ord by (auto simp: rb_wf_def rb'_def split: if_splits)
  ultimately show ?thesis by (simp add: rb_upd_def rb'_def)
qed

lemma rb_write_wrap:
  assumes wf: "rb_wf rb" and sp: "length (rb_list rb) + length xs + length ys \<le> rb_cap rb"
    and l: "length xs = rb_cap rb - unat (write_index rb)"
    and i: "unat i = length ys"
  defines "rb' \<equiv> rb\<lparr>buffer_ptr := ys @ drop (length ys) (take (unat (write_index rb)) (buffer_ptr rb) @
                       xs @ drop (rb_cap rb) (buffer_ptr rb)),
                    write_mirror := NOT (write_mirror rb), write_index := i\<rparr>"
  shows "rb_upd rb rb' \<and> rb_list rb' = rb_list rb @ xs @ ys"
proof -
  note nums = rb_wf_numbers [OF wf]
  have m: "read_mirror rb = write_mirror rb"
    and r: "unat (read_index rb) \<le> unat (write_index rb)" "length ys \<le> unat (read_index rb)"
    using rb_wf_order [OF wf] sp nums l by (auto simp: rb_list_length [OF wf] split: if_splits)
  have "rb_list rb' = rb_list rb @ xs @ ys"
    unfolding rb_list_def rb'_def
    using ring_list_write_wrap [OF r(1) nums(8,6) l r(2)] by (simp add: i m)
  moreover have "rb_wf rb'"
    using wf nums i r m l by (auto simp: rb_wf_def rb'_def min_def)
  ultimately show ?thesis by (simp add: rb_upd_def rb'_def)
qed

lemma rb_read_straight:
  assumes wf: "rb_wf rb" and k: "k \<le> length (rb_list rb)"
    and fit: "unat (read_index rb) + k < rb_cap rb"
    and i: "unat i = unat (read_index rb) + k"
  shows "take k (drop (unat (read_index rb)) (buffer_ptr rb)) = take k (rb_list rb)"
    and "rb_upd rb (rb\<lparr>read_index := i\<rparr>)"
    and "rb_list (rb\<lparr>read_index := i\<rparr>) = drop k (rb_list rb)"
proof -
  note nums = rb_wf_numbers [OF wf]
  have ord: "if read_mirror rb = write_mirror rb
      then unat (read_index rb) + k \<le> unat (write_index rb)
      else unat (write_index rb) \<le> unat (read_index rb)"
    using rb_wf_order [OF wf] k nums by (auto simp: rb_list_length [OF wf] split: if_splits)
  show "take k (drop (unat (read_index rb)) (buffer_ptr rb)) = take k (rb_list rb)"
    unfolding rb_list_def by (rule ring_list_read(1) [OF fit nums(8,6) ord])
  show "rb_list (rb\<lparr>read_index := i\<rparr>) = drop k (rb_list rb)"
    unfolding rb_list_def using ring_list_read(2) [OF fit nums(8,6) ord] by (simp add: i)
  show "rb_upd rb (rb\<lparr>read_index := i\<rparr>)"
    using wf nums fit i ord by (auto simp: rb_upd_def rb_wf_def split: if_splits)
qed

lemma rb_read_wrap:
  assumes wf: "rb_wf rb" and k: "rb_cap rb - unat (read_index rb) + k \<le> length (rb_list rb)"
    and i: "unat i = k"
  defines "rb' \<equiv> rb\<lparr>read_mirror := NOT (read_mirror rb), read_index := i\<rparr>"
  shows "take (rb_cap rb - unat (read_index rb)) (drop (unat (read_index rb)) (buffer_ptr rb)) @
           take k (buffer_ptr rb) = take (rb_cap rb - unat (read_index rb) + k) (rb_list rb)"
    and "rb_upd rb rb'"
    and "rb_list rb' = drop (rb_cap rb - unat (read_index rb) + k) (rb_list rb)"
proof -
  note nums = rb_wf_numbers [OF wf]
  have m: "read_mirror rb \<noteq> write_mirror rb" and w: "unat (write_index rb) \<le> unat (read_index rb)"
    and kw: "k \<le> unat (write_index rb)"
    using rb_wf_order [OF wf] k nums by (auto simp: rb_list_length [OF wf] split: if_splits)
  show "take (rb_cap rb - unat (read_index rb)) (drop (unat (read_index rb)) (buffer_ptr rb)) @
          take k (buffer_ptr rb) = take (rb_cap rb - unat (read_index rb) + k) (rb_list rb)"
    unfolding rb_list_def using ring_list_read_wrap(1) [OF nums(7) w nums(6) kw] m by simp
  show "rb_list rb' = drop (rb_cap rb - unat (read_index rb) + k) (rb_list rb)"
    unfolding rb_list_def rb'_def using ring_list_read_wrap(2) [OF nums(7) w nums(6) kw] m
    by (simp add: i one_bit_NOT_eq)
  show "rb_upd rb rb'"
    using wf nums i kw m by (auto simp: rb_upd_def rb'_def rb_wf_def one_bit_NOT_eq)
qed

section \<open>Behaviour of the operations\<close>

lemma rb_put_spec:
  assumes wf: "rb_wf rb" and src: "unat len \<le> length ptr"
  defines "k \<equiv> min (unat len) (rb_cap rb - length (rb_list rb))"
  shows "\<exists>rb'. rt_ringbuffer_put rb ptr len = Some (of_nat k, rb') \<and>
           rb_upd rb rb' \<and> rb_list rb' = rb_list rb @ take k ptr"
proof -
  note nums = rb_wf_numbers [OF wf] and sp = rb_space_len16 [OF wf]
  let ?sz = "ucast (rt_ringbuffer_space_len rb) :: u16"
  let ?len = "if ?sz < len then ?sz else len"
  let ?w = "unat (write_index rb)" and ?n = "rb_cap rb" and ?b = "buffer_ptr rb"
  have ul: "unat ?len = k" by (simp add: word_less_nat_alt sp k_def min_def)
  have ul': "uint ?len = int k" using ul by (metis uint_nat)
  have kl: "k \<le> length ptr" "k \<le> ?n" "length (rb_list rb) + k \<le> ?n"
    using src rb_list_le_cap [OF wf] by (auto simp: k_def)
  have ret: "ucast ?len = (of_nat k :: u32)"
    by (metis ul of_nat_unat)
  show ?thesis
  proof (cases "?sz = 0")
    case True
    then have "k = 0" using sp by (simp add: k_def)
    then show ?thesis using True wf
      by (auto simp: rt_ringbuffer_put_def rb_upd_def)
  next
    case False
    show ?thesis
    proof (cases "write_room rb > uint ?len")
      case True
      then have "int k < int (?n - ?w)" unfolding ul' nums(4) .
      then have fit: "?w + k < ?n" by linarith
      have i: "unat (write_index rb + ucast ?len) = ?w + length (take k ptr)"
      proof -
        have "unat (ucast ?len :: 15 word) = k"
          using ul fit nums(2) by simp
        then show ?thesis using fit nums(2) kl by (simp add: unat_add_fit)
      qed
      have "rt_ringbuffer_put rb ptr len = Some (of_nat k, rb\<lparr>buffer_ptr :=
          take ?w ?b @ take k ptr @ drop (?w + length (take k ptr)) ?b,
          write_index := write_index rb + ucast ?len\<rparr>)"
        using False True fit kl nums(6) unfolding rt_ringbuffer_put_def Let_def ul ret by simp
      then show ?thesis
        using rb_write_straight [OF wf, of "take k ptr", OF _ _ i] fit kl by auto
    next
      case wrap: False
      define a where "a = ?n - ?w"
      have wa: "write_room rb = int a" using nums(4) by (simp only: a_def)
      moreover have "a \<le> k" using wrap unfolding wa ul' by simp
      ultimately have a: "a \<le> k" "write_room rb = int a" "0 < a" "a \<le> ?n" "?n < 32768" "?w + a = ?n"
        using nums(2,8) by (simp_all add: a_def)
      have d: "uint ?len - write_room rb = int (k - a)" using a ul' by simp
      have cl: "copy_len (write_room rb) = a" "copy_len (uint ?len - write_room rb) = k - a"
        unfolding d unfolding a(2) by (subst copy_len_of_nat; use a kl in simp)+
      let ?xs = "take a ptr" and ?ys = "take (k - a) (drop a ptr)"
      have i: "unat (word_of_int (uint ?len - write_room rb) :: 15 word) = length ?ys"
        unfolding d by (subst index_of_int) (use a kl in simp_all)
      have "rt_ringbuffer_put rb ptr len = Some (of_nat k, rb\<lparr>buffer_ptr :=
          ?ys @ drop (length ?ys) (take ?w ?b @ ?xs @ drop ?n ?b),
          write_mirror := NOT (write_mirror rb),
          write_index := word_of_int (uint ?len - write_room rb)\<rparr>)"
      proof -
        have l: "length ?xs = a" "length ?ys = k - a" "k - a \<le> length ?b" using a kl nums(6) by simp_all
        show ?thesis
          using False wrap a kl nums(6) l unfolding rt_ringbuffer_put_def Let_def cl ret by simp
      qed
      moreover have "?xs @ ?ys = take k ptr"
        using a(1) by (simp add: take_add [symmetric])
      ultimately show ?thesis
        using rb_write_wrap [OF wf, of ?xs ?ys, OF _ _ i] a kl by (auto simp: a_def)
    qed
  qed
qed

lemma rb_get_spec:
  fixes len :: u16
  assumes wf: "rb_wf rb"
  defines "k \<equiv> min (unat len) (length (rb_list rb))"
  shows "\<exists>rb'. rt_ringbuffer_get rb len = Some (of_nat k, take k (rb_list rb), rb') \<and>
           rb_upd rb rb' \<and> rb_list rb' = drop k (rb_list rb)"
proof -
  note nums = rb_wf_numbers [OF wf] and dl = rb_data_len [OF wf] and le = rb_list_le_cap [OF wf]
  let ?sz = "rt_ringbuffer_data_len rb"
  let ?len = "if ?sz < ucast len then ucast ?sz else len"
  let ?r = "unat (read_index rb)" and ?n = "rb_cap rb" and ?b = "buffer_ptr rb"
  have ul: "unat ?len = k" using le nums(2) by (simp add: word_less_nat_alt dl k_def)
  have ul': "uint ?len = int k" using ul by (metis uint_nat)
  have kl: "k \<le> length (rb_list rb)" "k \<le> ?n" using le by (auto simp: k_def)
  have ret: "ucast ?len = (of_nat k :: u32)" by (metis ul of_nat_unat)
  show ?thesis
  proof (cases "?sz = 0")
    case True
    then have "k = 0" using dl by (simp add: k_def)
    then show ?thesis using True wf by (auto simp: rt_ringbuffer_get_def rb_upd_def)
  next
    case False
    show ?thesis
    proof (cases "read_room rb > uint ?len")
      case True
      then have "int k < int (?n - ?r)" unfolding ul' nums(5) .
      then have fit: "?r + k < ?n" by linarith
      have "unat (ucast ?len :: 15 word) = k" using ul fit nums(2) by simp
      then have i: "unat (read_index rb + ucast ?len) = ?r + k"
        using fit nums(2) by (simp add: unat_add_fit)
      have "rt_ringbuffer_get rb len = Some (of_nat k, take k (drop ?r ?b),
          rb\<lparr>read_index := read_index rb + ucast ?len\<rparr>)"
        using False True fit nums(6) unfolding rt_ringbuffer_get_def Let_def ul ret by simp
      then show ?thesis using rb_read_straight [OF wf kl(1) fit i] by simp
    next
      case wrap: False
      define a where "a = ?n - ?r"
      have ra: "read_room rb = int a" using nums(5) by (simp only: a_def)
      moreover have "a \<le> k" using wrap unfolding ra ul' by simp
      ultimately have a: "a \<le> k" "read_room rb = int a" "a \<le> ?n" "?n < 32768" "?r + a = ?n"
        using nums(2,7) by (simp_all add: a_def)
      have d: "uint ?len - read_room rb = int (k - a)" using a ul' by simp
      have i: "unat (word_of_int (uint ?len - read_room rb) :: 15 word) = k - a"
        unfolding d by (subst index_of_int) (use a kl in simp_all)
      have cl: "copy_len (read_room rb) = a" "copy_len (uint ?len - read_room rb) = k - a"
        unfolding d unfolding a(2) by (subst copy_len_of_nat; use a kl in simp)+
      have "rt_ringbuffer_get rb len = Some (of_nat k, take a (drop ?r ?b) @ take (k - a) ?b,
          rb\<lparr>read_mirror := NOT (read_mirror rb),
             read_index := word_of_int (uint ?len - read_room rb)\<rparr>)"
        using False wrap a kl nums(6) unfolding rt_ringbuffer_get_def Let_def cl ret by simp
      then show ?thesis using rb_read_wrap [OF wf _ i] a(1) kl(1) by (simp add: a_def)
    qed
  qed
qed

subsection \<open>Single bytes\<close>

lemma rb_write_one:
  assumes wf: "rb_wf rb" and sp: "length (rb_list rb) < rb_cap rb"
    and b: "b = take (unat (write_index rb)) (buffer_ptr rb) @ [ch] @
                drop (Suc (unat (write_index rb))) (buffer_ptr rb)"
  defines "rb' \<equiv> (if uint (write_index rb) = sint (buffer_size rb) - 1
                 then rb\<lparr>buffer_ptr := b, write_mirror := NOT (write_mirror rb), write_index := 0\<rparr>
                 else rb\<lparr>buffer_ptr := b, write_index := write_index rb + 1\<rparr>)"
  shows "rb_upd rb rb' \<and> rb_list rb' = rb_list rb @ [ch]"
proof -
  note nums = rb_wf_numbers [OF wf]
  have last: "uint (write_index rb) = sint (buffer_size rb) - 1 \<longleftrightarrow>
      Suc (unat (write_index rb)) = rb_cap rb"
    unfolding nums(1) uint_nat by linarith
  show ?thesis
  proof (cases "Suc (unat (write_index rb)) = rb_cap rb")
    case True
    then show ?thesis
      using rb_write_wrap [OF wf, of "[ch]" "[]" 0] sp by (simp add: rb'_def last b)
  next
    case False
    then have "unat (write_index rb + 1) = Suc (unat (write_index rb))"
      using nums(2,8) by (simp add: unat_word_ariths)
    then show ?thesis
      using rb_write_straight [OF wf, of "[ch]" "write_index rb + 1"] sp False nums(8)
      by (simp add: rb'_def last b)
  qed
qed

lemma rb_drop_one:
  assumes wf: "rb_wf rb" and ne: "rb_list rb \<noteq> []"
  defines "rb' \<equiv> (if uint (read_index rb) = sint (buffer_size rb) - 1
                 then rb\<lparr>read_mirror := NOT (read_mirror rb), read_index := 0\<rparr>
                 else rb\<lparr>read_index := read_index rb + 1\<rparr>)"
  shows "rb_upd rb rb' \<and> rb_list rb' = tl (rb_list rb) \<and>
         buffer_ptr rb ! unat (read_index rb) = hd (rb_list rb)"
proof -
  note nums = rb_wf_numbers [OF wf]
  have last: "uint (read_index rb) = sint (buffer_size rb) - 1 \<longleftrightarrow>
      Suc (unat (read_index rb)) = rb_cap rb"
    unfolding nums(1) uint_nat by linarith
  have l: "1 \<le> length (rb_list rb)" using ne by (cases "rb_list rb") auto
  have one: "take 1 (drop (unat (read_index rb)) (buffer_ptr rb)) =
      [buffer_ptr rb ! unat (read_index rb)]"
    using nums(6,7) by (simp add: take_Suc_conv_app_nth hd_drop_conv_nth take_Suc)
  have hd1: "take 1 (rb_list rb) = [hd (rb_list rb)]" using ne by (cases "rb_list rb") auto
  show ?thesis
  proof (cases "Suc (unat (read_index rb)) = rb_cap rb")
    case True
    then have "rb_cap rb - unat (read_index rb) = 1" by simp
    then show ?thesis
      using rb_read_wrap [OF wf, of 0 0] l True one hd1 by (simp add: rb'_def last drop_Suc)
  next
    case False
    then have "unat (read_index rb + 1) = unat (read_index rb) + 1"
      using nums(2,7) by (simp add: unat_word_ariths)
    then show ?thesis
      using rb_read_straight [OF wf l, of "read_index rb + 1"] False nums(7) one hd1
      by (simp add: rb'_def last drop_Suc)
  qed
qed

lemma rb_full_iff:
  assumes "rb_wf rb"
  shows "rt_ringbuffer_status rb = RT_RINGBUFFER_FULL \<longleftrightarrow> length (rb_list rb) = rb_cap rb"
    and "rt_ringbuffer_status rb = RT_RINGBUFFER_EMPTY \<longleftrightarrow> rb_list rb = []"
  using rb_wf_numbers [OF assms] rb_wf_order [OF assms] rb_list_length [OF assms]
  by (auto simp: rt_ringbuffer_status_def word_unat_eq_iff
      simp flip: length_0_conv split: if_splits)

lemma rb_putchar_spec:
  assumes wf: "rb_wf rb"
  shows "if length (rb_list rb) < rb_cap rb
    then \<exists>rb'. rt_ringbuffer_putchar rb ch = Some (1, rb') \<and> rb_upd rb rb' \<and>
           rb_list rb' = rb_list rb @ [ch]
    else rt_ringbuffer_putchar rb ch = Some (0, rb)"
proof -
  have "rt_ringbuffer_space_len rb = 0 \<longleftrightarrow> \<not> length (rb_list rb) < rb_cap rb"
    using rb_space_len [OF wf] by (simp add: word_unat_eq_iff not_less)
  then show ?thesis
    using rb_write_one [OF wf _ refl, of ch] rb_wf_numbers(6,8) [OF wf]
    by (cases "length (rb_list rb) < rb_cap rb")
      (simp_all add: rt_ringbuffer_putchar_def Let_def split: if_splits)
qed

lemma rb_getchar_spec:
  assumes wf: "rb_wf rb"
  shows "case rb_list rb of
      [] \<Rightarrow> rt_ringbuffer_getchar rb = Some (0, None, rb)
    | x # xs \<Rightarrow> \<exists>rb'. rt_ringbuffer_getchar rb = Some (1, Some x, rb') \<and> rb_upd rb rb' \<and> rb_list rb' = xs"
proof -
  have z: "rt_ringbuffer_data_len rb = 0 \<longleftrightarrow> rb_list rb = []"
    using rb_data_len [OF wf] by (simp add: word_unat_eq_iff)
  show ?thesis
  proof (cases "rb_list rb")
    case Nil
    then show ?thesis using z by (simp add: rt_ringbuffer_getchar_def)
  next
    case (Cons x xs)
    then show ?thesis
      using z rb_drop_one [OF wf] rb_wf_numbers(6,7) [OF wf]
      by (simp add: rt_ringbuffer_getchar_def Let_def hd_drop_conv_nth take_Suc)
  qed
qed

lemma rb_upd_trans: "rb_upd a b \<Longrightarrow> rb_upd b c \<Longrightarrow> rb_upd a c"
  by (simp add: rb_upd_def)

lemma rb_putchar_force_spec:
  assumes wf: "rb_wf rb"
  shows "\<exists>rb'. rt_ringbuffer_putchar_force rb ch = Some (1, rb') \<and> rb_upd rb rb' \<and>
    rb_list rb' = (if length (rb_list rb) < rb_cap rb then rb_list rb else tl (rb_list rb)) @ [ch]"
proof -
  note nums = rb_wf_numbers [OF wf] and full = rb_full_iff(1) [OF wf]
  let ?w = "unat (write_index rb)"
  define b where "b = take ?w (buffer_ptr rb) @ [ch] @ drop (Suc ?w) (buffer_ptr rb)"
  have wr: "buf_write (buffer_ptr rb) ?w [ch] = Some b"
    using nums(6,8) by (simp add: b_def)
  show ?thesis
  proof (cases "length (rb_list rb) < rb_cap rb")
    case True
    then show ?thesis
      using rb_write_one [OF wf True b_def] full wr
      by (simp add: rt_ringbuffer_putchar_force_def Let_def split: if_splits)
  next
    case False
    then have f: "length (rb_list rb) = rb_cap rb" using rb_list_le_cap [OF wf] by simp
    then have st: "rt_ringbuffer_status rb = RT_RINGBUFFER_FULL" using full by simp
    then have eq: "read_index rb = write_index rb"
      by (simp add: rt_ringbuffer_status_def split: if_splits)
    define rb1 where "rb1 = (if uint (read_index rb) = sint (buffer_size rb) - 1
                 then rb\<lparr>read_mirror := NOT (read_mirror rb), read_index := 0\<rparr>
                 else rb\<lparr>read_index := read_index rb + 1\<rparr>)"
    have "rb_list rb \<noteq> []" using f nums(3) by auto
    then have 1: "rb_upd rb rb1" "rb_list rb1 = tl (rb_list rb)"
      using rb_drop_one [OF wf] by (simp_all add: rb1_def)
    have wf1: "rb_wf rb1" and sp1: "length (rb_list rb1) < rb_cap rb1"
      using 1 f nums(3) rb_upd_cap [OF 1(1)] by (simp_all add: rb_upd_def)
    have b1: "b = take (unat (write_index rb1)) (buffer_ptr rb1) @ [ch] @
                  drop (Suc (unat (write_index rb1))) (buffer_ptr rb1)"
      by (simp add: b_def rb1_def)
    let ?rb2 = "if uint (write_index rb1) = sint (buffer_size rb1) - 1
                 then rb1\<lparr>buffer_ptr := b, write_mirror := NOT (write_mirror rb1), write_index := 0\<rparr>
                 else rb1\<lparr>buffer_ptr := b, write_index := write_index rb1 + 1\<rparr>"
    have "rt_ringbuffer_putchar_force rb ch = Some (1, ?rb2)"
      using st wr by (simp add: rt_ringbuffer_putchar_force_def Let_def rb1_def eq)
    then show ?thesis
      using rb_write_one [OF wf1 sp1 b1] 1 False rb_upd_trans by auto
  qed
qed

subsection \<open>Forced writes of a block\<close>

lemma rb_put_force_room:
  assumes wf: "rb_wf rb" and len: "unat len \<le> rb_cap rb - length (rb_list rb)" "0 < len"
  shows "rt_ringbuffer_put_force rb ptr len = rt_ringbuffer_put rb ptr len"
proof -
  note nums = rb_wf_numbers [OF wf] and sp = rb_space_len16 [OF wf]
  let ?sz = "ucast (rt_ringbuffer_space_len rb) :: u16"
  have "\<not> ?sz < len" using len by (simp add: word_less_nat_alt sp)
  moreover have "?sz \<noteq> 0" using len sp by (auto simp: word_less_nat_alt)
  moreover have "\<not> uint len > sint (buffer_size rb)"
    unfolding nums(1) uint_nat using len by linarith
  ultimately show ?thesis
    by (simp add: rt_ringbuffer_put_force_def rt_ringbuffer_put_def Let_def)
qed

lemma rb_put_force_clip:
  assumes wf: "rb_wf rb" and len: "rb_cap rb < unat len" "unat len \<le> length ptr"
  shows "rt_ringbuffer_put_force rb ptr len =
    rt_ringbuffer_put_force rb (drop (unat len - rb_cap rb) ptr) (buffer_size rb)"
proof -
  note nums = rb_wf_numbers [OF wf]
  have "uint len > sint (buffer_size rb)"
    unfolding nums(1) uint_nat using len by linarith
  moreover have "copy_len (uint len - sint (buffer_size rb)) = unat len - rb_cap rb"
  proof -
    have "uint len - sint (buffer_size rb) = int (unat len - rb_cap rb)"
      unfolding nums(1) uint_nat using len by linarith
    moreover have "unat len - rb_cap rb < 4294967296"
      using unsigned_less [of len, where 'a = nat] by simp
    ultimately show ?thesis by (metis copy_len_of_nat)
  qed
  moreover have "\<not> uint (buffer_size rb) > sint (buffer_size rb)"
    using wf by (simp add: rb_wf_def sint_pos_uint)
  ultimately show ?thesis
    by (simp add: rt_ringbuffer_put_force_def Let_def)
qed

text \<open>What \<open>rt_ringbuffer_put_force\<close> computes once the block fits the buffer.\<close>

lemma rb_put_force_head:
  assumes wf: "rb_wf rb" and len: "unat len \<le> rb_cap rb"
  shows "len > (ucast (rt_ringbuffer_space_len rb) :: u16) \<longleftrightarrow>
           rb_cap rb - length (rb_list rb) < unat len"
    and "\<not> uint len > sint (buffer_size rb)"
    and "write_room rb > uint len \<longleftrightarrow> unat (write_index rb) + unat len < rb_cap rb"
    and "rb_cap rb \<le> unat (write_index rb) + unat len \<Longrightarrow>
           uint len - write_room rb = int (unat (write_index rb) + unat len - rb_cap rb)"
proof -
  note nums = rb_wf_numbers [OF wf]
  show "len > (ucast (rt_ringbuffer_space_len rb) :: u16) \<longleftrightarrow>
      rb_cap rb - length (rb_list rb) < unat len"
    by (simp add: word_less_nat_alt rb_space_len16 [OF wf])
  show "\<not> uint len > sint (buffer_size rb)"
    unfolding nums(1) uint_nat using len by linarith
  show "write_room rb > uint len \<longleftrightarrow> unat (write_index rb) + unat len < rb_cap rb"
    unfolding nums(4) uint_nat using nums(8) by linarith
  show "uint len - write_room rb = int (unat (write_index rb) + unat len - rb_cap rb)"
    if "rb_cap rb \<le> unat (write_index rb) + unat len"
    unfolding nums(4) uint_nat using that nums(8) by linarith
qed

lemma rb_put_force_straight:
  assumes wf: "rb_wf rb" and len: "unat len \<le> length ptr"
    and fit: "unat (write_index rb) + unat len < rb_cap rb"
  defines "w \<equiv> unat (write_index rb)" and "l \<equiv> unat len" and "b \<equiv> buffer_ptr rb"
  shows "\<exists>i. unat i = w + l \<and> rt_ringbuffer_put_force rb ptr len = Some (ucast len,
           let rb1 = rb\<lparr>buffer_ptr := take w b @ take l ptr @ drop (w + l) b, write_index := i\<rparr> in
           if rb_cap rb - length (rb_list rb) < l then rb1\<lparr>read_index := i\<rparr> else rb1)"
proof -
  note nums = rb_wf_numbers [OF wf]
  have le: "unat len \<le> rb_cap rb" using fit by simp
  note h = rb_put_force_head [OF wf le]
  have "unat (ucast len :: 15 word) = l" using fit nums(2) by (simp add: l_def)
  then have i: "unat (write_index rb + ucast len) = w + l"
    using fit nums(2) by (simp add: unat_add_fit w_def l_def)
  then show ?thesis
    using fit h(2,3) len nums(6)
    by (intro exI [of _ "write_index rb + ucast len"])
      (simp add: rt_ringbuffer_put_force_def Let_def h(1) l_def w_def b_def)
qed

lemma rb_put_force_wrap:
  assumes wf: "rb_wf rb" and len: "unat len \<le> length ptr" "unat len \<le> rb_cap rb"
    and wrap: "rb_cap rb \<le> unat (write_index rb) + unat len"
  defines "w \<equiv> unat (write_index rb)" and "l \<equiv> unat len" and "n \<equiv> rb_cap rb" and "b \<equiv> buffer_ptr rb"
  defines "xs \<equiv> take (n - w) ptr" and "ys \<equiv> take (w + l - n) (drop (n - w) ptr)"
  shows "\<exists>i. unat i = length ys \<and> rt_ringbuffer_put_force rb ptr len = Some (ucast len,
           let rb1 = rb\<lparr>buffer_ptr := ys @ drop (length ys) (take w b @ xs @ drop n b),
                        write_mirror := NOT (write_mirror rb), write_index := i\<rparr> in
           if n - length (rb_list rb) < l
           then rb1\<lparr>read_mirror := NOT (read_mirror rb), read_index := i\<rparr> else rb1)"
proof -
  note nums = rb_wf_numbers [OF wf, folded w_def n_def b_def]
  note h = rb_put_force_head [OF wf len(2), folded w_def n_def l_def]
  have wr: "n \<le> w + l" using wrap by (simp add: n_def w_def l_def)
  have ll: "length xs = n - w" "length ys = w + l - n" "w + l - n \<le> length b" "l \<le> n"
    "w + (n - w) = n" "n \<le> length b" "n - w + (w + l - n) = l" "l \<le> length ptr"
    using wr nums(6,8) len by (simp_all add: l_def n_def xs_def ys_def)
  have cl: "copy_len (write_room rb) = n - w" "copy_len (uint len - write_room rb) = w + l - n"
    unfolding h(4) [OF wr] unfolding nums(4) using nums(2,8) ll(4)
    by (subst copy_len_of_nat; simp)+
  have i: "unat (word_of_int (uint len - write_room rb) :: 15 word) = length ys"
    unfolding h(4) [OF wr] ll(2) using nums(2,8) ll(4) by (subst index_of_int) simp_all
  have s: "buf_read ptr 0 (n - w) = Some xs" "buf_read ptr (n - w) (w + l - n) = Some ys"
      "buf_write b w xs = Some (take w b @ xs @ drop n b)"
      "buf_write (take w b @ xs @ drop n b) 0 ys =
         Some (ys @ drop (length ys) (take w b @ xs @ drop n b))"
    using ll by (simp_all add: xs_def ys_def del: drop_append)
  have "rt_ringbuffer_put_force rb ptr len = Some (ucast len,
         let i = word_of_int (uint len - write_room rb);
             rb1 = rb\<lparr>buffer_ptr := ys @ drop (length ys) (take w b @ xs @ drop n b),
                      write_mirror := NOT (write_mirror rb), write_index := i\<rparr> in
         if n - length (rb_list rb) < l
         then rb1\<lparr>read_mirror := NOT (read_mirror rb), read_index := i\<rparr> else rb1)"
    unfolding rt_ringbuffer_put_force_def Let_def b_def [symmetric] w_def [symmetric]
    using h(2,3) wr s by (simp add: h(1) cl del: drop_append)
  then show ?thesis using i by (auto simp: Let_def)
qed


lemma rb_put_force_differ:
  assumes wf: "rb_wf rb" and m: "read_mirror rb \<noteq> write_mirror rb"
    and len: "unat len \<le> length ptr" "unat len \<le> rb_cap rb"
    and over: "rb_cap rb - length (rb_list rb) < unat len"
  shows "\<exists>rb'. rt_ringbuffer_put_force rb ptr len = Some (ucast len, rb') \<and> rb_upd rb rb' \<and>
    rb_list rb' = drop (length (rb_list rb) + unat len - rb_cap rb) (rb_list rb @ take (unat len) ptr)"
proof -
  note nums = rb_wf_numbers [OF wf]
  define w r l n d where "w = unat (write_index rb)" and "r = unat (read_index rb)"
    and "l = unat len" and "n = rb_cap rb" and "d = length (rb_list rb) + l - n"
  have wr: "w \<le> r" "length (rb_list rb) = n - r + w" "r < n"
    using m rb_wf_order [OF wf] rb_list_length [OF wf] nums(7) by (simp_all add: w_def r_def n_def)
  have d: "d \<le> length (rb_list rb)" "r + d = w + l" "length (rb_list rb) - d + l = n"
    using over len wr by (simp_all add: d_def l_def n_def)
  have split: "drop d (rb_list rb @ take l ptr) = drop d (rb_list rb) @ take l ptr"
    using d(1) by simp
  show ?thesis
  proof (cases "w + l < n")
    case True
    obtain i where i: "unat i = w + l" and ev: "rt_ringbuffer_put_force rb ptr len = Some (ucast len,
        (rb\<lparr>read_index := i\<rparr>)\<lparr>buffer_ptr := take w (buffer_ptr rb) @ take l ptr @
            drop (w + l) (buffer_ptr rb), write_index := i\<rparr>)"
      using rb_put_force_straight [OF wf len(1) True [unfolded w_def l_def n_def]] over
      unfolding Let_def w_def l_def by auto
    let ?rb1 = "rb\<lparr>read_index := i\<rparr>"
    let ?rb2 = "?rb1\<lparr>buffer_ptr := take w (buffer_ptr rb) @ take l ptr @
            drop (w + l) (buffer_ptr rb), write_index := i\<rparr>"
    have 1: "rb_upd rb ?rb1" "rb_list ?rb1 = drop d (rb_list rb)"
    proof -
      have "unat (read_index rb) + d < rb_cap rb" "unat i = unat (read_index rb) + d"
        using True i d(2) by (simp_all only: r_def n_def)
      from rb_read_straight(2,3) [OF wf d(1) this]
      show "rb_upd rb ?rb1" "rb_list ?rb1 = drop d (rb_list rb)" .
    qed
    have "rb_wf ?rb1" using 1 by (simp add: rb_upd_def)
    moreover have lt: "length (take l ptr) = l" using len by (simp add: l_def)
    moreover have "length (rb_list ?rb1) + l \<le> rb_cap ?rb1"
      unfolding 1(2) rb_cap_update n_def [symmetric] using d(1,3) by simp
    moreover have "unat (write_index ?rb1) + l < rb_cap ?rb1" "unat i = unat (write_index ?rb1) + l"
      using True i by (simp_all add: w_def n_def)
    ultimately have "rb_upd ?rb1 ?rb2 \<and> rb_list ?rb2 = rb_list ?rb1 @ take l ptr"
      using rb_write_straight [of ?rb1 "take l ptr" i] unfolding lt by (simp add: w_def)
    then have "rb_upd rb ?rb2" "rb_list ?rb2 = drop d (rb_list rb @ take l ptr)"
      using rb_upd_trans [OF 1(1)] unfolding 1(2) split by blast+
    with ev show ?thesis unfolding d_def l_def n_def by blast
  next
    case False
    define xs ys where "xs = take (n - w) ptr" and "ys = take (w + l - n) (drop (n - w) ptr)"
    obtain i where i: "unat i = length ys" and ev: "rt_ringbuffer_put_force rb ptr len = Some (ucast len,
        (rb\<lparr>read_mirror := NOT (read_mirror rb), read_index := i\<rparr>)\<lparr>buffer_ptr := ys @
            drop (length ys) (take w (buffer_ptr rb) @ xs @ drop n (buffer_ptr rb)),
            write_mirror := NOT (write_mirror rb), write_index := i\<rparr>)"
      using rb_put_force_wrap [OF wf len False [unfolded w_def l_def n_def not_less]] over
      unfolding Let_def w_def l_def n_def xs_def ys_def by (auto simp del: drop_append take_drop)
    have ly: "length ys = w + l - n" "length xs = n - w" "xs @ ys = take l ptr"
      using False len nums(8) by (simp_all add: xs_def ys_def l_def n_def w_def take_add [symmetric])
    let ?rb1 = "rb\<lparr>read_mirror := NOT (read_mirror rb), read_index := i\<rparr>"
    let ?rb2 = "?rb1\<lparr>buffer_ptr := ys @ drop (length ys) (take w (buffer_ptr rb) @ xs @
            drop n (buffer_ptr rb)), write_mirror := NOT (write_mirror rb), write_index := i\<rparr>"
    have dd: "n - r + (w + l - n) = d" using d(2) wr False by simp
    have 1: "rb_upd rb ?rb1" "rb_list ?rb1 = drop d (rb_list rb)"
      using rb_read_wrap(2,3) [OF wf, of "w + l - n" i] i ly(1) dd d(1)
      unfolding r_def n_def by simp_all
    have "rb_wf ?rb1" using 1 by (simp add: rb_upd_def)
    moreover have "length (rb_list ?rb1) + length xs + length ys \<le> n"
      using 1(2) ly(1,2) d(1,3) wr False by simp
    ultimately have "rb_upd ?rb1 ?rb2 \<and> rb_list ?rb2 = rb_list ?rb1 @ xs @ ys"
      using rb_write_wrap [of ?rb1 xs ys i] ly(2) i by (simp add: w_def n_def del: drop_append)
    then have "rb_upd rb ?rb2" "rb_list ?rb2 = drop d (rb_list rb @ take l ptr)"
      using rb_upd_trans [OF 1(1)] unfolding 1(2) split ly(3) by blast+
    with ev show ?thesis unfolding d_def l_def n_def by blast
  qed
qed

lemma rb_put_force_same:
  assumes wf: "rb_wf rb" and m: "read_mirror rb = write_mirror rb"
    and len: "unat len \<le> length ptr" "unat len \<le> rb_cap rb"
    and over: "rb_cap rb - length (rb_list rb) < unat len"
  shows "\<exists>rb'. rt_ringbuffer_put_force rb ptr len = Some (ucast len, rb') \<and>
    rt_ringbuffer_status rb' = RT_RINGBUFFER_EMPTY \<and> rb_list rb' = []"
proof -
  have wrap: "rb_cap rb \<le> unat (write_index rb) + unat len"
    using over rb_list_length [OF wf] m rb_wf_numbers(8) [OF wf] by simp
  obtain i b where ev: "rt_ringbuffer_put_force rb ptr len = Some (ucast len,
      rb\<lparr>buffer_ptr := b, write_mirror := NOT (write_mirror rb), write_index := i,
         read_mirror := NOT (read_mirror rb), read_index := i\<rparr>)"
    using rb_put_force_wrap [OF wf len wrap] over unfolding Let_def by (auto simp del: drop_append)
  show ?thesis
    unfolding ev using m by (simp add: rt_ringbuffer_status_def rb_list_def ring_list_def)
qed

subsection \<open>Initial states\<close>

lemma rb_init_spec:
  assumes "0 < sint sz" "unat sz \<le> length pool" "4 \<le> unat sz"
  shows "\<exists>rb. rt_ringbuffer_init pool sz = Some rb \<and> rb_wf rb \<and> rb_list rb = [] \<and>
    rb_cap rb = unat sz - unat sz mod 4"
proof -
  let ?a = "rt_align_down sz (of_nat RT_ALIGN_SIZE)"
  have a: "unat ?a = unat sz - unat sz mod 4" by simp
  have "uint sz = sint sz" using assms(1) by (rule sint_pos_uint)
  then have "unat sz < 32768" using sint16_bound [of sz] by (simp add: unat_eq_nat_uint)
  then have "unat ?a < 32768" using a by simp
  then have "uint ?a < 32768" unfolding uint_nat by linarith
  then have "sint ?a = uint ?a" by (rule sint16_small)
  then have s: "sint ?a = int (unat sz - unat sz mod 4)" using a by (metis uint_nat)
  have m: "0 < unat sz - unat sz mod 4" "unat sz - unat sz mod 4 \<le> length pool"
    using assms(2,3) mod_less_divisor [of 4 "unat sz"] by linarith+
  have pos: "0 < sint ?a" unfolding s using m(1) by linarith
  define rb where "rb = \<lparr>buffer_ptr = pool, read_mirror = 0, read_index = 0, write_mirror = 0,
      write_index = 0, buffer_size = ?a\<rparr>"
  have "rb_cap rb = unat sz - unat sz mod 4"
    unfolding rb_cap_def rb_def rt_ringbuffer.select_convs s by (rule nat_int)
  moreover from this have "rb_wf rb"
    using m pos unfolding rb_wf_def by (simp add: rb_def)
  moreover have "rb_list rb = []" by (simp add: rb_list_def ring_list_def rb_def)
  ultimately show ?thesis using assms(1) by (simp add: rt_ringbuffer_init_def rb_def)
qed

lemma rb_reset_spec:
  "rb_wf rb \<Longrightarrow> rb_upd rb (rt_ringbuffer_reset rb) \<and> rb_list (rt_ringbuffer_reset rb) = []"
  by (auto simp: rt_ringbuffer_reset_def rb_upd_def rb_wf_def rb_list_def ring_list_def)

section \<open>The queue interface\<close>

text \<open>
  What a client of a byte queue relies on: a write appends what fits, a read removes
  from the front. A run of writes and reads is recorded as the bytes accepted and the
  bytes delivered.
\<close>

datatype queue_op = QPut "u8 list" u16 | QGet u16

fun queue_run :: "('q \<Rightarrow> u8 list \<Rightarrow> u16 \<Rightarrow> (u32 \<times> 'q) option) \<Rightarrow>
    ('q \<Rightarrow> u16 \<Rightarrow> (u32 \<times> u8 list \<times> 'q) option) \<Rightarrow>
    'q \<Rightarrow> queue_op list \<Rightarrow> (u8 list \<times> u8 list \<times> 'q) option" where
  "queue_run put get q [] = Some ([], [], q)"
| "queue_run put get q (QPut xs n # ops) = do {
     (k, q1) \<leftarrow> put q xs n;
     (acc, del, q2) \<leftarrow> queue_run put get q1 ops;
     Some (take (unat k) xs @ acc, del, q2) }"
| "queue_run put get q (QGet n # ops) = do {
     (k, ys, q1) \<leftarrow> get q n;
     (acc, del, q2) \<leftarrow> queue_run put get q1 ops;
     Some (acc, ys @ del, q2) }"

fun op_ok :: "queue_op \<Rightarrow> bool" where
  "op_ok (QPut xs n) \<longleftrightarrow> unat n \<le> length xs"
| "op_ok (QGet n) \<longleftrightarrow> True"

locale byte_queue =
  fixes put :: "'q \<Rightarrow> u8 list \<Rightarrow> u16 \<Rightarrow> (u32 \<times> 'q) option"
    and get :: "'q \<Rightarrow> u16 \<Rightarrow> (u32 \<times> u8 list \<times> 'q) option"
    and invar :: "'q \<Rightarrow> bool"
    and cap :: "'q \<Rightarrow> nat"
    and contents :: "'q \<Rightarrow> u8 list"
  assumes put_law: "invar q \<Longrightarrow> unat n \<le> length xs \<Longrightarrow>
      \<exists>q'. put q xs n = Some (of_nat (min (unat n) (cap q - length (contents q))), q') \<and>
        invar q' \<and> cap q' = cap q \<and>
        contents q' = contents q @ take (min (unat n) (cap q - length (contents q))) xs"
    and get_law: "invar q \<Longrightarrow>
      \<exists>q'. get q n = Some (of_nat (min (unat n) (length (contents q))),
               take (min (unat n) (length (contents q))) (contents q), q') \<and>
        invar q' \<and> cap q' = cap q \<and> contents q' = drop (min (unat n) (length (contents q))) (contents q)"
begin

lemma min_fits: "unat (of_nat (min (unat (n :: u16)) m) :: u32) = min (unat n) m"
proof -
  have "unat n < 65536" using unsigned_less [of n, where 'a = nat] by simp
  then show ?thesis by simp
qed

lemma run_stream:
  "invar q \<Longrightarrow> list_all op_ok ops \<Longrightarrow>
   \<exists>acc del q'. queue_run put get q ops = Some (acc, del, q') \<and> invar q' \<and> cap q' = cap q \<and>
     contents q @ acc = del @ contents q'"
proof (induction ops arbitrary: q)
  case Nil
  then show ?case by simp
next
  case (Cons x ops)
  show ?case
  proof (cases x)
    case (QPut xs n)
    let ?k = "min (unat n) (cap q - length (contents q))"
    from put_law [OF Cons.prems(1), of n xs] Cons.prems(2) QPut
    obtain q1 where q1: "put q xs n = Some (of_nat ?k, q1)" "invar q1" "cap q1 = cap q"
      "contents q1 = contents q @ take ?k xs" by auto
    from Cons.IH [OF q1(2)] Cons.prems(2) obtain acc del q' where
      "queue_run put get q1 ops = Some (acc, del, q')" "invar q'" "cap q' = cap q1"
      "contents q1 @ acc = del @ contents q'" by auto
    then show ?thesis using q1 QPut by (simp add: min_fits)
  next
    case (QGet n)
    let ?k = "min (unat n) (length (contents q))"
    from get_law [OF Cons.prems(1), of n] obtain q1 where q1: "get q n = Some (of_nat ?k, take ?k (contents q), q1)"
      "invar q1" "cap q1 = cap q" "contents q1 = drop ?k (contents q)" by auto
    from Cons.IH [OF q1(2)] Cons.prems(2) obtain acc del q' where r:
      "queue_run put get q1 ops = Some (acc, del, q')" "invar q'" "cap q' = cap q1"
      "contents q1 @ acc = del @ contents q'" by auto
    have "contents q @ acc = take ?k (contents q) @ del @ contents q'"
      using r(4) unfolding q1(4) by (metis append.assoc append_take_drop_id)
    then show ?thesis using q1 r QGet by simp
  qed
qed

end

interpretation rbq: byte_queue rt_ringbuffer_put rt_ringbuffer_get rb_wf rb_cap rb_list
proof
  fix rb and xs :: "u8 list" and n :: u16
  assume "rb_wf rb" "unat n \<le> length xs"
  from rb_put_spec [OF this]
  show "\<exists>q'. rt_ringbuffer_put rb xs n = Some (of_nat (min (unat n) (rb_cap rb - length (rb_list rb))), q') \<and>
      rb_wf q' \<and> rb_cap q' = rb_cap rb \<and>
      rb_list q' = rb_list rb @ take (min (unat n) (rb_cap rb - length (rb_list rb))) xs"
    by (auto simp: rb_upd_def rb_cap_def)
next
  fix rb and n :: u16
  assume "rb_wf rb"
  from rb_get_spec [OF this, of n]
  show "\<exists>q'. rt_ringbuffer_get rb n = Some (of_nat (min (unat n) (length (rb_list rb))),
        take (min (unat n) (length (rb_list rb))) (rb_list rb), q') \<and>
      rb_wf q' \<and> rb_cap q' = rb_cap rb \<and>
      rb_list q' = drop (min (unat n) (length (rb_list rb))) (rb_list rb)"
    by (auto simp: rb_upd_def rb_cap_def)
qed


section \<open>Properties\<close>

text \<open>A buffer of capacity 8 that holds the bytes 1..4 at positions 2..5.\<close>

definition rb_half8 :: rt_ringbuffer where
  "rb_half8 = \<lparr>buffer_ptr = [0, 0, 1, 2, 3, 4, 0, 0], read_mirror = 0, read_index = 2,
     write_mirror = 0, write_index = 6, buffer_size = 8\<rparr>"

text \<open>The same capacity, holding 6 bytes across the end of the array.\<close>

definition rb_across8 :: rt_ringbuffer where
  "rb_across8 = \<lparr>buffer_ptr = [3, 4, 5, 6, 0, 0, 1, 2], read_mirror = 0, read_index = 6,
     write_mirror = 1, write_index = 4, buffer_size = 8\<rparr>"

lemma rb_examples_wf: "rb_wf rb_half8" "rb_wf rb_across8"
  by (simp_all add: rb_wf_def rb_cap_def rb_half8_def rb_across8_def)

lemma rb_examples_list:
  "rb_list rb_half8 = [1, 2, 3, 4]" "rb_list rb_across8 = [1, 2, 3, 4, 5, 6]"
  "rb_cap rb_half8 = 8" "rb_cap rb_across8 = 8"
  by (simp_all add: rb_list_def ring_list_def rb_cap_def rb_half8_def rb_across8_def)

text \<open>
  C12: for every sequence of block writes and block reads on a well-formed ring buffer, every call
  returns (no copy leaves the pool or the caller's array), the buffer stays well-formed, and the bytes
  already queued followed by the bytes the writes accepted are exactly the bytes the reads delivered
  followed by the bytes still queued: nothing is lost, duplicated or reordered.
\<close>

theorem ringbuffer_stream:
  assumes "rb_wf rb" "list_all op_ok ops"
  shows "\<exists>acc del rb'. queue_run rt_ringbuffer_put rt_ringbuffer_get rb ops = Some (acc, del, rb') \<and>
    rb_wf rb' \<and> rb_cap rb' = rb_cap rb \<and> rb_list rb @ acc = del @ rb_list rb'"
  using assms by (rule rbq.run_stream)

theorem ringbuffer_stream_witness:
  "\<exists>acc del rb'. queue_run rt_ringbuffer_put rt_ringbuffer_get rb_half8
      [QPut [7, 8, 9, 10, 11] 5, QGet 6, QPut [12, 13] 2, QGet 20] = Some (acc, del, rb') \<and>
    rb_wf rb' \<and> rb_cap rb' = rb_cap rb_half8 \<and> rb_list rb_half8 @ acc = del @ rb_list rb'"
  by (rule ringbuffer_stream [OF rb_examples_wf(1)]) simp

text \<open>
  \<open>rt_ringbuffer_put\<close> appends the longest prefix of the caller's block that fits and returns its
  length.
\<close>

theorem ringbuffer_put_appends:
  assumes "rb_wf rb" "unat len \<le> length ptr"
  shows "let k = min (unat len) (rb_cap rb - length (rb_list rb)) in
    \<exists>rb'. rt_ringbuffer_put rb ptr len = Some (of_nat k, rb') \<and> rb_wf rb' \<and> rb_cap rb' = rb_cap rb \<and>
      rb_list rb' = rb_list rb @ take k ptr"
  using rbq.put_law [OF assms] by (simp only: Let_def)

theorem ringbuffer_put_appends_witness:
  "\<exists>rb'. rt_ringbuffer_put rb_half8 [7, 8, 9, 10, 11] 5 = Some (4, rb') \<and> rb_wf rb' \<and>
     rb_list rb' = [1, 2, 3, 4, 7, 8, 9, 10]"
  using ringbuffer_put_appends [OF rb_examples_wf(1), of 5 "[7, 8, 9, 10, 11]"]
  by (auto simp: rb_examples_list)

text \<open>
  \<open>rt_ringbuffer_get\<close> delivers the oldest bytes, at most \<open>len\<close> of them, removes exactly these and
  returns their number.
\<close>

theorem ringbuffer_get_delivers:
  assumes "rb_wf rb"
  shows "let k = min (unat len) (length (rb_list rb)) in
    \<exists>rb'. rt_ringbuffer_get rb len = Some (of_nat k, take k (rb_list rb), rb') \<and> rb_wf rb' \<and>
      rb_cap rb' = rb_cap rb \<and> rb_list rb' = drop k (rb_list rb)"
  using rbq.get_law [OF assms, of len] by (simp only: Let_def)

theorem ringbuffer_get_delivers_witness:
  "\<exists>rb'. rt_ringbuffer_get rb_across8 5 = Some (5, [1, 2, 3, 4, 5], rb') \<and> rb_wf rb' \<and> rb_list rb' = [6]"
  using ringbuffer_get_delivers [OF rb_examples_wf(2), of 5] by (auto simp: rb_examples_list)

text \<open>
  \<open>rt_ringbuffer_putchar_force\<close> always stores its byte; when the buffer is full it gives up exactly
  the oldest byte.
\<close>

theorem ringbuffer_putchar_force_latest:
  assumes "rb_wf rb"
  shows "\<exists>rb'. rt_ringbuffer_putchar_force rb ch = Some (1, rb') \<and> rb_wf rb' \<and> rb_cap rb' = rb_cap rb \<and>
    rb_list rb' = (if length (rb_list rb) < rb_cap rb then rb_list rb else tl (rb_list rb)) @ [ch]"
  using rb_putchar_force_spec [OF assms, of ch] rb_upd_cap by (auto simp: rb_upd_def)

theorem ringbuffer_putchar_force_latest_witness:
  "\<exists>rb'. rt_ringbuffer_putchar_force rb_half8 9 = Some (1, rb') \<and> rb_wf rb' \<and>
     rb_list rb' = [1, 2, 3, 4, 9]"
  using ringbuffer_putchar_force_latest [OF rb_examples_wf(1), of 9] by (auto simp: rb_examples_list)

text \<open>
  \<open>rt_ringbuffer_put_force\<close> on a buffer whose data already runs across the end of the array (the
  mirrors differ) and a block that does not fit keeps exactly the newest bytes: the buffer is full and
  holds the last \<open>rb_cap\<close> bytes of old contents and block together.
\<close>

theorem ringbuffer_put_force_latest:
  assumes "rb_wf rb" "read_mirror rb \<noteq> write_mirror rb"
    and "unat len \<le> length ptr" "unat len \<le> rb_cap rb" "rb_cap rb - length (rb_list rb) < unat len"
  shows "\<exists>rb'. rt_ringbuffer_put_force rb ptr len = Some (ucast len, rb') \<and> rb_wf rb' \<and>
    rb_list rb' = drop (length (rb_list rb) + unat len - rb_cap rb) (rb_list rb @ take (unat len) ptr)"
  using rb_put_force_differ [OF assms] by (auto simp: rb_upd_def)

theorem ringbuffer_put_force_latest_witness:
  "\<exists>rb'. rt_ringbuffer_put_force rb_across8 [7, 8, 9, 10] 4 = Some (4, rb') \<and> rb_wf rb' \<and>
     rb_list rb' = [3, 4, 5, 6, 7, 8, 9, 10]"
  using ringbuffer_put_force_latest [OF rb_examples_wf(2), of 4 "[7, 8, 9, 10]"]
  by (auto simp: rb_examples_list) (auto simp: rb_across8_def)

text \<open>
  When the data has not crossed the end of the array (the mirrors agree) and the block does not fit,
  \<open>rt_ringbuffer_put_force\<close> flips both mirrors, so the buffer reports that it is empty: the old bytes
  and the block that was just accepted are all lost.
\<close>

theorem ringbuffer_put_force_loses_all:
  assumes "rb_wf rb" "read_mirror rb = write_mirror rb"
    and "unat len \<le> length ptr" "unat len \<le> rb_cap rb" "rb_cap rb - length (rb_list rb) < unat len"
  shows "\<exists>rb'. rt_ringbuffer_put_force rb ptr len = Some (ucast len, rb') \<and>
    rt_ringbuffer_status rb' = RT_RINGBUFFER_EMPTY \<and> rb_list rb' = []"
  using assms by (rule rb_put_force_same)

theorem ringbuffer_put_force_loses_all_witness:
  "\<exists>rb'. rt_ringbuffer_put_force rb_half8 [7, 8, 9, 10, 11, 12] 6 = Some (6, rb') \<and>
     rt_ringbuffer_status rb' = RT_RINGBUFFER_EMPTY \<and> rb_list rb' = []"
  using ringbuffer_put_force_loses_all [OF rb_examples_wf(1), of 6 "[7, 8, 9, 10, 11, 12]"]
  by (auto simp: rb_examples_list) (auto simp: rb_half8_def)

end
