(* ===== verification/Rt_List.thy ===== *)
theory Rt_List
  imports Prelude
begin

text \<open>
  The intrusive circular lists of \<^verbatim>\<open>rt-thread/include/rtservice.h\<close>: a store of
  \<^verbatim>\<open>next\<close> and \<^verbatim>\<open>prev\<close> pointers indexed by node address, and the list
  functions as the sequence of stores the C code performs. The abstraction says that
  the nodes reached from a head, in order, are a HOL list; the refinement theorems let
  the kernel theories keep every thread, timer and object queue as a HOL list.
\<close>

section \<open>The pointer store and the list functions\<close>

type_synonym node = nat

record rt_list_store =
  nxt :: "node \<Rightarrow> node"
  prv :: "node \<Rightarrow> node"

abbreviation set_nxt :: "node \<Rightarrow> node \<Rightarrow> rt_list_store \<Rightarrow> rt_list_store" where
  "set_nxt p v h \<equiv> h\<lparr>nxt := (nxt h)(p := v)\<rparr>"

abbreviation set_prv :: "node \<Rightarrow> node \<Rightarrow> rt_list_store \<Rightarrow> rt_list_store" where
  "set_prv p v h \<equiv> h\<lparr>prv := (prv h)(p := v)\<rparr>"

definition rt_list_init :: "node \<Rightarrow> rt_list_store \<Rightarrow> rt_list_store" where
  "rt_list_init l h = set_nxt l l (set_prv l l h)"

definition rt_list_insert_after :: "node \<Rightarrow> node \<Rightarrow> rt_list_store \<Rightarrow> rt_list_store" where
  "rt_list_insert_after l n h =
     (let h1 = set_prv (nxt h l) n h;
          h2 = set_nxt n (nxt h1 l) h1;
          h3 = set_nxt l n h2
      in set_prv n l h3)"

definition rt_list_insert_before :: "node \<Rightarrow> node \<Rightarrow> rt_list_store \<Rightarrow> rt_list_store" where
  "rt_list_insert_before l n h =
     (let h1 = set_nxt (prv h l) n h;
          h2 = set_prv n (prv h1 l) h1;
          h3 = set_prv l n h2
      in set_nxt n l h3)"

definition rt_list_remove :: "node \<Rightarrow> rt_list_store \<Rightarrow> rt_list_store" where
  "rt_list_remove n h =
     (let h1 = set_prv (nxt h n) (prv h n) h;
          h2 = set_nxt (prv h1 n) (nxt h1 n) h1;
          h3 = set_prv n n h2
      in set_nxt n (prv h3 n) h3)"

definition rt_list_isempty :: "node \<Rightarrow> rt_list_store \<Rightarrow> bool" where
  "rt_list_isempty l h \<longleftrightarrow> nxt h l = l"

text \<open>The loop of \<open>rt_list_len\<close> ends only on a circular list, so it is a partial function.\<close>

partial_function (option) rt_list_len_loop :: "rt_list_store \<Rightarrow> node \<Rightarrow> node \<Rightarrow> u32 \<Rightarrow> u32 option" where
  "rt_list_len_loop h l p n =
     (if nxt h p \<noteq> l then rt_list_len_loop h l (nxt h p) (n + 1) else Some n)"

definition rt_list_len :: "node \<Rightarrow> rt_list_store \<Rightarrow> u32 option" where
  "rt_list_len l h = rt_list_len_loop h l l 0"

section \<open>Segments and circular lists\<close>

fun seg :: "rt_list_store \<Rightarrow> node \<Rightarrow> node list \<Rightarrow> node \<Rightarrow> bool" where
  "seg h a [] b \<longleftrightarrow> nxt h a = b \<and> prv h b = a"
| "seg h a (x # xs) b \<longleftrightarrow> nxt h a = x \<and> prv h x = a \<and> seg h x xs b"

definition dlist :: "rt_list_store \<Rightarrow> node \<Rightarrow> node list \<Rightarrow> bool" where
  "dlist h l xs \<longleftrightarrow> seg h l xs l \<and> distinct (l # xs)"

lemma seg_append [simp]: "seg h a (xs @ y # ys) b \<longleftrightarrow> seg h a xs y \<and> seg h y ys b"
  by (induction xs arbitrary: a) auto

lemma seg_snoc: "seg h a (xs @ [y]) b \<longleftrightarrow> seg h a xs y \<and> nxt h y = b \<and> prv h b = y"
  by simp

lemma seg_frame:
  "(\<And>x. x \<in> insert a (set xs) \<Longrightarrow> nxt h' x = nxt h x) \<Longrightarrow>
   (\<And>x. x \<in> insert b (set xs) \<Longrightarrow> prv h' x = prv h x) \<Longrightarrow> seg h' a xs b = seg h a xs b"
  by (induction xs arbitrary: a) auto

lemma dlist_frame:
  "dlist h l xs \<Longrightarrow> (\<And>x. x \<in> insert l (set xs) \<Longrightarrow> nxt h' x = nxt h x \<and> prv h' x = prv h x) \<Longrightarrow>
   dlist h' l xs"
  using seg_frame [of l xs h' h l] by (simp add: dlist_def)

text \<open>A circular list may be read from any of its nodes.\<close>

lemma dlist_rotate: "dlist h l (xs @ p # ys) \<longleftrightarrow> dlist h p (ys @ l # xs)"
  by (auto simp: dlist_def)

lemma dlist_empty: "dlist h l xs \<Longrightarrow> rt_list_isempty l h \<longleftrightarrow> xs = []"
  by (cases xs) (auto simp: dlist_def rt_list_isempty_def)

lemma dlist_first: "dlist h l (x # xs) \<Longrightarrow> nxt h l = x"
  by (simp add: dlist_def)

lemma dlist_last: "dlist h l (xs @ [x]) \<Longrightarrow> prv h l = x"
  by (simp add: dlist_def)

lemma dlist_init: "dlist (rt_list_init l h) l []"
  by (simp add: dlist_def rt_list_init_def)

lemma dlist_ends:
  assumes "dlist h l xs"
  shows "nxt h l \<in> insert l (set xs)" "prv h l \<in> insert l (set xs)"
proof -
  show "nxt h l \<in> insert l (set xs)" using assms by (cases xs) (auto simp: dlist_def)
  show "prv h l \<in> insert l (set xs)" using assms by (cases xs rule: rev_cases) (auto simp: dlist_def)
qed

subsection \<open>The functions on circular lists\<close>

lemma dlist_insert_after:
  assumes "dlist h l xs" "n \<notin> insert l (set xs)"
  shows "dlist (rt_list_insert_after l n h) l (n # xs)"
proof (cases xs)
  case Nil
  then show ?thesis using assms by (auto simp: dlist_def rt_list_insert_after_def Let_def)
next
  case (Cons x ys)
  let ?h = "rt_list_insert_after l n h"
  have d: "nxt h l = x" "prv h x = l" "seg h x ys l" "distinct (l # x # ys)" "n \<noteq> x" "n \<noteq> l" "n \<notin> set ys"
    using assms Cons by (auto simp: dlist_def)
  have "seg ?h x ys l = seg h x ys l"
    using d by (intro seg_frame) (auto simp: rt_list_insert_after_def Let_def)
  then show ?thesis
    using d Cons by (auto simp: dlist_def rt_list_insert_after_def Let_def)
qed

lemma dlist_insert_before:
  assumes "dlist h l xs" "n \<notin> insert l (set xs)"
  shows "dlist (rt_list_insert_before l n h) l (xs @ [n])"
proof (cases xs rule: rev_cases)
  case Nil
  then show ?thesis using assms by (auto simp: dlist_def rt_list_insert_before_def Let_def)
next
  case (snoc ys x)
  let ?h = "rt_list_insert_before l n h"
  have d: "nxt h x = l" "prv h l = x" "seg h l ys x" "distinct (l # ys)" "x \<notin> insert l (set ys)"
    "n \<noteq> x" "n \<noteq> l" "n \<notin> set ys"
    using assms snoc by (auto simp: dlist_def)
  have "seg ?h l ys x = seg h l ys x"
    using d by (intro seg_frame) (auto simp: rt_list_insert_before_def Let_def)
  then show ?thesis
    using d snoc by (auto simp: dlist_def rt_list_insert_before_def Let_def)
qed

lemma dlist_remove_first:
  assumes "dlist h l (n # xs)"
  shows "dlist (rt_list_remove n h) l xs"
proof (cases xs)
  case Nil
  then show ?thesis using assms by (auto simp: dlist_def rt_list_remove_def Let_def)
next
  case (Cons x ys)
  let ?h = "rt_list_remove n h"
  have d: "nxt h l = n" "prv h n = l" "nxt h n = x" "prv h x = n" "seg h x ys l"
    "distinct (l # n # x # ys)"
    using assms Cons by (auto simp: dlist_def)
  have "seg ?h x ys l = seg h x ys l"
    using d by (intro seg_frame) (auto simp: rt_list_remove_def Let_def)
  then show ?thesis
    using d Cons by (auto simp: dlist_def rt_list_remove_def Let_def)
qed

lemma dlist_remove:
  assumes "dlist h l (xs @ n # ys)"
  shows "dlist (rt_list_remove n h) l (xs @ ys)"
proof (cases xs rule: rev_cases)
  case Nil
  then show ?thesis using assms dlist_remove_first by simp
next
  case (snoc zs p)
  have "dlist h p (n # ys @ l # zs)"
    using assms snoc dlist_rotate [of h l zs p "n # ys"] by simp
  then have "dlist (rt_list_remove n h) p (ys @ l # zs)" by (rule dlist_remove_first)
  then show ?thesis using snoc dlist_rotate by simp
qed

lemma dlist_remove_alone: "dlist h l (xs @ n # ys) \<Longrightarrow> dlist (rt_list_remove n h) n []"
  by (simp add: dlist_def rt_list_remove_def Let_def)

lemma dlist_insert_after_node:
  assumes "dlist h l (xs @ p # ys)" "n \<notin> insert l (set (xs @ p # ys))"
  shows "dlist (rt_list_insert_after p n h) l (xs @ p # n # ys)"
proof -
  have "dlist h p (ys @ l # xs)" using assms(1) dlist_rotate by blast
  then have "dlist (rt_list_insert_after p n h) p (n # ys @ l # xs)"
    by (rule dlist_insert_after) (use assms(2) in auto)
  then show ?thesis using dlist_rotate [of _ l xs p "n # ys"] by simp
qed

lemma rt_list_len_loop_seg:
  "seg h p xs l \<Longrightarrow> l \<notin> set xs \<Longrightarrow> rt_list_len_loop h l p n = Some (n + of_nat (length xs))"
proof (induction xs arbitrary: p n)
  case Nil
  then show ?case by (subst rt_list_len_loop.simps) simp
next
  case (Cons x xs)
  then show ?case by (subst rt_list_len_loop.simps) (simp add: add.assoc)
qed


section \<open>Families of queues\<close>

text \<open>
  The kernel keeps many queues over one pool of nodes (the \<^verbatim>\<open>tlist\<close> of every
  thread, the \<^verbatim>\<open>row\<close> of every timer). \<open>family h H N L\<close>: every head in
  \<open>H\<close> is a circular list holding \<open>L\<close> of it, no node is in two lists, and a node
  in no list is linked to itself.
\<close>

definition q_append :: "'q \<Rightarrow> 'n \<Rightarrow> ('q \<Rightarrow> 'n list) \<Rightarrow> ('q \<Rightarrow> 'n list)" where
  "q_append l n L = L(l := L l @ [n])"

definition q_push :: "'q \<Rightarrow> 'n \<Rightarrow> ('q \<Rightarrow> 'n list) \<Rightarrow> ('q \<Rightarrow> 'n list)" where
  "q_push l n L = L(l := n # L l)"

definition q_remove :: "'n \<Rightarrow> ('q \<Rightarrow> 'n list) \<Rightarrow> ('q \<Rightarrow> 'n list)" where
  "q_remove n L = (\<lambda>m. remove1 n (L m))"

definition linked :: "node set \<Rightarrow> (node \<Rightarrow> node list) \<Rightarrow> node set" where
  "linked H L = (\<Union>l\<in>H. set (L l))"

definition family :: "node set \<Rightarrow> node set \<Rightarrow> rt_list_store \<Rightarrow> (node \<Rightarrow> node list) \<Rightarrow> bool" where
  "family H N h L \<longleftrightarrow>
     H \<inter> N = {} \<and> linked H L \<subseteq> N \<and> (\<forall>l\<in>H. dlist h l (L l)) \<and>
     (\<forall>l\<in>H. \<forall>m\<in>H. l \<noteq> m \<longrightarrow> set (L l) \<inter> set (L m) = {}) \<and>
     (\<forall>n\<in>N - linked H L. nxt h n = n \<and> prv h n = n)"

lemma familyD:
  assumes "family H N h L"
  shows "l \<in> H \<Longrightarrow> dlist h l (L l)" "l \<in> H \<Longrightarrow> m \<in> H \<Longrightarrow> l \<noteq> m \<Longrightarrow> set (L l) \<inter> set (L m) = {}"
    "l \<in> H \<Longrightarrow> set (L l) \<subseteq> N" "l \<in> H \<Longrightarrow> l \<notin> N" "n \<in> N \<Longrightarrow> n \<notin> linked H L \<Longrightarrow> nxt h n = n \<and> prv h n = n"
  using assms by (auto simp: family_def linked_def)

lemma family_update:
  assumes f: "family H N h L" and l: "l \<in> H" and d: "dlist h' l xs"
    and xs: "set xs \<subseteq> N" "\<And>m. m \<in> H \<Longrightarrow> m \<noteq> l \<Longrightarrow> set xs \<inter> set (L m) = {}"
    and frame: "\<And>x. x \<notin> insert l (set (L l)) \<Longrightarrow> x \<notin> set xs \<Longrightarrow> nxt h' x = nxt h x \<and> prv h' x = prv h x"
    and alone: "\<And>x. x \<in> set (L l) \<Longrightarrow> x \<notin> set xs \<Longrightarrow> nxt h' x = x \<and> prv h' x = x"
  shows "family H N h' (L(l := xs))"
proof -
  have other: "dlist h' m (L m)" if "m \<in> H" "m \<noteq> l" for m
  proof (rule dlist_frame [OF familyD(1) [OF f that(1)]])
    fix x assume "x \<in> insert m (set (L m))"
    then show "nxt h' x = nxt h x \<and> prv h' x = prv h x"
      using familyD(2) [OF f l that(1)] familyD(3,4) [OF f l] familyD(3,4) [OF f that(1)] xs(1)
        xs(2) [OF that] that(2)
      by (intro frame) auto
  qed
  have lk: "linked H (L(l := xs)) = (\<Union>m\<in>H - {l}. set (L m)) \<union> set xs"
    using l by (auto simp: linked_def split: if_splits)
  have self: "nxt h' n = n \<and> prv h' n = n" if n: "n \<in> N - linked H (L(l := xs))" for n
  proof (cases "n \<in> set (L l)")
    case True
    then show ?thesis using n lk by (intro alone) auto
  next
    case False
    then have "n \<notin> linked H L" "n \<notin> insert l (set (L l))" "n \<notin> set xs"
      using n l familyD(4) [OF f l] lk by (auto simp: linked_def)
    then show ?thesis using frame [of n] familyD(5) [OF f, of n] n by simp
  qed
  show ?thesis
    unfolding family_def using f d l xs other self
    by (auto simp: family_def lk) (auto simp: linked_def)
qed

lemma family_insert_before:
  assumes f: "family H N h L" and l: "l \<in> H" and n: "n \<in> N" "n \<notin> linked H L"
  shows "family H N (rt_list_insert_before l n h) (q_append l n L)"
  unfolding q_append_def
proof (rule family_update [OF f l])
  have nl: "n \<notin> insert l (set (L l))" using n l familyD(4) [OF f l] by (auto simp: linked_def)
  note d = familyD(1) [OF f l]
  show "dlist (rt_list_insert_before l n h) l (L l @ [n])"
    using dlist_insert_before [OF d nl] .
  show "set (L l @ [n]) \<subseteq> N" using familyD(3) [OF f l] n by simp
  show "set (L l @ [n]) \<inter> set (L m) = {}" if "m \<in> H" "m \<noteq> l" for m
    using familyD(2) [OF f l, of m] that n by (auto simp: linked_def)
  show "nxt (rt_list_insert_before l n h) x = nxt h x \<and> prv (rt_list_insert_before l n h) x = prv h x"
    if "x \<notin> insert l (set (L l))" "x \<notin> set (L l @ [n])" for x
    using that dlist_ends(2) [OF d] by (auto simp: rt_list_insert_before_def Let_def)
qed auto

lemma family_insert_after:
  assumes f: "family H N h L" and l: "l \<in> H" and n: "n \<in> N" "n \<notin> linked H L"
  shows "family H N (rt_list_insert_after l n h) (q_push l n L)"
  unfolding q_push_def
proof (rule family_update [OF f l])
  have nl: "n \<notin> insert l (set (L l))" using n l familyD(4) [OF f l] by (auto simp: linked_def)
  note d = familyD(1) [OF f l]
  show "dlist (rt_list_insert_after l n h) l (n # L l)"
    using dlist_insert_after [OF d nl] .
  show "set (n # L l) \<subseteq> N" using familyD(3) [OF f l] n by simp
  show "set (n # L l) \<inter> set (L m) = {}" if "m \<in> H" "m \<noteq> l" for m
    using familyD(2) [OF f l, of m] that n by (auto simp: linked_def)
  show "nxt (rt_list_insert_after l n h) x = nxt h x \<and> prv (rt_list_insert_after l n h) x = prv h x"
    if "x \<notin> insert l (set (L l))" "x \<notin> set (n # L l)" for x
    using that dlist_ends(1) [OF d] by (auto simp: rt_list_insert_after_def Let_def)
qed auto

lemma rt_list_remove_alone: "nxt h n = n \<Longrightarrow> prv h n = n \<Longrightarrow> rt_list_remove n h = h"
  by (simp add: rt_list_remove_def Let_def fun_upd_idem)

lemma remove1_absent_family:
  assumes "family H N h L" "l \<in> H" "n \<in> set (L l)"
  shows "m \<in> H \<Longrightarrow> m \<noteq> l \<Longrightarrow> remove1 n (L m) = L m"
  using familyD(2) [OF assms(1,2), of m] assms(3) by (intro remove1_idem) auto

lemma family_cong: "(\<And>l. l \<in> H \<Longrightarrow> L l = L' l) \<Longrightarrow> family H N h L = family H N h L'"
  by (simp add: family_def linked_def)

lemma family_remove:
  assumes f: "family H N h L" and n: "n \<in> N"
  shows "family H N (rt_list_remove n h) (q_remove n L)"
proof (cases "n \<in> linked H L")
  case False
  then have "rt_list_remove n h = h"
    using familyD(5) [OF f n] by (intro rt_list_remove_alone) auto
  moreover have "L l = q_remove n L l" if "l \<in> H" for l
    using False that by (simp add: q_remove_def linked_def remove1_idem)
  ultimately show ?thesis using f family_cong [of H L "q_remove n L" N h] by simp
next
  case True
  then obtain l where l: "l \<in> H" "n \<in> set (L l)" by (auto simp: linked_def)
  note d = familyD(1) [OF f l(1)]
  obtain xs ys where sp: "L l = xs @ n # ys" "n \<notin> set xs" using split_list_first [OF l(2)] by blast
  have r1: "remove1 n (L l) = xs @ ys" using sp by (simp add: remove1_append)
  let ?h = "rt_list_remove n h"
  have "family H N ?h (L(l := xs @ ys))"
  proof (rule family_update [OF f l(1)])
    show "dlist ?h l (xs @ ys)" using d sp dlist_remove by simp
    show "set (xs @ ys) \<subseteq> N" using familyD(3) [OF f l(1)] sp by simp
    show "set (xs @ ys) \<inter> set (L m) = {}" if "m \<in> H" "m \<noteq> l" for m
      using familyD(2) [OF f l(1), of m] that sp by auto
    have "dlist h n (ys @ l # xs)" using d sp dlist_rotate by simp
    note e = dlist_ends [OF this]
    show "nxt ?h x = nxt h x \<and> prv ?h x = prv h x" if "x \<notin> insert l (set (L l))" for x
      using that e sp by (auto simp: rt_list_remove_def Let_def)
    show "nxt ?h x = x \<and> prv ?h x = x" if "x \<in> set (L l)" "x \<notin> set (xs @ ys)" for x
      using that sp dlist_remove_alone [of h l xs n ys] d by (auto simp: dlist_def)
  qed
  moreover have "(L(l := xs @ ys)) m = q_remove n L m" if "m \<in> H" for m
    using that r1 remove1_absent_family [OF f l] by (simp add: q_remove_def)
  ultimately show ?thesis using family_cong [of H "L(l := xs @ ys)" "q_remove n L" N ?h] by simp
qed


section \<open>The queue interface the kernel relies on\<close>

datatype ('l, 'n) list_cmd = Insert_before 'l 'n | Insert_after 'l 'n | Remove 'n

fun abs_cmd :: "('l, 'n) list_cmd \<Rightarrow> ('l \<Rightarrow> 'n list) \<Rightarrow> ('l \<Rightarrow> 'n list)" where
  "abs_cmd (Insert_before l n) L = q_append l n L"
| "abs_cmd (Insert_after l n) L = q_push l n L"
| "abs_cmd (Remove n) L = q_remove n L"

fun legal_cmd :: "'l set \<Rightarrow> 'n set \<Rightarrow> ('l, 'n) list_cmd \<Rightarrow> ('l \<Rightarrow> 'n list) \<Rightarrow> bool" where
  "legal_cmd H N (Insert_before l n) L \<longleftrightarrow> l \<in> H \<and> n \<in> N \<and> (\<forall>m\<in>H. n \<notin> set (L m))"
| "legal_cmd H N (Insert_after l n) L \<longleftrightarrow> l \<in> H \<and> n \<in> N \<and> (\<forall>m\<in>H. n \<notin> set (L m))"
| "legal_cmd H N (Remove n) L \<longleftrightarrow> n \<in> N"

fun legal_script :: "'l set \<Rightarrow> 'n set \<Rightarrow> ('l, 'n) list_cmd list \<Rightarrow> ('l \<Rightarrow> 'n list) \<Rightarrow> bool" where
  "legal_script H N [] L \<longleftrightarrow> True"
| "legal_script H N (c # cs) L \<longleftrightarrow> legal_cmd H N c L \<and> legal_script H N cs (abs_cmd c L)"

fun store_cmd :: "(node, node) list_cmd \<Rightarrow> rt_list_store \<Rightarrow> rt_list_store" where
  "store_cmd (Insert_before l n) h = rt_list_insert_before l n h"
| "store_cmd (Insert_after l n) h = rt_list_insert_after l n h"
| "store_cmd (Remove n) h = rt_list_remove n h"

locale queue_store =
  fixes step :: "('l, 'n) list_cmd \<Rightarrow> 's \<Rightarrow> 's"
    and rep :: "'s \<Rightarrow> ('l \<Rightarrow> 'n list) \<Rightarrow> bool"
    and heads :: "'l set"
    and nodes :: "'n set"
  assumes step_law: "rep s L \<Longrightarrow> legal_cmd heads nodes c L \<Longrightarrow> rep (step c s) (abs_cmd c L)"
begin

lemma script_refines:
  "rep s L \<Longrightarrow> legal_script heads nodes cs L \<Longrightarrow> rep (fold step cs s) (fold abs_cmd cs L)"
  by (induction cs arbitrary: s L) (auto intro: step_law)

end

interpretation rtl: queue_store store_cmd "family H N" H N for H N
proof
  fix h L c
  assume f: "family H N h L" and c: "legal_cmd H N c L"
  show "family H N (store_cmd c h) (abs_cmd c L)"
  proof (cases c)
    case (Insert_before l n)
    then show ?thesis using f c by (auto simp: linked_def intro: family_insert_before)
  next
    case (Insert_after l n)
    then show ?thesis using f c by (auto simp: linked_def intro: family_insert_after)
  next
    case (Remove n)
    then show ?thesis using f c by (auto intro: family_remove)
  qed
qed

section \<open>Properties\<close>

definition store0 :: rt_list_store where
  "store0 = \<lparr>nxt = (\<lambda>n. n), prv = (\<lambda>n. n)\<rparr>"

lemma family_store0: "H \<inter> N = {} \<Longrightarrow> family H N store0 (\<lambda>_. [])"
  by (simp add: family_def linked_def dlist_def store0_def)

text \<open>
  C11: any sequence of \<open>rt_list_insert_before\<close>, \<open>rt_list_insert_after\<close> and \<open>rt_list_remove\<close>
  on the pointer store, in which a node is only inserted while it is in no list, does to the queues what
  the same sequence of append, push and removal does to HOL lists: every queue stays a circular doubly
  linked list of exactly those nodes, and removed nodes are linked to themselves.
\<close>

theorem rt_list_refines_lists:
  assumes "family H N h L" "legal_script H N cs L"
  shows "family H N (fold store_cmd cs h) (fold abs_cmd cs L)"
  using assms by (rule rtl.script_refines)

theorem rt_list_refines_lists_witness:
  "family {0, 1} {10, 11, 12}
     (fold store_cmd [Insert_before 0 10, Insert_before 0 11, Insert_after 1 12, Remove 10, Insert_after 0 10] store0)
     ((\<lambda>_. [])(0 := [10, 11], 1 := [12]))"
proof -
  let ?cs = "[Insert_before 0 10, Insert_before 0 11, Insert_after 1 12, Remove 10, Insert_after (0::nat) (10::nat)]"
  have e: "fold abs_cmd ?cs (\<lambda>_. []) = (\<lambda>_. [])(0 := [10, 11], 1 := [12])"
    by (auto simp: q_append_def q_push_def q_remove_def)
  have "legal_script {0, 1} {10, 11, 12} ?cs (\<lambda>_. [])"
    by (simp add: q_append_def q_push_def q_remove_def)
  from rt_list_refines_lists [OF family_store0 this] show ?thesis unfolding e by simp
qed

text \<open>
  On a circular list the loop of \<open>rt_list_len\<close> ends and counts the nodes (modulo the width of the
  counter).
\<close>

theorem rt_list_len_counts:
  assumes "dlist h l xs"
  shows "rt_list_len l h = Some (of_nat (length xs))"
  using assms rt_list_len_loop_seg [of h l xs l 0] by (simp add: rt_list_len_def dlist_def)

theorem rt_list_len_counts_witness:
  "rt_list_len 0 (rt_list_insert_before 0 7 (rt_list_insert_before 0 5 (rt_list_init 0 store0))) = Some 2"
proof -
  have "dlist (rt_list_insert_before 0 5 (rt_list_init 0 store0)) 0 ([] @ [5])"
    by (rule dlist_insert_before [OF dlist_init]) simp
  then have "dlist (rt_list_insert_before 0 7 (rt_list_insert_before 0 5 (rt_list_init 0 store0))) 0 ([5] @ [7])"
    by (intro dlist_insert_before) simp_all
  from rt_list_len_counts [OF this] show ?thesis by simp
qed

end
