(* ===== verification/Kernel_State.thy ===== *)
theory Kernel_State
  imports Rt_List
begin

text \<open>
  The state of the kernel: the structures of \<^verbatim>\<open>rt-thread/include/rtdef.h\<close> as records,
  and one record \<open>kernel\<close> for the static variables of \<^verbatim>\<open>rt-thread/src\<close>.

  Threads, timers and IPC objects are named by numbers (their addresses). A structure is kept in a
  function from names to records, its embedded \<^verbatim>\<open>struct rt_object\<close> in \<open>objs\<close>. Every list
  of threads (the ready table, the wait lists of the IPC objects and memory pools, the defunct list) is
  a HOL list in \<open>queues\<close>: the node \<^verbatim>\<open>tlist\<close> of a thread is in at most one of them, and theory
  \<open>Rt_List\<close> justifies reading the pointer operations as the list operations
  \<open>q_append\<close>, \<open>q_push\<close> and \<open>q_remove\<close>. Function pointers of hooks are not part of
  the state: the firmware installs none.
\<close>

section \<open>Constants (rtdef.h, rtconfig.h)\<close>

definition RT_NAME_MAX :: nat where "RT_NAME_MAX = 8"
definition RT_THREAD_PRIORITY_MAX :: u8 where "RT_THREAD_PRIORITY_MAX = 32"
definition RT_TICK_PER_SECOND :: u32 where "RT_TICK_PER_SECOND = 1000"
definition RT_TICK_MAX :: u32 where "RT_TICK_MAX = 0xffffffff"
definition RT_WAITING_FOREVER :: int where "RT_WAITING_FOREVER = -1"

definition RT_THREAD_INIT :: u8 where "RT_THREAD_INIT = 0x00"
definition RT_THREAD_READY :: u8 where "RT_THREAD_READY = 0x01"
definition RT_THREAD_SUSPEND :: u8 where "RT_THREAD_SUSPEND = 0x02"
definition RT_THREAD_RUNNING :: u8 where "RT_THREAD_RUNNING = 0x03"
definition RT_THREAD_CLOSE :: u8 where "RT_THREAD_CLOSE = 0x04"
definition RT_THREAD_STAT_MASK :: u8 where "RT_THREAD_STAT_MASK = 0x07"
definition RT_THREAD_STAT_YIELD :: u8 where "RT_THREAD_STAT_YIELD = 0x08"

lemmas stat_defs = RT_THREAD_INIT_def RT_THREAD_READY_def RT_THREAD_SUSPEND_def
  RT_THREAD_RUNNING_def RT_THREAD_CLOSE_def

definition RT_TIMER_FLAG_ACTIVATED :: u8 where "RT_TIMER_FLAG_ACTIVATED = 0x1"
definition RT_TIMER_FLAG_PERIODIC :: u8 where "RT_TIMER_FLAG_PERIODIC = 0x2"
definition RT_TIMER_FLAG_SOFT_TIMER :: u8 where "RT_TIMER_FLAG_SOFT_TIMER = 0x4"
definition RT_TIMER_FLAG_ONE_SHOT :: u8 where "RT_TIMER_FLAG_ONE_SHOT = 0x0"

definition RT_IPC_FLAG_FIFO :: u8 where "RT_IPC_FLAG_FIFO = 0x00"
definition RT_IPC_FLAG_PRIO :: u8 where "RT_IPC_FLAG_PRIO = 0x01"

definition RT_Object_Class_Thread :: u8 where "RT_Object_Class_Thread = 1"
definition RT_Object_Class_Semaphore :: u8 where "RT_Object_Class_Semaphore = 2"
definition RT_Object_Class_Mutex :: u8 where "RT_Object_Class_Mutex = 3"
definition RT_Object_Class_Event :: u8 where "RT_Object_Class_Event = 4"
definition RT_Object_Class_MailBox :: u8 where "RT_Object_Class_MailBox = 5"
definition RT_Object_Class_MessageQueue :: u8 where "RT_Object_Class_MessageQueue = 6"
definition RT_Object_Class_MemPool :: u8 where "RT_Object_Class_MemPool = 8"
definition RT_Object_Class_Device :: u8 where "RT_Object_Class_Device = 9"
definition RT_Object_Class_Timer :: u8 where "RT_Object_Class_Timer = 10"
definition RT_Object_Class_Unknown :: u8 where "RT_Object_Class_Unknown = 12"
definition RT_Object_Class_Static :: u8 where "RT_Object_Class_Static = 0x80"

lemmas class_defs = RT_Object_Class_Thread_def RT_Object_Class_Semaphore_def
  RT_Object_Class_Mutex_def RT_Object_Class_Event_def RT_Object_Class_MailBox_def
  RT_Object_Class_MessageQueue_def RT_Object_Class_MemPool_def RT_Object_Class_Device_def
  RT_Object_Class_Timer_def RT_Object_Class_Unknown_def RT_Object_Class_Static_def

section \<open>Names of kernel structures\<close>

type_synonym tid = nat
type_synonym oid = nat

text \<open>A timer is the \<^verbatim>\<open>thread_timer\<close> inside a thread or a timer of its own.\<close>

datatype timer_id = TThread tid | TUser nat

datatype objref = OThread tid | OTimer timer_id | OSem oid | OMutex oid | OEvent oid
  | OMb oid | OMq oid | OMp oid | ODevice oid

datatype qid = QReady nat | QDefunct
  | QSem oid | QMutex oid | QEvent oid | QMbRecv oid | QMbSend oid | QMqRecv oid | QMqSend oid | QMp oid

text \<open>The static threads \<^verbatim>\<open>timer_thread\<close> of timer.c and \<^verbatim>\<open>idle[0]\<close> of idle.c.\<close>

definition timer_thread :: tid where "timer_thread = 0"
definition idle_thread :: tid where "idle_thread = 1"

section \<open>Structures\<close>

record rt_object =
  oname :: string
  otype :: u8
  oflag :: u8

record rt_thread =
  sp :: u32
  entry :: nat
  parameter :: nat
  stack_addr :: u32
  stack_size :: u32
  stack_byte :: u8          \<comment> \<open>the byte at \<^verbatim>\<open>stack_addr\<close>, which the overflow check reads\<close>
  terror :: rt_err_t
  stat :: u8
  current_priority :: u8
  init_priority :: u8
  number_mask :: u32
  event_set :: u32
  event_info :: u8
  init_tick :: u32
  remaining_tick :: u32
  cleanup :: "nat option"
  user_data :: u32

datatype timeout_func = Rt_thread_timeout tid | User_timeout nat

record rt_timer =
  timeout_func :: timeout_func
  timer_init_tick :: u32
  timeout_tick :: u32

record rt_semaphore =
  sem_value :: u16

record rt_mutex =
  mutex_value :: u16
  original_priority :: u8
  hold :: u8
  owner :: "tid option"

record rt_event =
  event_bits :: u32

record rt_mailbox =
  mb_pool :: "u32 list"
  mb_size :: u16
  mb_entry :: u16
  in_offset :: u16
  out_offset :: u16

text \<open>
  The message pool of a queue is an array of nodes, each a \<^verbatim>\<open>next\<close> pointer followed by the
  message bytes. A pointer to a node is its index in the array.
\<close>

record rt_messagequeue =
  msg_size :: u16
  max_msgs :: u16
  mq_entry :: u16
  mq_next :: "nat \<Rightarrow> nat option"
  mq_data :: "nat \<Rightarrow> u8 list"
  msg_queue_head :: "nat option"
  msg_queue_tail :: "nat option"
  msg_queue_free :: "nat option"

record kernel =
  objs :: "objref \<Rightarrow> rt_object"
  object_list :: "u8 \<Rightarrow> objref list"
  thr :: "tid \<Rightarrow> rt_thread"
  queues :: "qid \<Rightarrow> tid list"
  ready_group :: u32
  lock_nest :: "16 word"
  current :: "tid option"
  cur_priority :: u8
  interrupt_nest :: u8
  tick :: u32
  timers :: "timer_id \<Rightarrow> rt_timer"
  timer_list :: "timer_id list"
  soft_timer_list :: "timer_id list"
  sems :: "oid \<Rightarrow> rt_semaphore"
  mutexes :: "oid \<Rightarrow> rt_mutex"
  events :: "oid \<Rightarrow> rt_event"
  mailboxes :: "oid \<Rightarrow> rt_mailbox"
  mqs :: "oid \<Rightarrow> rt_messagequeue"

section \<open>Field updates\<close>

abbreviation upd_thr :: "tid \<Rightarrow> (rt_thread \<Rightarrow> rt_thread) \<Rightarrow> kernel \<Rightarrow> kernel" where
  "upd_thr t f k \<equiv> k\<lparr>thr := (thr k)(t := f (thr k t))\<rparr>"

abbreviation upd_obj :: "objref \<Rightarrow> (rt_object \<Rightarrow> rt_object) \<Rightarrow> kernel \<Rightarrow> kernel" where
  "upd_obj r f k \<equiv> k\<lparr>objs := (objs k)(r := f (objs k r))\<rparr>"

abbreviation upd_timer :: "timer_id \<Rightarrow> (rt_timer \<Rightarrow> rt_timer) \<Rightarrow> kernel \<Rightarrow> kernel" where
  "upd_timer t f k \<equiv> k\<lparr>timers := (timers k)(t := f (timers k t))\<rparr>"

abbreviation unlink :: "tid \<Rightarrow> kernel \<Rightarrow> kernel" where
  "unlink t k \<equiv> k\<lparr>queues := q_remove t (queues k)\<rparr>"

text \<open>\<open>thread->stat & RT_THREAD_STAT_MASK\<close> and the assignment of the state bits alone.\<close>

definition stat_of :: "rt_thread \<Rightarrow> u8" where
  "stat_of th = stat th AND RT_THREAD_STAT_MASK"

definition set_stat :: "u8 \<Rightarrow> rt_thread \<Rightarrow> rt_thread" where
  "set_stat s th = th\<lparr>stat := s OR (stat th AND NOT RT_THREAD_STAT_MASK)\<rparr>"

abbreviation st :: "kernel \<Rightarrow> tid \<Rightarrow> u8" where
  "st k t \<equiv> stat_of (thr k t)"

abbreviation prio :: "kernel \<Rightarrow> tid \<Rightarrow> nat" where
  "prio k t \<equiv> unat (current_priority (thr k t))"

lemma or_and_not_mask: "(s OR (x AND NOT m)) AND m = s AND (m :: 'a::len word)"
  by (rule bit_word_eqI) (auto simp: bit_simps)

lemma stat_of_set_stat_mask: "stat_of (set_stat s th) = s AND RT_THREAD_STAT_MASK"
  by (simp add: stat_of_def set_stat_def or_and_not_mask)

lemma stat_of_set_stat [simp]:
  "s \<in> {RT_THREAD_INIT, RT_THREAD_READY, RT_THREAD_SUSPEND, RT_THREAD_RUNNING, RT_THREAD_CLOSE} \<Longrightarrow>
   stat_of (set_stat s th) = s"
  by (auto simp: stat_of_set_stat_mask stat_defs RT_THREAD_STAT_MASK_def)

lemma stat_of_stat_upd [simp]:
  "s \<in> {RT_THREAD_INIT, RT_THREAD_READY, RT_THREAD_SUSPEND, RT_THREAD_RUNNING, RT_THREAD_CLOSE} \<Longrightarrow>
   stat_of (th\<lparr>stat := s\<rparr>) = s"
  by (auto simp: stat_of_def stat_defs RT_THREAD_STAT_MASK_def)

lemma set_stat_fields [simp]:
  "current_priority (set_stat s th) = current_priority th"
  "init_priority (set_stat s th) = init_priority th"
  "number_mask (set_stat s th) = number_mask th"
  "sp (set_stat s th) = sp th" "stack_addr (set_stat s th) = stack_addr th"
  "stack_size (set_stat s th) = stack_size th" "stack_byte (set_stat s th) = stack_byte th"
  "terror (set_stat s th) = terror th" "event_set (set_stat s th) = event_set th"
  "event_info (set_stat s th) = event_info th" "init_tick (set_stat s th) = init_tick th"
  "remaining_tick (set_stat s th) = remaining_tick th" "cleanup (set_stat s th) = cleanup th"
  by (simp_all add: set_stat_def)

lemma stat_of_fields [simp]:
  "stat_of (th\<lparr>terror := e\<rparr>) = stat_of th" "stat_of (th\<lparr>current_priority := p\<rparr>) = stat_of th"
  "stat_of (th\<lparr>number_mask := m\<rparr>) = stat_of th" "stat_of (th\<lparr>event_set := v\<rparr>) = stat_of th"
  "stat_of (th\<lparr>event_info := i\<rparr>) = stat_of th" "stat_of (th\<lparr>remaining_tick := r\<rparr>) = stat_of th"
  "stat_of (th\<lparr>init_priority := p\<rparr>) = stat_of th" "stat_of (th\<lparr>init_tick := r\<rparr>) = stat_of th"
  by (simp_all add: stat_of_def)

lemma stat_distinct [simp]:
  "RT_THREAD_INIT \<noteq> RT_THREAD_READY" "RT_THREAD_INIT \<noteq> RT_THREAD_SUSPEND"
  "RT_THREAD_INIT \<noteq> RT_THREAD_RUNNING" "RT_THREAD_INIT \<noteq> RT_THREAD_CLOSE"
  "RT_THREAD_READY \<noteq> RT_THREAD_INIT" "RT_THREAD_READY \<noteq> RT_THREAD_SUSPEND"
  "RT_THREAD_READY \<noteq> RT_THREAD_RUNNING" "RT_THREAD_READY \<noteq> RT_THREAD_CLOSE"
  "RT_THREAD_SUSPEND \<noteq> RT_THREAD_INIT" "RT_THREAD_SUSPEND \<noteq> RT_THREAD_READY"
  "RT_THREAD_SUSPEND \<noteq> RT_THREAD_RUNNING" "RT_THREAD_SUSPEND \<noteq> RT_THREAD_CLOSE"
  "RT_THREAD_RUNNING \<noteq> RT_THREAD_INIT" "RT_THREAD_RUNNING \<noteq> RT_THREAD_READY"
  "RT_THREAD_RUNNING \<noteq> RT_THREAD_SUSPEND" "RT_THREAD_RUNNING \<noteq> RT_THREAD_CLOSE"
  "RT_THREAD_CLOSE \<noteq> RT_THREAD_INIT" "RT_THREAD_CLOSE \<noteq> RT_THREAD_READY"
  "RT_THREAD_CLOSE \<noteq> RT_THREAD_SUSPEND" "RT_THREAD_CLOSE \<noteq> RT_THREAD_RUNNING"
  by (simp_all add: stat_defs)

section \<open>Context checks (rtdebug.h)\<close>

definition rt_interrupt_get_nest :: "kernel \<Rightarrow> u8" where
  "rt_interrupt_get_nest k = interrupt_nest k"

definition RT_DEBUG_NOT_IN_INTERRUPT :: "kernel \<Rightarrow> unit option" where
  "RT_DEBUG_NOT_IN_INTERRUPT k = rt_assert (rt_interrupt_get_nest k = 0)"

definition RT_DEBUG_IN_THREAD_CONTEXT :: "kernel \<Rightarrow> unit option" where
  "RT_DEBUG_IN_THREAD_CONTEXT k =
     do { rt_assert (current k \<noteq> None); RT_DEBUG_NOT_IN_INTERRUPT k }"

definition rt_interrupt_enter :: "kernel \<Rightarrow> kernel" where
  "rt_interrupt_enter k = k\<lparr>interrupt_nest := interrupt_nest k + 1\<rparr>"

definition rt_interrupt_leave :: "kernel \<Rightarrow> kernel" where
  "rt_interrupt_leave k = k\<lparr>interrupt_nest := interrupt_nest k - 1\<rparr>"

section \<open>Queues\<close>

lemma q_remove_set [simp]: "distinct (Q q) \<Longrightarrow> set (q_remove t Q q) = set (Q q) - {t}"
  by (simp add: q_remove_def)

lemma q_remove_distinct [simp]: "distinct (Q q) \<Longrightarrow> distinct (q_remove t Q q)"
  by (simp add: q_remove_def)

lemma q_remove_absent: "t \<notin> set (Q q) \<Longrightarrow> q_remove t Q q = Q q"
  by (simp add: q_remove_def remove1_idem)

lemma q_remove_none: "(\<And>q. t \<notin> set (Q q)) \<Longrightarrow> q_remove t Q = Q"
  by (rule ext) (simp add: q_remove_absent)

end
