(* ===== verification/Scheduler.thy ===== *)
theory Scheduler
  imports Kernel_State
begin

text \<open>
  The scheduler of \<^verbatim>\<open>rt-thread/src/scheduler.c\<close> (single core, 32 priorities) with the
  bit search \<^verbatim>\<open>__rt_ffs\<close> of \<^verbatim>\<open>libcpu/arm/cortex-m3/cpuport.c\<close> and
  of \<^verbatim>\<open>kservice.c\<close>, and the invariant of the thread queues, \<open>sched_wf\<close>, which the
  operations of the thread, timer and IPC theories keep.
\<close>

section \<open>Find first set\<close>

text \<open>The instructions RBIT and CLZ of the Cortex-M3 and the function built from them.\<close>

definition rbit :: "u32 \<Rightarrow> u32" where
  "rbit w = horner_sum of_bool 2 (map (bit w) (rev [0..<32]))"

fun clz_from :: "nat \<Rightarrow> u32 \<Rightarrow> nat" where
  "clz_from 0 w = 0"
| "clz_from (Suc n) w = (if bit w n then 0 else Suc (clz_from n w))"

definition rt_ffs :: "u32 \<Rightarrow> nat" where
  "rt_ffs w = (if w = 0 then 0 else clz_from 32 (rbit w) + 1)"

text \<open>The portable version of kservice.c, with its table of 256 entries.\<close>

definition lowest_bit_bitmap :: "nat list" where
  "lowest_bit_bitmap =
    (let r = [0, 1, 0, 2, 0, 1, 0, 3, 0, 1, 0, 2, 0, 1, 0] in
     0 # r @ 4 # r @ 5 # r @ 4 # r @ 6 # r @ 4 # r @ 5 # r @ 4 # r @
     7 # r @ 4 # r @ 5 # r @ 4 # r @ 6 # r @ 4 # r @ 5 # r @ 4 # r)"

definition rt_ffs_table :: "u32 \<Rightarrow> nat" where
  "rt_ffs_table v =
     (if v = 0 then 0
      else if v AND 0xff \<noteq> 0 then lowest_bit_bitmap ! unat (v AND 0xff) + 1
      else if v AND 0xff00 \<noteq> 0 then lowest_bit_bitmap ! unat (drop_bit 8 (v AND 0xff00)) + 9
      else if v AND 0xff0000 \<noteq> 0 then lowest_bit_bitmap ! unat (drop_bit 16 (v AND 0xff0000)) + 17
      else lowest_bit_bitmap ! unat (drop_bit 24 (v AND 0xff000000)) + 25)"

section \<open>Operations of scheduler.c\<close>

text \<open>An index into \<^verbatim>\<open>rt_thread_priority_table\<close>; there is no list beyond the table.\<close>

definition priority_table :: "u8 \<Rightarrow> qid option" where
  "priority_table p = (if p < RT_THREAD_PRIORITY_MAX then Some (QReady (unat p)) else None)"

definition rt_scheduler_stack_check :: "rt_thread \<Rightarrow> unit option" where
  "rt_scheduler_stack_check th =
     (if stack_byte th \<noteq> 0x23 \<or> sp th \<le> stack_addr th \<or> sp th > stack_addr th + stack_size th
      then None else Some ())"

definition get_highest_priority_thread :: "kernel \<Rightarrow> (tid \<times> nat) option" where
  "get_highest_priority_thread k =
     (if ready_group k = 0 then None else
      (let highest_ready_priority = rt_ffs (ready_group k) - 1 in
       case queues k (QReady highest_ready_priority) of
         [] \<Rightarrow> None
       | t # _ \<Rightarrow> Some (t, highest_ready_priority)))"

definition rt_system_scheduler_init :: "kernel \<Rightarrow> kernel" where
  "rt_system_scheduler_init k =
     k\<lparr>lock_nest := 0,
       queues := (\<lambda>q. case q of QReady p \<Rightarrow> if p < unat RT_THREAD_PRIORITY_MAX then [] else queues k q
                              | QDefunct \<Rightarrow> [] | _ \<Rightarrow> queues k q),
       ready_group := 0\<rparr>"

definition rt_schedule_insert_thread :: "tid \<Rightarrow> kernel \<Rightarrow> kernel option" where
  "rt_schedule_insert_thread t k =
     (if current k = Some t then Some (upd_thr t (set_stat RT_THREAD_RUNNING) k)
      else do {
        let k = upd_thr t (set_stat RT_THREAD_READY) k;
        q \<leftarrow> priority_table (current_priority (thr k t));
        let k = k\<lparr>queues := q_append q t (queues k)\<rparr>;
        Some (k\<lparr>ready_group := ready_group k OR number_mask (thr k t)\<rparr>) })"

definition rt_schedule_remove_thread :: "tid \<Rightarrow> kernel \<Rightarrow> kernel option" where
  "rt_schedule_remove_thread t k = do {
     let k = unlink t k;
     q \<leftarrow> priority_table (current_priority (thr k t));
     Some (if queues k q = []
           then k\<lparr>ready_group := ready_group k AND NOT (number_mask (thr k t))\<rparr> else k) }"

definition rt_system_scheduler_start :: "kernel \<Rightarrow> kernel option" where
  "rt_system_scheduler_start k = do {
     (to_thread, _) \<leftarrow> get_highest_priority_thread k;
     let k = k\<lparr>current := Some to_thread\<rparr>;
     k \<leftarrow> rt_schedule_remove_thread to_thread k;
     Some (upd_thr to_thread (stat_update (\<lambda>_. RT_THREAD_RUNNING)) k) }"

definition rt_schedule :: "kernel \<Rightarrow> kernel option" where
  "rt_schedule k =
     (if lock_nest k \<noteq> 0 \<or> ready_group k = 0 then Some k
      else do {
        (highest, highest_ready_priority) \<leftarrow> get_highest_priority_thread k;
        c \<leftarrow> current k;
        let (to_thread, need_insert, k) =
          (if st k c = RT_THREAD_RUNNING then
             (if prio k c < highest_ready_priority then (c, False, k)
              else if prio k c = highest_ready_priority \<and> stat (thr k c) AND RT_THREAD_STAT_YIELD = 0
              then (c, False, k)
              else (highest, True,
                    upd_thr c (\<lambda>th. th\<lparr>stat := stat th AND NOT RT_THREAD_STAT_YIELD\<rparr>) k))
           else (highest, False, k));
        if to_thread \<noteq> c then do {
          let k = k\<lparr>cur_priority := of_nat highest_ready_priority, current := Some to_thread\<rparr>;
          k \<leftarrow> (if need_insert then rt_schedule_insert_thread c k else Some k);
          k \<leftarrow> rt_schedule_remove_thread to_thread k;
          let k = upd_thr to_thread (set_stat RT_THREAD_RUNNING) k;
          rt_scheduler_stack_check (thr k to_thread);
          Some k }
        else do {
          k \<leftarrow> rt_schedule_remove_thread c k;
          Some (upd_thr c (set_stat RT_THREAD_RUNNING) k) } })"

definition rt_enter_critical :: "kernel \<Rightarrow> kernel" where
  "rt_enter_critical k = k\<lparr>lock_nest := lock_nest k + 1\<rparr>"

definition rt_exit_critical :: "kernel \<Rightarrow> kernel option" where
  "rt_exit_critical k =
     (let k = k\<lparr>lock_nest := lock_nest k - 1\<rparr> in
      if sint (lock_nest k) \<le> 0 then
        (let k = k\<lparr>lock_nest := 0\<rparr> in
         if current k \<noteq> None then rt_schedule k else Some k)
      else Some k)"

definition rt_critical_level :: "kernel \<Rightarrow> u16" where
  "rt_critical_level k = lock_nest k"

section \<open>The bit search finds the lowest bit\<close>

definition lowest_bit :: "u32 \<Rightarrow> nat \<Rightarrow> bool" where
  "lowest_bit w i \<longleftrightarrow> bit w i \<and> (\<forall>j<i. \<not> bit w j)"

lemma lowest_bit_unique: "lowest_bit w i \<Longrightarrow> lowest_bit w j \<Longrightarrow> i = j"
  by (meson linorder_neqE_nat lowest_bit_def)

lemma bit_rbit: "bit (rbit w) n \<longleftrightarrow> n < 32 \<and> bit w (31 - n)"
  by (auto simp: rbit_def bit_horner_sum_bit_iff rev_nth bit_imp_le_length)

lemma clz_from_first:
  "\<exists>i<n. bit w i \<Longrightarrow>
   clz_from n w < n \<and> bit w (n - 1 - clz_from n w) \<and> (\<forall>j<clz_from n w. \<not> bit w (n - 1 - j))"
proof (induction n)
  case (Suc n)
  show ?case
  proof (cases "bit w n")
    case False
    then have "\<exists>i<n. bit w i" using Suc.prems less_Suc_eq by auto
    from Suc.IH [OF this] False show ?thesis by (auto simp: less_Suc_eq_0_disj)
  qed simp
qed simp

lemma word_nonzero_bit:
  assumes "(w :: u32) \<noteq> 0"
  shows "\<exists>i<32. bit w i"
proof (rule ccontr)
  assume "\<not> ?thesis"
  then have "w = 0" by (intro bit_word_eqI) auto
  then show False using assms by simp
qed

lemma rt_ffs_lowest:
  assumes "w \<noteq> 0"
  shows "\<exists>i<32. rt_ffs w = Suc i \<and> lowest_bit w i"
proof -
  obtain i where i: "i < 32" "bit w i" using word_nonzero_bit [OF assms] by blast
  then have "\<exists>i<32. bit (rbit w) i" by (intro exI [of _ "31 - i"]) (simp add: bit_rbit)
  note c = clz_from_first [OF this]
  let ?c = "clz_from 32 (rbit w)"
  have r: "bit (rbit w) (32 - 1 - j) \<longleftrightarrow> bit w j" if "j < 32" for j
    using that by (auto simp: bit_rbit)
  have "bit w ?c" using c r [of ?c] by blast
  moreover have "\<not> bit w j" if "j < ?c" for j using c r [of j] that by (meson less_trans)
  ultimately show ?thesis using c assms by (auto simp: rt_ffs_def lowest_bit_def)
qed

fun bitmap_ok :: "nat \<Rightarrow> nat list \<Rightarrow> bool" where
  "bitmap_ok n [] \<longleftrightarrow> True"
| "bitmap_ok n (x # xs) \<longleftrightarrow> x < 8 \<and> n mod 2 ^ Suc x = 2 ^ x \<and> bitmap_ok (Suc n) xs"

lemma bitmap_ok_nth:
  "bitmap_ok n xs \<Longrightarrow> i < length xs \<Longrightarrow> xs ! i < 8 \<and> (n + i) mod 2 ^ Suc (xs ! i) = 2 ^ (xs ! i)"
proof (induction xs arbitrary: n i)
  case (Cons x xs)
  then show ?case by (cases i) force+
qed simp

lemma mod_power_lowest_bit:
  assumes "n mod 2 ^ Suc x = 2 ^ x"
  shows "bit n x \<and> (\<forall>j<x. \<not> bit (n :: nat) j)"
proof -
  have "take_bit (Suc x) n = 2 ^ x" using assms by (simp add: take_bit_eq_mod)
  then have "bit (take_bit (Suc x) n) j \<longleftrightarrow> bit (2 ^ x :: nat) j" for j by simp
  then have "j < Suc x \<Longrightarrow> bit n j \<longleftrightarrow> j = x" for j
    by (auto simp: bit_take_bit_iff bit_exp_iff)
  then show ?thesis by auto
qed

lemma lowest_bit_bitmap_correct:
  assumes "0 < n" "n < 256"
  shows "lowest_bit_bitmap ! n < 8 \<and> bit n (lowest_bit_bitmap ! n) \<and> (\<forall>j<lowest_bit_bitmap ! n. \<not> bit n j)"
proof -
  have "bitmap_ok 1 (tl lowest_bit_bitmap)" by (simp add: lowest_bit_bitmap_def)
  moreover have "length lowest_bit_bitmap = 256" by (simp add: lowest_bit_bitmap_def)
  moreover have "tl lowest_bit_bitmap ! (n - 1) = lowest_bit_bitmap ! n"
    using assms by (cases n) (simp_all add: lowest_bit_bitmap_def)
  ultimately show ?thesis
    using bitmap_ok_nth [of 1 "tl lowest_bit_bitmap" "n - 1"] assms mod_power_lowest_bit [of n "lowest_bit_bitmap ! n"] by simp
qed

text \<open>One step of the table search: the byte at bit \<open>s\<close> is the lowest that is not zero.\<close>

lemma table_byte:
  assumes b: "b \<noteq> 0" "unat b < 256" and bits: "\<And>j. bit b j \<longleftrightarrow> j < 8 \<and> bit (v :: u32) (s + j)"
    and low: "\<And>j. j < s \<Longrightarrow> \<not> bit v j"
  shows "lowest_bit v (lowest_bit_bitmap ! unat b + s)"
proof -
  have "0 < unat b" using b(1) by (simp add: unat_gt_0)
  note t = lowest_bit_bitmap_correct [OF this b(2)]
  have ub: "bit (unat b) j \<longleftrightarrow> bit b j" for j by (simp add: bit_unsigned_iff)
  have "\<not> bit v j" if "j < lowest_bit_bitmap ! unat b + s" for j
    using that low [of j] t bits [of "j - s"] ub [of "j - s"] by (cases "j < s") auto
  then show ?thesis using t bits [of "lowest_bit_bitmap ! unat b"] ub by (auto simp: lowest_bit_def add.commute)
qed

lemma table_zero: "v AND 0xff = 0 \<Longrightarrow> j < 8 \<Longrightarrow> \<not> bit (v :: u32) j"
  "v AND 0xff00 = 0 \<Longrightarrow> 8 \<le> j \<Longrightarrow> j < 16 \<Longrightarrow> \<not> bit v j"
  "v AND 0xff0000 = 0 \<Longrightarrow> 16 \<le> j \<Longrightarrow> j < 24 \<Longrightarrow> \<not> bit v j"
proof -
  have m: "(0xff :: u32) = mask 8" "(0xff00 :: u32) = push_bit 8 (mask 8)" "(0xff0000 :: u32) = push_bit 16 (mask 8)"
    by (simp_all add: mask_eq_exp_minus_1 push_bit_eq_mult)
  show "v AND 0xff = 0 \<Longrightarrow> j < 8 \<Longrightarrow> \<not> bit v j"
    unfolding m by (drule arg_cong [where f = "\<lambda>w. bit w j"]) (simp add: bit_simps)
  show "v AND 0xff00 = 0 \<Longrightarrow> 8 \<le> j \<Longrightarrow> j < 16 \<Longrightarrow> \<not> bit v j"
    unfolding m by (drule arg_cong [where f = "\<lambda>w. bit w j"]) (auto simp: bit_simps)
  show "v AND 0xff0000 = 0 \<Longrightarrow> 16 \<le> j \<Longrightarrow> j < 24 \<Longrightarrow> \<not> bit v j"
    unfolding m by (drule arg_cong [where f = "\<lambda>w. bit w j"]) (auto simp: bit_simps)
qed

lemma table_field:
  fixes v :: u32
  assumes "s \<le> 24"
  shows "bit (drop_bit s (v AND push_bit s (mask 8))) j \<longleftrightarrow> j < 8 \<and> bit v (s + j)"
    and "unat (drop_bit s (v AND push_bit s (mask 8))) < 256"
proof -
  show b: "bit (drop_bit s (v AND push_bit s (mask 8))) j \<longleftrightarrow> j < 8 \<and> bit v (s + j)" for j
    using assms by (auto simp: bit_simps)
  have "drop_bit s (v AND push_bit s (mask 8)) = take_bit 8 (drop_bit s v)"
    by (rule bit_word_eqI) (use b in \<open>auto simp: bit_simps\<close>)
  then show "unat (drop_bit s (v AND push_bit s (mask 8))) < 256"
    using take_bit_nat_less_exp [of 8 "unat (drop_bit s v)"] by (simp add: unsigned_take_bit_eq)
qed

lemma rt_ffs_table_lowest:
  assumes "v \<noteq> 0"
  shows "\<exists>i. rt_ffs_table v = Suc i \<and> lowest_bit v i"
proof -
  have m: "(0xff :: u32) = mask 8" "(0xff00 :: u32) = push_bit 8 (mask 8)"
    "(0xff0000 :: u32) = push_bit 16 (mask 8)" "(0xff000000 :: u32) = push_bit 24 (mask 8)"
    by (simp_all add: mask_eq_exp_minus_1 push_bit_eq_mult)
  let ?f = "\<lambda>s. drop_bit s (v AND push_bit s (mask 8))"
  have lb: "lowest_bit v (lowest_bit_bitmap ! unat (?f s) + s)"
    if "?f s \<noteq> 0" "s \<le> 24" "\<And>j. j < s \<Longrightarrow> \<not> bit v j" for s
    using table_byte [of "?f s" v s] table_field [of s v] that by blast
  have z: "?f s = 0 \<longleftrightarrow> v AND push_bit s (mask 8) = 0" if "s \<le> 24" for s
  proof
    assume "?f s = 0"
    then have "\<And>j. j < 8 \<Longrightarrow> \<not> bit v (s + j)" using table_field(1) [OF that, of v] by (metis bit_0_eq bot_apply bot_bool_def)
    then show "v AND push_bit s (mask 8) = 0"
      by (intro bit_word_eqI) (auto simp: bit_simps, metis add_diff_inverse_nat linorder_not_less)
  qed simp
  note tz = table_zero [of v, unfolded m]
  have none: "\<not> bit v j" if "v AND mask 8 = 0" "v AND push_bit 8 (mask 8) = 0" "v AND push_bit 16 (mask 8) = 0" "j < 24" for j
    using tz that by (metis linorder_not_less)
  have f0: "?f 0 = v AND mask 8" by simp
  consider "v AND mask 8 \<noteq> 0" | "v AND mask 8 = 0" "?f 8 \<noteq> 0" | "v AND mask 8 = 0" "?f 8 = 0" "?f 16 \<noteq> 0"
    | "v AND mask 8 = 0" "?f 8 = 0" "?f 16 = 0" "?f 24 \<noteq> 0"
  proof -
    have "?f 24 \<noteq> 0" if "v AND mask 8 = 0" "?f 8 = 0" "?f 16 = 0"
    proof
      assume "?f 24 = 0"
      then have "\<not> bit v j" if "24 \<le> j" "j < 32" for j
        using table_field(1) [of 24 v "j - 24"] that by simp
      moreover have "\<not> bit v j" if "j < 24" for j using none z that \<open>v AND mask 8 = 0\<close> \<open>?f 8 = 0\<close> \<open>?f 16 = 0\<close> by simp
      ultimately have "\<not> bit v j" if "j < 32" for j using that by (meson not_le)
      then have "v = 0" by (intro bit_word_eqI) simp
      then show False using assms by simp
    qed
    then show thesis using that by blast
  qed
  then show ?thesis
  proof cases
    case 1 then show ?thesis using lb [of 0] assms f0 by (simp add: rt_ffs_table_def m add.commute)
  next
    case 2 then show ?thesis using lb [of 8] assms z [of 8] tz by (simp add: rt_ffs_table_def m add.commute)
  next
    case 3 then show ?thesis using lb [of 16] assms z [of 8] z [of 16] tz
      by (simp add: rt_ffs_table_def m add.commute) (metis linorder_not_less)
  next
    case 4 then show ?thesis using lb [of 24] assms z [of 8] z [of 16] none by (simp add: rt_ffs_table_def m add.commute)
  qed
qed

section \<open>The invariant of the thread queues\<close>

definition stack_ok :: "rt_thread \<Rightarrow> bool" where
  "stack_ok th \<longleftrightarrow> rt_scheduler_stack_check th = Some ()"

definition live :: "u8 \<Rightarrow> bool" where
  "live s \<longleftrightarrow> s = RT_THREAD_READY \<or> s = RT_THREAD_SUSPEND \<or> s = RT_THREAD_RUNNING"

lemma live_simps [simp]:
  "live RT_THREAD_READY" "live RT_THREAD_SUSPEND" "live RT_THREAD_RUNNING"
  "\<not> live RT_THREAD_INIT" "\<not> live RT_THREAD_CLOSE"
  by (simp_all add: live_def)

fun is_wait :: "qid \<Rightarrow> bool" where
  "is_wait (QReady p) \<longleftrightarrow> False"
| "is_wait QDefunct \<longleftrightarrow> False"
| "is_wait _ \<longleftrightarrow> True"

definition in_queue :: "kernel \<Rightarrow> tid \<Rightarrow> bool" where
  "in_queue k t \<longleftrightarrow> (\<exists>q. t \<in> set (queues k q))"

text \<open>
  Each thread is in at most one queue, once; the ready table holds exactly the READY threads, each in the
  list of its priority; the bit of a priority is set in the ready group exactly when its list is not
  empty; wait lists hold suspended threads, the defunct list closed ones; at most the current thread is
  RUNNING, and a RUNNING thread is in no queue. The condition on one thread reads its record, its place
  in the queues and whether it is the current thread.
\<close>

definition queues_wf :: "(qid \<Rightarrow> tid list) \<Rightarrow> bool" where
  "queues_wf Q \<longleftrightarrow> (\<forall>q. distinct (Q q)) \<and> (\<forall>q q' t. t \<in> set (Q q) \<longrightarrow> t \<in> set (Q q') \<longrightarrow> q = q')"

definition group_wf :: "kernel \<Rightarrow> bool" where
  "group_wf k \<longleftrightarrow> (\<forall>p. bit (ready_group k) p \<longleftrightarrow> queues k (QReady p) \<noteq> [])"

definition prio_wf :: "rt_thread \<Rightarrow> bool" where
  "prio_wf th \<longleftrightarrow>
     unat (current_priority th) < 32 \<and> number_mask th = 2 ^ unat (current_priority th)"

definition thread_wf :: "rt_thread \<Rightarrow> bool" where
  "thread_wf th \<longleftrightarrow> (live (stat_of th) \<longrightarrow> prio_wf th \<and> stack_ok th)"

definition place_wf :: "rt_thread \<Rightarrow> qid set \<Rightarrow> bool \<Rightarrow> bool" where
  "place_wf th qs cur \<longleftrightarrow>
     (\<forall>p. QReady p \<in> qs \<longleftrightarrow> stat_of th = RT_THREAD_READY \<and> unat (current_priority th) = p) \<and>
     (\<forall>q\<in>qs. is_wait q \<longrightarrow> stat_of th = RT_THREAD_SUSPEND) \<and>
     (QDefunct \<in> qs \<longrightarrow> stat_of th = RT_THREAD_CLOSE) \<and>
     (stat_of th = RT_THREAD_RUNNING \<longrightarrow> cur) \<and>
     (cur \<longrightarrow> stat_of th \<noteq> RT_THREAD_READY \<and> stat_of th \<noteq> RT_THREAD_INIT)"

definition homes :: "(qid \<Rightarrow> tid list) \<Rightarrow> tid \<Rightarrow> qid set" where
  "homes Q t = {q. t \<in> set (Q q)}"

definition thr_wf :: "kernel \<Rightarrow> tid \<Rightarrow> bool" where
  "thr_wf k t \<longleftrightarrow> thread_wf (thr k t) \<and> place_wf (thr k t) (homes (queues k) t) (current k = Some t)"

definition sched_wf :: "kernel \<Rightarrow> bool" where
  "sched_wf k \<longleftrightarrow> queues_wf (queues k) \<and> group_wf k \<and> (\<forall>t. thr_wf k t)"

lemma sched_wfI [intro?]:
  "queues_wf (queues k) \<Longrightarrow> group_wf k \<Longrightarrow> (\<And>t. thr_wf k t) \<Longrightarrow> sched_wf k"
  by (simp add: sched_wf_def)

lemma sched_wfD:
  assumes "sched_wf k"
  shows "queues_wf (queues k)" "group_wf k" "thr_wf k t" "thread_wf (thr k t)"
    "place_wf (thr k t) (homes (queues k) t) (current k = Some t)"
  using assms by (auto simp: sched_wf_def thr_wf_def)

lemma thr_wf_cong:
  "thr k' t = thr k t \<Longrightarrow> homes (queues k') t = homes (queues k) t \<Longrightarrow>
   current k' = Some t \<longleftrightarrow> current k = Some t \<Longrightarrow> thr_wf k' t = thr_wf k t"
  by (simp add: thr_wf_def)

text \<open>The shape of the proofs below: only the thread \<open>t\<close> and its place change.\<close>

lemma sched_wf_change:
  assumes "sched_wf k" "queues_wf (queues k')" "group_wf k'" "thr_wf k' t"
    and "\<And>u. u \<noteq> t \<Longrightarrow> thr k' u = thr k u \<and> homes (queues k') u = homes (queues k) u \<and>
               (current k' = Some u \<longleftrightarrow> current k = Some u)"
  shows "sched_wf k'"
proof
  show "thr_wf k' u" for u
    using assms(4,5) sched_wfD(3) [OF assms(1), of u] thr_wf_cong [of k' u k] by (cases "u = t") auto
qed (use assms in auto)

text \<open>The invariant reads four fields of the kernel only.\<close>

lemma sched_wf_cong:
  "queues k' = queues k \<Longrightarrow> ready_group k' = ready_group k \<Longrightarrow> thr k' = thr k \<Longrightarrow> current k' = current k \<Longrightarrow>
   sched_wf k' = sched_wf k"
  by (simp add: sched_wf_def group_wf_def thr_wf_def)

lemma sched_wf_frame [simp]:
  "sched_wf (k\<lparr>timers := a\<rparr>) = sched_wf k" "sched_wf (k\<lparr>timer_list := b\<rparr>) = sched_wf k"
  "sched_wf (k\<lparr>soft_timer_list := b\<rparr>) = sched_wf k" "sched_wf (k\<lparr>objs := c\<rparr>) = sched_wf k"
  "sched_wf (k\<lparr>object_list := d\<rparr>) = sched_wf k" "sched_wf (k\<lparr>lock_nest := e\<rparr>) = sched_wf k"
  "sched_wf (k\<lparr>cur_priority := f\<rparr>) = sched_wf k" "sched_wf (k\<lparr>interrupt_nest := g\<rparr>) = sched_wf k"
  "sched_wf (k\<lparr>tick := h\<rparr>) = sched_wf k" "sched_wf (k\<lparr>sems := i\<rparr>) = sched_wf k"
  "sched_wf (k\<lparr>mutexes := j\<rparr>) = sched_wf k" "sched_wf (k\<lparr>events := l\<rparr>) = sched_wf k"
  "sched_wf (k\<lparr>mailboxes := m\<rparr>) = sched_wf k" "sched_wf (k\<lparr>mqs := n\<rparr>) = sched_wf k"
  by (rule sched_wf_cong; simp)+

lemma stack_ok_fields [simp]:
  "stack_ok (th\<lparr>terror := e\<rparr>) = stack_ok th" "stack_ok (th\<lparr>current_priority := p\<rparr>) = stack_ok th"
  "stack_ok (th\<lparr>number_mask := m\<rparr>) = stack_ok th" "stack_ok (th\<lparr>event_set := v\<rparr>) = stack_ok th"
  "stack_ok (th\<lparr>event_info := i\<rparr>) = stack_ok th" "stack_ok (th\<lparr>remaining_tick := r\<rparr>) = stack_ok th"
  "stack_ok (th\<lparr>stat := s\<rparr>) = stack_ok th" "stack_ok (set_stat s th) = stack_ok th"
  "stack_ok (th\<lparr>init_priority := p\<rparr>) = stack_ok th"
  by (simp_all add: stack_ok_def rt_scheduler_stack_check_def set_stat_def)

lemma prio_wf_fields [simp]:
  "prio_wf (th\<lparr>terror := e\<rparr>) = prio_wf th" "prio_wf (th\<lparr>event_set := v\<rparr>) = prio_wf th"
  "prio_wf (th\<lparr>event_info := i\<rparr>) = prio_wf th" "prio_wf (th\<lparr>remaining_tick := r\<rparr>) = prio_wf th"
  "prio_wf (th\<lparr>stat := s\<rparr>) = prio_wf th" "prio_wf (set_stat s th) = prio_wf th"
  by (simp_all add: prio_wf_def)

section \<open>Queues\<close>

lemma homes_remove [simp]:
  assumes "queues_wf Q"
  shows "homes (q_remove t Q) u = (if u = t then {} else homes Q u)"
  using assms by (auto simp: homes_def q_remove_def queues_wf_def)

lemma homes_append [simp]: "homes (q_append q t Q) u = (if u = t then insert q (homes Q u) else homes Q u)"
  by (auto simp: homes_def q_append_def)

lemma homes_push [simp]: "homes (q_push q t Q) u = (if u = t then insert q (homes Q u) else homes Q u)"
  by (auto simp: homes_def q_push_def)

lemma homes_empty_iff: "homes Q t = {} \<longleftrightarrow> (\<forall>q. t \<notin> set (Q q))"
  by (auto simp: homes_def)

lemma queues_wf_remove [simp]: "queues_wf Q \<Longrightarrow> queues_wf (q_remove t Q)"
  by (auto simp: queues_wf_def q_remove_def)

lemma queues_wf_insert:
  assumes "queues_wf Q" "homes Q t = {}" "set xs = insert t (set (Q q))" "distinct xs"
  shows "queues_wf (Q(q := xs))"
  using assms by (auto simp: queues_wf_def homes_def)

lemma queues_wf_append [simp]: "queues_wf Q \<Longrightarrow> homes Q t = {} \<Longrightarrow> queues_wf (q_append q t Q)"
  unfolding q_append_def by (rule queues_wf_insert) (auto simp: homes_def queues_wf_def)

lemma queues_wf_push [simp]: "queues_wf Q \<Longrightarrow> homes Q t = {} \<Longrightarrow> queues_wf (q_push q t Q)"
  unfolding q_push_def by (rule queues_wf_insert) (auto simp: homes_def queues_wf_def)

lemma homes_single: "queues_wf Q \<Longrightarrow> t \<in> set (Q q) \<Longrightarrow> homes Q t = {q}"
  by (auto simp: queues_wf_def homes_def)

section \<open>Removing and inserting\<close>

lemma set_stat_same: "stat_of th = s \<Longrightarrow> set_stat s th = th"
proof -
  have "(x AND m) OR (x AND NOT m) = (x :: u8)" for x m by (rule bit_word_eqI) (auto simp: bit_simps)
  then show "stat_of th = s \<Longrightarrow> set_stat s th = th" by (auto simp: set_stat_def stat_of_def)
qed

lemma priority_table_ok [simp]: "prio_wf th \<Longrightarrow> priority_table (current_priority th) = Some (QReady (unat (current_priority th)))"
  by (simp add: priority_table_def prio_wf_def RT_THREAD_PRIORITY_MAX_def word_less_nat_alt)

lemma bit_clear_group:
  "p < 32 \<Longrightarrow> bit (g AND NOT (2 ^ p) :: u32) j \<longleftrightarrow> bit g j \<and> j \<noteq> p"
  by (auto simp: bit_simps dest: bit_imp_le_length)

lemma bit_set_group: "p < 32 \<Longrightarrow> bit (g OR 2 ^ p :: u32) j \<longleftrightarrow> bit g j \<or> j = p"
  by (auto simp: bit_simps)

lemma remove_thread_spec:
  assumes q: "queues_wf (queues k)" and g: "group_wf k" and p: "prio_wf (thr k t)"
    and h: "\<And>p. QReady p \<in> homes (queues k) t \<Longrightarrow> p = prio k t"
  obtains g' where "rt_schedule_remove_thread t k = Some (k\<lparr>queues := q_remove t (queues k), ready_group := g'\<rparr>)"
    and "group_wf (k\<lparr>queues := q_remove t (queues k), ready_group := g'\<rparr>)"
proof -
  let ?Q = "q_remove t (queues k)"
  let ?g = "if ?Q (QReady (prio k t)) = [] then ready_group k AND NOT (number_mask (thr k t)) else ready_group k"
  have other: "?Q (QReady j) = queues k (QReady j)" if "j \<noteq> prio k t" for j
    using h [of j] that by (auto simp: homes_def intro: q_remove_absent)
  have sub: "?Q (QReady j) \<noteq> [] \<Longrightarrow> queues k (QReady j) \<noteq> []" for j by (auto simp: q_remove_def)
  have "bit ?g j \<longleftrightarrow> ?Q (QReady j) \<noteq> []" for j
    using g p other [of j] sub [of j] by (cases "j = prio k t") (auto simp: group_wf_def prio_wf_def bit_clear_group)
  then show thesis using that [of ?g] p by (auto simp: rt_schedule_remove_thread_def group_wf_def Let_def)
qed

lemma insert_thread_spec:
  assumes g: "group_wf k" and p: "prio_wf (thr k t)" and c: "current k \<noteq> Some t"
  obtains g' where "rt_schedule_insert_thread t k =
      Some (k\<lparr>thr := (thr k)(t := set_stat RT_THREAD_READY (thr k t)),
              queues := q_append (QReady (prio k t)) t (queues k), ready_group := g'\<rparr>)"
    and "group_wf (k\<lparr>thr := (thr k)(t := set_stat RT_THREAD_READY (thr k t)),
              queues := q_append (QReady (prio k t)) t (queues k), ready_group := g'\<rparr>)"
proof -
  let ?g = "ready_group k OR number_mask (thr k t)"
  have "bit ?g j \<longleftrightarrow> q_append (QReady (prio k t)) t (queues k) (QReady j) \<noteq> []" for j
    using g p by (auto simp: group_wf_def prio_wf_def bit_set_group q_append_def)
  then have "group_wf (k\<lparr>thr := (thr k)(t := set_stat RT_THREAD_READY (thr k t)),
              queues := q_append (QReady (prio k t)) t (queues k), ready_group := ?g\<rparr>)"
    by (simp add: group_wf_def)
  then show thesis using p c by (intro that [of ?g]) (simp_all add: rt_schedule_insert_thread_def)
qed

lemma insert_current_spec:
  "current k = Some t \<Longrightarrow> rt_schedule_insert_thread t k = Some (upd_thr t (set_stat RT_THREAD_RUNNING) k)"
  by (simp add: rt_schedule_insert_thread_def)

section \<open>rt_schedule\<close>

definition highest_ready :: "kernel \<Rightarrow> tid \<Rightarrow> nat \<Rightarrow> bool" where
  "highest_ready k t p \<longleftrightarrow> p < 32 \<and> (\<exists>ts. queues k (QReady p) = t # ts) \<and> (\<forall>j<p. queues k (QReady j) = [])"

lemma get_highest_spec:
  assumes "group_wf k" "ready_group k \<noteq> 0"
  obtains t p where "get_highest_priority_thread k = Some (t, p)" "highest_ready k t p"
proof -
  obtain p where p: "p < 32" "rt_ffs (ready_group k) = Suc p" "lowest_bit (ready_group k) p"
    using rt_ffs_lowest assms(2) by blast
  then obtain t ts where q: "queues k (QReady p) = t # ts"
    using assms(1) by (metis group_wf_def lowest_bit_def neq_Nil_conv)
  have "highest_ready k t p"
    using p q assms(1) by (auto simp: highest_ready_def group_wf_def lowest_bit_def)
  then show thesis using that [of t p] p q assms(2) by (simp add: get_highest_priority_thread_def)
qed

lemma highest_ready_thread:
  assumes "sched_wf k" "highest_ready k t p"
  shows "st k t = RT_THREAD_READY" "prio k t = p" "current k \<noteq> Some t" "thread_wf (thr k t)"
    "homes (queues k) t = {QReady p}"
proof -
  have "QReady p \<in> homes (queues k) t" using assms(2) by (auto simp: highest_ready_def homes_def)
  then show "st k t = RT_THREAD_READY" "prio k t = p" "current k \<noteq> Some t" "thread_wf (thr k t)"
    "homes (queues k) t = {QReady p}"
    using sched_wfD(1) [OF assms(1)] sched_wfD(4,5) [OF assms(1), of t] homes_single [of "queues k" t "QReady p"]
    by (auto simp: place_wf_def homes_def)
qed

lemma highest_ready_least:
  "sched_wf k \<Longrightarrow> highest_ready k t p \<Longrightarrow> st k u = RT_THREAD_READY \<Longrightarrow> p \<le> prio k u"
  using sched_wfD(5) [of k u] by (force simp: highest_ready_def place_wf_def homes_def not_less [symmetric])

lemma rt_schedule_none: "lock_nest k \<noteq> 0 \<or> ready_group k = 0 \<Longrightarrow> rt_schedule k = Some k"
  by (auto simp: rt_schedule_def)

lemma current_homes:
  assumes "sched_wf k" "current k = Some c" "st k c = RT_THREAD_RUNNING"
  shows "homes (queues k) c = {}"
proof -
  have "q \<notin> homes (queues k) c" for q
    using sched_wfD(5) [OF assms(1), of c] assms(3) by (cases q) (auto simp: place_wf_def)
  then show ?thesis by blast
qed

text \<open>The running thread keeps the processor: nothing changes.\<close>

lemma rt_schedule_stay:
  assumes wf: "sched_wf k" and c: "current k = Some c" "st k c = RT_THREAD_RUNNING"
    and h: "highest_ready k t p" and l: "lock_nest k = 0" "ready_group k \<noteq> 0"
    and keep: "prio k c < p \<or> prio k c = p \<and> stat (thr k c) AND RT_THREAD_STAT_YIELD = 0"
  shows "rt_schedule k = Some k"
proof -
  have hc: "homes (queues k) c = {}" using current_homes [OF wf c] .
  then have qr: "q_remove c (queues k) = queues k" by (auto simp: homes_def intro: q_remove_none)
  have pw: "prio_wf (thr k c)" using sched_wfD(4) [OF wf, of c] c by (simp add: thread_wf_def)
  have h0: "\<And>p. QReady p \<in> homes (queues k) c \<Longrightarrow> p = prio k c" using hc by simp
  obtain g where g: "rt_schedule_remove_thread c k = Some (k\<lparr>queues := queues k, ready_group := g\<rparr>)"
    "group_wf (k\<lparr>queues := queues k, ready_group := g\<rparr>)"
    using remove_thread_spec [OF sched_wfD(1) [OF wf] sched_wfD(2) [OF wf] pw h0] unfolding qr by blast
  then have "g = ready_group k"
    using sched_wfD(2) [OF wf] by (intro bit_word_eqI) (simp add: group_wf_def)
  then have rm: "rt_schedule_remove_thread c k = Some k" using g(1) by simp
  obtain t' p' where gh: "get_highest_priority_thread k = Some (t', p')" "highest_ready k t' p'"
    using get_highest_spec [OF sched_wfD(2) [OF wf] l(2)] .
  then have "p' = p" using h by (metis highest_ready_def linorder_neqE_nat list.distinct(1))
  then show ?thesis using gh(1) c l keep rm by (auto simp: rt_schedule_def set_stat_same)
qed

text \<open>The processor goes to the first thread of the highest ready priority.\<close>

definition clear_yield :: "rt_thread \<Rightarrow> rt_thread" where
  "clear_yield th = th\<lparr>stat := stat th AND NOT RT_THREAD_STAT_YIELD\<rparr>"

lemma clear_yield_fields [simp]:
  "stat_of (clear_yield th) = stat_of th" "current_priority (clear_yield th) = current_priority th"
  "number_mask (clear_yield th) = number_mask th" "stack_ok (clear_yield th) = stack_ok th"
  "prio_wf (clear_yield th) = prio_wf th"
proof -
  have "NOT RT_THREAD_STAT_YIELD AND RT_THREAD_STAT_MASK = RT_THREAD_STAT_MASK"
    by (simp add: RT_THREAD_STAT_YIELD_def RT_THREAD_STAT_MASK_def)
  then show "stat_of (clear_yield th) = stat_of th"
    by (simp add: clear_yield_def stat_of_def and.assoc)
qed (simp_all add: clear_yield_def)

abbreviation dispatched :: "tid \<Rightarrow> nat \<Rightarrow> (qid \<Rightarrow> tid list) \<Rightarrow> u32 \<Rightarrow> (tid \<Rightarrow> rt_thread) \<Rightarrow> kernel \<Rightarrow> kernel" where
  "dispatched to p Q g T k \<equiv>
     k\<lparr>cur_priority := of_nat p, current := Some to, queues := Q, ready_group := g, thr := T\<rparr>"

lemma rt_schedule_switch_out:
  assumes wf: "sched_wf k" and c: "current k = Some c" "st k c \<noteq> RT_THREAD_RUNNING"
    and h: "highest_ready k to p" and l: "lock_nest k = 0" "ready_group k \<noteq> 0"
  obtains g where "rt_schedule k = Some (dispatched to p (q_remove to (queues k)) g
                     ((thr k)(to := set_stat RT_THREAD_RUNNING (thr k to))) k)"
    and "sched_wf (dispatched to p (q_remove to (queues k)) g
                     ((thr k)(to := set_stat RT_THREAD_RUNNING (thr k to))) k)"
proof -
  let ?k = "\<lambda>g. dispatched to p (q_remove to (queues k)) g
                     ((thr k)(to := set_stat RT_THREAD_RUNNING (thr k to))) k"
  note r = highest_ready_thread [OF wf h]
  obtain t' p' where gh: "get_highest_priority_thread k = Some (t', p')" "highest_ready k t' p'"
    using get_highest_spec [OF sched_wfD(2) [OF wf] l(2)] .
  then have tp: "p' = p" "t' = to"
    using h by (auto simp: highest_ready_def) (metis linorder_neqE_nat list.distinct(1) list.inject)+
  let ?k1 = "k\<lparr>cur_priority := of_nat p, current := Some to\<rparr>"
  have "queues_wf (queues ?k1)" "group_wf ?k1" "prio_wf (thr ?k1 to)"
    "\<And>j. QReady j \<in> homes (queues ?k1) to \<Longrightarrow> j = prio ?k1 to"
    using sched_wfD(1,2) [OF wf] r by (auto simp: group_wf_def thread_wf_def)
  from remove_thread_spec [OF this] obtain g where g:
    "rt_schedule_remove_thread to ?k1 = Some (?k1\<lparr>queues := q_remove to (queues k), ready_group := g\<rparr>)"
    "group_wf (?k1\<lparr>queues := q_remove to (queues k), ready_group := g\<rparr>)" by auto
  have ne: "to \<noteq> c" using r(3) c by auto
  have "stack_ok (thr k to)" using r by (simp add: thread_wf_def)
  then have "rt_scheduler_stack_check (set_stat RT_THREAD_RUNNING (thr k to)) = Some ()"
    by (simp add: stack_ok_def [symmetric])
  then have "rt_schedule k = Some (?k g)"
    using gh(1) tp c l g(1) ne by (simp add: rt_schedule_def)
  moreover have "sched_wf (?k g)"
  proof
    show "queues_wf (queues (?k g))" using sched_wfD(1) [OF wf] by simp
    show "group_wf (?k g)" using g(2) by (simp add: group_wf_def)
    show "thr_wf (?k g) u" for u
      using sched_wfD(1) [OF wf] sched_wfD(3) [OF wf, of u] r c ne
      by (auto simp: thr_wf_def thread_wf_def place_wf_def)
  qed
  ultimately show thesis by (rule that)
qed

lemma rt_schedule_preempt:
  assumes wf: "sched_wf k" and c: "current k = Some c" "st k c = RT_THREAD_RUNNING"
    and h: "highest_ready k to p" and l: "lock_nest k = 0" "ready_group k \<noteq> 0"
    and lose: "p < prio k c \<or> prio k c = p \<and> stat (thr k c) AND RT_THREAD_STAT_YIELD \<noteq> 0"
  obtains g where "rt_schedule k = Some (dispatched to p
        (q_remove to (q_append (QReady (prio k c)) c (queues k))) g
        ((thr k)(c := set_stat RT_THREAD_READY (clear_yield (thr k c)),
                 to := set_stat RT_THREAD_RUNNING (thr k to))) k)"
    and "sched_wf (dispatched to p (q_remove to (q_append (QReady (prio k c)) c (queues k))) g
        ((thr k)(c := set_stat RT_THREAD_READY (clear_yield (thr k c)),
                 to := set_stat RT_THREAD_RUNNING (thr k to))) k)"
proof -
  let ?k = "\<lambda>g. dispatched to p (q_remove to (q_append (QReady (prio k c)) c (queues k))) g
        ((thr k)(c := set_stat RT_THREAD_READY (clear_yield (thr k c)),
                 to := set_stat RT_THREAD_RUNNING (thr k to))) k"
  note r = highest_ready_thread [OF wf h]
  obtain t' p' where gh: "get_highest_priority_thread k = Some (t', p')" "highest_ready k t' p'"
    using get_highest_spec [OF sched_wfD(2) [OF wf] l(2)] .
  then have tp: "p' = p" "t' = to"
    using h by (auto simp: highest_ready_def) (metis linorder_neqE_nat list.distinct(1) list.inject)+
  have ne: "to \<noteq> c" using r(3) c by auto
  have hc: "homes (queues k) c = {}" using current_homes [OF wf c] .
  have pc: "prio_wf (thr k c)" using sched_wfD(4) [OF wf, of c] c by (simp add: thread_wf_def)
  let ?y = "upd_thr c clear_yield k"
  let ?k1 = "?y\<lparr>cur_priority := of_nat p, current := Some to\<rparr>"
  have "group_wf ?k1" "prio_wf (thr ?k1 c)" "current ?k1 \<noteq> Some c"
    using sched_wfD(2) [OF wf] pc ne by (auto simp: group_wf_def)
  from insert_thread_spec [OF this] obtain g1 where
    i: "rt_schedule_insert_thread c ?k1 =
         Some (?k1\<lparr>thr := (thr k)(c := set_stat RT_THREAD_READY (clear_yield (thr k c))),
                   queues := q_append (QReady (prio k c)) c (queues k), ready_group := g1\<rparr>)"
       "group_wf (?k1\<lparr>thr := (thr k)(c := set_stat RT_THREAD_READY (clear_yield (thr k c))),
                   queues := q_append (QReady (prio k c)) c (queues k), ready_group := g1\<rparr>)"
    by auto
  then obtain k2 where
    k2: "k2 = ?k1\<lparr>thr := (thr k)(c := set_stat RT_THREAD_READY (clear_yield (thr k c))),
                queues := q_append (QReady (prio k c)) c (queues k), ready_group := g1\<rparr>"
    and g1: "rt_schedule_insert_thread c ?k1 = Some k2" "group_wf k2" by blast
  have qw: "queues_wf (queues k2)" using sched_wfD(1) [OF wf] hc by (simp add: k2)
  have "prio_wf (thr k2 to)" "\<And>j. QReady j \<in> homes (queues k2) to \<Longrightarrow> j = prio k2 to"
    using ne r by (auto simp: thread_wf_def k2)
  from remove_thread_spec [OF qw g1(2) this] obtain g where g:
    "rt_schedule_remove_thread to k2 = Some (k2\<lparr>queues := q_remove to (queues k2), ready_group := g\<rparr>)"
    "group_wf (k2\<lparr>queues := q_remove to (queues k2), ready_group := g\<rparr>)" by auto
  have so: "stack_ok (thr k to)" using r by (simp add: thread_wf_def)
  have "rt_scheduler_stack_check (set_stat RT_THREAD_RUNNING (thr k to)) = Some ()"
    using so by (simp add: stack_ok_def [symmetric])
  then have "rt_schedule k = Some (?k g)"
    using gh(1) tp c l g(1) g1(1) ne lose by (auto simp: rt_schedule_def clear_yield_def [symmetric] k2)
  moreover have "sched_wf (?k g)"
  proof
    show "queues_wf (queues (?k g))" using qw by (simp add: k2)
    show "group_wf (?k g)" using g(2) by (simp add: group_wf_def k2)
    show "thr_wf (?k g) u" for u
    proof -
      have hm: "homes (queues (?k g)) v = (if v = to then {} else if v = c then {QReady (prio k c)} else homes (queues k) v)" for v
        using qw hc ne by (simp add: k2)
      consider "u = to" | "u = c" | "u \<noteq> to" "u \<noteq> c" by blast
      then show ?thesis
      proof cases
        case 1 then show ?thesis unfolding thr_wf_def hm using r so by (simp add: thread_wf_def place_wf_def)
      next
        case 2
        have "live (st k c)" using c by simp
        then have "stack_ok (thr k c)" using sched_wfD(4) [OF wf, of c] by (simp add: thread_wf_def)
        then show ?thesis unfolding thr_wf_def hm using 2 ne pc by (auto simp: thread_wf_def place_wf_def)
      next
        case 3
        then show ?thesis
          using sched_wfD(3) [OF wf, of u] c unfolding thr_wf_def hm by simp
      qed
    qed
  qed
  ultimately show thesis by (rule that)
qed

subsection \<open>What every schedule keeps\<close>

definition runnable :: "u8 \<Rightarrow> bool" where
  "runnable s \<longleftrightarrow> s = RT_THREAD_READY \<or> s = RT_THREAD_RUNNING"

lemma runnable_simps [simp]:
  "runnable RT_THREAD_READY" "runnable RT_THREAD_RUNNING" "\<not> runnable RT_THREAD_SUSPEND"
  "\<not> runnable RT_THREAD_INIT" "\<not> runnable RT_THREAD_CLOSE"
  by (simp_all add: runnable_def)

text \<open>
  A schedule only moves threads between READY and RUNNING: it changes the ready lists, the current
  thread and status bytes of runnable threads.
\<close>

definition outer :: "kernel \<Rightarrow> kernel" where
  "outer k = k\<lparr>queues := (\<lambda>_. []), ready_group := 0, thr := (\<lambda>_. undefined), current := None, cur_priority := 0\<rparr>"

definition but_stat :: "rt_thread \<Rightarrow> rt_thread" where
  "but_stat th = th\<lparr>stat := 0\<rparr>"

definition sched_step :: "kernel \<Rightarrow> kernel \<Rightarrow> bool" where
  "sched_step k k' \<longleftrightarrow> outer k' = outer k \<and>
     (\<forall>q. (\<forall>p. q \<noteq> QReady p) \<longrightarrow> queues k' q = queues k q) \<and>
     (\<forall>t. but_stat (thr k' t) = but_stat (thr k t)) \<and>
     (\<forall>t. \<not> runnable (st k t) \<longrightarrow> thr k' t = thr k t) \<and>
     (\<forall>t. runnable (st k t) \<longrightarrow> runnable (st k' t)) \<and>
     (current k \<noteq> None \<longrightarrow> current k' \<noteq> None)"

lemma sched_step_refl [simp]: "sched_step k k"
  by (simp add: sched_step_def)

lemma sched_step_trans: "sched_step k1 k2 \<Longrightarrow> sched_step k2 k3 \<Longrightarrow> sched_step k1 k3"
  by (auto simp: sched_step_def)

lemma outer_fields:
  assumes "outer k' = outer k"
  shows "objs k' = objs k" "object_list k' = object_list k" "timers k' = timers k"
    "timer_list k' = timer_list k" "soft_timer_list k' = soft_timer_list k" "tick k' = tick k"
    "lock_nest k' = lock_nest k" "interrupt_nest k' = interrupt_nest k" "sems k' = sems k"
    "mutexes k' = mutexes k" "events k' = events k" "mailboxes k' = mailboxes k" "mqs k' = mqs k"
  using arg_cong [OF assms, of objs] arg_cong [OF assms, of object_list] arg_cong [OF assms, of timers]
    arg_cong [OF assms, of timer_list] arg_cong [OF assms, of soft_timer_list] arg_cong [OF assms, of tick]
    arg_cong [OF assms, of lock_nest] arg_cong [OF assms, of interrupt_nest] arg_cong [OF assms, of sems]
    arg_cong [OF assms, of mutexes] arg_cong [OF assms, of events] arg_cong [OF assms, of mailboxes]
    arg_cong [OF assms, of mqs]
  by (simp_all add: outer_def)

lemma but_stat_fields:
  assumes "but_stat a = but_stat b"
  shows "current_priority a = current_priority b" "terror a = terror b" "init_priority a = init_priority b"
    "number_mask a = number_mask b" "event_set a = event_set b" "event_info a = event_info b"
    "cleanup a = cleanup b" "init_tick a = init_tick b" "remaining_tick a = remaining_tick b"
  using arg_cong [OF assms, of current_priority] arg_cong [OF assms, of terror]
    arg_cong [OF assms, of init_priority] arg_cong [OF assms, of number_mask] arg_cong [OF assms, of event_set]
    arg_cong [OF assms, of event_info] arg_cong [OF assms, of cleanup] arg_cong [OF assms, of init_tick]
    arg_cong [OF assms, of remaining_tick]
  by (simp_all add: but_stat_def)

lemma sched_stepD:
  assumes "sched_step k k'"
  shows "outer k' = outer k" "(\<And>p. q \<noteq> QReady p) \<Longrightarrow> queues k' q = queues k q"
    "but_stat (thr k' t) = but_stat (thr k t)" "\<not> runnable (st k t) \<Longrightarrow> thr k' t = thr k t"
    "runnable (st k t) \<Longrightarrow> runnable (st k' t)" "current k \<noteq> None \<Longrightarrow> current k' \<noteq> None"
  using assms by (auto simp: sched_step_def)

lemma sched_step_suspend:
  assumes "sched_step k k'"
  shows "st k' t = RT_THREAD_SUSPEND \<longleftrightarrow> st k t = RT_THREAD_SUSPEND"
  using sched_stepD(4,5) [OF assms, of t] by (metis runnable_simps(3))

lemma but_stat_set [simp]: "but_stat (set_stat s th) = but_stat th" "but_stat (clear_yield th) = but_stat th"
  by (simp_all add: but_stat_def set_stat_def clear_yield_def)

lemma rt_schedule_spec:
  assumes wf: "sched_wf k" and c: "current k = Some c"
  obtains k' where "rt_schedule k = Some k'" "sched_wf k'" "sched_step k k'"
proof (cases "lock_nest k \<noteq> 0 \<or> ready_group k = 0")
  case True
  then show thesis using wf by (intro that [of k]) (simp_all add: rt_schedule_none)
next
  case False
  then have l: "lock_nest k = 0" "ready_group k \<noteq> 0" by auto
  obtain to p where h: "highest_ready k to p" using get_highest_spec [OF sched_wfD(2) [OF wf] l(2)] .
  note r = highest_ready_thread [OF wf h]
  show thesis
  proof (cases "st k c = RT_THREAD_RUNNING")
    case run: True
    consider "prio k c < p \<or> prio k c = p \<and> stat (thr k c) AND RT_THREAD_STAT_YIELD = 0"
      | "p < prio k c \<or> prio k c = p \<and> stat (thr k c) AND RT_THREAD_STAT_YIELD \<noteq> 0"
      by linarith
    then show thesis
    proof cases
      case 1
      then show thesis using rt_schedule_stay [OF wf c run h l] wf by (intro that [of k]) simp_all
    next
      case 2
      obtain g where g: "rt_schedule k = Some (dispatched to p
          (q_remove to (q_append (QReady (prio k c)) c (queues k))) g
          ((thr k)(c := set_stat RT_THREAD_READY (clear_yield (thr k c)),
                   to := set_stat RT_THREAD_RUNNING (thr k to))) k)"
        "sched_wf (dispatched to p (q_remove to (q_append (QReady (prio k c)) c (queues k))) g
          ((thr k)(c := set_stat RT_THREAD_READY (clear_yield (thr k c)),
                   to := set_stat RT_THREAD_RUNNING (thr k to))) k)"
        using rt_schedule_preempt [OF wf c run h l 2] .
      have "q_remove to (q_append (QReady (prio k c)) c (queues k)) q = queues k q" if "\<forall>p. q \<noteq> QReady p" for q
        using that r(5) by (auto simp: q_append_def q_remove_def homes_def intro!: remove1_idem)
      then show thesis using r run by (intro that [OF g]) (simp add: sched_step_def outer_def)
    qed
  next
    case susp: False
    obtain g where g: "rt_schedule k = Some (dispatched to p (q_remove to (queues k)) g
          ((thr k)(to := set_stat RT_THREAD_RUNNING (thr k to))) k)"
        "sched_wf (dispatched to p (q_remove to (queues k)) g
          ((thr k)(to := set_stat RT_THREAD_RUNNING (thr k to))) k)"
      using rt_schedule_switch_out [OF wf c susp h l] .
    have "q_remove to (queues k) q = queues k q" if "\<forall>p. q \<noteq> QReady p" for q
      using that r(5) by (auto simp: q_remove_def homes_def intro!: remove1_idem)
    then show thesis using r by (intro that [OF g]) (simp add: sched_step_def outer_def)
  qed
qed

section \<open>A kernel before the scheduler starts, and small examples\<close>

definition zero_thread :: rt_thread where
  "zero_thread = \<lparr>sp = 0, entry = 0, parameter = 0, stack_addr = 0, stack_size = 0, stack_byte = 0, terror = 0,
     stat = 0, current_priority = 0, init_priority = 0, number_mask = 0, event_set = 0, event_info = 0,
     init_tick = 0, remaining_tick = 0, cleanup = None, user_data = 0\<rparr>"

definition zero_mq :: rt_messagequeue where
  "zero_mq = \<lparr>msg_size = 0, max_msgs = 0, mq_entry = 0, mq_next = (\<lambda>_. None), mq_data = (\<lambda>_. []),
     msg_queue_head = None, msg_queue_tail = None, msg_queue_free = None\<rparr>"

definition boot :: kernel where
  "boot = \<lparr>objs = (\<lambda>_. \<lparr>oname = [], otype = 0, oflag = 0\<rparr>), object_list = (\<lambda>_. []), thr = (\<lambda>_. zero_thread),
     queues = (\<lambda>_. []), ready_group = 0, lock_nest = 0, current = None, cur_priority = 0, interrupt_nest = 0,
     tick = 0, timers = (\<lambda>t. \<lparr>timeout_func = User_timeout 0, timer_init_tick = 0, timeout_tick = 0\<rparr>),
     timer_list = [], soft_timer_list = [], sems = (\<lambda>_. \<lparr>sem_value = 0\<rparr>),
     mutexes = (\<lambda>_. \<lparr>mutex_value = 0, original_priority = 0, hold = 0, owner = None\<rparr>),
     events = (\<lambda>_. \<lparr>event_bits = 0\<rparr>),
     mailboxes = (\<lambda>_. \<lparr>mb_pool = [], mb_size = 0, mb_entry = 0, in_offset = 0, out_offset = 0\<rparr>),
     mqs = (\<lambda>_. zero_mq)\<rparr>"

lemma stat_of_zero [simp]: "stat_of zero_thread = RT_THREAD_INIT"
  by (simp add: stat_of_def zero_thread_def RT_THREAD_INIT_def)

lemma thread_wf_zero [simp]: "thread_wf zero_thread"
  by (simp add: thread_wf_def)

lemma boot_wf: "sched_wf boot"
  by (auto simp: sched_wf_def boot_def queues_wf_def group_wf_def thr_wf_def homes_def place_wf_def)

definition sample_thread :: "u8 \<Rightarrow> u8 \<Rightarrow> rt_thread" where
  "sample_thread s p = zero_thread\<lparr>stat := s, current_priority := p, init_priority := p, number_mask := 2 ^ unat p,
     sp := 0x20000100, stack_addr := 0x20000000, stack_size := 512, stack_byte := 0x23, init_tick := 5, remaining_tick := 5\<rparr>"

lemma sample_thread_ok [simp]:
  "stat_of (sample_thread s p) = s AND 7" "current_priority (sample_thread s p) = p"
  "number_mask (sample_thread s p) = 2 ^ unat p" "stat (sample_thread s p) = s" "stack_ok (sample_thread s p)"
  "terror (sample_thread s p) = 0"
  by (simp_all add: sample_thread_def stat_of_def RT_THREAD_STAT_MASK_def stack_ok_def
      rt_scheduler_stack_check_def zero_thread_def)

text \<open>
  Three threads: 5 is running with its time slice used up, 6 is ready at the same priority, 7 is
  suspended at a higher priority.
\<close>

definition three :: kernel where
  "three = boot\<lparr>thr := (thr boot)(5 := sample_thread 0x0b 10, 6 := sample_thread 1 10, 7 := sample_thread 2 3),
     queues := (queues boot)(QReady 10 := [6]), ready_group := 1024, current := Some 5, cur_priority := 10\<rparr>"

lemma three_wf: "sched_wf three"
proof
  show "queues_wf (queues three)" by (simp add: three_def boot_def queues_wf_def)
  have "bit (1024 :: u32) p \<longleftrightarrow> p = 10" for p
    using bit_exp_iff [where 'a = u32, of 10 p] by auto
  then show "group_wf three" by (simp add: three_def boot_def group_wf_def)
  show "thr_wf three t" for t
    by (auto simp: three_def boot_def thr_wf_def thread_wf_def prio_wf_def place_wf_def homes_def stat_defs live_def)
qed

section \<open>Properties\<close>

text \<open>
  C9: the table search of kservice.c and the RBIT/CLZ search of the Cortex-M3 port compute the same
  function on every 32-bit word.
\<close>

theorem rt_ffs_table_equiv: "rt_ffs_table w = rt_ffs w"
proof (cases "w = 0")
  case False
  then obtain i j where "rt_ffs w = Suc i" "lowest_bit w i" "rt_ffs_table w = Suc j" "lowest_bit w j"
    using rt_ffs_lowest rt_ffs_table_lowest by blast
  then show ?thesis using lowest_bit_unique by simp
qed (simp add: rt_ffs_def rt_ffs_table_def)

text \<open>
  C1: in a well-formed kernel with the scheduler unlocked, \<open>rt_schedule\<close> always returns, keeps the
  invariant, and leaves a RUNNING current thread whose priority number is the least of all runnable threads.
\<close>

theorem rt_schedule_runs_highest:
  assumes wf: "sched_wf k" and c: "current k = Some c" and l: "lock_nest k = 0"
    and some: "st k c = RT_THREAD_RUNNING \<or> ready_group k \<noteq> 0"
  shows "\<exists>k' r. rt_schedule k = Some k' \<and> sched_wf k' \<and> current k' = Some r \<and> st k' r = RT_THREAD_RUNNING \<and>
           (\<forall>t. runnable (st k' t) \<longrightarrow> prio k' r \<le> prio k' t)"
proof (cases "ready_group k = 0")
  case True
  have "queues k (QReady p) = []" for p using sched_wfD(2) [OF wf] True by (simp add: group_wf_def)
  then have "st k t \<noteq> RT_THREAD_READY" for t
    using sched_wfD(5) [OF wf, of t] by (auto simp: place_wf_def homes_def)
  moreover have "st k t = RT_THREAD_RUNNING \<Longrightarrow> t = c" for t
    using sched_wfD(5) [OF wf, of t] c by (auto simp: place_wf_def)
  ultimately have "\<forall>t. runnable (st k t) \<longrightarrow> prio k c \<le> prio k t" by (auto simp: runnable_def)
  then show ?thesis using rt_schedule_none [of k] True wf c some by blast
next
  case ne: False
  obtain to p where h: "highest_ready k to p" using get_highest_spec [OF sched_wfD(2) [OF wf] ne] .
  note r = highest_ready_thread [OF wf h] and least = highest_ready_least [OF wf h]
  have only: "st k t = RT_THREAD_RUNNING \<Longrightarrow> t = c" for t
    using sched_wfD(5) [OF wf, of t] c by (auto simp: place_wf_def)
  consider (stay) "st k c = RT_THREAD_RUNNING" "prio k c < p \<or> prio k c = p \<and> stat (thr k c) AND RT_THREAD_STAT_YIELD = 0"
    | (preempt) "st k c = RT_THREAD_RUNNING" "p < prio k c \<or> prio k c = p \<and> stat (thr k c) AND RT_THREAD_STAT_YIELD \<noteq> 0"
    | (out) "st k c \<noteq> RT_THREAD_RUNNING"
    by linarith
  then show ?thesis
  proof cases
    case stay
    then have "prio k c \<le> prio k t" if "runnable (st k t)" for t
      using that least [of t] only [of t] by (auto simp: runnable_def)
    then show ?thesis using rt_schedule_stay [OF wf c stay(1) h l ne stay(2)] wf c stay(1) by blast
  next
    case preempt
    let ?T = "(thr k)(c := set_stat RT_THREAD_READY (clear_yield (thr k c)), to := set_stat RT_THREAD_RUNNING (thr k to))"
    have "p \<le> unat (current_priority (?T t))" if "runnable (stat_of (?T t))" for t
    proof -
      consider "t = to" | "t = c" "t \<noteq> to" | "t \<noteq> to" "t \<noteq> c" by blast
      then show ?thesis
      proof cases
        case 1 then show ?thesis using r(2) by simp
      next
        case 2 then show ?thesis using preempt(2) by auto
      next
        case 3 then show ?thesis using that least [of t] only [of t] by (auto simp: runnable_def)
      qed
    qed
    then show ?thesis
    proof (rule_tac rt_schedule_preempt [OF wf c preempt(1) h l ne preempt(2)], goal_cases)
      case (1 g)
      show ?case
        by (rule exI, rule exI [of _ to], intro conjI, rule 1(2), rule 1(3)) (use r 1(1) in simp_all)
    qed
  next
    case out
    let ?T = "(thr k)(to := set_stat RT_THREAD_RUNNING (thr k to))"
    have "p \<le> unat (current_priority (?T t))" if "runnable (stat_of (?T t))" for t
      using that least [of t] only [of t] out r by (auto simp: runnable_def split: if_splits)
    then show ?thesis
    proof (rule_tac rt_schedule_switch_out [OF wf c out h l ne], goal_cases)
      case (1 g)
      show ?case
        by (rule exI, rule exI [of _ to], intro conjI, rule 1(2), rule 1(3)) (use r 1(1) in simp_all)
    qed
  qed
qed

theorem rt_schedule_runs_highest_witness:
  "\<exists>k' r. rt_schedule three = Some k' \<and> sched_wf k' \<and> current k' = Some r \<and> st k' r = RT_THREAD_RUNNING \<and>
     (\<forall>t. runnable (st k' t) \<longrightarrow> prio k' r \<le> prio k' t)"
  by (rule rt_schedule_runs_highest [OF three_wf, of 5]) (simp_all add: three_def boot_def)

text \<open>
  C4: round robin. When the running thread has used up its time slice (its YIELD bit is set) and the list
  of its priority is the highest that is not empty, \<open>rt_schedule\<close> runs the first thread of the list
  and puts the running one, now READY with the bit cleared, at the back.
\<close>

theorem rt_schedule_round_robin:
  assumes wf: "sched_wf k" and c: "current k = Some c" "st k c = RT_THREAD_RUNNING" and l: "lock_nest k = 0"
    and y: "stat (thr k c) AND RT_THREAD_STAT_YIELD \<noteq> 0"
    and q: "queues k (QReady (prio k c)) = t # ts" "\<forall>p<prio k c. queues k (QReady p) = []"
  shows "\<exists>k'. rt_schedule k = Some k' \<and> sched_wf k' \<and> current k' = Some t \<and>
     queues k' (QReady (prio k c)) = ts @ [c] \<and> st k' c = RT_THREAD_READY \<and>
     stat (thr k' c) AND RT_THREAD_STAT_YIELD = 0"
proof -
  have "prio k c < 32" using sched_wfD(4) [OF wf, of c] c by (simp add: thread_wf_def prio_wf_def)
  then have h: "highest_ready k t (prio k c)" using q by (simp add: highest_ready_def)
  have ne: "ready_group k \<noteq> 0" using sched_wfD(2) [OF wf] q(1) by (auto simp: group_wf_def)
  have tc: "t \<noteq> c" using highest_ready_thread(3) [OF wf h] c by auto
  have "t \<notin> set ts" using sched_wfD(1) [OF wf] q(1) by (metis distinct.simps(2) queues_wf_def)
  then have qe: "q_remove t (q_append (QReady (prio k c)) c (queues k)) (QReady (prio k c)) = ts @ [c]"
    using q(1) by (simp add: q_remove_def q_append_def)
  have cy: "stat (set_stat RT_THREAD_READY (clear_yield th)) AND RT_THREAD_STAT_YIELD = 0" for th
    unfolding set_stat_def clear_yield_def
    by (rule bit_word_eqI) (auto simp: bit_simps RT_THREAD_READY_def RT_THREAD_STAT_YIELD_def bit_0 intro!: gr0I)
  show ?thesis
    by (rule rt_schedule_preempt [OF wf c h l ne]) (use y qe tc cy c in auto)
qed

theorem rt_schedule_round_robin_witness:
  "\<exists>k'. rt_schedule three = Some k' \<and> sched_wf k' \<and> current k' = Some 6 \<and>
     queues k' (QReady 10) = [] @ [5] \<and> st k' 5 = RT_THREAD_READY \<and> stat (thr k' 5) AND RT_THREAD_STAT_YIELD = 0"
  using rt_schedule_round_robin [OF three_wf, of 5 6 "[]"]
  by (simp add: three_def boot_def RT_THREAD_RUNNING_def RT_THREAD_STAT_YIELD_def)

end
