(* ===== verification/Object.thy ===== *)
theory Object
  imports Scheduler
begin

text \<open>
  The object container of \<^verbatim>\<open>rt-thread/src/object.c\<close> and the two string functions of
  \<^verbatim>\<open>kservice.c\<close> it uses. Names are strings without a terminator; the array
  \<^verbatim>\<open>name[RT_NAME_MAX]\<close> holds at most eight characters.

  \<open>rt_object_init\<close> and \<open>rt_object_find\<close> walk a list inside a critical section whose end
  is a scheduling point. A schedule that does not suspend the caller is followed here by the rest of the
  function, as when the preempted thread continues before any other thread touches the object.
\<close>

section \<open>Strings (kservice.c)\<close>

definition rt_strncpy :: "nat \<Rightarrow> string \<Rightarrow> string" where
  "rt_strncpy n s = take n (takeWhile (\<lambda>c. c \<noteq> CHR 0x00) s)"

definition char_diff :: "char \<Rightarrow> char \<Rightarrow> int" where
  "char_diff a b = sint (of_char a - of_char b :: 8 word)"

fun rt_strncmp :: "string \<Rightarrow> string \<Rightarrow> nat \<Rightarrow> int" where
  "rt_strncmp cs ct 0 = 0"
| "rt_strncmp cs ct (Suc n) =
     (let a = (case cs of [] \<Rightarrow> CHR 0x00 | c # _ \<Rightarrow> c);
          b = (case ct of [] \<Rightarrow> CHR 0x00 | c # _ \<Rightarrow> c);
          res = char_diff a b
      in if res \<noteq> 0 \<or> a = CHR 0x00 then res else rt_strncmp (tl cs) (tl ct) n)"

section \<open>Operations of object.c\<close>

definition rt_object_container :: "u8 list" where
  "rt_object_container =
     [RT_Object_Class_Thread, RT_Object_Class_Semaphore, RT_Object_Class_Mutex, RT_Object_Class_Event,
      RT_Object_Class_MailBox, RT_Object_Class_MessageQueue, RT_Object_Class_MemPool,
      RT_Object_Class_Device, RT_Object_Class_Timer]"

definition rt_object_get_information :: "u8 \<Rightarrow> u8 option" where
  "rt_object_get_information type = find (\<lambda>c. c = type) rt_object_container"

definition rt_object_is_systemobject :: "objref \<Rightarrow> kernel \<Rightarrow> bool" where
  "rt_object_is_systemobject r k \<longleftrightarrow> otype (objs k r) AND RT_Object_Class_Static \<noteq> 0"

definition rt_object_get_type :: "objref \<Rightarrow> kernel \<Rightarrow> u8" where
  "rt_object_get_type r k = otype (objs k r) AND NOT RT_Object_Class_Static"

definition list_insert_object :: "u8 \<Rightarrow> objref \<Rightarrow> kernel \<Rightarrow> kernel" where
  "list_insert_object c r k = k\<lparr>object_list := q_push c r (object_list k)\<rparr>"

definition list_remove_object :: "objref \<Rightarrow> kernel \<Rightarrow> kernel" where
  "list_remove_object r k = k\<lparr>object_list := q_remove r (object_list k)\<rparr>"

definition rt_object_init :: "objref \<Rightarrow> u8 \<Rightarrow> string \<Rightarrow> kernel \<Rightarrow> kernel option" where
  "rt_object_init r type name k = do {
     c \<leftarrow> rt_object_get_information type;
     let k = rt_enter_critical k;
     rt_assert (r \<notin> set (object_list k c));
     k \<leftarrow> rt_exit_critical k;
     let k = upd_obj r (\<lambda>ob. ob\<lparr>otype := type OR RT_Object_Class_Static,
                                oname := rt_strncpy RT_NAME_MAX name\<rparr>) k;
     Some (list_insert_object c r k) }"

definition rt_object_detach :: "objref \<Rightarrow> kernel \<Rightarrow> kernel" where
  "rt_object_detach r k = list_remove_object r (upd_obj r (\<lambda>ob. ob\<lparr>otype := 0\<rparr>) k)"

text \<open>
  The memory that \<^verbatim>\<open>rt_memset\<close> clears is the whole structure: for a thread also its
  built-in timer. \<open>mem\<close> is the result of \<^verbatim>\<open>RT_KERNEL_MALLOC\<close>.
\<close>

definition zero_object :: rt_object where
  "zero_object = \<lparr>oname = [], otype = 0, oflag = 0\<rparr>"

definition zero_timer :: rt_timer where
  "zero_timer = \<lparr>timeout_func = User_timeout 0, timer_init_tick = 0, timeout_tick = 0\<rparr>"

definition memset_object :: "objref \<Rightarrow> kernel \<Rightarrow> kernel" where
  "memset_object r k =
     (let k = upd_obj r (\<lambda>_. zero_object) k in
      case r of
        OThread t \<Rightarrow> upd_obj (OTimer (TThread t)) (\<lambda>_. zero_object)
                       (upd_timer (TThread t) (\<lambda>_. zero_timer) (upd_thr t (\<lambda>_. zero_thread) k))
      | OTimer t \<Rightarrow> upd_timer t (\<lambda>_. zero_timer) k
      | OSem s \<Rightarrow> k\<lparr>sems := (sems k)(s := \<lparr>sem_value = 0\<rparr>)\<rparr>
      | OMutex m \<Rightarrow> k\<lparr>mutexes := (mutexes k)(m := \<lparr>mutex_value = 0, original_priority = 0, hold = 0, owner = None\<rparr>)\<rparr>
      | OEvent e \<Rightarrow> k\<lparr>events := (events k)(e := \<lparr>event_bits = 0\<rparr>)\<rparr>
      | OMb m \<Rightarrow> k\<lparr>mailboxes := (mailboxes k)(m := \<lparr>mb_pool = [], mb_size = 0, mb_entry = 0, in_offset = 0, out_offset = 0\<rparr>)\<rparr>
      | OMq m \<Rightarrow> k\<lparr>mqs := (mqs k)(m := zero_mq)\<rparr>
      | OMp m \<Rightarrow> k | ODevice d \<Rightarrow> k)"

definition rt_object_allocate :: "objref option \<Rightarrow> u8 \<Rightarrow> string \<Rightarrow> kernel \<Rightarrow> (objref option \<times> kernel) option" where
  "rt_object_allocate mem type name k = do {
     RT_DEBUG_NOT_IN_INTERRUPT k;
     c \<leftarrow> rt_object_get_information type;
     case mem of
       None \<Rightarrow> Some (None, k)
     | Some r \<Rightarrow>
         let k = memset_object r k;
             k = upd_obj r (\<lambda>ob. ob\<lparr>otype := type, oflag := 0, oname := rt_strncpy RT_NAME_MAX name\<rparr>) k
         in Some (Some r, list_insert_object c r k) }"

definition rt_object_delete :: "objref \<Rightarrow> kernel \<Rightarrow> kernel option" where
  "rt_object_delete r k = do {
     rt_assert (otype (objs k r) AND RT_Object_Class_Static = 0);
     Some (list_remove_object r (upd_obj r (\<lambda>ob. ob\<lparr>otype := 0\<rparr>) k)) }"

definition rt_object_find :: "string \<Rightarrow> u8 \<Rightarrow> kernel \<Rightarrow> (objref option \<times> kernel) option" where
  "rt_object_find name type k =
     (if type > RT_Object_Class_Unknown then Some (None, k)
      else do {
        RT_DEBUG_NOT_IN_INTERRUPT k;
        let k = rt_enter_critical k;
        c \<leftarrow> rt_object_get_information type;
        let r = find (\<lambda>r. rt_strncmp (oname (objs k r)) name RT_NAME_MAX = 0) (object_list k c);
        k \<leftarrow> rt_exit_critical k;
        Some (r, k) })"

section \<open>Critical sections\<close>

definition lock_ok :: "kernel \<Rightarrow> bool" where
  "lock_ok k \<longleftrightarrow> 0 \<le> sint (lock_nest k)"

lemma sint_zero_iff: "sint (w :: 'a::len word) = 0 \<longleftrightarrow> w = 0"
  using signed_eq_0_iff by blast

lemma critical_pair:
  assumes "lock_ok k"
  shows "rt_exit_critical (rt_enter_critical k) = (if current k = None then Some k else rt_schedule k)"
proof -
  have "k\<lparr>lock_nest := lock_nest k\<rparr> = k" by simp
  moreover have "sint (lock_nest k) \<le> 0 \<Longrightarrow> k\<lparr>lock_nest := 0\<rparr> = k"
    using assms sint_zero_iff [of "lock_nest k"] by (simp add: lock_ok_def)
  moreover have "\<not> sint (lock_nest k) \<le> 0 \<Longrightarrow> lock_nest k \<noteq> 0" by auto
  ultimately show ?thesis
    by (auto simp: rt_exit_critical_def rt_enter_critical_def rt_schedule_none)
qed

lemma critical_spec:
  assumes "sched_wf k" "lock_ok k"
  obtains k' where "rt_exit_critical (rt_enter_critical k) = Some k'" "sched_wf k'" "sched_step k k'"
  using assms critical_pair [of k] rt_schedule_spec [of k] by (cases "current k") auto

section \<open>Types and names\<close>

lemma class_container:
  "type \<in> set rt_object_container \<Longrightarrow> rt_object_get_information type = Some type"
  by (auto simp: rt_object_get_information_def rt_object_container_def class_defs)

lemma class_no_static:
  assumes "type \<in> set rt_object_container"
  shows "type AND RT_Object_Class_Static = 0" "(type OR RT_Object_Class_Static) AND NOT RT_Object_Class_Static = type"
    "type AND NOT RT_Object_Class_Static = type" "\<not> type > RT_Object_Class_Unknown"
    "(type OR RT_Object_Class_Static) AND RT_Object_Class_Static \<noteq> 0"
  using assms by (auto simp: rt_object_container_def class_defs)

definition cstring :: "string \<Rightarrow> bool" where
  "cstring s \<longleftrightarrow> CHR 0x00 \<notin> set s"

lemma of_char_eq_iff_word: "(of_char a :: 8 word) = of_char b \<longleftrightarrow> a = b"
proof
  assume "(of_char a :: 8 word) = of_char b"
  then have "unat (of_char a :: 8 word) = unat (of_char b :: 8 word)" by simp
  moreover have "unat (of_char c :: 8 word) = of_char c" for c
  proof -
    have "(of_char c :: 8 word) = of_nat (of_char c)" by (rule of_nat_of_char [symmetric])
    moreover have "(of_char c :: nat) < 2 ^ LENGTH(8)" using nat_of_char_less_256 [of c] by simp
    ultimately show ?thesis by (metis unat_of_nat_small)
  qed
  ultimately have "(of_char a :: nat) = of_char b" by simp
  then show "a = b" by simp
qed simp

lemma char_diff_zero: "char_diff a b = 0 \<longleftrightarrow> a = b"
  unfolding char_diff_def sint_zero_iff right_minus_eq of_char_eq_iff_word ..

lemma rt_strncmp_steps:
  "rt_strncmp [] [] (Suc n) = char_diff (CHR 0x00) (CHR 0x00)"
  "rt_strncmp [] (d # ct) (Suc n) = char_diff (CHR 0x00) d"
  "c \<noteq> CHR 0x00 \<Longrightarrow> rt_strncmp (c # cs) [] (Suc n) = char_diff c (CHR 0x00)"
  "c \<noteq> CHR 0x00 \<Longrightarrow>
   rt_strncmp (c # cs) (d # ct) (Suc n) = (if c = d then rt_strncmp cs ct n else char_diff c d)"
  by (simp_all only: rt_strncmp.simps list.case list.sel Let_def char_diff_zero simp_thms if_True if_False
      if_cancel) auto

lemma rt_strncmp_eq:
  "cstring cs \<Longrightarrow> cstring ct \<Longrightarrow> rt_strncmp cs ct n = 0 \<longleftrightarrow> take n cs = take n ct"
proof (induction n arbitrary: cs ct)
  case (Suc n)
  show ?case
  proof (cases cs)
    case Nil
    show ?thesis
    proof (cases ct)
      case (Cons d ct')
      then have "d \<noteq> CHR 0x00" using Suc.prems by (auto simp: cstring_def)
      then have "char_diff (CHR 0x00) d \<noteq> 0" unfolding char_diff_zero by metis
      then show ?thesis unfolding Nil Cons rt_strncmp_steps by simp
    qed (simp only: Nil rt_strncmp_steps char_diff_zero take_Nil refl simp_thms)
  next
    case c: (Cons c cs')
    then have nz: "c \<noteq> CHR 0x00" "cstring cs'" using Suc.prems by (auto simp: cstring_def)
    show ?thesis
    proof (cases ct)
      case Nil
      show ?thesis unfolding Nil c rt_strncmp_steps(3) [OF nz(1)] char_diff_zero using nz(1) by simp
    next
      case (Cons d ct')
      then have "cstring ct'" using Suc.prems by (simp add: cstring_def)
      from Suc.IH [OF nz(2) this] show ?thesis
        unfolding Cons c rt_strncmp_steps(4) [OF nz(1)] by (simp add: char_diff_zero)
    qed
  qed
qed simp

lemma rt_strncpy_cstring: "cstring s \<Longrightarrow> rt_strncpy n s = take n s"
proof -
  assume "cstring s"
  then have "takeWhile (\<lambda>c. c \<noteq> CHR 0x00) s = s" by (subst takeWhile_eq_all_conv) (auto simp: cstring_def)
  then show "rt_strncpy n s = take n s" by (simp only: rt_strncpy_def)
qed

lemma cstring_take: "cstring s \<Longrightarrow> cstring (take n s)"
  unfolding cstring_def by (meson in_set_takeD)

section \<open>Registration and lookup\<close>

text \<open>What the kernel theories use of object.c: the effect on types and on the scheduler state.\<close>

definition registered :: "objref \<Rightarrow> u8 \<Rightarrow> string \<Rightarrow> kernel \<Rightarrow> kernel" where
  "registered r type name k =
     list_insert_object type r
       (upd_obj r (\<lambda>ob. ob\<lparr>otype := type OR RT_Object_Class_Static, oname := rt_strncpy RT_NAME_MAX name\<rparr>) k)"

lemma rt_object_init_spec:
  assumes "sched_wf k" "lock_ok k" "type \<in> set rt_object_container" "r \<notin> set (object_list k type)"
  obtains k' where "rt_object_init r type name k = Some (registered r type name k')" "sched_wf k'" "sched_step k k'"
proof -
  obtain k' where "rt_exit_critical (rt_enter_critical k) = Some k'" "sched_wf k'" "sched_step k k'"
    using critical_spec assms(1,2) .
  then show thesis using assms(3,4)
    by (intro that [of k']) (simp_all add: rt_object_init_def class_container registered_def rt_enter_critical_def)
qed

lemma rt_object_find_spec:
  assumes "sched_wf k" "lock_ok k" "interrupt_nest k = 0" "type \<in> set rt_object_container"
  obtains k' where "rt_object_find name type k =
      Some (find (\<lambda>r. rt_strncmp (oname (objs k r)) name RT_NAME_MAX = 0) (object_list k type), k')"
    "sched_wf k'" "sched_step k k'"
proof -
  obtain k' where "rt_exit_critical (rt_enter_critical k) = Some k'" "sched_wf k'" "sched_step k k'"
    using critical_spec assms(1,2) .
  then show thesis using assms(3,4) class_no_static(4) [OF assms(4)]
    by (intro that [of k']) (simp_all add: rt_object_find_def class_container RT_DEBUG_NOT_IN_INTERRUPT_def
        rt_interrupt_get_nest_def rt_enter_critical_def)
qed

lemma registered_frame [simp]:
  "sched_wf (registered r type name k) = sched_wf k" "lock_nest (registered r type name k) = lock_nest k"
  "lock_ok (registered r type name k) = lock_ok k"
  "interrupt_nest (registered r type name k) = interrupt_nest k" "thr (registered r type name k) = thr k"
  "queues (registered r type name k) = queues k" "current (registered r type name k) = current k"
  "timers (registered r type name k) = timers k" "timer_list (registered r type name k) = timer_list k"
  "soft_timer_list (registered r type name k) = soft_timer_list k" "tick (registered r type name k) = tick k"
  "ready_group (registered r type name k) = ready_group k"
  "sems (registered r type name k) = sems k" "mutexes (registered r type name k) = mutexes k"
  "events (registered r type name k) = events k" "mailboxes (registered r type name k) = mailboxes k"
  "mqs (registered r type name k) = mqs k"
  by (simp_all add: registered_def list_insert_object_def lock_ok_def)

lemma registered_objs:
  "objs (registered r type name k) =
     (objs k)(r := (objs k r)\<lparr>otype := type OR RT_Object_Class_Static, oname := rt_strncpy RT_NAME_MAX name\<rparr>)"
  "object_list (registered r type name k) = q_push type r (object_list k)"
  by (simp_all add: registered_def list_insert_object_def)

section \<open>Properties\<close>

text \<open>
  C8: registration and lookup. \<open>rt_object_init\<close> of an object that is in no list returns, gives it the
  static type, and \<open>rt_object_find\<close> of the same name and class then returns this very object, whatever was
  registered before, both without disturbing the scheduler invariant.
\<close>

theorem object_init_find:
  assumes wf: "sched_wf k" "lock_ok k" and i: "interrupt_nest k = 0"
    and c: "type \<in> set rt_object_container" and r: "r \<notin> set (object_list k type)" and n: "cstring name"
  shows "\<exists>k1 k2. rt_object_init r type name k = Some k1 \<and> rt_object_find name type k1 = Some (Some r, k2) \<and>
           rt_object_get_type r k1 = type \<and> rt_object_is_systemobject r k1 \<and> sched_wf k2"
proof -
  obtain k' where k': "rt_object_init r type name k = Some (registered r type name k')" "sched_wf k'" "sched_step k k'"
    using rt_object_init_spec [OF wf c r] .
  let ?k1 = "registered r type name k'"
  note f = outer_fields [OF sched_stepD(1) [OF k'(3)]]
  have "sched_wf ?k1" "lock_ok ?k1" "interrupt_nest ?k1 = 0" using k'(2) wf(2) i f by (simp_all add: lock_ok_def)
  then obtain k2 where k2: "rt_object_find name type ?k1 =
      Some (find (\<lambda>r. rt_strncmp (oname (objs ?k1 r)) name RT_NAME_MAX = 0) (object_list ?k1 type), k2)" "sched_wf k2"
    by (rule rt_object_find_spec [OF _ _ _ c])
  have "rt_strncmp (oname (objs ?k1 r)) name RT_NAME_MAX = 0"
    using n rt_strncmp_eq [OF cstring_take [OF n] n] by (simp add: registered_objs rt_strncpy_cstring)
  then have "rt_object_find name type ?k1 = Some (Some r, k2)"
    using k2(1) by (simp add: registered_objs q_push_def)
  moreover have "rt_object_get_type r ?k1 = type" "rt_object_is_systemobject r ?k1"
    using class_no_static [OF c] by (simp_all add: rt_object_get_type_def rt_object_is_systemobject_def registered_objs)
  ultimately show ?thesis using k'(1) k2(2) by blast
qed

theorem object_init_find_witness:
  "\<exists>k1 k2. rt_object_init (OSem 3) RT_Object_Class_Semaphore ''lock'' three = Some k1 \<and>
     rt_object_find ''lock'' RT_Object_Class_Semaphore k1 = Some (Some (OSem 3), k2) \<and>
     rt_object_get_type (OSem 3) k1 = RT_Object_Class_Semaphore \<and> rt_object_is_systemobject (OSem 3) k1 \<and> sched_wf k2"
  by (rule object_init_find [OF three_wf])
     (simp_all add: three_def boot_def lock_ok_def rt_object_container_def cstring_def)

end
