(* ===== verification/Timer.thy ===== *)
theory Timer
  imports Object
begin

text \<open>
  The timers of \<^verbatim>\<open>rt-thread/src/timer.c\<close> (skip list of one level): creation, stopping,
  control, and the ordered insertion with its comparison modulo \<open>2\<^sup>3\<^sup>2\<close>. \<open>rt_timer_start\<close> wakes
  the timer thread and so stands in theory \<open>Thread\<close>; the expiry loops are in theory \<open>Tick\<close>.
\<close>

section \<open>Operations\<close>

abbreviation tflag :: "kernel \<Rightarrow> timer_id \<Rightarrow> u8" where
  "tflag k t \<equiv> oflag (objs k (OTimer t))"

definition rt_timer_setup :: "timer_id \<Rightarrow> timeout_func \<Rightarrow> u32 \<Rightarrow> u8 \<Rightarrow> kernel \<Rightarrow> kernel" where
  "rt_timer_setup t timeout time flag k =
     (let k = upd_obj (OTimer t) (\<lambda>ob. ob\<lparr>oflag := flag AND NOT RT_TIMER_FLAG_ACTIVATED\<rparr>) k
      in upd_timer t (\<lambda>_. \<lparr>timeout_func = timeout, timer_init_tick = time, timeout_tick = 0\<rparr>) k)"

definition rt_timer_init :: "timer_id \<Rightarrow> string \<Rightarrow> timeout_func \<Rightarrow> u32 \<Rightarrow> u8 \<Rightarrow> kernel \<Rightarrow> kernel option" where
  "rt_timer_init t name timeout time flag k = do {
     k \<leftarrow> rt_object_init (OTimer t) RT_Object_Class_Timer name k;
     Some (rt_timer_setup t timeout time flag k) }"

definition rt_timer_remove :: "timer_id \<Rightarrow> kernel \<Rightarrow> kernel" where
  "rt_timer_remove t k =
     k\<lparr>timer_list := remove1 t (timer_list k), soft_timer_list := remove1 t (soft_timer_list k)\<rparr>"

definition rt_timer_detach :: "timer_id \<Rightarrow> kernel \<Rightarrow> (rt_err_t \<times> kernel) option" where
  "rt_timer_detach t k = do {
     rt_assert (rt_object_get_type (OTimer t) k = RT_Object_Class_Timer);
     rt_assert (rt_object_is_systemobject (OTimer t) k);
     Some (RT_EOK, rt_object_detach (OTimer t) (rt_timer_remove t k)) }"

definition rt_timer_create ::
  "timer_id option \<Rightarrow> string \<Rightarrow> timeout_func \<Rightarrow> u32 \<Rightarrow> u8 \<Rightarrow> kernel \<Rightarrow> (timer_id option \<times> kernel) option" where
  "rt_timer_create mem name timeout time flag k = do {
     (_, k) \<leftarrow> rt_object_allocate (map_option OTimer mem) RT_Object_Class_Timer name k;
     case mem of
       None \<Rightarrow> Some (None, k)
     | Some t \<Rightarrow> Some (Some t, rt_timer_setup t timeout time flag k) }"

definition rt_timer_delete :: "timer_id \<Rightarrow> kernel \<Rightarrow> (rt_err_t \<times> kernel) option" where
  "rt_timer_delete t k = do {
     rt_assert (rt_object_get_type (OTimer t) k = RT_Object_Class_Timer);
     rt_assert (\<not> rt_object_is_systemobject (OTimer t) k);
     k \<leftarrow> rt_object_delete (OTimer t) (rt_timer_remove t k);
     Some (RT_EOK, k) }"

definition rt_timer_stop :: "timer_id \<Rightarrow> kernel \<Rightarrow> (rt_err_t \<times> kernel) option" where
  "rt_timer_stop t k = do {
     rt_assert (rt_object_get_type (OTimer t) k = RT_Object_Class_Timer);
     if tflag k t AND RT_TIMER_FLAG_ACTIVATED = 0 then Some (- RT_ERROR, k)
     else Some (RT_EOK, upd_obj (OTimer t) (\<lambda>ob. ob\<lparr>oflag := oflag ob AND NOT RT_TIMER_FLAG_ACTIVATED\<rparr>)
                          (rt_timer_remove t k)) }"

text \<open>The commands of \<open>rt_timer_control\<close>; \<open>arg\<close> is the value behind the argument pointer, in and out.\<close>

datatype timer_ctrl = RT_TIMER_CTRL_SET_TIME | RT_TIMER_CTRL_GET_TIME
  | RT_TIMER_CTRL_SET_ONESHOT | RT_TIMER_CTRL_SET_PERIODIC

definition rt_timer_control :: "timer_id \<Rightarrow> timer_ctrl \<Rightarrow> u32 \<Rightarrow> kernel \<Rightarrow> (rt_err_t \<times> u32 \<times> kernel) option" where
  "rt_timer_control t cmd arg k = do {
     rt_assert (rt_object_get_type (OTimer t) k = RT_Object_Class_Timer);
     Some (RT_EOK, case cmd of
         RT_TIMER_CTRL_GET_TIME \<Rightarrow> (timer_init_tick (timers k t), k)
       | RT_TIMER_CTRL_SET_TIME \<Rightarrow> (arg, upd_timer t (\<lambda>x. x\<lparr>timer_init_tick := arg\<rparr>) k)
       | RT_TIMER_CTRL_SET_ONESHOT \<Rightarrow>
           (arg, upd_obj (OTimer t) (\<lambda>ob. ob\<lparr>oflag := oflag ob AND NOT RT_TIMER_FLAG_PERIODIC\<rparr>) k)
       | RT_TIMER_CTRL_SET_PERIODIC \<Rightarrow>
           (arg, upd_obj (OTimer t) (\<lambda>ob. ob\<lparr>oflag := oflag ob OR RT_TIMER_FLAG_PERIODIC\<rparr>) k)) }"

definition rt_timer_list_next_timeout :: "timer_id list \<Rightarrow> kernel \<Rightarrow> u32" where
  "rt_timer_list_next_timeout l k = (case l of [] \<Rightarrow> RT_TICK_MAX | t # _ \<Rightarrow> timeout_tick (timers k t))"

definition rt_timer_next_timeout_tick :: "kernel \<Rightarrow> u32" where
  "rt_timer_next_timeout_tick k = rt_timer_list_next_timeout (timer_list k) k"

definition rt_tick_get :: "kernel \<Rightarrow> u32" where
  "rt_tick_get k = tick k"

definition rt_tick_set :: "u32 \<Rightarrow> kernel \<Rightarrow> kernel" where
  "rt_tick_set v k = k\<lparr>tick := v\<rparr>"

text \<open>
  The search of \<open>rt_timer_start\<close>: walk past the timers that are due earlier or at the same tick; the
  differences are taken modulo \<open>2\<^sup>3\<^sup>2\<close>, and a difference below \<open>RT_TICK_MAX / 2\<close> means later.
\<close>

fun timer_insert :: "(timer_id \<Rightarrow> u32) \<Rightarrow> timer_id \<Rightarrow> timer_id list \<Rightarrow> timer_id list" where
  "timer_insert tm timer [] = [timer]"
| "timer_insert tm timer (t # ts) =
     (if tm t - tm timer = 0 then t # timer_insert tm timer ts
      else if tm t - tm timer < RT_TICK_MAX div 2 then timer # t # ts
      else t # timer_insert tm timer ts)"

section \<open>Deadlines around the current tick\<close>

text \<open>
  \<open>due b x\<close> is the number of ticks from \<open>b\<close> to \<open>x\<close>. A list of deadlines is in order around \<open>b\<close> if all
  of them lie in the half of the circle that starts at \<open>b\<close> and their distances do not decrease.
\<close>

definition due :: "u32 \<Rightarrow> u32 \<Rightarrow> nat" where
  "due b x = unat (x - b)"

definition half :: nat where
  "half = 0x7fffffff"

lemma half_tick [simp]: "RT_TICK_MAX div 2 = 0x7fffffff"
  by (simp add: RT_TICK_MAX_def)

definition in_order :: "u32 \<Rightarrow> (timer_id \<Rightarrow> u32) \<Rightarrow> timer_id list \<Rightarrow> bool" where
  "in_order b tm ts \<longleftrightarrow> (\<forall>t\<in>set ts. due b (tm t) < half) \<and> sorted (map (\<lambda>t. due b (tm t)) ts)"

lemma due_compare:
  assumes "due b x < half" "due b y < half"
  shows "x - y = 0 \<longleftrightarrow> due b x = due b y" "x \<noteq> y \<Longrightarrow> x - y < 0x7fffffff \<longleftrightarrow> due b y < due b x"
proof -
  have e: "x - y = (x - b) - (y - b)" by simp
  show "x - y = 0 \<longleftrightarrow> due b x = due b y" by (simp add: due_def word_unat_eq_iff [symmetric])
  show "x - y < 0x7fffffff \<longleftrightarrow> due b y < due b x" if "x \<noteq> y"
  proof (cases "due b y < due b x")
    case True
    then have "unat (x - y) = due b x - due b y"
      unfolding e due_def by (intro unat_sub) (simp add: word_le_nat_alt)
    then show ?thesis using True assms by (simp add: word_less_nat_alt half_def)
  next
    case False
    moreover have "due b x \<noteq> due b y" using that by (simp add: due_def word_unat_eq_iff [symmetric])
    ultimately have "due b x < due b y" by linarith
    then have "unat (y - x) = due b y - due b x" "unat (y - x) > 0"
      using unat_sub [of "x - b" "y - b"] by (simp_all add: due_def word_le_nat_alt)
    moreover have "unat (x - y) = 2 ^ 32 - unat (y - x)" if "unat (y - x) > 0"
    proof -
      have "x - y = - (y - x)" by simp
      then show ?thesis using that unat_sub_if' [of 0 "y - x"] by simp
    qed
    ultimately have "unat (x - y) > 0x7fffffff" using assms by (simp add: half_def)
    then show ?thesis using False by (simp add: word_less_nat_alt)
  qed
qed

lemma set_timer_insert [simp]: "set (timer_insert tm t ts) = insert t (set ts)"
  by (induction ts) auto

lemma length_timer_insert [simp]: "length (timer_insert tm t ts) = Suc (length ts)"
  by (induction ts) auto

lemma distinct_timer_insert [simp]: "distinct (timer_insert tm t ts) \<longleftrightarrow> t \<notin> set ts \<and> distinct ts"
  by (induction ts) auto

text \<open>On deadlines in order the search puts the timer behind every timer that is not due later.\<close>

lemma timer_insert_split:
  assumes "in_order b tm ts" "due b (tm t) < half"
  shows "timer_insert tm t ts =
    takeWhile (\<lambda>x. due b (tm x) \<le> due b (tm t)) ts @ t # dropWhile (\<lambda>x. due b (tm x) \<le> due b (tm t)) ts"
  using assms(1)
proof (induction ts)
  case (Cons x ts)
  then have x: "due b (tm x) < half" and ts: "in_order b tm ts" by (simp_all add: in_order_def)
  show ?case
  proof (cases "tm x = tm t")
    case False
    then show ?thesis using Cons.IH [OF ts] due_compare(2) [OF x assms(2)] by auto
  qed (use Cons.IH [OF ts] in simp)
qed simp

lemma takeWhile_dropWhile_sorted:
  assumes "sorted (map f ts)"
  shows "\<forall>x\<in>set (takeWhile (\<lambda>x. f x \<le> c) ts). f x \<le> (c::nat)" "\<forall>x\<in>set (dropWhile (\<lambda>x. f x \<le> c) ts). c < f x"
  using assms by (induction ts) (auto dest: order_trans)

lemma sorted_insert_middle:
  "sorted (map f (A @ B)) \<Longrightarrow> \<forall>x\<in>set A. f x \<le> f t \<Longrightarrow> \<forall>x\<in>set B. f t \<le> (f x :: nat) \<Longrightarrow> sorted (map f (A @ t # B))"
  by (auto simp: sorted_append)

lemma in_order_insert:
  assumes o: "in_order b tm ts" and t: "due b (tm t) < half"
  shows "in_order b tm (timer_insert tm t ts)"
proof -
  let ?f = "\<lambda>x. due b (tm x)"
  let ?A = "takeWhile (\<lambda>x. ?f x \<le> ?f t) ts" and ?B = "dropWhile (\<lambda>x. ?f x \<le> ?f t) ts"
  have s: "sorted (map ?f ts)" using o by (simp add: in_order_def)
  then have AB: "sorted (map ?f (?A @ ?B))" by simp
  note ab = takeWhile_dropWhile_sorted [OF s, of "?f t"]
  have "sorted (map ?f (?A @ t # ?B))"
    by (rule sorted_insert_middle [OF AB]) (use ab in \<open>auto dest: less_imp_le\<close>)
  then show ?thesis
    using o t unfolding in_order_def timer_insert_split [OF o t, symmetric] by simp
qed

lemma in_order_subset:
  assumes "in_order b tm ts"
  shows "in_order b tm (remove1 t ts)" "ts = x # xs \<Longrightarrow> in_order b tm xs"
proof -
  have "sorted (map f (remove1 t ts))" if "sorted (map f ts)" for f :: "timer_id \<Rightarrow> nat"
    using that
  proof (induction ts)
    case (Cons a ts)
    then show ?case using set_remove1_subset [of t ts] by auto
  qed simp
  then show "in_order b tm (remove1 t ts)"
    using assms set_remove1_subset [of t ts] by (auto simp: in_order_def)
  show "ts = x # xs \<Longrightarrow> in_order b tm xs" using assms by (simp add: in_order_def)
qed

lemma in_order_cong: "(\<And>t. t \<in> set ts \<Longrightarrow> tm' t = tm t) \<Longrightarrow> in_order b tm' ts = in_order b tm ts"
  by (auto simp: in_order_def cong: map_cong)

text \<open>When no deadline is at \<open>b\<close> itself, the order is the same one tick later.\<close>

lemma due_next: "due b x \<noteq> 0 \<Longrightarrow> due (b + 1) x = due b x - 1"
proof -
  assume "due b x \<noteq> 0"
  then have "x - b \<noteq> 0" by (auto simp: due_def)
  moreover have "x - (b + 1) = (x - b) - 1" by simp
  ultimately show ?thesis unfolding due_def by (metis unat_minus_one)
qed

lemma in_order_next:
  assumes "in_order b tm ts" "\<forall>t\<in>set ts. due b (tm t) \<noteq> 0"
  shows "in_order (b + 1) tm ts"
proof -
  have e: "t \<in> set ts \<Longrightarrow> due (b + 1) (tm t) = due b (tm t) - 1" for t using assms(2) due_next by blast
  have "sorted (map (\<lambda>t. due b (tm t) - 1) ts)" using assms(1)
    by (auto simp: in_order_def sorted_map intro: sorted_wrt_mono_rel [rotated] diff_le_mono)
  then have "sorted (map (\<lambda>t. due (b + 1) (tm t)) ts)" using e by (simp cong: map_cong)
  then show ?thesis using assms(1) e by (auto simp: in_order_def intro: le_less_trans [OF diff_le_self])
qed

end
