(* ===== verification/Thread.thy ===== *)
theory Thread
  imports Timer
begin

text \<open>
  The threads of \<^verbatim>\<open>rt-thread/src/thread.c\<close> together with \<open>rt_timer_start\<close> of timer.c and
  the stack set-up of the Cortex-M3 port, and the kernel invariant \<open>kernel_wf\<close> that joins the queues
  of the scheduler, the object types and the timer lists.

  A function that suspends its caller is cut at \<open>rt_schedule\<close>: the first part ends with the switch to
  another thread, the part after it is a second definition (suffix \<open>_return\<close>), which runs when the
  thread is the current one again and reads the error code the waker has left in the thread.
\<close>

section \<open>Creation\<close>

definition rt_hw_stack_init :: "u32 \<Rightarrow> u32" where
  "rt_hw_stack_init stack_top = rt_align_down (stack_top + 4) 8 - 64"

definition rt_thread_setup ::
  "tid \<Rightarrow> nat \<Rightarrow> nat \<Rightarrow> u32 \<Rightarrow> u32 \<Rightarrow> u8 \<Rightarrow> u32 \<Rightarrow> kernel \<Rightarrow> (rt_err_t \<times> kernel) option" where
  "rt_thread_setup t ent param stack_start stk_size priority tck k = do {
     let k = upd_thr t (\<lambda>th. th\<lparr>entry := ent, parameter := param, stack_addr := stack_start,
               stack_size := stk_size, stack_byte := 0x23,
               sp := rt_hw_stack_init (stack_start + stk_size - 4)\<rparr>) k;
     rt_assert (priority < RT_THREAD_PRIORITY_MAX);
     let k = upd_thr t (\<lambda>th. th\<lparr>init_priority := priority, current_priority := priority, number_mask := 0,
               init_tick := tck, remaining_tick := tck, terror := RT_EOK, stat := RT_THREAD_INIT,
               cleanup := None, user_data := 0\<rparr>) k;
     k \<leftarrow> rt_timer_init (TThread t) (oname (objs k (OThread t))) (Rt_thread_timeout t) 0 RT_TIMER_FLAG_ONE_SHOT k;
     Some (RT_EOK, k) }"

definition rt_thread_init ::
  "tid \<Rightarrow> string \<Rightarrow> nat \<Rightarrow> nat \<Rightarrow> u32 \<Rightarrow> u32 \<Rightarrow> u8 \<Rightarrow> u32 \<Rightarrow> kernel \<Rightarrow> (rt_err_t \<times> kernel) option" where
  "rt_thread_init t name ent param stack_start stk_size priority tck k = do {
     rt_assert (stack_start \<noteq> 0);
     k \<leftarrow> rt_object_init (OThread t) RT_Object_Class_Thread name k;
     rt_thread_setup t ent param stack_start stk_size priority tck k }"

definition rt_thread_create ::
  "tid option \<Rightarrow> u32 option \<Rightarrow> string \<Rightarrow> nat \<Rightarrow> nat \<Rightarrow> u32 \<Rightarrow> u8 \<Rightarrow> u32 \<Rightarrow> kernel \<Rightarrow> (tid option \<times> kernel) option" where
  "rt_thread_create mem stack_mem name ent param stk_size priority tck k = do {
     (_, k) \<leftarrow> rt_object_allocate (map_option OThread mem) RT_Object_Class_Thread name k;
     case mem of
       None \<Rightarrow> Some (None, k)
     | Some t \<Rightarrow>
         (case stack_mem of
            None \<Rightarrow> do { k \<leftarrow> rt_object_delete (OThread t) k; Some (None, k) }
          | Some stack_start \<Rightarrow> do {
              (_, k) \<leftarrow> rt_thread_setup t ent param stack_start stk_size priority tck k;
              Some (Some t, k) }) }"

definition rt_thread_self :: "kernel \<Rightarrow> tid option" where
  "rt_thread_self k = current k"

section \<open>Suspending and resuming\<close>

definition rt_thread_suspend :: "tid \<Rightarrow> kernel \<Rightarrow> (rt_err_t \<times> kernel) option" where
  "rt_thread_suspend t k = do {
     rt_assert (rt_object_get_type (OThread t) k = RT_Object_Class_Thread);
     let s = st k t;
     if s \<noteq> RT_THREAD_READY \<and> s \<noteq> RT_THREAD_RUNNING then Some (- RT_ERROR, k)
     else do {
       rt_assert (s = RT_THREAD_RUNNING \<longrightarrow> rt_thread_self k = Some t);
       k \<leftarrow> rt_schedule_remove_thread t k;
       let k = upd_thr t (set_stat RT_THREAD_SUSPEND) k;
       (_, k) \<leftarrow> rt_timer_stop (TThread t) k;
       Some (RT_EOK, k) } }"

definition rt_thread_resume :: "tid \<Rightarrow> kernel \<Rightarrow> (rt_err_t \<times> kernel) option" where
  "rt_thread_resume t k = do {
     rt_assert (rt_object_get_type (OThread t) k = RT_Object_Class_Thread);
     if st k t \<noteq> RT_THREAD_SUSPEND then Some (- RT_ERROR, k)
     else do {
       let k = unlink t k;
       (_, k) \<leftarrow> rt_timer_stop (TThread t) k;
       k \<leftarrow> rt_schedule_insert_thread t k;
       Some (RT_EOK, k) } }"

text \<open>\<open>rt_timer_start\<close> of timer.c, which wakes the timer thread for a soft timer.\<close>

definition rt_timer_start :: "timer_id \<Rightarrow> kernel \<Rightarrow> (rt_err_t \<times> kernel) option" where
  "rt_timer_start t k = do {
     rt_assert (rt_object_get_type (OTimer t) k = RT_Object_Class_Timer);
     let k = rt_timer_remove t k;
     let k = upd_obj (OTimer t) (\<lambda>ob. ob\<lparr>oflag := oflag ob AND NOT RT_TIMER_FLAG_ACTIVATED\<rparr>) k;
     rt_assert (timer_init_tick (timers k t) < RT_TICK_MAX div 2);
     let k = upd_timer t (\<lambda>x. x\<lparr>timeout_tick := rt_tick_get k + timer_init_tick x\<rparr>) k;
     let soft = (tflag k t AND RT_TIMER_FLAG_SOFT_TIMER \<noteq> 0);
     let k = (if soft
              then k\<lparr>soft_timer_list := timer_insert (\<lambda>t. timeout_tick (timers k t)) t (soft_timer_list k)\<rparr>
              else k\<lparr>timer_list := timer_insert (\<lambda>t. timeout_tick (timers k t)) t (timer_list k)\<rparr>);
     let k = upd_obj (OTimer t) (\<lambda>ob. ob\<lparr>oflag := oflag ob OR RT_TIMER_FLAG_ACTIVATED\<rparr>) k;
     k \<leftarrow> (if soft \<and> st k timer_thread = RT_THREAD_SUSPEND
          then do { (_, k) \<leftarrow> rt_thread_resume timer_thread k; rt_schedule k }
          else Some k);
     Some (RT_EOK, k) }"

definition rt_thread_startup :: "tid \<Rightarrow> kernel \<Rightarrow> (rt_err_t \<times> kernel) option" where
  "rt_thread_startup t k = do {
     rt_assert (st k t = RT_THREAD_INIT);
     rt_assert (rt_object_get_type (OThread t) k = RT_Object_Class_Thread);
     let k = upd_thr t (\<lambda>th. th\<lparr>current_priority := init_priority th,
                                number_mask := push_bit (unat (init_priority th)) 1,
                                stat := RT_THREAD_SUSPEND\<rparr>) k;
     (_, k) \<leftarrow> rt_thread_resume t k;
     k \<leftarrow> (if rt_thread_self k \<noteq> None then rt_schedule k else Some k);
     Some (RT_EOK, k) }"

section \<open>Ending a thread\<close>

definition rt_thread_exit :: "kernel \<Rightarrow> kernel option" where
  "rt_thread_exit k = do {
     t \<leftarrow> rt_thread_self k;
     k \<leftarrow> rt_schedule_remove_thread t k;
     let k = upd_thr t (\<lambda>th. th\<lparr>stat := RT_THREAD_CLOSE\<rparr>) k;
     (_, k) \<leftarrow> rt_timer_detach (TThread t) k;
     let k = (if rt_object_is_systemobject (OThread t) k \<and> cleanup (thr k t) = None
              then rt_object_detach (OThread t) k
              else k\<lparr>queues := q_push QDefunct t (queues k)\<rparr>);
     rt_schedule k }"

definition rt_thread_detach :: "tid \<Rightarrow> kernel \<Rightarrow> (rt_err_t \<times> kernel) option" where
  "rt_thread_detach t k = do {
     rt_assert (rt_object_get_type (OThread t) k = RT_Object_Class_Thread);
     rt_assert (rt_object_is_systemobject (OThread t) k);
     k \<leftarrow> (if st k t \<noteq> RT_THREAD_INIT then rt_schedule_remove_thread t k else Some k);
     (_, k) \<leftarrow> rt_timer_detach (TThread t) k;
     let k = upd_thr t (\<lambda>th. th\<lparr>stat := RT_THREAD_CLOSE\<rparr>) k;
     Some (RT_EOK,
       if rt_object_is_systemobject (OThread t) k \<and> cleanup (thr k t) = None
       then rt_object_detach (OThread t) k
       else k\<lparr>queues := q_push QDefunct t (queues k)\<rparr>) }"

definition rt_thread_delete :: "tid \<Rightarrow> kernel \<Rightarrow> (rt_err_t \<times> kernel) option" where
  "rt_thread_delete t k = do {
     rt_assert (rt_object_get_type (OThread t) k = RT_Object_Class_Thread);
     rt_assert (\<not> rt_object_is_systemobject (OThread t) k);
     k \<leftarrow> (if st k t \<noteq> RT_THREAD_INIT then rt_schedule_remove_thread t k else Some k);
     (_, k) \<leftarrow> rt_timer_detach (TThread t) k;
     let k = upd_thr t (\<lambda>th. th\<lparr>stat := RT_THREAD_CLOSE\<rparr>) k;
     Some (RT_EOK, k\<lparr>queues := q_push QDefunct t (queues k)\<rparr>) }"

section \<open>Giving up the processor\<close>

definition rt_thread_yield :: "kernel \<Rightarrow> (rt_err_t \<times> kernel) option" where
  "rt_thread_yield k = do { k \<leftarrow> rt_schedule k; Some (RT_EOK, k) }"

definition rt_tick_from_millisecond :: "int \<Rightarrow> u32" where
  "rt_tick_from_millisecond ms =
     (if ms < 0 then word_of_int RT_WAITING_FOREVER
      else RT_TICK_PER_SECOND * word_of_int (ms div 1000) +
           (RT_TICK_PER_SECOND * word_of_int (ms mod 1000) + 999) div 1000)"

text \<open>The common parts of the sleeping and waiting calls: arm the thread timer; suspend and arm it.\<close>

definition arm_thread_timer :: "tid \<Rightarrow> u32 \<Rightarrow> kernel \<Rightarrow> kernel option" where
  "arm_thread_timer t tck k = do {
     (_, _, k) \<leftarrow> rt_timer_control (TThread t) RT_TIMER_CTRL_SET_TIME tck k;
     (_, k) \<leftarrow> rt_timer_start (TThread t) k;
     Some k }"

definition sleep_for :: "tid \<Rightarrow> u32 \<Rightarrow> kernel \<Rightarrow> kernel option" where
  "sleep_for t tck k = do {
     (_, k) \<leftarrow> rt_thread_suspend t k;
     arm_thread_timer t tck k }"

definition rt_thread_sleep :: "u32 \<Rightarrow> kernel \<Rightarrow> kernel option" where
  "rt_thread_sleep tck k = do {
     t \<leftarrow> rt_thread_self k;
     rt_assert (rt_object_get_type (OThread t) k = RT_Object_Class_Thread);
     k \<leftarrow> sleep_for t tck k;
     rt_schedule k }"

definition rt_thread_sleep_return :: "tid \<Rightarrow> kernel \<Rightarrow> rt_err_t \<times> kernel" where
  "rt_thread_sleep_return t k =
     (RT_EOK, if terror (thr k t) = - RT_ETIMEOUT then upd_thr t (\<lambda>th. th\<lparr>terror := RT_EOK\<rparr>) k else k)"

definition rt_thread_delay :: "u32 \<Rightarrow> kernel \<Rightarrow> kernel option" where
  "rt_thread_delay tck k = rt_thread_sleep tck k"

definition rt_thread_mdelay :: "int \<Rightarrow> kernel \<Rightarrow> kernel option" where
  "rt_thread_mdelay ms k = rt_thread_sleep (rt_tick_from_millisecond ms) k"

text \<open>
  \<open>rt_thread_delay_until\<close>: the first component of the result says whether the caller sleeps; if it does
  not, the call returns at once with the second part.
\<close>

definition rt_thread_delay_until :: "u32 \<Rightarrow> u32 \<Rightarrow> kernel \<Rightarrow> (bool \<times> kernel) option" where
  "rt_thread_delay_until tck inc_tick k = do {
     t \<leftarrow> rt_thread_self k;
     rt_assert (rt_object_get_type (OThread t) k = RT_Object_Class_Thread);
     if rt_tick_get k - tck < inc_tick then do {
       let tck = rt_tick_get k - tck + inc_tick;
       k \<leftarrow> sleep_for t tck k;
       k \<leftarrow> rt_schedule k;
       Some (True, k) }
     else Some (False, k) }"

definition rt_thread_delay_until_return :: "bool \<Rightarrow> tid \<Rightarrow> kernel \<Rightarrow> rt_err_t \<times> u32 \<times> kernel" where
  "rt_thread_delay_until_return slept t k =
     (let k = (if slept \<and> terror (thr k t) = - RT_ETIMEOUT
               then upd_thr t (\<lambda>th. th\<lparr>terror := RT_EOK\<rparr>) k else k)
      in (RT_EOK, rt_tick_get k, k))"

datatype thread_ctrl = RT_THREAD_CTRL_STARTUP | RT_THREAD_CTRL_CLOSE
  | RT_THREAD_CTRL_CHANGE_PRIORITY u8 | RT_THREAD_CTRL_other

text \<open>\<open>1 << current_priority\<close> is defined only below the width of the mask.\<close>

definition change_priority :: "u8 \<Rightarrow> tid \<Rightarrow> kernel \<Rightarrow> kernel option" where
  "change_priority p t k = do {
     rt_assert (p < RT_THREAD_PRIORITY_MAX);
     Some (upd_thr t (\<lambda>th. th\<lparr>current_priority := p, number_mask := push_bit (unat p) 1\<rparr>) k) }"

definition rt_thread_control :: "tid \<Rightarrow> thread_ctrl \<Rightarrow> kernel \<Rightarrow> (rt_err_t \<times> kernel) option" where
  "rt_thread_control t cmd k = do {
     rt_assert (rt_object_get_type (OThread t) k = RT_Object_Class_Thread);
     case cmd of
       RT_THREAD_CTRL_CHANGE_PRIORITY p \<Rightarrow>
         if st k t = RT_THREAD_READY then do {
           k \<leftarrow> rt_schedule_remove_thread t k;
           k \<leftarrow> change_priority p t k;
           k \<leftarrow> rt_schedule_insert_thread t k;
           Some (RT_EOK, k) }
         else do { k \<leftarrow> change_priority p t k; Some (RT_EOK, k) }
     | RT_THREAD_CTRL_STARTUP \<Rightarrow> rt_thread_startup t k
     | RT_THREAD_CTRL_CLOSE \<Rightarrow> rt_thread_delete t k
     | RT_THREAD_CTRL_other \<Rightarrow> Some (RT_EOK, k) }"

text \<open>
  The time-out of a thread timer, run in the tick interrupt. A thread object without a type (its memory was
  given back) makes the function print, try to sleep and then fail the next assertion.
\<close>

definition rt_thread_timeout :: "tid \<Rightarrow> kernel \<Rightarrow> kernel option" where
  "rt_thread_timeout t k = do {
     rt_assert (st k t = RT_THREAD_SUSPEND);
     k \<leftarrow> (if rt_object_get_type (OThread t) k = 0 then rt_thread_mdelay 500 k else Some k);
     rt_assert (rt_object_get_type (OThread t) k = RT_Object_Class_Thread);
     let k = upd_thr t (\<lambda>th. th\<lparr>terror := - RT_ETIMEOUT\<rparr>) k;
     let k = unlink t k;
     k \<leftarrow> rt_schedule_insert_thread t k;
     rt_schedule k }"

definition rt_thread_find :: "string \<Rightarrow> kernel \<Rightarrow> (tid option \<times> kernel) option" where
  "rt_thread_find name k = do {
     let k = (if rt_thread_self k \<noteq> None then rt_enter_critical k else k);
     c \<leftarrow> rt_object_get_information RT_Object_Class_Thread;
     let r = find (\<lambda>r. rt_strncmp (oname (objs k r)) name RT_NAME_MAX = 0) (object_list k c);
     k \<leftarrow> (if rt_thread_self k \<noteq> None then rt_exit_critical k else Some k);
     Some (case r of Some (OThread t) \<Rightarrow> Some t | _ \<Rightarrow> None, k) }"

section \<open>The kernel invariant\<close>

abbreviation deadline :: "kernel \<Rightarrow> timer_id \<Rightarrow> u32" where
  "deadline k \<equiv> \<lambda>t. timeout_tick (timers k t)"

text \<open>The objects of a started thread: its type, its timer's type, and a one-shot hard timer.\<close>

definition thread_objs :: "kernel \<Rightarrow> tid \<Rightarrow> bool" where
  "thread_objs k t \<longleftrightarrow>
     rt_object_get_type (OThread t) k = RT_Object_Class_Thread \<and>
     rt_object_get_type (OTimer (TThread t)) k = RT_Object_Class_Timer \<and>
     rt_object_is_systemobject (OTimer (TThread t)) k \<and>
     tflag k (TThread t) AND RT_TIMER_FLAG_SOFT_TIMER = 0 \<and>
     tflag k (TThread t) AND RT_TIMER_FLAG_PERIODIC = 0 \<and>
     timeout_func (timers k (TThread t)) = Rt_thread_timeout t"

text \<open>
  An armed timer is a timer object marked active; the deadlines of the hard timers are in order around the
  current tick; an armed thread timer belongs to a suspended thread.
\<close>

definition timers_wf :: "kernel \<Rightarrow> bool" where
  "timers_wf k \<longleftrightarrow>
     distinct (timer_list k) \<and> distinct (soft_timer_list k) \<and>
     in_order (tick k) (deadline k) (timer_list k) \<and>
     (\<forall>t\<in>set (timer_list k) \<union> set (soft_timer_list k).
        rt_object_get_type (OTimer t) k = RT_Object_Class_Timer \<and> tflag k t AND RT_TIMER_FLAG_ACTIVATED \<noteq> 0) \<and>
     (\<forall>t\<in>set (timer_list k). tflag k t AND RT_TIMER_FLAG_SOFT_TIMER = 0) \<and>
     (\<forall>t\<in>set (soft_timer_list k). tflag k t AND RT_TIMER_FLAG_SOFT_TIMER \<noteq> 0) \<and>
     (\<forall>t. TThread t \<in> set (timer_list k) \<union> set (soft_timer_list k) \<longrightarrow> st k t = RT_THREAD_SUSPEND) \<and>
     (\<forall>u. \<exists>n. timeout_func (timers k (TUser u)) = User_timeout n)"

definition objs_wf :: "kernel \<Rightarrow> bool" where
  "objs_wf k \<longleftrightarrow> (\<forall>t. live (st k t) \<longrightarrow> thread_objs k t)"

definition kernel_wf :: "kernel \<Rightarrow> bool" where
  "kernel_wf k \<longleftrightarrow> sched_wf k \<and> objs_wf k \<and> timers_wf k \<and> lock_ok k"

lemma kernel_wfD:
  "kernel_wf k \<Longrightarrow> sched_wf k" "kernel_wf k \<Longrightarrow> live (st k t) \<Longrightarrow> thread_objs k t" "kernel_wf k \<Longrightarrow> timers_wf k"
  "kernel_wf k \<Longrightarrow> lock_ok k" "kernel_wf k \<Longrightarrow> objs_wf k"
  by (simp_all add: kernel_wf_def objs_wf_def)

lemma objs_type_cong:
  "otype (objs k' r) = otype (objs k r) \<Longrightarrow> rt_object_get_type r k' = rt_object_get_type r k"
  "otype (objs k' r) = otype (objs k r) \<Longrightarrow> rt_object_is_systemobject r k' = rt_object_is_systemobject r k"
  by (simp_all add: rt_object_get_type_def rt_object_is_systemobject_def)

lemma boot_kernel_wf: "kernel_wf boot"
  using boot_wf by (simp add: kernel_wf_def objs_wf_def timers_wf_def lock_ok_def boot_def in_order_def)

text \<open>The invariant outside the scheduler reads types, flags, timers, and which threads are live or suspended.\<close>

lemma objs_wf_cong:
  assumes "objs_wf k" "\<And>t. live (st k' t) \<Longrightarrow> live (st k t)" "objs k' = objs k"
    "\<forall>t. timeout_func (timers k' t) = timeout_func (timers k t)"
  shows "objs_wf k'"
  using assms by (simp add: objs_wf_def thread_objs_def rt_object_get_type_def rt_object_is_systemobject_def)

lemma timers_wf_cong:
  assumes "timers_wf k" "timer_list k' = timer_list k" "soft_timer_list k' = soft_timer_list k"
    "timers k' = timers k" "objs k' = objs k" "tick k' = tick k"
    "\<And>t. TThread t \<in> set (timer_list k) \<union> set (soft_timer_list k) \<Longrightarrow> st k t = RT_THREAD_SUSPEND \<Longrightarrow> st k' t = RT_THREAD_SUSPEND"
  shows "timers_wf k'"
  using assms unfolding timers_wf_def rt_object_get_type_def by simp

lemma live_runnable: "live s \<longleftrightarrow> runnable s \<or> s = RT_THREAD_SUSPEND"
  by (auto simp: live_def runnable_def)

lemma kernel_wf_sched_step:
  assumes wf: "kernel_wf k" and s: "sched_step k k'" "sched_wf k'"
  shows "kernel_wf k'"
proof -
  note f = outer_fields [OF sched_stepD(1) [OF s(1)]]
  have live: "live (st k' t) \<longleftrightarrow> live (st k t)" for t
    using sched_stepD(4,5) [OF s(1), of t] unfolding live_runnable by metis
  have "objs_wf k'" by (rule objs_wf_cong [of k]) (use kernel_wfD(5) [OF wf] live f in auto)
  moreover have "timers_wf k'"
    by (rule timers_wf_cong [OF kernel_wfD(3) [OF wf]]) (use f sched_step_suspend [OF s(1)] in auto)
  ultimately show ?thesis using s(2) kernel_wfD(4) [OF wf] f by (simp add: kernel_wf_def lock_ok_def)
qed

lemma rt_schedule_kernel:
  assumes "kernel_wf k" "current k \<noteq> None"
  obtains k' where "rt_schedule k = Some k'" "kernel_wf k'" "sched_step k k'"
  using assms rt_schedule_spec [OF kernel_wfD(1) [OF assms(1)]] kernel_wf_sched_step [OF assms(1)] by blast

section \<open>Stopping a timer\<close>

definition timer_off :: "timer_id \<Rightarrow> kernel \<Rightarrow> kernel" where
  "timer_off t k = upd_obj (OTimer t) (\<lambda>ob. ob\<lparr>oflag := oflag ob AND NOT RT_TIMER_FLAG_ACTIVATED\<rparr>) (rt_timer_remove t k)"

lemma timer_off_fields [simp]:
  "thr (timer_off t k) = thr k" "queues (timer_off t k) = queues k" "ready_group (timer_off t k) = ready_group k"
  "current (timer_off t k) = current k" "lock_nest (timer_off t k) = lock_nest k" "tick (timer_off t k) = tick k"
  "timers (timer_off t k) = timers k" "interrupt_nest (timer_off t k) = interrupt_nest k"
  "object_list (timer_off t k) = object_list k" "cur_priority (timer_off t k) = cur_priority k"
  "sems (timer_off t k) = sems k" "mutexes (timer_off t k) = mutexes k" "events (timer_off t k) = events k"
  "mailboxes (timer_off t k) = mailboxes k" "mqs (timer_off t k) = mqs k"
  "timer_list (timer_off t k) = remove1 t (timer_list k)"
  "soft_timer_list (timer_off t k) = remove1 t (soft_timer_list k)"
  "sched_wf (timer_off t k) = sched_wf k" "lock_ok (timer_off t k) = lock_ok k"
  by (simp_all add: timer_off_def rt_timer_remove_def lock_ok_def)

lemma timer_off_objs:
  "objs (timer_off t k) = (objs k)(OTimer t := (objs k (OTimer t))\<lparr>oflag := oflag (objs k (OTimer t)) AND NOT RT_TIMER_FLAG_ACTIVATED\<rparr>)"
  by (simp add: timer_off_def rt_timer_remove_def)

lemma timer_off_types [simp]:
  "rt_object_get_type r (timer_off t k) = rt_object_get_type r k"
  "rt_object_is_systemobject r (timer_off t k) = rt_object_is_systemobject r k"
  by (auto simp: timer_off_objs intro!: objs_type_cong)

lemma activated_nonzero [simp]: "RT_TIMER_FLAG_ACTIVATED \<noteq> 0"
  by (simp add: RT_TIMER_FLAG_ACTIVATED_def)

lemma activated_bits:
  "(f AND NOT RT_TIMER_FLAG_ACTIVATED) AND RT_TIMER_FLAG_SOFT_TIMER = f AND RT_TIMER_FLAG_SOFT_TIMER"
  "(f AND NOT RT_TIMER_FLAG_ACTIVATED) AND RT_TIMER_FLAG_PERIODIC = f AND RT_TIMER_FLAG_PERIODIC"
  "(f OR RT_TIMER_FLAG_ACTIVATED) AND RT_TIMER_FLAG_SOFT_TIMER = f AND RT_TIMER_FLAG_SOFT_TIMER"
  "(f OR RT_TIMER_FLAG_ACTIVATED) AND RT_TIMER_FLAG_PERIODIC = f AND RT_TIMER_FLAG_PERIODIC"
  "(f OR RT_TIMER_FLAG_ACTIVATED) AND RT_TIMER_FLAG_ACTIVATED \<noteq> 0"
  "(f AND NOT RT_TIMER_FLAG_ACTIVATED) AND RT_TIMER_FLAG_ACTIVATED = 0"
proof -
  have d: "RT_TIMER_FLAG_ACTIVATED AND RT_TIMER_FLAG_SOFT_TIMER = 0" "RT_TIMER_FLAG_ACTIVATED AND RT_TIMER_FLAG_PERIODIC = 0"
    and n: "RT_TIMER_FLAG_ACTIVATED \<noteq> 0"
    by (simp_all add: RT_TIMER_FLAG_ACTIVATED_def RT_TIMER_FLAG_SOFT_TIMER_def RT_TIMER_FLAG_PERIODIC_def)
  show "(f AND NOT RT_TIMER_FLAG_ACTIVATED) AND RT_TIMER_FLAG_SOFT_TIMER = f AND RT_TIMER_FLAG_SOFT_TIMER"
    "(f OR RT_TIMER_FLAG_ACTIVATED) AND RT_TIMER_FLAG_SOFT_TIMER = f AND RT_TIMER_FLAG_SOFT_TIMER"
    by (rule flag_bits_other [OF d(1)])+
  show "(f AND NOT RT_TIMER_FLAG_ACTIVATED) AND RT_TIMER_FLAG_PERIODIC = f AND RT_TIMER_FLAG_PERIODIC"
    "(f OR RT_TIMER_FLAG_ACTIVATED) AND RT_TIMER_FLAG_PERIODIC = f AND RT_TIMER_FLAG_PERIODIC"
    by (rule flag_bits_other [OF d(2)])+
  show "(f OR RT_TIMER_FLAG_ACTIVATED) AND RT_TIMER_FLAG_ACTIVATED \<noteq> 0" using n by (simp add: flag_bits_same)
  show "(f AND NOT RT_TIMER_FLAG_ACTIVATED) AND RT_TIMER_FLAG_ACTIVATED = 0" by (rule flag_bits_same)
qed

lemma timer_off_tflag:
  "tflag (timer_off t k) u AND RT_TIMER_FLAG_SOFT_TIMER = tflag k u AND RT_TIMER_FLAG_SOFT_TIMER"
  "tflag (timer_off t k) u AND RT_TIMER_FLAG_PERIODIC = tflag k u AND RT_TIMER_FLAG_PERIODIC"
  "u \<noteq> t \<Longrightarrow> tflag (timer_off t k) u = tflag k u"
  by (simp_all add: timer_off_objs activated_bits)

lemma thread_objs_timer_off [simp]: "thread_objs (timer_off t k) u = thread_objs k u"
  by (simp add: thread_objs_def timer_off_tflag)

lemma objs_wf_timer_off [simp]: "objs_wf (timer_off t k) = objs_wf k"
  by (simp add: objs_wf_def)

lemma timers_wf_timer_off:
  assumes "timers_wf k"
  shows "timers_wf (timer_off t k)"
proof -
  have d: "distinct (timer_list k)" "distinct (soft_timer_list k)" using assms by (simp_all add: timers_wf_def)
  then have s: "set (remove1 t (timer_list k)) = set (timer_list k) - {t}"
    "set (remove1 t (soft_timer_list k)) = set (soft_timer_list k) - {t}" by simp_all
  show ?thesis
    using assms unfolding timers_wf_def timer_off_fields s timer_off_types timer_off_tflag(1)
    by (simp add: in_order_subset) (auto simp: timer_off_tflag(3))
qed

lemma kernel_wf_timer_off: "kernel_wf k \<Longrightarrow> kernel_wf (timer_off t k)"
  by (simp add: kernel_wf_def timers_wf_timer_off)

text \<open>In a well-formed kernel \<open>rt_timer_stop\<close> has this effect whether or not the timer is active.\<close>

lemma rt_timer_stop_spec:
  assumes "timers_wf k" "rt_object_get_type (OTimer t) k = RT_Object_Class_Timer"
  obtains e where "rt_timer_stop t k = Some (e, timer_off t k)"
proof (cases "tflag k t AND RT_TIMER_FLAG_ACTIVATED = 0")
  case True
  then have "t \<notin> set (timer_list k)" "t \<notin> set (soft_timer_list k)" using assms(1) by (auto simp: timers_wf_def)
  then have "timer_off t k = k"
    using flag_clear_absent [OF True] by (simp add: timer_off_def rt_timer_remove_def remove1_idem)
  then show thesis using that True assms(2) by (simp add: rt_timer_stop_def)
next
  case False
  then show thesis using that assms(2) by (simp add: rt_timer_stop_def timer_off_def)
qed

section \<open>What the thread operations leave alone\<close>

definition is_ready_q :: "qid \<Rightarrow> bool" where
  "is_ready_q q \<longleftrightarrow> (\<exists>p. q = QReady p)"

lemma is_ready_q_simps [simp]:
  "is_ready_q (QReady p)" "\<not> is_ready_q QDefunct" "is_wait q \<Longrightarrow> \<not> is_ready_q q"
  by (auto simp: is_ready_q_def)

definition rest :: "kernel \<Rightarrow> kernel" where
  "rest k = k\<lparr>queues := (\<lambda>_. []), ready_group := 0, thr := (\<lambda>_. undefined), current := None, cur_priority := 0,
     timers := (\<lambda>_. undefined), timer_list := [], soft_timer_list := [], objs := (\<lambda>_. undefined)\<rparr>"

definition side :: "kernel \<Rightarrow> kernel \<Rightarrow> bool" where
  "side k k' \<longleftrightarrow> rest k' = rest k \<and> (\<forall>r. (\<forall>t. r \<noteq> OTimer t) \<longrightarrow> objs k' r = objs k r) \<and>
     (\<forall>r. otype (objs k' r) = otype (objs k r))"

lemma side_refl [simp]: "side k k"
  by (simp add: side_def)

lemma side_trans: "side k1 k2 \<Longrightarrow> side k2 k3 \<Longrightarrow> side k1 k3"
  by (simp add: side_def)

lemma rest_fields:
  assumes "rest k' = rest k"
  shows "object_list k' = object_list k" "tick k' = tick k"
    "lock_nest k' = lock_nest k" "interrupt_nest k' = interrupt_nest k" "sems k' = sems k"
    "mutexes k' = mutexes k" "events k' = events k" "mailboxes k' = mailboxes k" "mqs k' = mqs k"
  using arg_cong [OF assms, of object_list] arg_cong [OF assms, of tick]
    arg_cong [OF assms, of lock_nest] arg_cong [OF assms, of interrupt_nest] arg_cong [OF assms, of sems]
    arg_cong [OF assms, of mutexes] arg_cong [OF assms, of events] arg_cong [OF assms, of mailboxes]
    arg_cong [OF assms, of mqs]
  by (simp_all add: rest_def)

lemma side_fields:
  assumes "side k k'"
  shows "object_list k' = object_list k" "tick k' = tick k"
    "lock_nest k' = lock_nest k" "interrupt_nest k' = interrupt_nest k" "sems k' = sems k"
    "mutexes k' = mutexes k" "events k' = events k" "mailboxes k' = mailboxes k" "mqs k' = mqs k"
    "(\<And>t. r \<noteq> OTimer t) \<Longrightarrow> objs k' r = objs k r"
    "rt_object_get_type r k' = rt_object_get_type r k" "rt_object_is_systemobject r k' = rt_object_is_systemobject r k"
  using assms rest_fields [of k' k] by (auto simp: side_def rt_object_get_type_def rt_object_is_systemobject_def)

lemma sched_step_side: "sched_step k k' \<Longrightarrow> side k k'"
proof -
  assume s: "sched_step k k'"
  note o = sched_stepD(1) [OF s]
  have "rest k = (outer k)\<lparr>timers := (\<lambda>_. undefined), timer_list := [], soft_timer_list := [], objs := (\<lambda>_. undefined)\<rparr>" for k
    by (simp add: rest_def outer_def)
  then have "rest k' = rest k" using o by simp
  then show "side k k'" using outer_fields(1) [OF o] by (simp add: side_def)
qed

section \<open>Suspend and resume keep the invariant\<close>

lemma suspended_queues:
  assumes "sched_wf k" "st k t = RT_THREAD_SUSPEND"
  shows "queues k (QReady p) = q_remove t (queues k) (QReady p)" "t \<notin> set (queues k (QReady p))"
proof -
  show n: "t \<notin> set (queues k (QReady p))" for p
    using sched_wfD(5) [OF assms(1), of t] assms(2) by (auto simp: place_wf_def homes_def)
  show "queues k (QReady p) = q_remove t (queues k) (QReady p)" using q_remove_absent [of t "queues k", OF n] by simp
qed

lemma runnable_queues:
  assumes "sched_wf k" "runnable (st k t)" "\<not> is_ready_q q"
  shows "q_remove t (queues k) q = queues k q"
proof -
  have "t \<notin> set (queues k q)"
    using sched_wfD(5) [OF assms(1), of t] assms(2,3)
    by (cases q) (auto simp: place_wf_def homes_def runnable_def)
  then show ?thesis by (rule q_remove_absent)
qed

lemma make_suspended:
  assumes wf: "sched_wf k" and r: "runnable (st k t)"
  obtains g where "rt_schedule_remove_thread t k = Some (k\<lparr>queues := q_remove t (queues k), ready_group := g\<rparr>)"
    "sched_wf (k\<lparr>queues := q_remove t (queues k), ready_group := g, thr := (thr k)(t := set_stat RT_THREAD_SUSPEND (thr k t))\<rparr>)"
proof -
  have pw: "prio_wf (thr k t)" and so: "stack_ok (thr k t)"
    using sched_wfD(4) [OF wf, of t] r by (auto simp: thread_wf_def runnable_def)
  have h: "\<And>p. QReady p \<in> homes (queues k) t \<Longrightarrow> p = prio k t"
    using sched_wfD(5) [OF wf, of t] by (simp add: place_wf_def)
  obtain g where g: "rt_schedule_remove_thread t k = Some (k\<lparr>queues := q_remove t (queues k), ready_group := g\<rparr>)"
    "group_wf (k\<lparr>queues := q_remove t (queues k), ready_group := g\<rparr>)"
    using remove_thread_spec [OF sched_wfD(1,2) [OF wf] pw h] .
  let ?k = "k\<lparr>queues := q_remove t (queues k), ready_group := g, thr := (thr k)(t := set_stat RT_THREAD_SUSPEND (thr k t))\<rparr>"
  have "sched_wf ?k"
  proof (rule sched_wf_change [OF wf])
    show "group_wf ?k" using g(2) by (simp add: group_wf_def)
    show "thr_wf ?k t" using sched_wfD(1) [OF wf] pw so by (simp add: thr_wf_def thread_wf_def place_wf_def)
  qed (use sched_wfD(1) [OF wf] in simp_all)
  then show thesis using g(1) by (rule_tac that)
qed

lemma make_ready:
  assumes wf: "sched_wf k" and s: "st k t = RT_THREAD_SUSPEND"
  obtains k' where "rt_schedule_insert_thread t (unlink t k) = Some k'" "sched_wf k'"
    "outer k' = outer k" "current k' = current k"
    "thr k' = (thr k)(t := set_stat (if current k = Some t then RT_THREAD_RUNNING else RT_THREAD_READY) (thr k t))"
    "\<forall>q. \<not> is_ready_q q \<longrightarrow> queues k' q = remove1 t (queues k q)"
    "\<forall>p. queues k' (QReady p) = queues k (QReady p) @ (if current k \<noteq> Some t \<and> p = prio k t then [t] else [])"
proof (cases "current k = Some t")
  case True
  let ?k = "upd_thr t (set_stat RT_THREAD_RUNNING) (unlink t k)"
  note q = suspended_queues [OF wf s]
  have pw: "prio_wf (thr k t)" and so: "stack_ok (thr k t)"
    using sched_wfD(4) [OF wf, of t] s by (auto simp: thread_wf_def)
  have "sched_wf ?k"
  proof (rule sched_wf_change [OF wf])
    show "group_wf ?k" using sched_wfD(2) [OF wf] q(1) by (simp add: group_wf_def)
    show "thr_wf ?k t" using sched_wfD(1) [OF wf] pw so True by (simp add: thr_wf_def thread_wf_def place_wf_def)
  qed (use sched_wfD(1) [OF wf] in simp_all)
  then show thesis using True q(1)
    by (intro that [of ?k]) (simp_all add: insert_current_spec outer_def q_remove_def)
next
  case False
  note q = suspended_queues [OF wf s]
  have pw: "prio_wf (thr k t)" and so: "stack_ok (thr k t)"
    using sched_wfD(4) [OF wf, of t] s by (auto simp: thread_wf_def)
  have "group_wf (unlink t k)" "prio_wf (thr (unlink t k) t)" "current (unlink t k) \<noteq> Some t"
    using sched_wfD(2) [OF wf] q(1) pw False by (simp_all add: group_wf_def)
  from insert_thread_spec [OF this] obtain g where g:
    "rt_schedule_insert_thread t (unlink t k) = Some (k\<lparr>thr := (thr k)(t := set_stat RT_THREAD_READY (thr k t)),
        queues := q_append (QReady (prio k t)) t (q_remove t (queues k)), ready_group := g\<rparr>)"
    "group_wf (k\<lparr>thr := (thr k)(t := set_stat RT_THREAD_READY (thr k t)),
        queues := q_append (QReady (prio k t)) t (q_remove t (queues k)), ready_group := g\<rparr>)" by auto
  let ?k = "k\<lparr>thr := (thr k)(t := set_stat RT_THREAD_READY (thr k t)),
        queues := q_append (QReady (prio k t)) t (q_remove t (queues k)), ready_group := g\<rparr>"
  have "sched_wf ?k"
  proof (rule sched_wf_change [OF wf _ g(2)])
    show "thr_wf ?k t" using sched_wfD(1) [OF wf] pw so False by (auto simp: thr_wf_def thread_wf_def place_wf_def)
  qed (use sched_wfD(1) [OF wf] in simp_all)
  then show thesis using g(1) False q(2)
    by (intro that [of ?k]) (auto simp: outer_def q_append_def q_remove_def is_ready_q_def remove1_idem)
qed

lemma side_outer: "outer k' = outer k \<Longrightarrow> side k k'"
proof -
  assume o: "outer k' = outer k"
  have "rest k = (outer k)\<lparr>timers := (\<lambda>_. undefined), timer_list := [], soft_timer_list := [], objs := (\<lambda>_. undefined)\<rparr>" for k
    by (simp add: rest_def outer_def)
  then show "side k k'" using o outer_fields(1) [OF o] by (simp add: side_def)
qed

lemma side_timer_off [simp]: "side k (timer_off t k)"
  by (auto simp: side_def timer_off_objs) (simp add: rest_def timer_off_def rt_timer_remove_def)

lemma unlink_timer_off: "timer_off T (unlink t k) = unlink t (timer_off T k)"
  by (simp add: timer_off_def rt_timer_remove_def)

lemma timer_off_not_listed: "timers_wf k \<Longrightarrow> T \<notin> set (timer_list (timer_off T k)) \<union> set (soft_timer_list (timer_off T k))"
  by (simp add: timers_wf_def)

text \<open>\<open>rt_thread_suspend\<close> on a ready or running thread.\<close>

lemma rt_thread_suspend_spec:
  assumes wf: "kernel_wf k" and r: "runnable (st k t)"
  obtains k' where "rt_thread_suspend t k = Some (RT_EOK, k')" "kernel_wf k'" "side k k'"
    "current k' = current k" "timers k' = timers k"
    "thr k' = (thr k)(t := set_stat RT_THREAD_SUSPEND (thr k t))"
    "\<And>q. \<not> is_ready_q q \<Longrightarrow> queues k' q = queues k q" "homes (queues k') t = {}"
    "TThread t \<notin> set (timer_list k') \<union> set (soft_timer_list k')"
proof -
  note sw = kernel_wfD(1) [OF wf]
  obtain g where g: "rt_schedule_remove_thread t k = Some (k\<lparr>queues := q_remove t (queues k), ready_group := g\<rparr>)"
    "sched_wf (k\<lparr>queues := q_remove t (queues k), ready_group := g, thr := (thr k)(t := set_stat RT_THREAD_SUSPEND (thr k t))\<rparr>)"
    using make_suspended [OF sw r] .
  let ?k2 = "k\<lparr>queues := q_remove t (queues k), ready_group := g, thr := (thr k)(t := set_stat RT_THREAD_SUSPEND (thr k t))\<rparr>"
  have to: "thread_objs k t" using kernel_wfD(2) [OF wf] r by (auto simp: live_runnable)
  have tw: "timers_wf ?k2" by (rule timers_wf_cong [OF kernel_wfD(3) [OF wf]]) auto
  have "rt_object_get_type (OTimer (TThread t)) ?k2 = RT_Object_Class_Timer"
    using to by (simp add: thread_objs_def rt_object_get_type_def)
  then obtain e where e: "rt_timer_stop (TThread t) ?k2 = Some (e, timer_off (TThread t) ?k2)"
    using rt_timer_stop_spec [OF tw] by blast
  have "live (st ?k2 u) \<Longrightarrow> live (st k u)" for u using r by (cases "u = t") (auto simp: live_runnable)
  then have "objs_wf ?k2" by (rule_tac objs_wf_cong [OF kernel_wfD(5) [OF wf]]) auto
  then have kw: "kernel_wf (timer_off (TThread t) ?k2)"
    using g(2) tw kernel_wfD(4) [OF wf] by (simp add: kernel_wf_def timers_wf_timer_off lock_ok_def)
  have cur: "st k t = RT_THREAD_RUNNING \<longrightarrow> current k = Some t"
    using sched_wfD(5) [OF sw, of t] by (simp add: place_wf_def)
  have sd: "side k ?k2" by (simp add: side_def rest_def)
  show thesis
  proof (rule that [of "timer_off (TThread t) ?k2"])
    show "rt_thread_suspend t k = Some (RT_EOK, timer_off (TThread t) ?k2)"
      using to r cur g(1) e by (auto simp: rt_thread_suspend_def thread_objs_def rt_thread_self_def runnable_def)
    show "side k (timer_off (TThread t) ?k2)" by (rule side_trans [OF sd side_timer_off])
    show "homes (queues (timer_off (TThread t) ?k2)) t = {}" using sched_wfD(1) [OF sw] by simp
    show "TThread t \<notin> set (timer_list (timer_off (TThread t) ?k2)) \<union> set (soft_timer_list (timer_off (TThread t) ?k2))"
      by (rule timer_off_not_listed [OF tw])
    show "queues (timer_off (TThread t) ?k2) q = queues k q" if "\<not> is_ready_q q" for q
      using runnable_queues [OF sw r that] by simp
  qed (use kw in simp_all)
qed

text \<open>\<open>rt_thread_resume\<close> on a suspended thread, wherever it waits.\<close>

lemma rt_thread_resume_spec:
  assumes wf: "kernel_wf k" and s: "st k t = RT_THREAD_SUSPEND"
  obtains k' where "rt_thread_resume t k = Some (RT_EOK, k')" "kernel_wf k'" "side k k'"
    "current k' = current k" "timers k' = timers k"
    "thr k' = (thr k)(t := set_stat (if current k = Some t then RT_THREAD_RUNNING else RT_THREAD_READY) (thr k t))"
    "\<forall>q. \<not> is_ready_q q \<longrightarrow> queues k' q = remove1 t (queues k q)"
    "\<forall>p. queues k' (QReady p) = queues k (QReady p) @ (if current k \<noteq> Some t \<and> p = prio k t then [t] else [])"
proof -
  note sw = kernel_wfD(1) [OF wf]
  let ?T = "TThread t"
  have to: "thread_objs k t" using kernel_wfD(2) [OF wf] s by simp
  have "timers_wf (unlink t k)" by (rule timers_wf_cong [OF kernel_wfD(3) [OF wf]]) auto
  moreover have "rt_object_get_type (OTimer ?T) (unlink t k) = RT_Object_Class_Timer"
    using to by (simp add: thread_objs_def rt_object_get_type_def)
  ultimately obtain e where e: "rt_timer_stop ?T (unlink t k) = Some (e, timer_off ?T (unlink t k))"
    by (rule rt_timer_stop_spec)
  let ?k1 = "timer_off ?T k"
  have "sched_wf ?k1" "st ?k1 t = RT_THREAD_SUSPEND" using sw s by simp_all
  then obtain k' where k': "rt_schedule_insert_thread t (unlink t ?k1) = Some k'" "sched_wf k'"
    "outer k' = outer ?k1" "current k' = current ?k1"
    "thr k' = (thr ?k1)(t := set_stat (if current ?k1 = Some t then RT_THREAD_RUNNING else RT_THREAD_READY) (thr ?k1 t))"
    "\<forall>q. \<not> is_ready_q q \<longrightarrow> queues k' q = remove1 t (queues ?k1 q)"
    "\<forall>p. queues k' (QReady p) = queues ?k1 (QReady p) @ (if current ?k1 \<noteq> Some t \<and> p = prio ?k1 t then [t] else [])"
    by (rule make_ready) blast
  note f = outer_fields [OF k'(3)]
  have "live (st k' u) \<Longrightarrow> live (st ?k1 u)" for u using s unfolding k'(5) by (cases "u = t") auto
  then have ow: "objs_wf k'"
    by (rule_tac objs_wf_cong [of ?k1]) (use kernel_wfD(5) [OF wf] f in auto)
  have nt: "?T \<notin> set (timer_list ?k1) \<union> set (soft_timer_list ?k1)"
    by (rule timer_off_not_listed [OF kernel_wfD(3) [OF wf]])
  have tw: "timers_wf k'"
    by (rule timers_wf_cong [OF timers_wf_timer_off [OF kernel_wfD(3) [OF wf], of ?T]])
       (use f nt in \<open>auto simp: k'(5)\<close>)
  show thesis
  proof (rule that [of k'])
    show "rt_thread_resume t k = Some (RT_EOK, k')"
      using to s e k'(1) by (simp add: rt_thread_resume_def thread_objs_def unlink_timer_off)
    show "kernel_wf k'" using k'(2) ow tw kernel_wfD(4) [OF wf] f by (simp add: kernel_wf_def lock_ok_def)
    show "side k k'" by (rule side_trans [OF side_timer_off side_outer [OF k'(3)]])
  qed (use k' f in simp_all)
qed

text \<open>Both refuse a thread in any other state and change nothing.\<close>

lemma rt_thread_suspend_refuses:
  "rt_object_get_type (OThread t) k = RT_Object_Class_Thread \<Longrightarrow> \<not> runnable (st k t) \<Longrightarrow>
   rt_thread_suspend t k = Some (- RT_ERROR, k)"
  by (simp add: rt_thread_suspend_def runnable_def)

lemma rt_thread_resume_refuses:
  "rt_object_get_type (OThread t) k = RT_Object_Class_Thread \<Longrightarrow> st k t \<noteq> RT_THREAD_SUSPEND \<Longrightarrow>
   rt_thread_resume t k = Some (- RT_ERROR, k)"
  by (simp add: rt_thread_resume_def)

section \<open>Starting a hard timer\<close>

lemma in_order_deadline_upd:
  "in_order b (\<lambda>u. timeout_tick ((f(T := x)) u)) ts = in_order b (\<lambda>u. timeout_tick (f u)) ts" if "T \<notin> set ts"
  using that by (intro in_order_cong) auto

lemma rt_timer_start_spec:
  assumes wf: "kernel_wf k" and ty: "rt_object_get_type (OTimer T) k = RT_Object_Class_Timer"
    and hard: "tflag k T AND RT_TIMER_FLAG_SOFT_TIMER = 0"
    and short: "unat (timer_init_tick (timers k T)) < half"
    and sus: "\<And>t. T = TThread t \<Longrightarrow> st k t = RT_THREAD_SUSPEND"
  obtains k' where "rt_timer_start T k = Some (RT_EOK, k')" "kernel_wf k'" "side k k'"
    "thr k' = thr k" "queues k' = queues k" "current k' = current k"
    "timers k' = (timers k)(T := (timers k T)\<lparr>timeout_tick := tick k + timer_init_tick (timers k T)\<rparr>)"
    "timer_list k' = timer_insert (deadline k') T (remove1 T (timer_list k))"
    "\<forall>r. r \<noteq> OTimer T \<longrightarrow> objs k' r = objs k r"
proof -
  let ?k0 = "timer_off T k"
  let ?tm = "(timers k)(T := (timers k T)\<lparr>timeout_tick := tick k + timer_init_tick (timers k T)\<rparr>)"
  let ?k1 = "?k0\<lparr>timers := ?tm, timer_list := timer_insert (\<lambda>u. timeout_tick (?tm u)) T (timer_list ?k0)\<rparr>"
  let ?k' = "upd_obj (OTimer T) (\<lambda>ob. ob\<lparr>oflag := oflag ob OR RT_TIMER_FLAG_ACTIVATED\<rparr>) ?k1"
  note w0 = kernel_wf_timer_off [OF wf, of T]
  have d0: "T \<notin> set (timer_list ?k0) \<union> set (soft_timer_list ?k0)" by (rule timer_off_not_listed [OF kernel_wfD(3) [OF wf]])
  have t0: "timers_wf ?k0" using w0 by (rule kernel_wfD(3))
  have eq: "rt_timer_start T k = Some (RT_EOK, ?k')"
    using ty hard short
    by (simp add: rt_timer_start_def timer_off_def rt_timer_remove_def half_def word_less_nat_alt rt_tick_get_def
        activated_bits rt_object_get_type_def)
  have dt: "due (tick k) (tick k + timer_init_tick (timers k T)) < half" using short by (simp add: due_def)
  have "in_order (tick k) (deadline k) (timer_list ?k0)" using t0 by (simp add: timers_wf_def)
  then have "in_order (tick k) (\<lambda>u. timeout_tick (?tm u)) (timer_list ?k0)"
    using d0 by (subst in_order_deadline_upd) auto
  then have ord: "in_order (tick k) (\<lambda>u. timeout_tick (?tm u)) (timer_insert (\<lambda>u. timeout_tick (?tm u)) T (timer_list ?k0))"
    by (rule in_order_insert) (use dt in simp)
  have types: "rt_object_get_type r ?k' = rt_object_get_type r k" "rt_object_is_systemobject r ?k' = rt_object_is_systemobject r k" for r
    by (auto simp: timer_off_objs intro!: objs_type_cong)
  have fl: "tflag ?k' u AND RT_TIMER_FLAG_SOFT_TIMER = tflag k u AND RT_TIMER_FLAG_SOFT_TIMER"
    "tflag ?k' u AND RT_TIMER_FLAG_PERIODIC = tflag k u AND RT_TIMER_FLAG_PERIODIC"
    "u \<noteq> T \<Longrightarrow> tflag ?k' u = tflag k u" "tflag ?k' T AND RT_TIMER_FLAG_ACTIVATED \<noteq> 0" for u
    by (simp_all add: timer_off_objs activated_bits)
  have "thread_objs ?k' u = thread_objs k u" for u
    unfolding thread_objs_def types fl by simp
  then have ow: "objs_wf ?k'" using kernel_wfD(5) [OF wf] by (simp add: objs_wf_def)
  have act: "u \<in> set (timer_list k) \<union> set (soft_timer_list k) \<Longrightarrow> tflag k u AND RT_TIMER_FLAG_ACTIVATED \<noteq> 0" for u
    using kernel_wfD(3) [OF wf] by (auto simp: timers_wf_def)
  have tw: "timers_wf ?k'"
    unfolding timers_wf_def types fl(1,2)
    using act t0 ord d0 ty hard sus fl(3,4)
    by (auto simp: timers_wf_def timer_off_tflag)
  have "kernel_wf ?k'" using ow tw kernel_wfD(1,4) [OF wf] by (simp add: kernel_wf_def lock_ok_def)
  moreover have "side k ?k'" by (auto simp: side_def timer_off_objs) (simp add: rest_def timer_off_def rt_timer_remove_def)
  ultimately show thesis by (intro that [of ?k'] eq) (simp_all add: timer_off_objs)
qed

lemma arm_thread_timer_spec:
  assumes wf: "kernel_wf k" and s: "st k t = RT_THREAD_SUSPEND" and short: "unat tck < half"
  obtains k' where "arm_thread_timer t tck k = Some k'" "kernel_wf k'" "side k k'"
    "thr k' = thr k" "queues k' = queues k" "current k' = current k" "TThread t \<in> set (timer_list k')"
    "deadline k' (TThread t) = tick k + tck" "\<And>u. u \<noteq> TThread t \<Longrightarrow> timers k' u = timers k u"
proof -
  have to: "thread_objs k t" using kernel_wfD(2) [OF wf] s by simp
  let ?k1 = "upd_timer (TThread t) (\<lambda>x. x\<lparr>timer_init_tick := tck\<rparr>) k"
  have "in_order b (deadline ?k1) ts = in_order b (deadline k) ts" for b ts by (rule in_order_cong) auto
  then have "timers_wf ?k1" using kernel_wfD(3) [OF wf] unfolding timers_wf_def rt_object_get_type_def by simp
  moreover have "objs_wf ?k1" by (rule objs_wf_cong [OF kernel_wfD(5) [OF wf]]) auto
  ultimately have w1: "kernel_wf ?k1" using kernel_wfD(1,4) [OF wf] by (simp add: kernel_wf_def lock_ok_def)
  have "rt_object_get_type (OTimer (TThread t)) ?k1 = RT_Object_Class_Timer" "tflag ?k1 (TThread t) AND RT_TIMER_FLAG_SOFT_TIMER = 0"
    "unat (timer_init_tick (timers ?k1 (TThread t))) < half" "\<And>u. TThread t = TThread u \<Longrightarrow> st ?k1 u = RT_THREAD_SUSPEND"
    using to short s by (auto simp: thread_objs_def rt_object_get_type_def)
  from rt_timer_start_spec [OF w1 this] obtain k' where k': "rt_timer_start (TThread t) ?k1 = Some (RT_EOK, k')" "kernel_wf k'" "side ?k1 k'"
    "thr k' = thr ?k1" "queues k' = queues ?k1" "current k' = current ?k1"
    "timers k' = (timers ?k1)(TThread t := (timers ?k1 (TThread t))\<lparr>timeout_tick := tick ?k1 + timer_init_tick (timers ?k1 (TThread t))\<rparr>)"
    "timer_list k' = timer_insert (deadline k') (TThread t) (remove1 (TThread t) (timer_list ?k1))" by blast
  have "side k ?k1" by (simp add: side_def rest_def)
  then show thesis using k' to
    by (intro that [of k']) (auto simp: arm_thread_timer_def rt_timer_control_def thread_objs_def intro: side_trans)
qed

lemma sleep_for_spec:
  assumes wf: "kernel_wf k" and r: "runnable (st k t)" and short: "unat tck < half"
  obtains k' where "sleep_for t tck k = Some k'" "kernel_wf k'" "side k k'" "current k' = current k"
    "thr k' = (thr k)(t := set_stat RT_THREAD_SUSPEND (thr k t))" "homes (queues k') t = {}"
    "TThread t \<in> set (timer_list k')" "deadline k' (TThread t) = tick k + tck"
    "\<forall>q. \<not> is_ready_q q \<longrightarrow> queues k' q = queues k q"
proof -
  obtain k1 where k1: "rt_thread_suspend t k = Some (RT_EOK, k1)" "kernel_wf k1" "side k k1"
    "current k1 = current k" "thr k1 = (thr k)(t := set_stat RT_THREAD_SUSPEND (thr k t))"
    "\<And>q. \<not> is_ready_q q \<Longrightarrow> queues k1 q = queues k q" "homes (queues k1) t = {}"
    using rt_thread_suspend_spec [OF wf r] by metis
  then have "st k1 t = RT_THREAD_SUSPEND" by simp
  from arm_thread_timer_spec [OF k1(2) this short] obtain k' where k': "arm_thread_timer t tck k1 = Some k'" "kernel_wf k'" "side k1 k'"
    "thr k' = thr k1" "queues k' = queues k1" "current k' = current k1" "TThread t \<in> set (timer_list k')"
    "deadline k' (TThread t) = tick k1 + tck" by blast
  show thesis using k' k1 side_fields(2) [OF k1(3)]
    by (intro that [of k']) (auto simp: sleep_for_def intro: side_trans)
qed

section \<open>The time-out of a waiting thread\<close>

lemma sched_wf_field_change:
  assumes wf: "sched_wf k" and "stat_of th = st k t" "current_priority th = current_priority (thr k t)"
    "number_mask th = number_mask (thr k t)" "stack_ok th = stack_ok (thr k t)"
  shows "sched_wf (k\<lparr>thr := (thr k)(t := th)\<rparr>)"
proof (rule sched_wf_change [OF wf])
  show "group_wf (k\<lparr>thr := (thr k)(t := th)\<rparr>)" using sched_wfD(2) [OF wf] by (simp add: group_wf_def)
  show "thr_wf (k\<lparr>thr := (thr k)(t := th)\<rparr>) t"
    using sched_wfD(3) [OF wf, of t] assms(2-5) by (simp add: thr_wf_def thread_wf_def place_wf_def prio_wf_def)
qed (use sched_wfD(1) [OF wf] in simp_all)

lemma kernel_wf_field_change:
  assumes wf: "kernel_wf k" and c: "stat_of th = st k t" "current_priority th = current_priority (thr k t)"
    "number_mask th = number_mask (thr k t)" "stack_ok th = stack_ok (thr k t)"
  shows "kernel_wf (k\<lparr>thr := (thr k)(t := th)\<rparr>)"
proof -
  have "objs_wf (k\<lparr>thr := (thr k)(t := th)\<rparr>)" by (rule objs_wf_cong [OF kernel_wfD(5) [OF wf]]) (use c in \<open>auto split: if_splits\<close>)
  moreover have "timers_wf (k\<lparr>thr := (thr k)(t := th)\<rparr>)" by (rule timers_wf_cong [OF kernel_wfD(3) [OF wf]]) (use c in auto)
  ultimately show ?thesis using sched_wf_field_change [OF kernel_wfD(1) [OF wf] c] kernel_wfD(4) [OF wf]
    by (simp add: kernel_wf_def lock_ok_def)
qed

lemma rt_thread_timeout_spec:
  assumes wf: "kernel_wf k" and s: "st k t = RT_THREAD_SUSPEND" and c: "current k \<noteq> None"
    and off: "TThread t \<notin> set (timer_list k) \<union> set (soft_timer_list k)"
  obtains k' where "rt_thread_timeout t k = Some k'" "kernel_wf k'" "side k k'"
    "timers k' = timers k" "timer_list k' = timer_list k" "objs k' = objs k" "current k' \<noteq> None"
    "terror (thr k' t) = - RT_ETIMEOUT" "runnable (st k' t)"
    "\<forall>u. u \<noteq> t \<longrightarrow> but_stat (thr k' u) = but_stat (thr k u)"
    "\<forall>u. u \<noteq> t \<longrightarrow> (runnable (st k' u)) = (runnable (st k u))"
    "\<forall>u. u \<noteq> t \<longrightarrow> (st k' u = RT_THREAD_SUSPEND) = (st k u = RT_THREAD_SUSPEND)"
    "\<forall>q. \<not> is_ready_q q \<longrightarrow> queues k' q = remove1 t (queues k q)"
proof -
  let ?k1 = "upd_thr t (\<lambda>th. th\<lparr>terror := - RT_ETIMEOUT\<rparr>) k"
  have w1: "kernel_wf ?k1" by (rule kernel_wf_field_change [OF wf]) simp_all
  have "sched_wf ?k1" "st ?k1 t = RT_THREAD_SUSPEND" using kernel_wfD(1) [OF w1] s by simp_all
  then obtain k2 where k2: "rt_schedule_insert_thread t (unlink t ?k1) = Some k2" "sched_wf k2"
    "outer k2 = outer ?k1" "current k2 = current ?k1"
    "thr k2 = (thr ?k1)(t := set_stat (if current ?k1 = Some t then RT_THREAD_RUNNING else RT_THREAD_READY) (thr ?k1 t))"
    "\<forall>q. \<not> is_ready_q q \<longrightarrow> queues k2 q = remove1 t (queues ?k1 q)"
    by (rule make_ready) blast
  note f = outer_fields [OF k2(3)]
  have "live (st k2 u) \<Longrightarrow> live (st ?k1 u)" for u using s unfolding k2(5) by (cases "u = t") auto
  then have ow: "objs_wf k2" by (rule_tac objs_wf_cong [of ?k1]) (use kernel_wfD(5) [OF w1] f in auto)
  have tw: "timers_wf k2"
    by (rule timers_wf_cong [OF kernel_wfD(3) [OF w1]]) (use f off in \<open>auto simp: k2(5)\<close>)
  have w2: "kernel_wf k2" using k2(2) ow tw kernel_wfD(4) [OF wf] f by (simp add: kernel_wf_def lock_ok_def)
  have c2: "current k2 \<noteq> None" using c k2(4) by simp
  obtain k' where k': "rt_schedule k2 = Some k'" "kernel_wf k'" "sched_step k2 k'"
    using rt_schedule_kernel [OF w2 c2] .
  note g = outer_fields [OF sched_stepD(1) [OF k'(3)]] and sd = sched_stepD [OF k'(3)]
  have ty: "rt_object_get_type (OThread t) k = RT_Object_Class_Thread"
    using kernel_wfD(2) [OF wf] s by (simp add: thread_objs_def)
  have eq: "rt_thread_timeout t k = Some k'"
    using s ty k2(1) k'(1) by (simp add: rt_thread_timeout_def RT_Object_Class_Thread_def rt_object_get_type_def)
  have bt: "but_stat (thr k' u) = but_stat (thr k u)" if "u \<noteq> t" for u
    using sd(3) [of u] that by (simp add: k2(5))
  have run: "runnable (st k' u) \<longleftrightarrow> runnable (st k2 u)" for u using sd(4,5) [of u] by metis
  show thesis
  proof (rule that [of k'])
    show "side k k'"
      using side_outer [OF k2(3)] sched_step_side [OF k'(3)] by (auto simp: side_def rest_def)
    show "terror (thr k' t) = - RT_ETIMEOUT" using but_stat_fields(2) [OF sd(3) [of t]] by (simp add: k2(5))
    show "runnable (st k' t)" unfolding run by (simp add: k2(5))
    show "\<forall>u. u \<noteq> t \<longrightarrow> (runnable (st k' u)) = (runnable (st k u))" unfolding run by (simp add: k2(5))
    show "\<forall>u. u \<noteq> t \<longrightarrow> (st k' u = RT_THREAD_SUSPEND) = (st k u = RT_THREAD_SUSPEND)"
      unfolding sched_step_suspend [OF k'(3)] by (simp add: k2(5))
    show "\<forall>q. \<not> is_ready_q q \<longrightarrow> queues k' q = remove1 t (queues k q)"
      using sd(2) k2(6) by (auto simp: is_ready_q_def)
    show "current k' \<noteq> None" using sd(6) c2 by simp
  qed (use eq k'(2) f g bt in simp_all)
qed

end
