(* ===== verification/Tick.thy ===== *)
theory Tick
  imports Thread
begin

text \<open>
  The tick interrupt: \<open>rt_tick_increase\<close> of \<^verbatim>\<open>rt-thread/src/clock.c\<close> with the expiry loop
  \<open>rt_timer_check\<close> of timer.c, the soft timers and their thread, and the idle thread of
  \<^verbatim>\<open>idle.c\<close>, which disposes of ended threads.

  The callback of a user timer is application code: it is the parameter \<open>cb\<close>, a function on the kernel
  state. The expiry loop need not end (a periodic timer with period 0 is restarted for the current tick
  for ever), so it is a partial function: \<open>None\<close> when it halts or does not end.
\<close>

section \<open>The expiry loop\<close>

definition timeout_call :: "(nat \<Rightarrow> kernel \<Rightarrow> kernel option) \<Rightarrow> timeout_func \<Rightarrow> kernel \<Rightarrow> kernel option" where
  "timeout_call cb f k = (case f of Rt_thread_timeout t \<Rightarrow> rt_thread_timeout t k | User_timeout n \<Rightarrow> cb n k)"

text \<open>What both loops do with an expired timer after its callback: restart it or mark it inactive.\<close>

definition clear_activated :: "timer_id \<Rightarrow> kernel \<Rightarrow> kernel" where
  "clear_activated t k = upd_obj (OTimer t) (\<lambda>ob. ob\<lparr>oflag := oflag ob AND NOT RT_TIMER_FLAG_ACTIVATED\<rparr>) k"

definition timer_rearm :: "timer_id \<Rightarrow> kernel \<Rightarrow> kernel option" where
  "timer_rearm t k =
     (if tflag k t AND RT_TIMER_FLAG_PERIODIC \<noteq> 0 \<and> tflag k t AND RT_TIMER_FLAG_ACTIVATED \<noteq> 0
      then do { (_, k) \<leftarrow> rt_timer_start t (clear_activated t k); Some k }
      else Some (clear_activated t k))"

partial_function (option) rt_timer_check_loop ::
  "(nat \<Rightarrow> kernel \<Rightarrow> kernel option) \<Rightarrow> u32 \<Rightarrow> kernel \<Rightarrow> kernel option" where
  "rt_timer_check_loop cb current_tick k =
     (case timer_list k of
        [] \<Rightarrow> Some k
      | t # _ \<Rightarrow>
          if current_tick - deadline k t < RT_TICK_MAX div 2
          then Option.bind (timeout_call cb (timeout_func (timers k t)) (rt_timer_remove t k)) (\<lambda>k.
               Option.bind (timer_rearm t k) (\<lambda>k'.
               rt_timer_check_loop cb (rt_tick_get k) k'))
          else Some k)"

definition rt_timer_check :: "(nat \<Rightarrow> kernel \<Rightarrow> kernel option) \<Rightarrow> kernel \<Rightarrow> kernel option" where
  "rt_timer_check cb k = rt_timer_check_loop cb (rt_tick_get k) k"

section \<open>The tick\<close>

definition rt_tick_increase :: "(nat \<Rightarrow> kernel \<Rightarrow> kernel option) \<Rightarrow> kernel \<Rightarrow> kernel option" where
  "rt_tick_increase cb k = do {
     let k = k\<lparr>tick := tick k + 1\<rparr>;
     t \<leftarrow> rt_thread_self k;
     let k = upd_thr t (\<lambda>th. th\<lparr>remaining_tick := remaining_tick th - 1\<rparr>) k;
     k \<leftarrow> (if remaining_tick (thr k t) = 0
          then do {
            let k = upd_thr t (\<lambda>th. th\<lparr>remaining_tick := init_tick th, stat := stat th OR RT_THREAD_STAT_YIELD\<rparr>) k;
            (_, k) \<leftarrow> rt_thread_yield k;
            Some k }
          else Some k);
     rt_timer_check cb k }"

section \<open>Soft timers\<close>

text \<open>The loop of \<open>rt_soft_timer_check\<close>; \<open>n\<close> is the next node, taken before the callback runs.\<close>

partial_function (option) rt_soft_timer_check_loop ::
  "(nat \<Rightarrow> kernel \<Rightarrow> kernel option) \<Rightarrow> u32 \<Rightarrow> timer_id option \<Rightarrow> kernel \<Rightarrow> kernel option" where
  "rt_soft_timer_check_loop cb current_tick n k =
     (case n of
        None \<Rightarrow> Some k
      | Some t \<Rightarrow>
          if current_tick - deadline k t < RT_TICK_MAX div 2
          then Option.bind (rt_exit_critical (rt_timer_remove t k)) (\<lambda>k1.
               Option.bind (timeout_call cb (timeout_func (timers k1 t)) k1) (\<lambda>k2.
               Option.bind (timer_rearm t (rt_enter_critical k2)) (\<lambda>k3.
               rt_soft_timer_check_loop cb (rt_tick_get k2)
                 (let after = tl (dropWhile (\<lambda>u. u \<noteq> t) (soft_timer_list k))
                  in case after of [] \<Rightarrow> None | u # _ \<Rightarrow> Some u) k3)))
          else Some k)"

definition rt_soft_timer_check :: "(nat \<Rightarrow> kernel \<Rightarrow> kernel option) \<Rightarrow> kernel \<Rightarrow> kernel option" where
  "rt_soft_timer_check cb k = do {
     let current_tick = rt_tick_get k;
     let k = rt_enter_critical k;
     k \<leftarrow> rt_soft_timer_check_loop cb current_tick
            (case soft_timer_list k of [] \<Rightarrow> None | t # _ \<Rightarrow> Some t) k;
     rt_exit_critical k }"

text \<open>
  One round of \<open>rt_thread_timer_entry\<close> up to the point where the timer thread gives up the processor;
  the round continues with \<open>rt_soft_timer_check\<close> when the thread runs again.
\<close>

definition timer_entry_wait :: "kernel \<Rightarrow> (bool \<times> kernel) option" where
  "timer_entry_wait k =
     (let next_timeout = rt_timer_list_next_timeout (soft_timer_list k) k in
      if next_timeout = RT_TICK_MAX then do {
        t \<leftarrow> rt_thread_self k;
        (_, k) \<leftarrow> rt_thread_suspend t k;
        k \<leftarrow> rt_schedule k;
        Some (True, k) }
      else if next_timeout - rt_tick_get k < RT_TICK_MAX div 2 then do {
        k \<leftarrow> rt_thread_delay (next_timeout - rt_tick_get k) k;
        Some (True, k) }
      else Some (False, k))"

definition rt_system_timer_init :: "kernel \<Rightarrow> kernel" where
  "rt_system_timer_init k = k\<lparr>timer_list := []\<rparr>"

definition rt_system_timer_thread_init :: "u32 \<Rightarrow> kernel \<Rightarrow> kernel option" where
  "rt_system_timer_thread_init stack k = do {
     let k = k\<lparr>soft_timer_list := []\<rparr>;
     (_, k) \<leftarrow> rt_thread_init timer_thread ''timer'' 0 0 stack 512 4 10 k;
     (_, k) \<leftarrow> rt_thread_startup timer_thread k;
     Some k }"

section \<open>The idle thread\<close>

definition rt_thread_idle_init :: "u32 \<Rightarrow> kernel \<Rightarrow> kernel option" where
  "rt_thread_idle_init stack k = do {
     (_, k) \<leftarrow> rt_thread_init idle_thread ''tidle0'' 1 0 stack 256 (RT_THREAD_PRIORITY_MAX - 1) 32 k;
     (_, k) \<leftarrow> rt_thread_startup idle_thread k;
     Some k }"

text \<open>
  \<open>rt_thread_idle_excute\<close> takes ended threads off the defunct list until it is empty or a static thread
  has been taken. \<open>cl\<close> stands for the cleanup functions of the threads.
\<close>

partial_function (option) rt_thread_idle_excute ::
  "(nat \<Rightarrow> tid \<Rightarrow> kernel \<Rightarrow> kernel option) \<Rightarrow> kernel \<Rightarrow> kernel option" where
  "rt_thread_idle_excute cl k =
     (case queues k QDefunct of
        [] \<Rightarrow> Some k
      | t # _ \<Rightarrow>
          Option.bind (RT_DEBUG_NOT_IN_INTERRUPT k) (\<lambda>_.
          Option.bind (case cleanup (thr k t) of
                         None \<Rightarrow> Some (rt_enter_critical (unlink t k))
                       | Some f \<Rightarrow> cl f t (rt_enter_critical (unlink t k))) (\<lambda>k1.
          if rt_object_is_systemobject (OThread t) k1
          then rt_exit_critical (rt_object_detach (OThread t) k1)
          else Option.bind (rt_exit_critical k1) (\<lambda>k2.
               Option.bind (rt_object_delete (OThread t) k2) (\<lambda>k3. rt_thread_idle_excute cl k3)))))"

text \<open>The table of idle hooks, four entries.\<close>

definition rt_thread_idle_sethook :: "nat \<Rightarrow> nat option list \<Rightarrow> rt_err_t \<times> nat option list" where
  "rt_thread_idle_sethook hook tab =
     (case find (\<lambda>i. tab ! i = None) [0..<length tab] of
        None \<Rightarrow> (- RT_EFULL, tab)
      | Some i \<Rightarrow> (RT_EOK, tab[i := Some hook]))"

definition rt_thread_idle_delhook :: "nat \<Rightarrow> nat option list \<Rightarrow> rt_err_t \<times> nat option list" where
  "rt_thread_idle_delhook hook tab =
     (case find (\<lambda>i. tab ! i = Some hook) [0..<length tab] of
        None \<Rightarrow> (- RT_ENOSYS, tab)
      | Some i \<Rightarrow> (RT_EOK, tab[i := None]))"

section \<open>The expiry loop ends and fires what is due\<close>

definition cb_ok :: "(nat \<Rightarrow> kernel \<Rightarrow> kernel option) \<Rightarrow> bool" where
  "cb_ok cb \<longleftrightarrow> (\<forall>n k. kernel_wf k \<longrightarrow> current k \<noteq> None \<longrightarrow>
     (\<exists>k'. cb n k = Some k' \<and> kernel_wf k' \<and> current k' \<noteq> None \<and> tick k' = tick k \<and> timers k' = timers k \<and>
           set (timer_list k') \<subseteq> set (timer_list k) \<and>
           (\<forall>u. objs k' (OTimer (TUser u)) = objs k (OTimer (TUser u)))))"

text \<open>User timers in the list: periods below half the tick range, and not zero for a periodic timer.\<close>

definition armed_ok :: "kernel \<Rightarrow> bool" where
  "armed_ok k \<longleftrightarrow> (\<forall>u. TUser u \<in> set (timer_list k) \<longrightarrow>
     unat (timer_init_tick (timers k (TUser u))) < half \<and>
     (tflag k (TUser u) AND RT_TIMER_FLAG_PERIODIC \<noteq> 0 \<longrightarrow> timer_init_tick (timers k (TUser u)) \<noteq> 0))"

definition due_now :: "kernel \<Rightarrow> timer_id \<Rightarrow> bool" where
  "due_now k t \<longleftrightarrow> deadline k t = tick k"

definition quiet :: "kernel \<Rightarrow> bool" where
  "quiet k \<longleftrightarrow> (\<forall>t\<in>set (timer_list k). \<not> due_now k t)"

lemma due_zero: "due b x = 0 \<longleftrightarrow> x = b"
  by (simp add: due_def unat_eq_zero)

lemma expired_iff:
  assumes "in_order (tick k) (deadline k) (timer_list k)" "t \<in> set (timer_list k)"
  shows "tick k - deadline k t < 0x7fffffff \<longleftrightarrow> due_now k t"
proof -
  have d: "due (tick k) (deadline k t) < half" using assms by (simp add: in_order_def)
  have z: "due (tick k) (tick k) < half" by (simp add: due_def half_def)
  show ?thesis
  proof (cases "deadline k t = tick k")
    case False
    then show ?thesis using due_compare(2) [OF z d] by (simp add: due_now_def) (simp add: due_def)
  qed (simp add: due_now_def)
qed

lemma quiet_head:
  assumes "in_order (tick k) (deadline k) (timer_list k)" "timer_list k = t # ts" "\<not> due_now k t"
  shows "quiet k"
proof -
  have "due (tick k) (deadline k t) \<noteq> 0" using assms(3) by (simp add: due_now_def due_zero)
  moreover have "\<forall>u\<in>set ts. due (tick k) (deadline k t) \<le> due (tick k) (deadline k u)"
    using assms(1,2) by (simp add: in_order_def)
  ultimately have "\<forall>u\<in>set (timer_list k). due (tick k) (deadline k u) \<noteq> 0"
    unfolding assms(2) by auto
  then show ?thesis by (simp add: quiet_def due_now_def due_zero)
qed

text \<open>Taking a timer off the list before its callback.\<close>

lemma kernel_wf_remove:
  assumes wf: "kernel_wf k"
  shows "kernel_wf (rt_timer_remove t k)" "t \<notin> set (timer_list (rt_timer_remove t k)) \<union> set (soft_timer_list (rt_timer_remove t k))"
    "side k (rt_timer_remove t k)"
proof -
  have d: "distinct (timer_list k)" "distinct (soft_timer_list k)" and t: "timers_wf k"
    using kernel_wfD(3) [OF wf] by (simp_all add: timers_wf_def)
  have "timers_wf (rt_timer_remove t k)"
    using t d unfolding timers_wf_def rt_timer_remove_def rt_object_get_type_def
    by (simp add: in_order_subset) blast
  moreover have "objs_wf (rt_timer_remove t k)"
    by (rule objs_wf_cong [OF kernel_wfD(5) [OF wf]]) (auto simp: rt_timer_remove_def)
  ultimately show "kernel_wf (rt_timer_remove t k)"
    using kernel_wfD(1,4) [OF wf] by (simp add: kernel_wf_def rt_timer_remove_def lock_ok_def)
  show "t \<notin> set (timer_list (rt_timer_remove t k)) \<union> set (soft_timer_list (rt_timer_remove t k))"
    using d by (simp add: rt_timer_remove_def)
  show "side k (rt_timer_remove t k)" by (simp add: rt_timer_remove_def side_def rest_def)
qed

text \<open>Marking an unlisted timer inactive.\<close>

lemma kernel_wf_clear_activated:
  assumes wf: "kernel_wf k" and t: "t \<notin> set (timer_list k) \<union> set (soft_timer_list k)"
  shows "kernel_wf (clear_activated t k)" "timer_list (clear_activated t k) = timer_list k"
    "timers (clear_activated t k) = timers k" "tick (clear_activated t k) = tick k" "thr (clear_activated t k) = thr k"
    "current (clear_activated t k) = current k" "side k (clear_activated t k)" "queues (clear_activated t k) = queues k"
proof -
  have "clear_activated t k = timer_off t k"
    using t by (simp add: clear_activated_def timer_off_def rt_timer_remove_def remove1_idem)
  then show "kernel_wf (clear_activated t k)" "timer_list (clear_activated t k) = timer_list k"
    "timers (clear_activated t k) = timers k" "tick (clear_activated t k) = tick k" "thr (clear_activated t k) = thr k"
    "current (clear_activated t k) = current k" "side k (clear_activated t k)" "queues (clear_activated t k) = queues k"
    using kernel_wf_timer_off [OF wf, of t] t by (simp_all add: remove1_idem)
qed

definition due_set :: "kernel \<Rightarrow> timer_id set" where
  "due_set k = {t \<in> set (timer_list k). due_now k t}"

lemma expire_thread:
  assumes wf: "kernel_wf k" and c: "current k \<noteq> None" and l: "TThread s \<in> set (timer_list k)"
  obtains k1 where "timeout_call cb (timeout_func (timers k (TThread s))) (rt_timer_remove (TThread s) k) = Some k1"
    "timer_rearm (TThread s) k1 = Some (clear_activated (TThread s) k1)"
    "kernel_wf (clear_activated (TThread s) k1)" "current k1 \<noteq> None" "tick k1 = tick k" "timers k1 = timers k"
    "timer_list k1 = remove1 (TThread s) (timer_list k)"
    "objs k1 = objs k" "TThread s \<notin> set (timer_list k1) \<union> set (soft_timer_list k1)" "side k k1"
    "terror (thr k1 s) = - RT_ETIMEOUT" "runnable (st k1 s)"
    "\<forall>u. u \<noteq> s \<longrightarrow> but_stat (thr k1 u) = but_stat (thr k u)"
    "\<forall>u. u \<noteq> s \<longrightarrow> runnable (st k1 u) = runnable (st k u)"
    "\<forall>u. u \<noteq> s \<longrightarrow> (st k1 u = RT_THREAD_SUSPEND) = (st k u = RT_THREAD_SUSPEND)"
    "\<forall>q. \<not> is_ready_q q \<longrightarrow> queues k1 q = remove1 s (queues k q)"
proof -
  let ?T = "TThread s" let ?r = "rt_timer_remove ?T k"
  have s: "st k s = RT_THREAD_SUSPEND" using kernel_wfD(3) [OF wf] l by (auto simp: timers_wf_def)
  have to: "thread_objs k s" using kernel_wfD(2) [OF wf] s by simp
  note r = kernel_wf_remove [OF wf, of ?T]
  have rf: "current ?r = current k" "st ?r u = st k u" "timers ?r = timers k" "objs ?r = objs k" "tick ?r = tick k"
    "queues ?r = queues k" "thr ?r = thr k" "timer_list ?r = remove1 ?T (timer_list k)" for u
    by (simp_all add: rt_timer_remove_def)
  have "st ?r s = RT_THREAD_SUSPEND" "current ?r \<noteq> None" using s c rf by simp_all
  from rt_thread_timeout_spec [OF r(1) this r(2)] obtain k1 where k1: "rt_thread_timeout s ?r = Some k1" "kernel_wf k1" "side ?r k1"
    "timers k1 = timers ?r" "timer_list k1 = timer_list ?r" "objs k1 = objs ?r" "current k1 \<noteq> None"
    "terror (thr k1 s) = - RT_ETIMEOUT" "runnable (st k1 s)"
    "\<forall>u. u \<noteq> s \<longrightarrow> but_stat (thr k1 u) = but_stat (thr ?r u)"
    "\<forall>u. u \<noteq> s \<longrightarrow> (runnable (st k1 u)) = (runnable (st ?r u))"
    "\<forall>u. u \<noteq> s \<longrightarrow> (st k1 u = RT_THREAD_SUSPEND) = (st ?r u = RT_THREAD_SUSPEND)"
    "\<forall>q. \<not> is_ready_q q \<longrightarrow> queues k1 q = remove1 s (queues ?r q)" by blast
  have nl: "?T \<notin> set (timer_list k1) \<union> set (soft_timer_list k1)"
    using kernel_wfD(3) [OF k1(2)] k1(9) by (auto simp: timers_wf_def)
  have "tflag k1 ?T AND RT_TIMER_FLAG_PERIODIC = 0" using to k1(6) rf by (simp add: thread_objs_def)
  then have ra: "timer_rearm ?T k1 = Some (clear_activated ?T k1)" by (simp add: timer_rearm_def)
  show thesis
    by (rule that [of k1])
       (use k1 rf ra nl to kernel_wf_clear_activated(1) [OF k1(2) nl] side_fields(2) [OF k1(3)] r(3) in
          \<open>auto simp: timeout_call_def thread_objs_def intro: side_trans\<close>)
qed

lemma rt_timer_start_clear: "rt_timer_start t (clear_activated t k) = rt_timer_start t k"
  by (simp add: rt_timer_start_def clear_activated_def rt_timer_remove_def rt_object_get_type_def and.assoc)

lemma expire_step:
  assumes cb: "cb_ok cb" and wf: "kernel_wf k" and c: "current k \<noteq> None" and a: "armed_ok k"
    and l: "t \<in> set (timer_list k)" and d: "due_now k t"
  shows "\<exists>k1 k2. timeout_call cb (timeout_func (timers k t)) (rt_timer_remove t k) = Some k1 \<and>
     timer_rearm t k1 = Some k2 \<and> kernel_wf k2 \<and> current k2 \<noteq> None \<and> armed_ok k2 \<and>
     tick k1 = tick k \<and> tick k2 = tick k \<and> due_set k2 \<subseteq> due_set k - {t}"
proof (cases t)
  case (TThread s)
  have l': "TThread s \<in> set (timer_list k)" using l TThread by simp
  obtain k1 where k1: "timeout_call cb (timeout_func (timers k t)) (rt_timer_remove t k) = Some k1"
    "timer_rearm t k1 = Some (clear_activated t k1)" "kernel_wf (clear_activated t k1)" "current k1 \<noteq> None"
    "tick k1 = tick k" "timers k1 = timers k" "timer_list k1 = remove1 t (timer_list k)" "objs k1 = objs k"
    by (rule expire_thread [OF wf c l', of cb]) (use TThread in blast)
  have s: "set (timer_list k1) = set (timer_list k) - {t}"
    using k1(7) kernel_wfD(3) [OF wf] by (simp add: timers_wf_def)
  have cf: "timer_list (clear_activated t k1) = timer_list k1" "timers (clear_activated t k1) = timers k1"
    "current (clear_activated t k1) = current k1" "tick (clear_activated t k1) = tick k1"
    "\<And>u. tflag (clear_activated t k1) (TUser u) = tflag k1 (TUser u)"
    using TThread by (simp_all add: clear_activated_def)
  have "armed_ok (clear_activated t k1)" using a unfolding armed_ok_def cf s k1(6) k1(8) by auto
  moreover have "due_set (clear_activated t k1) \<subseteq> due_set k - {t}"
    unfolding due_set_def due_now_def cf s k1(5,6) by auto
  ultimately show ?thesis using k1 cf by metis
next
  case (TUser u)
  let ?r = "rt_timer_remove t k"
  obtain n where n: "timeout_func (timers k t) = User_timeout n"
    using kernel_wfD(3) [OF wf, unfolded timers_wf_def] TUser by blast
  note r = kernel_wf_remove [OF wf, of t]
  have rf: "current ?r = current k" "timers ?r = timers k" "objs ?r = objs k" "tick ?r = tick k"
    "timer_list ?r = remove1 t (timer_list k)" by (simp_all add: rt_timer_remove_def)
  then obtain k1 where k1: "cb n ?r = Some k1" "kernel_wf k1" "current k1 \<noteq> None" "tick k1 = tick k" "timers k1 = timers k"
    "set (timer_list k1) \<subseteq> set (timer_list ?r)" "\<And>u. objs k1 (OTimer (TUser u)) = objs k (OTimer (TUser u))"
    using cb r(1) c unfolding cb_ok_def by metis
  have s: "set (timer_list k1) \<subseteq> set (timer_list k) - {t}"
    using k1(6) rf(5) kernel_wfD(3) [OF wf] by (simp add: timers_wf_def)
  have soft: "tflag k t AND RT_TIMER_FLAG_SOFT_TIMER = 0" and ty: "rt_object_get_type (OTimer t) k = RT_Object_Class_Timer"
    using kernel_wfD(3) [OF wf] l by (auto simp: timers_wf_def)
  have nl: "t \<notin> set (timer_list k1) \<union> set (soft_timer_list k1)"
    using s soft kernel_wfD(3) [OF k1(2)] TUser k1(7) by (auto simp: timers_wf_def)
  have a1: "armed_ok k1" using a s k1(5,7) by (auto simp: armed_ok_def)
  have d1: "due_set k1 \<subseteq> due_set k - {t}" using s k1(4,5) by (auto simp: due_set_def due_now_def)
  note ca = kernel_wf_clear_activated [OF k1(2) nl]
  have tc: "timeout_call cb (timeout_func (timers k t)) ?r = Some k1" using n k1(1) by (simp add: timeout_call_def)
  show ?thesis
  proof (cases "tflag k1 t AND RT_TIMER_FLAG_PERIODIC \<noteq> 0 \<and> tflag k1 t AND RT_TIMER_FLAG_ACTIVATED \<noteq> 0")
    case False
    then have "timer_rearm t k1 = Some (clear_activated t k1)" by (auto simp: timer_rearm_def)
    moreover have "armed_ok (clear_activated t k1)"
      using a1 nl TUser ca unfolding armed_ok_def by (auto simp: clear_activated_def)
    moreover have "due_set (clear_activated t k1) = due_set k1" unfolding due_set_def due_now_def ca ..
    ultimately show ?thesis using tc ca k1(3,4) d1 by metis
  next
    case True
    have init: "unat (timer_init_tick (timers k1 t)) < half" "timer_init_tick (timers k1 t) \<noteq> 0"
      using a l True TUser k1(5,7) by (auto simp: armed_ok_def)
    have "rt_object_get_type (OTimer t) k1 = RT_Object_Class_Timer" "tflag k1 t AND RT_TIMER_FLAG_SOFT_TIMER = 0"
      "\<And>s. t = TThread s \<Longrightarrow> st k1 s = RT_THREAD_SUSPEND"
      using ty soft TUser k1(7) by (auto simp: rt_object_get_type_def)
    from rt_timer_start_spec [OF k1(2) this(1,2) init(1) this(3)] obtain k2 where k2:
      "rt_timer_start t k1 = Some (RT_EOK, k2)" "kernel_wf k2" "side k1 k2" "current k2 = current k1"
      "timers k2 = (timers k1)(t := (timers k1 t)\<lparr>timeout_tick := tick k1 + timer_init_tick (timers k1 t)\<rparr>)"
      "timer_list k2 = timer_insert (deadline k2) t (remove1 t (timer_list k1))"
      "\<forall>r. r \<noteq> OTimer t \<longrightarrow> objs k2 r = objs k1 r" by blast
    have ra: "timer_rearm t k1 = Some k2" using True k2(1) by (simp add: timer_rearm_def rt_timer_start_clear)
    have s2: "set (timer_list k2) = insert t (set (timer_list k1))" using nl k2(6) by (simp add: remove1_idem)
    have tk: "tick k2 = tick k" using side_fields(2) [OF k2(3)] k1(4) by simp
    have per: "tflag k2 (TUser v) AND RT_TIMER_FLAG_PERIODIC \<noteq> 0 \<Longrightarrow> timer_init_tick (timers k2 (TUser v)) \<noteq> 0"
      if "TUser v \<in> set (timer_list k2)" for v
    proof (cases "TUser v = t")
      case False
      then have "objs k2 (OTimer (TUser v)) = objs k1 (OTimer (TUser v))" using k2(7) by simp
      then show "tflag k2 (TUser v) AND RT_TIMER_FLAG_PERIODIC \<noteq> 0 \<Longrightarrow> timer_init_tick (timers k2 (TUser v)) \<noteq> 0"
        using a1 that s2 False k2(5) by (auto simp: armed_ok_def)
    qed (use init(2) k2(5) in simp)
    have "unat (timer_init_tick (timers k2 (TUser v))) < half" if "TUser v \<in> set (timer_list k2)" for v
      using a1 init(1) that s2 k2(5) by (auto simp: armed_ok_def)
    then have "armed_ok k2" using per by (auto simp: armed_ok_def)
    moreover have "due_set k2 \<subseteq> due_set k1"
    proof -
      have "\<not> due_now k2 t" using init(2) k2(5) k1(4) tk by (simp add: due_now_def)
      then show ?thesis using s2 k2(5) tk k1(4) by (auto simp: due_set_def due_now_def split: if_splits)
    qed
    ultimately show ?thesis using tc ra k2(2,4) k1(3,4) tk d1 by (metis dual_order.trans)
  qed
qed

lemma finite_due_set [simp]: "finite (due_set k)"
  by (simp add: due_set_def)

lemma loop_unfold_due:
  assumes "timer_list k = t # ts" "in_order (tick k) (deadline k) (timer_list k)" "due_now k t"
    "timeout_call cb (timeout_func (timers k t)) (rt_timer_remove t k) = Some k1" "timer_rearm t k1 = Some k2"
    "tick k1 = tick k"
  shows "rt_timer_check_loop cb (tick k) k = rt_timer_check_loop cb (tick k) k2"
  using assms expired_iff [OF assms(2), of t] by (subst rt_timer_check_loop.simps) (simp add: rt_tick_get_def)

lemma loop_unfold_end:
  assumes "in_order (tick k) (deadline k) (timer_list k)" "quiet k"
  shows "rt_timer_check_loop cb (tick k) k = Some k"
proof (cases "timer_list k")
  case Nil
  then show ?thesis by (subst rt_timer_check_loop.simps) simp
next
  case (Cons t ts)
  then have "\<not> tick k - deadline k t < 0x7fffffff"
    using expired_iff [OF assms(1), of t] assms(2) by (simp add: quiet_def)
  then show ?thesis using Cons by (subst rt_timer_check_loop.simps) simp
qed

lemma rt_timer_check_loop_spec:
  assumes cb: "cb_ok cb"
  shows "kernel_wf k \<Longrightarrow> current k \<noteq> None \<Longrightarrow> armed_ok k \<Longrightarrow>
    \<exists>k'. rt_timer_check_loop cb (tick k) k = Some k' \<and> kernel_wf k' \<and> current k' \<noteq> None \<and> armed_ok k' \<and>
         quiet k' \<and> tick k' = tick k"
proof (induction "card (due_set k)" arbitrary: k rule: less_induct)
  case less
  have o: "in_order (tick k) (deadline k) (timer_list k)" using kernel_wfD(3) [OF less.prems(1)] by (simp add: timers_wf_def)
  show ?case
  proof (cases "quiet k")
    case True
    then show ?thesis using loop_unfold_end [OF o True] less.prems by metis
  next
    case False
    then obtain t ts where l: "timer_list k = t # ts" by (cases "timer_list k") (auto simp: quiet_def)
    then have d: "due_now k t" using False quiet_head [OF o l] by blast
    obtain k1 k2 where k2: "timeout_call cb (timeout_func (timers k t)) (rt_timer_remove t k) = Some k1"
      "timer_rearm t k1 = Some k2" "kernel_wf k2" "current k2 \<noteq> None" "armed_ok k2" "tick k1 = tick k" "tick k2 = tick k"
      "due_set k2 \<subseteq> due_set k - {t}"
      using expire_step [OF cb less.prems(1-3) _ d] l by auto
    have "due_set k2 \<subset> due_set k" using k2(8) d l by (auto simp: due_set_def)
    then have "card (due_set k2) < card (due_set k)" by (intro psubset_card_mono) auto
    from less.hyps [OF this k2(3,4,5)] show ?thesis
      unfolding loop_unfold_due [OF l o d k2(1,2,6)] using k2(7) by simp
  qed
qed

text \<open>With thread timers only: exactly the due sleepers wake.\<close>

lemma rt_timer_check_loop_threads:
  "kernel_wf k \<Longrightarrow> current k \<noteq> None \<Longrightarrow> \<forall>u. TUser u \<notin> set (timer_list k) \<Longrightarrow>
    \<exists>k'. rt_timer_check_loop cb (tick k) k = Some k' \<and> kernel_wf k' \<and> current k' \<noteq> None \<and> tick k' = tick k \<and>
      timers k' = timers k \<and> timer_list k' = filter (\<lambda>t. \<not> due_now k t) (timer_list k) \<and>
      (\<forall>s. TThread s \<in> due_set k \<longrightarrow> runnable (st k' s) \<and> terror (thr k' s) = - RT_ETIMEOUT) \<and>
      (\<forall>s. TThread s \<notin> due_set k \<longrightarrow> but_stat (thr k' s) = but_stat (thr k s) \<and>
           (st k' s = RT_THREAD_SUSPEND \<longleftrightarrow> st k s = RT_THREAD_SUSPEND) \<and> (runnable (st k' s) \<longleftrightarrow> runnable (st k s))) \<and>
      (\<forall>q. \<not> is_ready_q q \<longrightarrow> queues k' q = filter (\<lambda>s. TThread s \<notin> due_set k) (queues k q))"
proof (induction "length (timer_list k)" arbitrary: k rule: less_induct)
  case less
  have o: "in_order (tick k) (deadline k) (timer_list k)" using kernel_wfD(3) [OF less.prems(1)] by (simp add: timers_wf_def)
  show ?case
  proof (cases "quiet k")
    case True
    then have "due_set k = {}" "filter (\<lambda>t. \<not> due_now k t) (timer_list k) = timer_list k" by (auto simp: due_set_def quiet_def)
    then show ?thesis using loop_unfold_end [OF o True, of cb] less.prems(1,2) by simp
  next
    case False
    then obtain t ts where l: "timer_list k = t # ts" by (cases "timer_list k") (auto simp: quiet_def)
    then have d: "due_now k t" using False quiet_head [OF o l] by blast
    obtain s where s: "t = TThread s" using less.prems(3) l by (cases t) auto
    have ls: "TThread s \<in> set (timer_list k)" using l s by simp
    obtain k1 where k1:
      "timeout_call cb (timeout_func (timers k (TThread s))) (rt_timer_remove (TThread s) k) = Some k1"
      "timer_rearm (TThread s) k1 = Some (clear_activated (TThread s) k1)"
      "kernel_wf (clear_activated (TThread s) k1)" "current k1 \<noteq> None" "tick k1 = tick k" "timers k1 = timers k"
      "timer_list k1 = remove1 (TThread s) (timer_list k)"
      "objs k1 = objs k" "TThread s \<notin> set (timer_list k1) \<union> set (soft_timer_list k1)" "side k k1"
      "terror (thr k1 s) = - RT_ETIMEOUT" "runnable (st k1 s)"
      "\<forall>u. u \<noteq> s \<longrightarrow> but_stat (thr k1 u) = but_stat (thr k u)"
      "\<forall>u. u \<noteq> s \<longrightarrow> runnable (st k1 u) = runnable (st k u)"
      "\<forall>u. u \<noteq> s \<longrightarrow> (st k1 u = RT_THREAD_SUSPEND) = (st k u = RT_THREAD_SUSPEND)"
      "\<forall>q. \<not> is_ready_q q \<longrightarrow> queues k1 q = remove1 s (queues k q)"
      using expire_thread [OF less.prems(1,2) ls, of cb] .
    note k1 = k1 [folded s]
    let ?k2 = "clear_activated t k1"
    have f: "timer_list ?k2 = ts" "timers ?k2 = timers k" "tick ?k2 = tick k" "current ?k2 = current k1" "thr ?k2 = thr k1"
      "queues ?k2 = queues k1"
      using k1(5-7) l by (simp_all add: clear_activated_def)
    have tn: "t \<notin> set ts" using kernel_wfD(3) [OF less.prems(1)] l by (simp add: timers_wf_def)
    have ds: "due_set ?k2 = due_set k - {t}" and dn: "due_now ?k2 = due_now k"
      using tn l unfolding due_set_def due_now_def f by (auto simp: fun_eq_iff)
    have "length (timer_list ?k2) < length (timer_list k)" "current ?k2 \<noteq> None" "\<forall>u. TUser u \<notin> set (timer_list ?k2)"
      using f k1(4) l less.prems(3) by simp_all
    from less.hyps [OF this(1) k1(3) this(2,3)] obtain k' where k': "rt_timer_check_loop cb (tick ?k2) ?k2 = Some k'"
      "kernel_wf k'" "current k' \<noteq> None" "tick k' = tick k" "timers k' = timers k"
      "timer_list k' = filter (\<lambda>t. \<not> due_now k t) ts"
      "\<forall>u. TThread u \<in> due_set k - {t} \<longrightarrow> runnable (st k' u) \<and> terror (thr k' u) = - RT_ETIMEOUT"
      "\<forall>u. TThread u \<notin> due_set k - {t} \<longrightarrow> but_stat (thr k' u) = but_stat (thr k1 u) \<and>
           (st k' u = RT_THREAD_SUSPEND \<longleftrightarrow> st k1 u = RT_THREAD_SUSPEND) \<and> (runnable (st k' u) \<longleftrightarrow> runnable (st k1 u))"
      "\<forall>q. \<not> is_ready_q q \<longrightarrow> queues k' q = filter (\<lambda>u. TThread u \<notin> due_set k - {t}) (queues k1 q)"
      unfolding ds dn f by auto
    have lp: "rt_timer_check_loop cb (tick k) k = Some k'"
      using loop_unfold_due [OF l o d k1(1,2,5)] k'(1) f(3) by simp
    have td: "t \<in> due_set k" using d l by (simp add: due_set_def)
    have qs: "queues k' q = filter (\<lambda>u. TThread u \<notin> due_set k) (queues k q)" if "\<not> is_ready_q q" for q
    proof -
      have "distinct (queues k q)"
        using sched_wfD(1) [OF kernel_wfD(1) [OF less.prems(1)]] by (simp add: queues_wf_def)
      then have "remove1 s (queues k q) = filter (\<lambda>u. u \<noteq> s) (queues k q)" by (auto simp: distinct_remove1_removeAll removeAll_filter_not_eq intro: filter_cong)
      then show ?thesis using k'(9) k1(16) that td s by (auto intro: filter_cong)
    qed
    have due: "runnable (st k' u) \<and> terror (thr k' u) = - RT_ETIMEOUT" if "TThread u \<in> due_set k" for u
    proof (cases "u = s")
      case True
      then have "TThread u \<notin> due_set k - {t}" using s by simp
      then have "but_stat (thr k' u) = but_stat (thr k1 u)" "runnable (st k' u) \<longleftrightarrow> runnable (st k1 u)" using k'(8) by blast+
      then show ?thesis using k1(11,12) True but_stat_fields(2) by metis
    qed (use k'(7) that s in auto)
    have "but_stat (thr k' u) = but_stat (thr k u) \<and> (st k' u = RT_THREAD_SUSPEND \<longleftrightarrow> st k u = RT_THREAD_SUSPEND) \<and>
          (runnable (st k' u) \<longleftrightarrow> runnable (st k u))" if "TThread u \<notin> due_set k" for u
      using k'(8) k1(13,14,15) that td s by auto
    then show ?thesis using lp k'(2-6) due qs l d by auto
  qed
qed

section \<open>Before the expiry loop\<close>

lemma stat_of_or_yield [simp]: "stat_of (th\<lparr>remaining_tick := r, stat := s OR RT_THREAD_STAT_YIELD\<rparr>) = s AND RT_THREAD_STAT_MASK"
proof -
  have "RT_THREAD_STAT_YIELD AND RT_THREAD_STAT_MASK = 0" by (simp add: RT_THREAD_STAT_YIELD_def RT_THREAD_STAT_MASK_def)
  then show ?thesis unfolding stat_of_def by (simp add: flag_bits_other)
qed

lemma kernel_wf_tick:
  assumes wf: "kernel_wf k" and q: "quiet k"
  shows "kernel_wf (k\<lparr>tick := tick k + 1\<rparr>)"
proof -
  let ?k = "k\<lparr>tick := tick k + 1\<rparr>"
  have o: "in_order (tick k) (deadline k) (timer_list k)" using kernel_wfD(3) [OF wf] by (simp add: timers_wf_def)
  have "\<forall>t\<in>set (timer_list k). due (tick k) (deadline k t) \<noteq> 0" using q by (simp add: quiet_def due_now_def due_zero)
  then have "in_order (tick ?k) (deadline ?k) (timer_list ?k)" using in_order_next [OF o] by simp
  then have "timers_wf ?k" using kernel_wfD(3) [OF wf] unfolding timers_wf_def rt_object_get_type_def by simp
  moreover have "objs_wf ?k" by (rule objs_wf_cong [OF kernel_wfD(5) [OF wf]]) auto
  ultimately show ?thesis using kernel_wfD(1,4) [OF wf] by (simp add: kernel_wf_def lock_ok_def)
qed

text \<open>Counting the time slice down and yielding at its end.\<close>

lemma tick_front:
  assumes wf: "kernel_wf k" and c: "current k \<noteq> None" and q: "quiet k"
  obtains k2 where "rt_tick_increase cb k = rt_timer_check cb k2" "kernel_wf k2" "current k2 \<noteq> None"
    "tick k2 = tick k + 1" "timers k2 = timers k" "timer_list k2 = timer_list k" "objs k2 = objs k"
    "\<forall>u. st k2 u = RT_THREAD_SUSPEND \<longleftrightarrow> st k u = RT_THREAD_SUSPEND" "\<forall>q. \<not> is_ready_q q \<longrightarrow> queues k2 q = queues k q"
    "\<forall>u. terror (thr k2 u) = terror (thr k u)"
proof -
  obtain t where t: "current k = Some t" using c by blast
  let ?k0 = "k\<lparr>tick := tick k + 1\<rparr>"
  let ?k1 = "upd_thr t (\<lambda>th. th\<lparr>remaining_tick := remaining_tick th - 1\<rparr>) ?k0"
  have w0: "kernel_wf ?k0" by (rule kernel_wf_tick [OF wf q])
  have w1: "kernel_wf ?k1" using kernel_wf_field_change [OF w0, of "(thr ?k0 t)\<lparr>remaining_tick := remaining_tick (thr ?k0 t) - 1\<rparr>" t] by simp
  show thesis
  proof (cases "remaining_tick (thr ?k1 t) = 0")
    case False
    show thesis by (rule that [of ?k1]) (use False w1 t in \<open>auto simp: rt_tick_increase_def rt_thread_self_def\<close>)
  next
    case True
    let ?th = "(thr ?k1 t)\<lparr>remaining_tick := init_tick (thr ?k1 t), stat := stat (thr ?k1 t) OR RT_THREAD_STAT_YIELD\<rparr>"
    let ?y = "?k1\<lparr>thr := (thr ?k1)(t := ?th)\<rparr>"
    have w2: "kernel_wf ?y"
      by (rule kernel_wf_field_change [OF w1]) (simp_all, simp add: stat_of_def)
    have "current ?y \<noteq> None" using t by simp
    from rt_schedule_kernel [OF w2 this] obtain k2 where k2: "rt_schedule ?y = Some k2" "kernel_wf k2" "sched_step ?y k2" .
    note f = outer_fields [OF sched_stepD(1) [OF k2(3)]] and sd = sched_stepD [OF k2(3)]
    have st: "st ?y u = st k u" for u by (cases "u = t") (simp_all, simp add: stat_of_def)
    show thesis
    proof (rule that [of k2])
      show "rt_tick_increase cb k = rt_timer_check cb k2"
        using True t k2(1) by (simp add: rt_tick_increase_def rt_thread_self_def rt_thread_yield_def)
      show "current k2 \<noteq> None" using sd(6) t by simp
      show "\<forall>u. st k2 u = RT_THREAD_SUSPEND \<longleftrightarrow> st k u = RT_THREAD_SUSPEND"
        unfolding sched_step_suspend [OF k2(3)] st by simp
      show "\<forall>q. \<not> is_ready_q q \<longrightarrow> queues k2 q = queues k q" using sd(2) by (auto simp: is_ready_q_def)
      show "\<forall>u. terror (thr k2 u) = terror (thr k u)" using but_stat_fields(2) [OF sd(3)] by simp
    qed (use k2(2) f in simp_all)
  qed
qed

section \<open>Properties\<close>

text \<open>
  C2: the tick interrupt always comes back. In a well-formed kernel where no armed timer is due at the
  current tick, with callbacks that keep the kernel well-formed and start no timer and with no periodic timer of
  period 0, \<open>rt_tick_increase\<close> ends, keeps the invariant, advances the tick by one, and again no armed timer
  is due, so that the same holds at every later tick.
\<close>

theorem tick_increase_safe:
  assumes "cb_ok cb" "kernel_wf k" "current k \<noteq> None" "quiet k" "armed_ok k"
  shows "\<exists>k'. rt_tick_increase cb k = Some k' \<and> kernel_wf k' \<and> current k' \<noteq> None \<and> quiet k' \<and> armed_ok k' \<and>
    tick k' = tick k + 1"
proof -
  obtain k2 where k2: "rt_tick_increase cb k = rt_timer_check cb k2" "kernel_wf k2" "current k2 \<noteq> None"
    "tick k2 = tick k + 1" "timers k2 = timers k" "timer_list k2 = timer_list k" "objs k2 = objs k"
    by (rule tick_front [OF assms(2-4), of cb]) blast
  have "armed_ok k2" using assms(5) k2 by (simp add: armed_ok_def)
  from rt_timer_check_loop_spec [OF assms(1) k2(2,3) this] show ?thesis
    using k2(1,4) by (auto simp: rt_timer_check_def rt_tick_get_def)
qed


end
