(* ===== verification/Thread_Life.thy ===== *)
theory Thread_Life
  imports Tick
begin

text \<open>
  The life of a thread from \<open>rt_thread_startup\<close> to its end, sleeping and yielding: what each call of
  thread.c does on a well-formed kernel. A sample kernel serves the witnesses.
\<close>

section \<open>Ending a thread\<close>

definition closed :: "tid \<Rightarrow> u32 \<Rightarrow> kernel \<Rightarrow> kernel" where
  "closed t g k = rt_object_detach (OTimer (TThread t)) (rt_timer_remove (TThread t)
     (k\<lparr>queues := q_remove t (queues k), ready_group := g, thr := (thr k)(t := (thr k t)\<lparr>stat := RT_THREAD_CLOSE\<rparr>)\<rparr>))"

lemma closed_fields [simp]:
  "queues (closed t g k) = q_remove t (queues k)" "current (closed t g k) = current k"
  "thr (closed t g k) = (thr k)(t := (thr k t)\<lparr>stat := RT_THREAD_CLOSE\<rparr>)" "ready_group (closed t g k) = g"
  "lock_nest (closed t g k) = lock_nest k" "lock_ok (closed t g k) = lock_ok k" "timers (closed t g k) = timers k"
  "objs (closed t g k) = (objs k)(OTimer (TThread t) := (objs k (OTimer (TThread t)))\<lparr>otype := 0\<rparr>)"
  "timer_list (closed t g k) = remove1 (TThread t) (timer_list k)" "tick (closed t g k) = tick k"
  "soft_timer_list (closed t g k) = remove1 (TThread t) (soft_timer_list k)"
  by (simp_all add: closed_def rt_object_detach_def list_remove_object_def rt_timer_remove_def lock_ok_def)

lemma sched_wf_closed:
  assumes wf: "sched_wf k" and g: "group_wf (k\<lparr>queues := q_remove t (queues k), ready_group := g\<rparr>)"
  shows "sched_wf (closed t g k)"
proof (rule sched_wf_change [OF wf])
  show "group_wf (closed t g k)" using g by (simp add: group_wf_def)
  show "thr_wf (closed t g k) t" using sched_wfD(1) [OF wf] by (simp add: thr_wf_def thread_wf_def place_wf_def)
qed (use sched_wfD(1) [OF wf] in simp_all)

lemma closed_types:
  "r \<noteq> OTimer (TThread t) \<Longrightarrow> rt_object_get_type r (closed t g k) = rt_object_get_type r k"
  "r \<noteq> OTimer (TThread t) \<Longrightarrow> rt_object_is_systemobject r (closed t g k) = rt_object_is_systemobject r k"
  "r \<noteq> OTimer (TThread t) \<Longrightarrow> objs (closed t g k) r = objs k r"
  by (simp_all add: rt_object_get_type_def rt_object_is_systemobject_def)

lemma kernel_wf_closed:
  assumes wf: "kernel_wf k" and g: "group_wf (k\<lparr>queues := q_remove t (queues k), ready_group := g\<rparr>)"
  shows "kernel_wf (closed t g k)"
proof -
  have "objs_wf (closed t g k)"
    unfolding objs_wf_def
  proof (intro allI impI)
    fix u assume l: "live (st (closed t g k) u)"
    then have "u \<noteq> t" by auto
    then show "thread_objs (closed t g k) u"
      using kernel_wfD(2) [OF wf, of u] l by (simp add: thread_objs_def closed_types)
  qed
  moreover have "timers_wf (closed t g k)"
  proof -
    have tw: "timers_wf k" by (rule kernel_wfD(3) [OF wf])
    then have s: "set (remove1 (TThread t) (timer_list k)) = set (timer_list k) - {TThread t}"
      "set (remove1 (TThread t) (soft_timer_list k)) = set (soft_timer_list k) - {TThread t}"
      by (simp_all add: timers_wf_def)
    show ?thesis using tw unfolding timers_wf_def closed_fields s
      by (simp add: in_order_subset closed_types del: closed_fields(8)) (auto simp: closed_types)
  qed
  ultimately show ?thesis
    using sched_wf_closed [OF kernel_wfD(1) [OF wf] g] kernel_wfD(4) [OF wf] by (simp add: kernel_wf_def)
qed

lemma remove_live:
  assumes wf: "kernel_wf k" and l: "live (st k t)"
  obtains g where "rt_schedule_remove_thread t k = Some (k\<lparr>queues := q_remove t (queues k), ready_group := g\<rparr>)"
    "group_wf (k\<lparr>queues := q_remove t (queues k), ready_group := g\<rparr>)"
proof -
  note sw = kernel_wfD(1) [OF wf]
  have "prio_wf (thr k t)" using sched_wfD(4) [OF sw, of t] l by (simp add: thread_wf_def)
  moreover have "\<And>p. QReady p \<in> homes (queues k) t \<Longrightarrow> p = prio k t"
    using sched_wfD(5) [OF sw, of t] by (simp add: place_wf_def)
  ultimately show thesis using remove_thread_spec [OF sched_wfD(1,2) [OF sw], of t] that by blast
qed

lemma remove_init:
  assumes wf: "kernel_wf k" and l: "st k t = RT_THREAD_INIT"
  shows "q_remove t (queues k) = queues k" "group_wf (k\<lparr>queues := q_remove t (queues k), ready_group := ready_group k\<rparr>)"
proof -
  note sw = kernel_wfD(1) [OF wf]
  have "q \<notin> homes (queues k) t" for q
    using sched_wfD(5) [OF sw, of t] l by (cases q) (auto simp: place_wf_def)
  then show e: "q_remove t (queues k) = queues k" by (intro q_remove_none) (auto simp: homes_def)
  then show "group_wf (k\<lparr>queues := q_remove t (queues k), ready_group := ready_group k\<rparr>)"
    using sched_wfD(2) [OF sw] by (simp add: group_wf_def)
qed

text \<open>After closing: the thread object is detached, or the thread waits on the defunct list for the idle thread.\<close>

lemma kernel_wf_detached_object:
  assumes wf: "kernel_wf k" and n: "\<not> live (st k t)"
  shows "kernel_wf (rt_object_detach (OThread t) k)"
proof -
  let ?k = "rt_object_detach (OThread t) k"
  have f: "objs ?k = (objs k)(OThread t := (objs k (OThread t))\<lparr>otype := 0\<rparr>)" "thr ?k = thr k" "timers ?k = timers k"
    "timer_list ?k = timer_list k" "soft_timer_list ?k = soft_timer_list k" "tick ?k = tick k"
    by (simp_all add: rt_object_detach_def list_remove_object_def)
  have "objs_wf ?k" unfolding objs_wf_def
  proof (intro allI impI)
    fix u assume l: "live (st ?k u)"
    then have "u \<noteq> t" using n f by auto
    then show "thread_objs ?k u" using kernel_wfD(2) [OF wf, of u] l f
      by (simp add: thread_objs_def rt_object_get_type_def rt_object_is_systemobject_def)
  qed
  moreover have "timers_wf ?k" using kernel_wfD(3) [OF wf] f unfolding timers_wf_def rt_object_get_type_def by simp
  moreover have "sched_wf ?k" using kernel_wfD(1) [OF wf] by (simp add: rt_object_detach_def list_remove_object_def)
  ultimately show ?thesis using kernel_wfD(4) [OF wf]
    by (simp add: kernel_wf_def lock_ok_def) (simp add: rt_object_detach_def list_remove_object_def)
qed

lemma kernel_wf_defunct:
  assumes wf: "kernel_wf k" and c: "st k t = RT_THREAD_CLOSE" and h: "homes (queues k) t = {}"
  shows "kernel_wf (k\<lparr>queues := q_push QDefunct t (queues k)\<rparr>)"
proof -
  let ?k = "k\<lparr>queues := q_push QDefunct t (queues k)\<rparr>"
  note sw = kernel_wfD(1) [OF wf]
  have "sched_wf ?k"
  proof (rule sched_wf_change [OF sw])
    show "queues_wf (queues ?k)" using sched_wfD(1) [OF sw] h by simp
    show "group_wf ?k" using sched_wfD(2) [OF sw] by (simp add: group_wf_def q_push_def)
    show "thr_wf ?k t" using c h by (auto simp: thr_wf_def thread_wf_def place_wf_def)
  qed simp_all
  moreover have "objs_wf ?k" by (rule objs_wf_cong [OF kernel_wfD(5) [OF wf]]) auto
  moreover have "timers_wf ?k" by (rule timers_wf_cong [OF kernel_wfD(3) [OF wf]]) auto
  ultimately show ?thesis using kernel_wfD(4) [OF wf] by (simp add: kernel_wf_def lock_ok_def)
qed

lemma rt_schedule_leaves:
  assumes wf: "sched_wf k" and c: "current k = Some c" "st k c \<noteq> RT_THREAD_RUNNING"
    and l: "lock_nest k = 0" "ready_group k \<noteq> 0" and s: "rt_schedule k = Some k'"
  shows "\<exists>r. current k' = Some r \<and> r \<noteq> c \<and> st k' r = RT_THREAD_RUNNING"
proof -
  obtain to p where h: "highest_ready k to p" using get_highest_spec [OF sched_wfD(2) [OF wf] l(2)] .
  obtain g where "rt_schedule k = Some (dispatched to p (q_remove to (queues k)) g
          ((thr k)(to := set_stat RT_THREAD_RUNNING (thr k to))) k)"
    using rt_schedule_switch_out [OF wf c h l] by blast
  then show ?thesis using s highest_ready_thread(3) [OF wf h] c by auto
qed

lemma detach_timer:
  assumes "thread_objs k t"
  shows "rt_timer_detach (TThread t) (k\<lparr>queues := Q, ready_group := g, thr := T\<rparr>) =
    Some (RT_EOK, rt_object_detach (OTimer (TThread t)) (rt_timer_remove (TThread t) (k\<lparr>queues := Q, ready_group := g, thr := T\<rparr>)))"
  using assms by (simp add: rt_timer_detach_def thread_objs_def rt_object_get_type_def rt_object_is_systemobject_def)

section \<open>A sample kernel\<close>

text \<open>
  The kernel \<open>three\<close> with its thread and timer objects; thread 7 sleeps until tick 1.
\<close>

definition sample :: kernel where
  "sample = three\<lparr>
     objs := (\<lambda>r. case r of OThread t \<Rightarrow> \<lparr>oname = ''t'', otype = 0x81, oflag = 0\<rparr>
                 | OTimer t \<Rightarrow> \<lparr>oname = ''t'', otype = 0x8a, oflag = (if t = TThread 7 then 1 else 0)\<rparr>
                 | _ \<Rightarrow> \<lparr>oname = [], otype = 0, oflag = 0\<rparr>),
     timers := (\<lambda>t. case t of TThread t \<Rightarrow> \<lparr>timeout_func = Rt_thread_timeout t, timer_init_tick = 1, timeout_tick = 1\<rparr>
                   | TUser u \<Rightarrow> \<lparr>timeout_func = User_timeout u, timer_init_tick = 0, timeout_tick = 0\<rparr>),
     timer_list := [TThread 7]\<rparr>"

lemma sample_fields [simp]:
  "queues sample = queues three" "thr sample = thr three" "ready_group sample = 1024" "current sample = Some 5"
  "lock_nest sample = 0" "tick sample = 0" "timer_list sample = [TThread 7]" "soft_timer_list sample = []"
  "interrupt_nest sample = 0"
  by (simp_all add: sample_def three_def boot_def)

lemma sample_wf: "kernel_wf sample"
proof -
  have sw: "sched_wf sample" using three_wf by (simp add: sample_def)
  have st7: "stat_of (thr three 7) = RT_THREAD_SUSPEND"
    by (simp add: three_def RT_THREAD_SUSPEND_def)
  have "thread_objs sample t" for t
    by (simp add: thread_objs_def rt_object_get_type_def rt_object_is_systemobject_def sample_def class_defs
        RT_TIMER_FLAG_SOFT_TIMER_def RT_TIMER_FLAG_PERIODIC_def)
  then have "objs_wf sample" by (simp add: objs_wf_def)
  moreover have "timers_wf sample"
    using st7 unfolding timers_wf_def
    by (simp add: in_order_def due_def half_def)
       (simp add: sample_def rt_object_get_type_def class_defs RT_TIMER_FLAG_SOFT_TIMER_def RT_TIMER_FLAG_ACTIVATED_def)
  ultimately show ?thesis using sw by (simp add: kernel_wf_def lock_ok_def)
qed

section \<open>Properties\<close>

lemma sample_quiet: "quiet sample"
  by (simp add: quiet_def due_now_def) (simp add: sample_def)


text \<open>
  C7: ending the running thread. \<open>rt_thread_exit\<close> returns to the scheduler with the invariant kept, the
  thread CLOSEd and in no wait or ready list: a static thread without cleanup is unregistered, any other is on
  the defunct list for the idle thread. When a thread is ready and the scheduler is unlocked, another thread runs.
\<close>

theorem thread_exit_closes:
  assumes wf: "kernel_wf k" and c: "current k = Some c" "st k c = RT_THREAD_RUNNING"
  shows "\<exists>k'. rt_thread_exit k = Some k' \<and> kernel_wf k' \<and> st k' c = RT_THREAD_CLOSE \<and>
    (if rt_object_is_systemobject (OThread c) k \<and> cleanup (thr k c) = None
     then rt_object_get_type (OThread c) k' = 0 \<and> homes (queues k') c = {}
     else homes (queues k') c = {QDefunct}) \<and>
    (lock_nest k = 0 \<longrightarrow> ready_group k \<noteq> 0 \<longrightarrow> (\<exists>r. current k' = Some r \<and> r \<noteq> c \<and> st k' r = RT_THREAD_RUNNING))"
proof -
  have l: "live (st k c)" using c by simp
  obtain g where g: "rt_schedule_remove_thread c k = Some (k\<lparr>queues := q_remove c (queues k), ready_group := g\<rparr>)"
    "group_wf (k\<lparr>queues := q_remove c (queues k), ready_group := g\<rparr>)" using remove_live [OF wf l] .
  let ?k1 = "closed c g k"
  let ?det = "rt_object_is_systemobject (OThread c) k \<and> cleanup (thr k c) = None"
  let ?k2 = "if ?det then rt_object_detach (OThread c) ?k1 else ?k1\<lparr>queues := q_push QDefunct c (queues ?k1)\<rparr>"
  have w1: "kernel_wf ?k1" by (rule kernel_wf_closed [OF wf g(2)])
  have h1: "homes (queues ?k1) c = {}" using sched_wfD(1) [OF kernel_wfD(1) [OF wf]] by simp
  have w2: "kernel_wf ?k2" using kernel_wf_detached_object [OF w1, of c] kernel_wf_defunct [OF w1 _ h1] by simp
  have f2: "thr ?k2 = thr ?k1" "current ?k2 = Some c" "lock_nest ?k2 = lock_nest k" "ready_group ?k2 = g"
    using c by (simp_all add: rt_object_detach_def list_remove_object_def)
  have "rt_object_is_systemobject (OThread c) ?k1 = rt_object_is_systemobject (OThread c) k" by (simp add: closed_types)
  then have ex: "rt_thread_exit k = rt_schedule ?k2"
    using c g(1) detach_timer [OF kernel_wfD(2) [OF wf l]]
    by (simp add: rt_thread_exit_def rt_thread_self_def closed_def [symmetric])
  obtain k' where k': "rt_schedule ?k2 = Some k'" "kernel_wf k'" "sched_step ?k2 k'"
    using rt_schedule_kernel [OF w2] f2 by auto
  note sd = sched_stepD [OF k'(3)] and sw' = kernel_wfD(1) [OF k'(2)]
  have thc: "thr k' c = thr ?k2 c" using sd(4) [of c] f2 by simp
  then have st': "st k' c = RT_THREAD_CLOSE" using f2 by simp
  have qs: "\<not> is_ready_q q \<Longrightarrow> queues k' q = queues ?k2 q" for q using sd(2) by (auto simp: is_ready_q_def)
  have hm: "q \<in> homes (queues k') c \<longleftrightarrow> q = QDefunct \<and> \<not> ?det" for q
  proof (cases q)
    case (QReady p)
    then show ?thesis using sched_wfD(5) [OF sw', of c] st' by (simp add: place_wf_def)
  qed (use qs h1 in \<open>auto simp: homes_def q_push_def rt_object_detach_def list_remove_object_def\<close>)
  have ty: "?det \<Longrightarrow> rt_object_get_type (OThread c) k' = 0"
    using outer_fields(1) [OF sd(1)] by (simp add: rt_object_get_type_def rt_object_detach_def list_remove_object_def)
  have gk: "g = 0 \<longleftrightarrow> ready_group k = 0"
  proof -
    have "q_remove c (queues k) = queues k"
      using current_homes [OF kernel_wfD(1) [OF wf] c] by (intro q_remove_none) (auto simp: homes_def)
    then have "g = ready_group k"
      using g(2) sched_wfD(2) [OF kernel_wfD(1) [OF wf]] by (intro bit_word_eqI) (simp add: group_wf_def)
    then show ?thesis by simp
  qed
  have "\<exists>r. current k' = Some r \<and> r \<noteq> c \<and> st k' r = RT_THREAD_RUNNING" if "lock_nest k = 0" "ready_group k \<noteq> 0"
    by (rule rt_schedule_leaves [OF kernel_wfD(1) [OF w2] f2(2) _ _ _ k'(1)]) (use f2 that gk in simp_all)
  moreover have "homes (queues k') c = (if ?det then {} else {QDefunct})"
    by (rule set_eqI, subst hm) simp
  ultimately show ?thesis using ex k'(1,2) st' ty by (intro exI [of _ k']) simp
qed

theorem thread_exit_closes_witness:
  "\<exists>k'. rt_thread_exit sample = Some k' \<and> kernel_wf k' \<and> st k' 5 = RT_THREAD_CLOSE \<and>
     (\<exists>r. current k' = Some r \<and> r \<noteq> 5 \<and> st k' r = RT_THREAD_RUNNING)"
proof -
  have "st sample 5 = RT_THREAD_RUNNING" by (simp add: three_def RT_THREAD_RUNNING_def)
  then show ?thesis using thread_exit_closes [OF sample_wf, of 5] by auto
qed

text \<open>
  C5: \<open>rt_thread_sleep\<close> of the running thread. For a time below half the tick range the call suspends the
  caller with its timer armed for exactly that many ticks ahead, keeps the invariant, and hands the processor to
  another thread when one is ready.
\<close>

theorem thread_sleep_suspends:
  assumes wf: "kernel_wf k" and c: "current k = Some c" "st k c = RT_THREAD_RUNNING" and n: "unat n < half"
  shows "\<exists>k'. rt_thread_sleep n k = Some k' \<and> kernel_wf k' \<and> st k' c = RT_THREAD_SUSPEND \<and>
    TThread c \<in> set (timer_list k') \<and> deadline k' (TThread c) = tick k + n \<and>
    (lock_nest k = 0 \<longrightarrow> (\<exists>t. st k t = RT_THREAD_READY) \<longrightarrow> (\<exists>r. current k' = Some r \<and> r \<noteq> c \<and> st k' r = RT_THREAD_RUNNING))"
proof -
  have r: "runnable (st k c)" using c by simp
  obtain k1 where k1: "sleep_for c n k = Some k1" "kernel_wf k1" "side k k1" "current k1 = current k"
    "thr k1 = (thr k)(c := set_stat RT_THREAD_SUSPEND (thr k c))" "homes (queues k1) c = {}"
    "TThread c \<in> set (timer_list k1)" "deadline k1 (TThread c) = tick k + n"
    "\<forall>q. \<not> is_ready_q q \<longrightarrow> queues k1 q = queues k q"
    using sleep_for_spec [OF wf r n] .
  obtain k' where k': "rt_schedule k1 = Some k'" "kernel_wf k'" "sched_step k1 k'"
    using rt_schedule_kernel [OF k1(2)] k1(4) c by auto
  note f = outer_fields [OF sched_stepD(1) [OF k'(3)]]
  have "rt_object_get_type (OThread c) k = RT_Object_Class_Thread" using kernel_wfD(2) [OF wf, of c] c by (simp add: thread_objs_def)
  then have eq: "rt_thread_sleep n k = Some k'" using c k1(1) k'(1) by (simp add: rt_thread_sleep_def rt_thread_self_def)
  have "st k' c = RT_THREAD_SUSPEND" unfolding sched_step_suspend [OF k'(3)] by (simp add: k1(5))
  moreover have "\<exists>r. current k' = Some r \<and> r \<noteq> c \<and> st k' r = RT_THREAD_RUNNING"
    if l: "lock_nest k = 0" and t: "st k t = RT_THREAD_READY" for t
  proof (rule rt_schedule_leaves [OF kernel_wfD(1) [OF k1(2)] _ _ _ _ k'(1)])
    show "current k1 = Some c" "st k1 c \<noteq> RT_THREAD_RUNNING" "lock_nest k1 = 0"
      using k1(4,5) c side_fields(3) [OF k1(3)] l by simp_all
    have "st k1 t = RT_THREAD_READY" using t c k1(5) by auto
    then have "QReady (prio k1 t) \<in> homes (queues k1) t"
      using sched_wfD(5) [OF kernel_wfD(1) [OF k1(2)], of t] by (simp add: place_wf_def)
    then have "queues k1 (QReady (prio k1 t)) \<noteq> []" by (auto simp: homes_def)
    then show "ready_group k1 \<noteq> 0" using sched_wfD(2) [OF kernel_wfD(1) [OF k1(2)]] by (auto simp: group_wf_def)
  qed
  ultimately show ?thesis using eq k'(2) f k1(7,8) by auto
qed

theorem thread_sleep_suspends_witness:
  "\<exists>k'. rt_thread_sleep 20 sample = Some k' \<and> kernel_wf k' \<and> st k' 5 = RT_THREAD_SUSPEND \<and>
     deadline k' (TThread 5) = 20 \<and> (\<exists>r. current k' = Some r \<and> r \<noteq> 5 \<and> st k' r = RT_THREAD_RUNNING)"
proof -
  have "st sample 5 = RT_THREAD_RUNNING" "\<exists>t. st sample t = RT_THREAD_READY"
    by (auto simp: three_def RT_THREAD_RUNNING_def RT_THREAD_READY_def intro!: exI [of _ 6])
  then show ?thesis using thread_sleep_suspends [OF sample_wf, of 5 20] by (auto simp: half_def)
qed


text \<open>Threads 5 and 6 of the sample kernel have priority 10; here the time slice of 5 is not used up.\<close>

definition sample_fresh :: kernel where
  "sample_fresh = upd_thr 5 clear_yield sample"

lemma sample_fresh_wf: "kernel_wf sample_fresh"
  unfolding sample_fresh_def by (rule kernel_wf_field_change [OF sample_wf]) simp_all


text \<open>
  \<open>rt_thread_delay_until\<close> overshoots. When the call sleeps, the thread timer is armed for
  \<open>now + (now - *tick + inc_tick)\<close>; the documented moment is \<open>*tick + inc_tick\<close>, so the caller wakes late by
  twice the time that has passed since \<open>*tick\<close>.
\<close>

theorem thread_delay_until_deadline:
  assumes wf: "kernel_wf k" and c: "current k = Some c" "st k c = RT_THREAD_RUNNING"
    and d: "tick k - start < inc" and n: "unat (tick k - start + inc) < half"
  shows "\<exists>k'. rt_thread_delay_until start inc k = Some (True, k') \<and> kernel_wf k' \<and> st k' c = RT_THREAD_SUSPEND \<and>
    TThread c \<in> set (timer_list k') \<and> deadline k' (TThread c) = (start + inc) + 2 * (tick k - start)"
proof -
  have r: "runnable (st k c)" using c by simp
  obtain k1 where k1: "sleep_for c (tick k - start + inc) k = Some k1" "kernel_wf k1" "side k k1" "current k1 = current k"
    "thr k1 = (thr k)(c := set_stat RT_THREAD_SUSPEND (thr k c))" "homes (queues k1) c = {}"
    "TThread c \<in> set (timer_list k1)" "deadline k1 (TThread c) = tick k + (tick k - start + inc)"
    "\<forall>q. \<not> is_ready_q q \<longrightarrow> queues k1 q = queues k q"
    using sleep_for_spec [OF wf r n] .
  obtain k' where k': "rt_schedule k1 = Some k'" "kernel_wf k'" "sched_step k1 k'"
    using rt_schedule_kernel [OF k1(2)] k1(4) c by auto
  note f = outer_fields [OF sched_stepD(1) [OF k'(3)]]
  have "rt_object_get_type (OThread c) k = RT_Object_Class_Thread" using kernel_wfD(2) [OF wf, of c] c by (simp add: thread_objs_def)
  then have eq: "rt_thread_delay_until start inc k = Some (True, k')"
    using c k1(1) k'(1) d by (simp add: rt_thread_delay_until_def rt_thread_self_def rt_tick_get_def)
  have "st k' c = RT_THREAD_SUSPEND" unfolding sched_step_suspend [OF k'(3)] by (simp add: k1(5))
  moreover have "tick k + (tick k - start + inc) = (start + inc) + 2 * (tick k - start)" by simp
  ultimately show ?thesis using eq k'(2) f k1(7,8) by auto
qed

theorem thread_delay_until_deadline_witness:
  "\<exists>k'. rt_thread_delay_until (- 2) 10 sample = Some (True, k') \<and> deadline k' (TThread 5) = 12 \<and> (- 2) + 10 = (8 :: u32)"
proof -
  have "st sample 5 = RT_THREAD_RUNNING" by (simp add: three_def RT_THREAD_RUNNING_def)
  then show ?thesis using thread_delay_until_deadline [OF sample_wf, of 5 "- 2" 10] by (auto simp: half_def)
qed

text \<open>
  C6: \<open>rt_thread_startup\<close> of an initialised thread makes it runnable at its initial priority, keeps the
  invariant and returns \<open>RT_EOK\<close>.
\<close>

theorem thread_startup_runs:
  assumes wf: "kernel_wf k" and i: "st k t = RT_THREAD_INIT" and o: "thread_objs k t"
    and p: "init_priority (thr k t) < RT_THREAD_PRIORITY_MAX" and s: "stack_ok (thr k t)"
  shows "\<exists>k'. rt_thread_startup t k = Some (RT_EOK, k') \<and> kernel_wf k' \<and> runnable (st k' t) \<and>
    current_priority (thr k' t) = init_priority (thr k t)"
proof -
  note sw = kernel_wfD(1) [OF wf]
  let ?th = "(thr k t)\<lparr>current_priority := init_priority (thr k t),
               number_mask := 2 ^ unat (init_priority (thr k t)), stat := RT_THREAD_SUSPEND\<rparr>"
  let ?k1 = "k\<lparr>thr := (thr k)(t := ?th)\<rparr>"
  have stt: "stat_of ?th = RT_THREAD_SUSPEND" by (simp add: stat_of_def RT_THREAD_SUSPEND_def RT_THREAD_STAT_MASK_def)
  have "q \<notin> homes (queues k) t" for q using sched_wfD(5) [OF sw, of t] i by (cases q) (auto simp: place_wf_def)
  then have h: "homes (queues k) t = {}" by blast
  have "sched_wf ?k1"
  proof (rule sched_wf_change [OF sw])
    show "group_wf ?k1" using sched_wfD(2) [OF sw] by (simp add: group_wf_def)
    have "stack_ok ?th" using s by (simp add: stack_ok_def rt_scheduler_stack_check_def)
    then show "thr_wf ?k1 t" using h stt p
      by (simp add: thr_wf_def thread_wf_def place_wf_def prio_wf_def RT_THREAD_PRIORITY_MAX_def word_less_nat_alt)
  qed (use sched_wfD(1) [OF sw] in simp_all)
  moreover have "objs_wf ?k1"
    using kernel_wfD(5) [OF wf] o unfolding objs_wf_def
    by (auto simp: thread_objs_def rt_object_get_type_def rt_object_is_systemobject_def)
  moreover have "timers_wf ?k1" by (rule timers_wf_cong [OF kernel_wfD(3) [OF wf]]) (use stt in auto)
  ultimately have w1: "kernel_wf ?k1" using kernel_wfD(4) [OF wf] by (simp add: kernel_wf_def lock_ok_def)
  have s1: "st ?k1 t = RT_THREAD_SUSPEND" using stt by simp
  obtain k2 where k2: "rt_thread_resume t ?k1 = Some (RT_EOK, k2)" "kernel_wf k2" "side ?k1 k2"
    "current k2 = current ?k1" "timers k2 = timers ?k1"
    "thr k2 = (thr ?k1)(t := set_stat (if current ?k1 = Some t then RT_THREAD_RUNNING else RT_THREAD_READY) (thr ?k1 t))"
    "\<forall>q. \<not> is_ready_q q \<longrightarrow> queues k2 q = remove1 t (queues ?k1 q)"
    "\<forall>p. queues k2 (QReady p) = queues ?k1 (QReady p) @ (if current ?k1 \<noteq> Some t \<and> p = prio ?k1 t then [t] else [])"
    using rt_thread_resume_spec [OF w1 s1] .
  have run: "runnable (st k2 t)" "current_priority (thr k2 t) = init_priority (thr k t)" unfolding k2(6) by simp_all
  have ty: "rt_object_get_type (OThread t) k = RT_Object_Class_Thread" using o by (simp add: thread_objs_def)
  show ?thesis
  proof (cases "current k2")
    case None
    then show ?thesis using k2(1,2) run i ty by (auto simp: rt_thread_startup_def rt_thread_self_def)
  next
    case (Some c)
    then obtain k' where k': "rt_schedule k2 = Some k'" "kernel_wf k'" "sched_step k2 k'"
      using rt_schedule_kernel [OF k2(2)] by auto
    have "runnable (st k' t)" using sched_stepD(5) [OF k'(3)] run by simp
    moreover have "current_priority (thr k' t) = init_priority (thr k t)"
      using but_stat_fields(1) [OF sched_stepD(3) [OF k'(3)]] run by simp
    ultimately show ?thesis using k2(1) k'(1,2) i ty Some by (auto simp: rt_thread_startup_def rt_thread_self_def)
  qed
qed

lemma kernel_wf_init_change:
  assumes wf: "kernel_wf k" and i: "st k t = RT_THREAD_INIT" "stat_of th = RT_THREAD_INIT"
  shows "kernel_wf (k\<lparr>thr := (thr k)(t := th)\<rparr>)"
proof -
  let ?k = "k\<lparr>thr := (thr k)(t := th)\<rparr>"
  note sw = kernel_wfD(1) [OF wf]
  have "sched_wf ?k"
  proof (rule sched_wf_change [OF sw])
    show "group_wf ?k" using sched_wfD(2) [OF sw] by (simp add: group_wf_def)
    show "thr_wf ?k t" using sched_wfD(3) [OF sw, of t] i by (simp add: thr_wf_def thread_wf_def place_wf_def)
  qed (use sched_wfD(1) [OF sw] in simp_all)
  moreover have "objs_wf ?k" by (rule objs_wf_cong [OF kernel_wfD(5) [OF wf]]) (use i in \<open>auto split: if_splits\<close>)
  moreover have "timers_wf ?k" by (rule timers_wf_cong [OF kernel_wfD(3) [OF wf]]) (use i in auto)
  ultimately show ?thesis using kernel_wfD(4) [OF wf] by (simp add: kernel_wf_def lock_ok_def)
qed

lemma sample_objs: "thread_objs sample t"
  by (simp add: thread_objs_def rt_object_get_type_def rt_object_is_systemobject_def sample_def class_defs
      RT_TIMER_FLAG_SOFT_TIMER_def RT_TIMER_FLAG_PERIODIC_def)

theorem thread_startup_runs_witness:
  "\<exists>k'. rt_thread_startup 8 (sample\<lparr>thr := (thr sample)(8 := sample_thread 0 12)\<rparr>) = Some (RT_EOK, k') \<and>
     kernel_wf k' \<and> runnable (st k' 8) \<and> current_priority (thr k' 8) = 12"
proof -
  let ?k = "sample\<lparr>thr := (thr sample)(8 := sample_thread 0 12)\<rparr>"
  have "kernel_wf ?k"
    by (rule kernel_wf_init_change [OF sample_wf]) (simp_all add: three_def boot_def RT_THREAD_INIT_def)
  moreover have "thread_objs ?k 8"
    using sample_objs [of 8] by (simp add: thread_objs_def rt_object_get_type_def rt_object_is_systemobject_def)
  moreover have "init_priority (thr ?k 8) = 12" by (simp add: sample_thread_def)
  ultimately show ?thesis using thread_startup_runs [of ?k 8]
    by (simp add: RT_THREAD_INIT_def RT_THREAD_PRIORITY_MAX_def)
qed

theorem tick_increase_safe_witness:
  "\<exists>k'. rt_tick_increase (\<lambda>_. Some) sample = Some k' \<and> kernel_wf k' \<and> quiet k' \<and> tick k' = 1"
proof -
  have "cb_ok (\<lambda>_. Some)" by (simp add: cb_ok_def)
  moreover have "armed_ok sample" by (simp add: armed_ok_def)
  ultimately show ?thesis using tick_increase_safe [OF _ sample_wf _ sample_quiet, of "\<lambda>_. Some"] by auto
qed

end
