(* ===== verification/Interfaces.thy ===== *)
theory Interfaces
  imports Prelude
begin

text \<open>
  What the synchronisation objects promise their clients, as locales over a labelled step relation: a
  counting semaphore conserves its tokens, a channel delivers what was put into it, in the order of its
  discipline. The client lemmas are proved once here by induction on runs; the theories of the objects
  interpret the locales on the kernel model.
\<close>

section \<open>Runs\<close>

inductive runs :: "('s \<Rightarrow> 'l \<Rightarrow> 's \<Rightarrow> bool) \<Rightarrow> 's \<Rightarrow> 'l list \<Rightarrow> 's \<Rightarrow> bool" for step where
  runs_nil: "runs step s [] s"
| runs_snoc: "runs step s ls s' \<Longrightarrow> step s' l s'' \<Longrightarrow> runs step s (ls @ [l]) s''"

lemma runs_one: "step s l s' \<Longrightarrow> runs step s [l] s'"
  using runs_snoc [OF runs_nil, of step s l s'] by simp

lemma runs_two: "step s l s1 \<Longrightarrow> step s1 m s2 \<Longrightarrow> runs step s [l, m] s2"
  using runs_snoc [OF runs_one] by simp

lemma runs_three: "step s l s1 \<Longrightarrow> step s1 m s2 \<Longrightarrow> step s2 n s3 \<Longrightarrow> runs step s [l, m, n] s3"
  using runs_snoc [OF runs_snoc [OF runs_one]] by simp

lemma runs_trans: "runs step s' ms s'' \<Longrightarrow> runs step s ls s' \<Longrightarrow> runs step s (ls @ ms) s''"
proof (induction s' ms s'' rule: runs.induct)
  case (runs_snoc s' ms s'' l s3)
  then show ?case using runs.runs_snoc [of step s "ls @ ms" s'' l s3] by simp
qed simp

section \<open>Counting semaphores\<close>

text \<open>A take that succeeds at once, a take that starts to wait, a release, a waiter that gives up, and every step that does none of these.\<close>

datatype sem_label = Took | Waits | Released | Gave_up | Other

text \<open>
  Balance: tokens that are left plus takes granted at once plus waiters served equal the tokens at the start plus the
  releases, where the waiters served are those that came, did not give up and wait no more.
\<close>

definition sem_balance :: "('s \<Rightarrow> nat) \<Rightarrow> ('s \<Rightarrow> 'w list) \<Rightarrow> 's \<Rightarrow> sem_label list \<Rightarrow> 's \<Rightarrow> bool" where
  "sem_balance count waiters s ls s' \<longleftrightarrow>
     count s' + count_list ls Took + (length (waiters s) + count_list ls Waits) =
     count s + count_list ls Released + (length (waiters s') + count_list ls Gave_up)"

locale counting_semaphore =
  fixes step :: "'s \<Rightarrow> sem_label \<Rightarrow> 's \<Rightarrow> bool" and inv :: "'s \<Rightarrow> bool"
    and count :: "'s \<Rightarrow> nat" and waiters :: "'s \<Rightarrow> 'w list" and limit :: nat
  assumes step_inv: "inv s \<Longrightarrow> step s l s' \<Longrightarrow> inv s'"
    and took: "inv s \<Longrightarrow> step s Took s' \<Longrightarrow> count s = Suc (count s') \<and> waiters s' = waiters s"
    and waits: "inv s \<Longrightarrow> step s Waits s' \<Longrightarrow> count s = 0 \<and> count s' = 0 \<and> length (waiters s') = Suc (length (waiters s))"
    and released: "inv s \<Longrightarrow> step s Released s' \<Longrightarrow> Suc (count s) < limit \<Longrightarrow>
      (if waiters s = [] then count s' = Suc (count s) \<and> waiters s' = []
       else count s' = count s \<and> waiters s' = tl (waiters s))"
    and gave_up: "inv s \<Longrightarrow> step s Gave_up s' \<Longrightarrow> count s' = count s \<and> Suc (length (waiters s')) = length (waiters s)"
    and other: "inv s \<Longrightarrow> step s Other s' \<Longrightarrow> count s' = count s \<and> waiters s' = waiters s"
    and exclusive: "inv s \<Longrightarrow> waiters s \<noteq> [] \<Longrightarrow> count s = 0"
begin

lemma inv_runs: "runs step s ls s' \<Longrightarrow> inv s \<Longrightarrow> inv s'"
  by (induction rule: runs.induct) (auto intro: step_inv)

lemma count_bound: "sem_balance count waiters s ls s' \<Longrightarrow> inv s' \<Longrightarrow> count s' \<le> count s + count_list ls Released + count_list ls Gave_up"
  by (cases "waiters s' = []") (auto simp: sem_balance_def dest: exclusive)

lemma runs_balance:
  "runs step s ls s' \<Longrightarrow> inv s \<Longrightarrow> count s + count_list ls Released + count_list ls Gave_up < limit \<Longrightarrow> sem_balance count waiters s ls s'"
proof (induction rule: runs.induct)
  case (runs_nil s)
  then show ?case by (simp add: sem_balance_def)
next
  case (runs_snoc s ls s' l s'')
  have b: "sem_balance count waiters s ls s'" using runs_snoc by simp
  have i: "inv s'" using inv_runs [OF runs_snoc.hyps(1) runs_snoc.prems(1)] .
  note c = count_bound [OF b i]
  show ?case
  proof (cases l)
    case Released
    then have "Suc (count s') < limit" using c runs_snoc.prems(2) by simp
    from released [OF i runs_snoc.hyps(2) [unfolded Released] this] show ?thesis
      using b Released by (cases "waiters s'") (simp_all add: sem_balance_def)
  qed (use b runs_snoc.hyps(2) i took waits gave_up other in \<open>fastforce simp: sem_balance_def\<close>)+
qed

end

section \<open>Recursive locks\<close>

text \<open>
  The abstract lock is free or held by one owner to some depth. A lock succeeds when the lock is free or the caller is
  the owner; an unlock by the owner lowers the depth, and at depth one it frees the lock or hands it to a
  waiter.
\<close>

datatype 't lock_label = Lock 't | Unlock 't "'t option" | Neutral

fun lock_next :: "('t \<times> nat) option \<Rightarrow> 't lock_label \<Rightarrow> ('t \<times> nat) option \<Rightarrow> bool" where
  "lock_next None (Lock t) s' \<longleftrightarrow> s' = Some (t, 1)"
| "lock_next (Some (ow, n)) (Lock t) s' \<longleftrightarrow> t = ow \<and> s' = Some (ow, n + 1)"
| "lock_next (Some (ow, n)) (Unlock t w) s' \<longleftrightarrow>
     t = ow \<and> (if n > 1 then w = None \<and> s' = Some (ow, n - 1) else n = 1 \<and> s' = map_option (\<lambda>w. (w, 1)) w)"
| "lock_next None (Unlock t w) s' \<longleftrightarrow> False"
| "lock_next s Neutral s' \<longleftrightarrow> s' = s"

fun holds_of :: "('t \<times> nat) option \<Rightarrow> 't \<Rightarrow> nat" where
  "holds_of None t = 0"
| "holds_of (Some (ow, n)) t = (if t = ow then n else 0)"

text \<open>How often a thread has entered (by itself or by a hand-over) and left.\<close>

fun entered :: "'t \<Rightarrow> 't lock_label list \<Rightarrow> nat" where
  "entered t [] = 0"
| "entered t (Lock u # ls) = (if u = t then 1 else 0) + entered t ls"
| "entered t (Unlock u w # ls) = (if w = Some t then 1 else 0) + entered t ls"
| "entered t (Neutral # ls) = entered t ls"

fun left :: "'t \<Rightarrow> 't lock_label list \<Rightarrow> nat" where
  "left t [] = 0"
| "left t (Unlock u w # ls) = (if u = t then 1 else 0) + left t ls"
| "left t (_ # ls) = left t ls"

lemma entered_append [simp]: "entered t (ls @ ms) = entered t ls + entered t ms"
  by (induction ls rule: entered.induct) simp_all

lemma left_append [simp]: "left t (ls @ ms) = left t ls + left t ms"
  by (induction ls rule: entered.induct) simp_all

lemma entered_le: "entered t ls \<le> length ls"
  by (induction ls rule: entered.induct) simp_all

lemma holds_of_handed [simp]: "holds_of (map_option (\<lambda>w. (w, n)) w) t = (if w = Some t then n else 0)"
  by (cases w) auto

lemma lock_next_balance: "lock_next s l s' \<Longrightarrow> holds_of s t + entered t [l] = left t [l] + holds_of s' t"
  by (induction s l s' rule: lock_next.induct) (auto split: if_splits option.splits)

lemma holds_one: "holds_of s t \<noteq> 0 \<Longrightarrow> holds_of s u \<noteq> 0 \<Longrightarrow> t = u"
  by (cases s) (auto split: if_splits)

locale recursive_lock =
  fixes step :: "'s \<Rightarrow> 't lock_label \<Rightarrow> 's \<Rightarrow> bool" and inv :: "'s \<Rightarrow> bool" and holder :: "'s \<Rightarrow> ('t \<times> nat) option" and limit :: nat
  assumes step_inv: "inv s \<Longrightarrow> step s l s' \<Longrightarrow> (\<And>t. holds_of (holder s) t + 1 < limit) \<Longrightarrow> inv s'"
    and simulates: "inv s \<Longrightarrow> step s l s' \<Longrightarrow> (\<And>t. holds_of (holder s) t + 1 < limit) \<Longrightarrow> lock_next (holder s) l (holder s')"
begin

lemma runs_lock:
  "runs step s ls s' \<Longrightarrow> inv s \<Longrightarrow> (\<And>t. holds_of (holder s) t + length ls < limit) \<Longrightarrow>
   inv s' \<and> (\<forall>t. holds_of (holder s) t + entered t ls = left t ls + holds_of (holder s') t)"
proof (induction rule: runs.induct)
  case (runs_snoc s ls s' l s'')
  have lim: "holds_of (holder s) t + length ls < limit" for t using runs_snoc.prems(2) [of t] by simp
  have i: "inv s'" and b: "\<And>t. holds_of (holder s) t + entered t ls = left t ls + holds_of (holder s') t"
    using runs_snoc.IH [OF runs_snoc.prems(1) lim] by simp_all
  have "holds_of (holder s') t + 1 < limit" for t
    using b [of t] entered_le [of t ls] runs_snoc.prems(2) [of t] by simp
  note st = step_inv [OF i runs_snoc.hyps(2) this] lock_next_balance [OF simulates [OF i runs_snoc.hyps(2) this]]
  show ?case using st(1) st(2) b by (auto simp: add.assoc [symmetric])
qed simp

end

section \<open>Channels\<close>

text \<open>
  A channel holds a list of messages. A put goes to the back, an urgent put to the front, and a get takes the
  front; every other step leaves the messages alone.
\<close>

datatype 'm chan_label = Put 'm | Urgent 'm | Got 'm | Idle

fun sent :: "'m chan_label list \<Rightarrow> 'm list" where
  "sent [] = []"
| "sent (Put m # ls) = m # sent ls"
| "sent (_ # ls) = sent ls"

fun got :: "'m chan_label list \<Rightarrow> 'm list" where
  "got [] = []"
| "got (Got m # ls) = m # got ls"
| "got (_ # ls) = got ls"

fun urgent :: "'m chan_label list \<Rightarrow> 'm list" where
  "urgent [] = []"
| "urgent (Urgent m # ls) = m # urgent ls"
| "urgent (_ # ls) = urgent ls"

lemma chan_append [simp]:
  "sent (ls @ ms) = sent ls @ sent ms" "got (ls @ ms) = got ls @ got ms" "urgent (ls @ ms) = urgent ls @ urgent ms"
  by (induction ls rule: sent.induct) simp_all

locale channel =
  fixes step :: "'s \<Rightarrow> 'm chan_label \<Rightarrow> 's \<Rightarrow> bool" and inv :: "'s \<Rightarrow> bool" and contents :: "'s \<Rightarrow> 'm list" and cap :: "'s \<Rightarrow> nat"
  assumes step_inv: "inv s \<Longrightarrow> step s l s' \<Longrightarrow> inv s' \<and> cap s' = cap s"
    and put: "inv s \<Longrightarrow> step s (Put m) s' \<Longrightarrow> contents s' = contents s @ [m]"
    and urgent: "inv s \<Longrightarrow> step s (Urgent m) s' \<Longrightarrow> contents s' = m # contents s"
    and get: "inv s \<Longrightarrow> step s (Got m) s' \<Longrightarrow> contents s = m # contents s'"
    and idle: "inv s \<Longrightarrow> step s Idle s' \<Longrightarrow> contents s' = contents s"
    and bounded: "inv s \<Longrightarrow> length (contents s) \<le> cap s"
begin

lemma inv_runs: "runs step s ls s' \<Longrightarrow> inv s \<Longrightarrow> inv s' \<and> cap s' = cap s"
proof (induction rule: runs.induct)
  case (runs_snoc s ls s' l s'')
  then have "inv s'" "cap s' = cap s" by simp_all
  then show ?case using step_inv [OF _ runs_snoc.hyps(2)] by simp
qed simp

text \<open>Without urgent messages: first in, first out, nothing lost and nothing invented.\<close>

lemma runs_fifo: "runs step s ls s' \<Longrightarrow> inv s \<Longrightarrow> urgent ls = [] \<Longrightarrow> contents s @ sent ls = got ls @ contents s'"
proof (induction rule: runs.induct)
  case (runs_snoc s ls s' l s'')
  then have i: "inv s'" and e: "contents s @ sent ls = got ls @ contents s'" using inv_runs by simp_all
  have "contents s' @ sent [l] = got [l] @ contents s''"
    using i runs_snoc.hyps(2) runs_snoc.prems(2) by (cases l) (auto dest: put get idle)
  then show ?case using e by simp (metis append.assoc)
qed simp

text \<open>With urgent messages the multiset of messages is still conserved, stated by counting.\<close>

lemma runs_conserve:
  "runs step s ls s' \<Longrightarrow> inv s \<Longrightarrow>
   count_list (contents s) m + count_list (sent ls) m + count_list (urgent ls) m = count_list (got ls) m + count_list (contents s') m"
proof (induction rule: runs.induct)
  case (runs_snoc s ls s' l s'')
  then have i: "inv s'" using inv_runs by simp
  have "count_list (contents s') m + count_list (sent [l]) m + count_list (urgent [l]) m =
        count_list (got [l]) m + count_list (contents s'') m"
    using put [OF i, of _ s''] urgent [OF i, of _ s''] get [OF i, of _ s''] idle [OF i, of s''] runs_snoc.hyps(2)
    by (cases l) simp_all
  then show ?case using runs_snoc by simp
qed simp

end

section \<open>Allocators\<close>

text \<open>
  A block given out with the length asked for, a block taken back, a block resized (old address, new address, length), a byte
  stored by the program, and every step that does none of these.
\<close>

datatype alloc_label = Alloc nat nat | Freed nat | Resized nat nat nat | Stored nat "8 word" | Quiet

fun ends :: "nat \<Rightarrow> alloc_label \<Rightarrow> bool" where
  "ends p (Freed q) \<longleftrightarrow> p = q"
| "ends p (Resized q r n) \<longleftrightarrow> p = q"
| "ends p _ \<longleftrightarrow> False"

text \<open>The value of the byte at \<open>a\<close> after the stores of a run.\<close>

fun last_stored :: "nat \<Rightarrow> 8 word \<Rightarrow> alloc_label list \<Rightarrow> 8 word" where
  "last_stored a v [] = v"
| "last_stored a v (Stored b w # ls) = last_stored a (if a = b then w else v) ls"
| "last_stored a v (_ # ls) = last_stored a v ls"

lemma last_stored_append [simp]: "last_stored a v (ls @ ms) = last_stored a (last_stored a v ls) ms"
  by (induction a v ls rule: last_stored.induct) simp_all

definition same_bytes :: "('s \<Rightarrow> nat \<Rightarrow> 8 word) \<Rightarrow> (nat \<times> nat) set \<Rightarrow> 's \<Rightarrow> 's \<Rightarrow> bool" where
  "same_bytes byte B s s' \<longleftrightarrow> (\<forall>p n i. (p, n) \<in> B \<and> i < n \<longrightarrow> byte s' (p + i) = byte s (p + i))"

lemma same_bytesD: "same_bytes byte B s s' \<Longrightarrow> (p, n) \<in> B \<Longrightarrow> i < n \<Longrightarrow> byte s' (p + i) = byte s (p + i)"
  by (simp add: same_bytes_def)

lemma same_bytes_mono: "same_bytes byte B s s' \<Longrightarrow> A \<subseteq> B \<Longrightarrow> same_bytes byte A s s'"
  by (auto simp: same_bytes_def)

lemma same_bytes_trans: "same_bytes byte B s s' \<Longrightarrow> same_bytes byte B s' s'' \<Longrightarrow> same_bytes byte B s s''"
  by (simp add: same_bytes_def)

locale allocator =
  fixes step :: "'s \<Rightarrow> alloc_label \<Rightarrow> 's \<Rightarrow> bool" and inv :: "'s \<Rightarrow> bool"
    and live :: "'s \<Rightarrow> (nat \<times> nat) set" and byte :: "'s \<Rightarrow> nat \<Rightarrow> 8 word"
  assumes step_inv: "inv s \<Longrightarrow> step s l s' \<Longrightarrow> inv s'"
    and apart: "inv s \<Longrightarrow> (p, n) \<in> live s \<Longrightarrow> (q, m) \<in> live s \<Longrightarrow> (p, n) \<noteq> (q, m) \<Longrightarrow> p + n < q \<or> q + m < p"
    and alloc: "inv s \<Longrightarrow> step s (Alloc p r) s' \<Longrightarrow>
      \<exists>n \<ge> r. (p, n) \<notin> live s \<and> live s' = insert (p, n) (live s) \<and> same_bytes byte (live s) s s'"
    and freed: "inv s \<Longrightarrow> step s (Freed p) s' \<Longrightarrow>
      \<exists>n. (p, n) \<in> live s \<and> live s' = live s - {(p, n)} \<and> same_bytes byte (live s') s s'"
    and resized: "inv s \<Longrightarrow> step s (Resized p q r) s' \<Longrightarrow>
      \<exists>n m. (p, n) \<in> live s \<and> r \<le> m \<and> live s' = insert (q, m) (live s - {(p, n)}) \<and> same_bytes byte (live s - {(p, n)}) s s' \<and>
        (\<forall>i < min n r. byte s' (q + i) = byte s (p + i))"
    and stored: "inv s \<Longrightarrow> step s (Stored a v) s' \<Longrightarrow> live s' = live s \<and>
      (\<forall>p n i. (p, n) \<in> live s \<and> i < n \<longrightarrow> byte s' (p + i) = (if p + i = a then v else byte s (p + i)))"
    and quiet: "inv s \<Longrightarrow> step s Quiet s' \<Longrightarrow> live s' = live s \<and> same_bytes byte (live s) s s'"
begin

lemma inv_runs: "runs step s ls s' \<Longrightarrow> inv s \<Longrightarrow> inv s'"
  by (induction rule: runs.induct) (auto dest: step_inv)

text \<open>One step keeps a block that it does not end, and its bytes but for a store.\<close>

lemma step_keeps:
  assumes i: "inv s" and st: "step s l s'" and b: "(p, n) \<in> live s" and "\<not> ends p l" and j: "j < n"
  shows "(p, n) \<in> live s' \<and> byte s' (p + j) = last_stored (p + j) (byte s (p + j)) [l]"
proof (cases l)
  case (Alloc q r)
  then show ?thesis using alloc [OF i] st b j by (force simp: same_bytes_def)
next
  case (Freed q)
  then obtain m where "(q, m) \<in> live s" "live s' = live s - {(q, m)}" "same_bytes byte (live s') s s'" using freed [OF i] st by blast
  then show ?thesis using b j Freed assms(4) by (simp add: same_bytes_def)
next
  case (Resized q r k)
  then obtain m m' where "(q, m) \<in> live s" "live s' = insert (r, m') (live s - {(q, m)})" "same_bytes byte (live s - {(q, m)}) s s'"
    using resized [OF i] st by blast
  then show ?thesis using b j Resized assms(4) by (simp add: same_bytes_def)
next
  case (Stored a v)
  then show ?thesis using stored [OF i] st b j by (auto split: if_splits)
next
  case Quiet
  then show ?thesis using quiet [OF i] st b j by (simp add: same_bytes_def)
qed

text \<open>Until it is freed or resized, a block stays where it is and holds what was stored in it.\<close>

lemma runs_keep:
  "runs step s ls s' \<Longrightarrow> inv s \<Longrightarrow> (p, n) \<in> live s \<Longrightarrow> (\<forall>l \<in> set ls. \<not> ends p l) \<Longrightarrow> j < n \<Longrightarrow>
   (p, n) \<in> live s' \<and> byte s' (p + j) = last_stored (p + j) (byte s (p + j)) ls"
proof (induction rule: runs.induct)
  case (runs_snoc s ls s' l s'')
  then have e: "(p, n) \<in> live s'" "byte s' (p + j) = last_stored (p + j) (byte s (p + j)) ls" by simp_all
  have "inv s'" using inv_runs [OF runs_snoc.hyps(1)] runs_snoc.prems by simp
  from step_keeps [OF this runs_snoc.hyps(2) e(1) _ runs_snoc.prems(4)] show ?case using e(2) runs_snoc.prems(3) by simp
qed simp

end

end
