(* ===== verification/Ipc.thy ===== *)
theory Ipc
  imports Thread_Life Interfaces
begin

text \<open>
  The wait lists that all objects of \<^verbatim>\<open>rt-thread/src/ipc.c\<close> share: suspending the
  caller on a list (first in, first out or by priority), resuming the first waiter or all of them, and the
  blocking sequence of the IPC calls. The objects themselves are in the theories \<open>Semaphore\<close>,
  \<open>Mutex\<close>, \<open>Event\<close>, \<open>Mailbox\<close> and \<open>Message_Queue\<close>.

  A call that may block returns \<open>Return e\<close> when it returns to its caller, and \<open>Blocked\<close> when it
  has suspended the caller and switched away; what the function does when the thread runs again is a
  definition of its own.
\<close>

datatype ipc_result = Return rt_err_t | Blocked

text \<open>Commands of the control functions of ipc.c.\<close>

datatype ipc_cmd = RT_IPC_CMD_RESET u32 | RT_IPC_CMD_other

section \<open>Wait lists\<close>

definition rt_ipc_object_init :: "qid \<Rightarrow> kernel \<Rightarrow> kernel" where
  "rt_ipc_object_init q k = k\<lparr>queues := (queues k)(q := [])\<rparr>"

text \<open>The loop of \<open>rt_ipc_list_suspend\<close> for \<open>RT_IPC_FLAG_PRIO\<close>: before the first waiter of lower priority.\<close>

fun prio_insert :: "(tid \<Rightarrow> u8) \<Rightarrow> tid \<Rightarrow> tid list \<Rightarrow> tid list" where
  "prio_insert pr t [] = [t]"
| "prio_insert pr t (s # ss) = (if pr t < pr s then t # s # ss else s # prio_insert pr t ss)"

definition wait_insert :: "u8 \<Rightarrow> (tid \<Rightarrow> u8) \<Rightarrow> tid \<Rightarrow> tid list \<Rightarrow> tid list" where
  "wait_insert flag pr t ts =
     (if flag = RT_IPC_FLAG_FIFO then ts @ [t]
      else if flag = RT_IPC_FLAG_PRIO then prio_insert pr t ts
      else ts)"

definition rt_ipc_list_suspend :: "qid \<Rightarrow> tid \<Rightarrow> u8 \<Rightarrow> kernel \<Rightarrow> kernel option" where
  "rt_ipc_list_suspend q t flag k = do {
     (_, k) \<leftarrow> rt_thread_suspend t k;
     Some (k\<lparr>queues := (queues k)(q := wait_insert flag (\<lambda>u. current_priority (thr k u)) t (queues k q))\<rparr>) }"

definition rt_ipc_list_resume :: "qid \<Rightarrow> kernel \<Rightarrow> kernel option" where
  "rt_ipc_list_resume q k =
     (case queues k q of
        [] \<Rightarrow> None
      | t # _ \<Rightarrow> do { (_, k) \<leftarrow> rt_thread_resume t k; Some k })"

text \<open>A waiter that could not be resumed would stay first in the list for ever.\<close>

partial_function (option) rt_ipc_list_resume_all :: "qid \<Rightarrow> kernel \<Rightarrow> kernel option" where
  "rt_ipc_list_resume_all q k =
     (case queues k q of
        [] \<Rightarrow> Some k
      | t # _ \<Rightarrow>
          Option.bind (rt_thread_resume t (upd_thr t (\<lambda>th. th\<lparr>terror := - RT_ERROR\<rparr>) k)) (\<lambda>r.
          rt_ipc_list_resume_all q (snd r)))"

text \<open>
  The blocking sequence: put the caller on the list, arm its timer when the time is positive (a negative
  time waits for ever), and switch to another thread.
\<close>

definition ipc_block :: "qid \<Rightarrow> tid \<Rightarrow> u8 \<Rightarrow> int \<Rightarrow> kernel \<Rightarrow> kernel option" where
  "ipc_block q t flag time k = do {
     k \<leftarrow> rt_ipc_list_suspend q t flag k;
     k \<leftarrow> (if time > 0 then arm_thread_timer t (word_of_int time) k else Some k);
     rt_schedule k }"

text \<open>The same sequence with any place in the list for the caller, which is how the memory pools use it.\<close>

definition block_with :: "qid \<Rightarrow> tid \<Rightarrow> (kernel \<Rightarrow> tid list) \<Rightarrow> int \<Rightarrow> kernel \<Rightarrow> kernel option" where
  "block_with q t f time k = do {
     (_, k) \<leftarrow> rt_thread_suspend t k;
     let k = k\<lparr>queues := (queues k)(q := f k)\<rparr>;
     k \<leftarrow> (if time > 0 then arm_thread_timer t (word_of_int time) k else Some k);
     rt_schedule k }"

text \<open>Resume the first waiter and give it a chance to run.\<close>

definition ipc_wake :: "qid \<Rightarrow> kernel \<Rightarrow> kernel option" where
  "ipc_wake q k = do { k \<leftarrow> rt_ipc_list_resume q k; rt_schedule k }"

section \<open>Order of waiters\<close>

lemma set_prio_insert [simp]: "set (prio_insert pr t ts) = insert t (set ts)"
  by (induction ts) auto

lemma distinct_prio_insert [simp]: "distinct (prio_insert pr t ts) \<longleftrightarrow> t \<notin> set ts \<and> distinct ts"
  by (induction ts) auto

text \<open>
  Among waiters ordered by priority the new one goes behind all of its own and of higher priority, so equal
  priorities are served in the order of arrival.
\<close>

lemma prio_insert_split:
  assumes "sorted (map (\<lambda>s. unat (pr s)) ts)"
  shows "prio_insert pr t ts = takeWhile (\<lambda>s. pr s \<le> pr t) ts @ t # dropWhile (\<lambda>s. pr s \<le> pr t) ts"
  using assms by (induction ts) (auto simp: not_le)

lemma sorted_prio_insert:
  assumes "sorted (map (\<lambda>s. unat (pr s)) ts)"
  shows "sorted (map (\<lambda>s. unat (pr s)) (prio_insert pr t ts))"
proof -
  let ?f = "\<lambda>s. unat (pr s)"
  have e: "pr s \<le> pr t \<longleftrightarrow> ?f s \<le> ?f t" for s by (rule word_le_nat_alt)
  note ab = takeWhile_dropWhile_sorted [OF assms, of "?f t"]
  show ?thesis unfolding prio_insert_split [OF assms] e
    by (rule sorted_insert_middle) (use assms ab in \<open>auto dest: less_imp_le\<close>)
qed

definition good_flag :: "u8 \<Rightarrow> bool" where
  "good_flag f \<longleftrightarrow> f = RT_IPC_FLAG_FIFO \<or> f = RT_IPC_FLAG_PRIO"

lemma wait_insert_props:
  assumes "good_flag flag"
  shows "set (wait_insert flag pr t ts) = insert t (set ts)" "distinct (wait_insert flag pr t ts) \<longleftrightarrow> t \<notin> set ts \<and> distinct ts"
  using assms by (auto simp: wait_insert_def good_flag_def RT_IPC_FLAG_FIFO_def RT_IPC_FLAG_PRIO_def)

lemma length_prio_insert [simp]: "length (prio_insert pr t ts) = Suc (length ts)"
  by (induction ts) auto

lemma length_wait_insert: "good_flag flag \<Longrightarrow> length (wait_insert flag pr t ts) = Suc (length ts)"
  by (auto simp: wait_insert_def good_flag_def)

section \<open>Effect on a well-formed kernel\<close>

lemma waiter_suspended:
  "kernel_wf k \<Longrightarrow> is_wait q \<Longrightarrow> t \<in> set (queues k q) \<Longrightarrow> st k t = RT_THREAD_SUSPEND"
  using sched_wfD(5) [OF kernel_wfD(1), of k t] by (auto simp: place_wf_def homes_def)

lemma homes_insert:
  "set xs = insert t (set (Q q)) \<Longrightarrow> homes (Q(q := xs)) u = (if u = t then insert q (homes Q t) else homes Q u)"
  by (auto simp: homes_def)

lemma kernel_wf_queues:
  assumes wf: "kernel_wf k" and s: "sched_wf (k\<lparr>queues := Q\<rparr>)"
  shows "kernel_wf (k\<lparr>queues := Q\<rparr>)"
proof -
  have "objs_wf (k\<lparr>queues := Q\<rparr>)" by (rule objs_wf_cong [OF kernel_wfD(5) [OF wf]]) auto
  moreover have "timers_wf (k\<lparr>queues := Q\<rparr>)" by (rule timers_wf_cong [OF kernel_wfD(3) [OF wf]]) auto
  ultimately show ?thesis using s kernel_wfD(4) [OF wf] by (simp add: kernel_wf_def lock_ok_def)
qed

text \<open>A suspended thread that is in no list may enter a wait list.\<close>

lemma kernel_wf_enqueue:
  assumes wf: "kernel_wf k" and s: "st k t = RT_THREAD_SUSPEND" and h: "homes (queues k) t = {}"
    and q: "is_wait q" and xs: "set xs = insert t (set (queues k q))" "distinct xs"
  shows "kernel_wf (k\<lparr>queues := (queues k)(q := xs)\<rparr>)"
proof (rule kernel_wf_queues [OF wf], rule sched_wf_change [OF kernel_wfD(1) [OF wf]])
  note sw = kernel_wfD(1) [OF wf]
  let ?k = "k\<lparr>queues := (queues k)(q := xs)\<rparr>"
  show "queues_wf (queues ?k)" using queues_wf_insert [OF sched_wfD(1) [OF sw] h xs] by simp
  have nq: "QReady p \<noteq> q" "QDefunct \<noteq> q" for p using q by (cases q; simp)+
  show "group_wf ?k" using sched_wfD(2) [OF sw] nq by (simp add: group_wf_def)
  have hm: "homes (queues ?k) t = {q}" using homes_insert [of xs t "queues k" q t] xs(1) h by simp
  have "place_wf (thr k t) {q} (current k = Some t)"
    unfolding place_wf_def using nq s by simp
  then show "thr_wf ?k t" unfolding thr_wf_def hm using sched_wfD(4) [OF sw, of t] by simp
  fix u assume "u \<noteq> t"
  then show "thr ?k u = thr k u \<and> homes (queues ?k) u = homes (queues k) u \<and> (current ?k = Some u \<longleftrightarrow> current k = Some u)"
    using homes_insert [of xs t "queues k" q u] xs(1) by simp
qed

definition ok_time :: "int \<Rightarrow> bool" where
  "ok_time time \<longleftrightarrow> time < int half"

lemma block_with_spec:
  assumes wf: "kernel_wf k" and c: "current k = Some t" "st k t = RT_THREAD_RUNNING"
    and q: "is_wait q" and time: "ok_time time" and ys: "set ys = insert t (set (queues k q))" "t \<notin> set (queues k q) \<Longrightarrow> distinct (queues k q) \<Longrightarrow> distinct ys"
    and f: "\<And>k1. thr k1 = (thr k)(t := set_stat RT_THREAD_SUSPEND (thr k t)) \<Longrightarrow> queues k1 q = queues k q \<Longrightarrow> f k1 = ys"
  obtains k' where "block_with q t f time k = Some k'" "kernel_wf k'" "side k k'"
    "st k' t = RT_THREAD_SUSPEND" "current k' \<noteq> None"
    "\<forall>r. \<not> is_ready_q r \<longrightarrow> queues k' r = (if r = q then ys else queues k r)"
    "\<forall>u. but_stat (thr k' u) = but_stat (thr k u)"
    "\<forall>u. u \<noteq> t \<longrightarrow> (st k' u = RT_THREAD_SUSPEND) = (st k u = RT_THREAD_SUSPEND)"
    "time > 0 \<longrightarrow> TThread t \<in> set (timer_list k') \<and> deadline k' (TThread t) = tick k + word_of_int time"
    "(\<exists>u. st k u = RT_THREAD_READY) \<and> lock_nest k = 0 \<longrightarrow> (\<exists>r. current k' = Some r \<and> r \<noteq> t \<and> st k' r = RT_THREAD_RUNNING)"
    "\<forall>u. u \<noteq> t \<longrightarrow> runnable (st k' u) = runnable (st k u)"
proof -
  have r: "runnable (st k t)" using c by simp
  obtain k1 where k1: "rt_thread_suspend t k = Some (RT_EOK, k1)" "kernel_wf k1" "side k k1"
    "current k1 = current k" "timers k1 = timers k" "thr k1 = (thr k)(t := set_stat RT_THREAD_SUSPEND (thr k t))"
    "\<forall>q. \<not> is_ready_q q \<longrightarrow> queues k1 q = queues k q" "homes (queues k1) t = {}"
    "TThread t \<notin> set (timer_list k1) \<union> set (soft_timer_list k1)"
    by (rule rt_thread_suspend_spec [OF wf r]) blast
  let ?k2 = "k1\<lparr>queues := (queues k1)(q := ys)\<rparr>"
  have kq: "queues k1 q = queues k q" using k1(7) q by (cases q) auto
  have "t \<notin> set (queues k1 q)" "distinct (queues k1 q)"
    using k1(8) sched_wfD(1) [OF kernel_wfD(1) [OF k1(2)]] by (auto simp: homes_def queues_wf_def)
  then have xs: "set ys = insert t (set (queues k1 q))" "distinct ys" using ys kq by simp_all
  have s1: "st k1 t = RT_THREAD_SUSPEND" by (simp add: k1(6))
  have w2: "kernel_wf ?k2" by (rule kernel_wf_enqueue [OF k1(2) s1 k1(8) q xs])
  have s2: "st ?k2 t = RT_THREAD_SUSPEND" using s1 by simp
  have sd2: "side k ?k2" using k1(3) by (auto simp: side_def rest_def)
  obtain k3 where k3: "(if time > 0 then arm_thread_timer t (word_of_int time) ?k2 else Some ?k2) = Some k3" "kernel_wf k3"
    "side k k3" "thr k3 = thr ?k2" "queues k3 = queues ?k2" "current k3 = current ?k2"
    "time > 0 \<longrightarrow> TThread t \<in> set (timer_list k3) \<and> deadline k3 (TThread t) = tick k + word_of_int time"
  proof (cases "time > 0")
    case True
    then have "unat (word_of_int time :: u32) < half"
      using time by (simp add: ok_time_def half_def)
    from arm_thread_timer_spec [OF w2 s2 this] obtain k3 where k3: "arm_thread_timer t (word_of_int time) ?k2 = Some k3" "kernel_wf k3" "side ?k2 k3"
      "thr k3 = thr ?k2" "queues k3 = queues ?k2" "current k3 = current ?k2" "TThread t \<in> set (timer_list k3)"
      "deadline k3 (TThread t) = tick ?k2 + word_of_int time" by blast
    have "tick ?k2 = tick k" using side_fields(2) [OF sd2] .
    then show thesis using True k3 side_trans [OF sd2 k3(3)] by (intro that [of k3]) simp_all
  next
    case False
    then show thesis using w2 sd2 by (intro that [of ?k2]) simp_all
  qed
  have c3: "current k3 = Some t" using k3(6) k1(4) c by simp
  then obtain k' where k': "rt_schedule k3 = Some k'" "kernel_wf k'" "sched_step k3 k'"
    using rt_schedule_kernel [OF k3(2)] by auto
  note sd = sched_stepD [OF k'(3)] and ff = outer_fields [OF sched_stepD(1) [OF k'(3)]]
  have leave: "\<exists>r. current k' = Some r \<and> r \<noteq> t \<and> st k' r = RT_THREAD_RUNNING"
    if u: "st k u = RT_THREAD_READY" and l: "lock_nest k = 0" for u
  proof (rule rt_schedule_leaves [OF kernel_wfD(1) [OF k3(2)] c3 _ _ _ k'(1)])
    show "st k3 t \<noteq> RT_THREAD_RUNNING" using s2 k3(4) by simp
    show "lock_nest k3 = 0" using side_fields(3) [OF k3(3)] l by simp
    have "u \<noteq> t" using u c by auto
    then have "st k3 u = RT_THREAD_READY" using u k3(4) k1(6) by simp
    then have "QReady (prio k3 u) \<in> homes (queues k3) u"
      using sched_wfD(5) [OF kernel_wfD(1) [OF k3(2)], of u] by (simp add: place_wf_def)
    then have "queues k3 (QReady (prio k3 u)) \<noteq> []" by (auto simp: homes_def)
    then show "ready_group k3 \<noteq> 0" using sched_wfD(2) [OF kernel_wfD(1) [OF k3(2)]] by (auto simp: group_wf_def)
  qed
  show thesis
  proof (rule that [of k'])
    show "block_with q t f time k = Some k'" using k1(1) k3(1) k'(1) f [OF k1(6) kq] by (simp add: block_with_def)
    show "side k k'" by (rule side_trans [OF k3(3) sched_step_side [OF k'(3)]])
    show "st k' t = RT_THREAD_SUSPEND" unfolding sched_step_suspend [OF k'(3)] using s2 k3(4) by simp
    show "current k' \<noteq> None" using sd(6) c3 by simp
    show "\<forall>r. \<not> is_ready_q r \<longrightarrow> queues k' r = (if r = q then ys else queues k r)"
      using sd(2) k3(5) k1(7) q by (auto simp: is_ready_q_def)
    show "\<forall>u. but_stat (thr k' u) = but_stat (thr k u)" using sd(3) k3(4) k1(6) by simp
    show "\<forall>u. u \<noteq> t \<longrightarrow> (st k' u = RT_THREAD_SUSPEND) = (st k u = RT_THREAD_SUSPEND)"
      unfolding sched_step_suspend [OF k'(3)] using k3(4) k1(6) by simp
    have run: "runnable (st k' u) \<longleftrightarrow> runnable (st k3 u)" for u using sd(4,5) [of u] by metis
    show "\<forall>u. u \<noteq> t \<longrightarrow> runnable (st k' u) = runnable (st k u)" unfolding run using k3(4) k1(6) by simp
  qed (use k'(2) k3(7) ff leave in auto)
qed

lemma ipc_block_spec:
  assumes wf: "kernel_wf k" and c: "current k = Some t" "st k t = RT_THREAD_RUNNING"
    and q: "is_wait q" and f: "good_flag flag" and time: "ok_time time"
  obtains k' where "ipc_block q t flag time k = Some k'" "kernel_wf k'" "side k k'"
    "st k' t = RT_THREAD_SUSPEND" "current k' \<noteq> None"
    "\<forall>r. \<not> is_ready_q r \<longrightarrow> queues k' r =
       (if r = q then wait_insert flag (\<lambda>u. current_priority (thr k u)) t (queues k q) else queues k r)"
    "\<forall>u. but_stat (thr k' u) = but_stat (thr k u)"
    "\<forall>u. u \<noteq> t \<longrightarrow> (st k' u = RT_THREAD_SUSPEND) = (st k u = RT_THREAD_SUSPEND)"
    "time > 0 \<longrightarrow> TThread t \<in> set (timer_list k') \<and> deadline k' (TThread t) = tick k + word_of_int time"
    "(\<exists>u. st k u = RT_THREAD_READY) \<and> lock_nest k = 0 \<longrightarrow> (\<exists>r. current k' = Some r \<and> r \<noteq> t \<and> st k' r = RT_THREAD_RUNNING)"
    "\<forall>u. u \<noteq> t \<longrightarrow> runnable (st k' u) = runnable (st k u)"
proof -
  let ?f = "\<lambda>k. wait_insert flag (\<lambda>u. current_priority (thr k u)) t (queues k q)"
  have eq: "ipc_block q t flag time k = block_with q t ?f time k"
    by (cases "rt_thread_suspend t k") (auto simp: ipc_block_def block_with_def rt_ipc_list_suspend_def Let_def)
  have same: "?f k1 = ?f k" if "thr k1 = (thr k)(t := set_stat RT_THREAD_SUSPEND (thr k t))" "queues k1 q = queues k q" for k1
  proof -
    have "(\<lambda>u. current_priority (thr k1 u)) = (\<lambda>u. current_priority (thr k u))" by (auto simp: that(1))
    then show ?thesis using that(2) by simp
  qed
  show thesis
    by (rule block_with_spec [where f = ?f and ys = "?f k", OF wf c q time _ _ same])
      (auto simp: wait_insert_props [OF f] eq intro: that)
qed

lemma rt_ipc_list_resume_spec:
  assumes wf: "kernel_wf k" and q: "is_wait q" and l: "queues k q = t # ts"
  obtains k' where "rt_ipc_list_resume q k = Some k'" "kernel_wf k'" "side k k'" "current k' = current k"
    "timers k' = timers k"
    "thr k' = (thr k)(t := set_stat (if current k = Some t then RT_THREAD_RUNNING else RT_THREAD_READY) (thr k t))"
    "\<forall>r. \<not> is_ready_q r \<longrightarrow> queues k' r = (if r = q then ts else queues k r)" "st k t = RT_THREAD_SUSPEND"
proof -
  note sw = kernel_wfD(1) [OF wf]
  have hm: "homes (queues k) t = {q}" using homes_single [OF sched_wfD(1) [OF sw], of t q] l by simp
  then have s: "st k t = RT_THREAD_SUSPEND" using sched_wfD(5) [OF sw, of t] q by (simp add: place_wf_def)
  obtain k' where k': "rt_thread_resume t k = Some (RT_EOK, k')" "kernel_wf k'" "side k k'"
    "current k' = current k" "timers k' = timers k"
    "thr k' = (thr k)(t := set_stat (if current k = Some t then RT_THREAD_RUNNING else RT_THREAD_READY) (thr k t))"
    "\<forall>q. \<not> is_ready_q q \<longrightarrow> queues k' q = remove1 t (queues k q)"
    "\<forall>p. queues k' (QReady p) = queues k (QReady p) @ (if current k \<noteq> Some t \<and> p = prio k t then [t] else [])"
    using rt_thread_resume_spec [OF wf s] .
  have "remove1 t (queues k r) = (if r = q then ts else queues k r)" for r
  proof (cases "r = q")
    case False
    then have "t \<notin> set (queues k r)" using hm by (auto simp: homes_def)
    then show ?thesis using False by (simp add: remove1_idem)
  qed (simp add: l)
  then show thesis using k' l s by (intro that [of k']) (simp_all add: rt_ipc_list_resume_def)
qed

lemma ipc_wake_spec:
  assumes wf: "kernel_wf k" and c: "current k \<noteq> None" and q: "is_wait q" and l: "queues k q = t # ts"
  obtains k' where "ipc_wake q k = Some k'" "kernel_wf k'" "side k k'" "current k' \<noteq> None" "timers k' = timers k"
    "runnable (st k' t)" "\<forall>u. but_stat (thr k' u) = but_stat (thr k u)"
    "\<forall>u. u \<noteq> t \<longrightarrow> (st k' u = RT_THREAD_SUSPEND) = (st k u = RT_THREAD_SUSPEND)"
    "\<forall>u. u \<noteq> t \<longrightarrow> runnable (st k' u) = runnable (st k u)"
    "\<forall>r. \<not> is_ready_q r \<longrightarrow> queues k' r = (if r = q then ts else queues k r)" "st k t = RT_THREAD_SUSPEND"
proof -
  obtain k1 where k1: "rt_ipc_list_resume q k = Some k1" "kernel_wf k1" "side k k1" "current k1 = current k"
    "timers k1 = timers k"
    "thr k1 = (thr k)(t := set_stat (if current k = Some t then RT_THREAD_RUNNING else RT_THREAD_READY) (thr k t))"
    "\<forall>r. \<not> is_ready_q r \<longrightarrow> queues k1 r = (if r = q then ts else queues k r)" "st k t = RT_THREAD_SUSPEND"
    using rt_ipc_list_resume_spec [OF wf q l] .
  obtain k' where k': "rt_schedule k1 = Some k'" "kernel_wf k'" "sched_step k1 k'"
    using rt_schedule_kernel [OF k1(2)] k1(4) c by auto
  note sd = sched_stepD [OF k'(3)]
  have run: "runnable (st k' u) \<longleftrightarrow> runnable (st k1 u)" for u using sd(4,5) [of u] by metis
  show thesis
  proof (rule that [of k'])
    show "side k k'" by (rule side_trans [OF k1(3) sched_step_side [OF k'(3)]])
    show "current k' \<noteq> None" using sd(6) k1(4) c by simp
    show "runnable (st k' t)" unfolding run by (simp add: k1(6))
    show "\<forall>u. u \<noteq> t \<longrightarrow> (st k' u = RT_THREAD_SUSPEND) = (st k u = RT_THREAD_SUSPEND)"
      unfolding sched_step_suspend [OF k'(3)] by (simp add: k1(6))
    show "\<forall>u. u \<noteq> t \<longrightarrow> runnable (st k' u) = runnable (st k u)" unfolding run by (simp add: k1(6))
    show "\<forall>r. \<not> is_ready_q r \<longrightarrow> queues k' r = (if r = q then ts else queues k r)"
      using sd(2) k1(7) by (auto simp: is_ready_q_def)
  qed (use k1 k' sd(3) outer_fields(3) [OF sd(1)] in \<open>simp_all add: ipc_wake_def\<close>)
qed

text \<open>Resuming all waiters ends, and each of them finds the error \<open>-RT_ERROR\<close>.\<close>

lemma rt_ipc_list_resume_all_spec:
  assumes "is_wait q"
  shows "kernel_wf k \<Longrightarrow> \<exists>k'. rt_ipc_list_resume_all q k = Some k' \<and> kernel_wf k' \<and> side k k' \<and>
    current k' = current k \<and> timers k' = timers k \<and>
    (\<forall>u. u \<in> set (queues k q) \<longrightarrow> runnable (st k' u) \<and> terror (thr k' u) = - RT_ERROR) \<and>
    (\<forall>u. u \<notin> set (queues k q) \<longrightarrow> thr k' u = thr k u) \<and>
    (\<forall>r. \<not> is_ready_q r \<longrightarrow> queues k' r = (if r = q then [] else queues k r))"
proof (induction "queues k q" arbitrary: k)
  case Nil
  then have e: "queues k q = []" by simp
  then have "rt_ipc_list_resume_all q k = Some k" by (subst rt_ipc_list_resume_all.simps) simp
  then show ?case using Nil.prems e by auto
next
  case (Cons t ts)
  then have l: "queues k q = t # ts" and wf: "kernel_wf k" by simp_all
  let ?k1 = "upd_thr t (\<lambda>th. th\<lparr>terror := - RT_ERROR\<rparr>) k"
  have w1: "kernel_wf ?k1" by (rule kernel_wf_field_change [OF wf]) simp_all
  have l1: "queues ?k1 q = t # ts" using l by simp
  obtain k2 where k2: "rt_ipc_list_resume q ?k1 = Some k2" "kernel_wf k2" "side ?k1 k2" "current k2 = current ?k1"
    "timers k2 = timers ?k1"
    "thr k2 = (thr ?k1)(t := set_stat (if current ?k1 = Some t then RT_THREAD_RUNNING else RT_THREAD_READY) (thr ?k1 t))"
    "\<forall>r. \<not> is_ready_q r \<longrightarrow> queues k2 r = (if r = q then ts else queues ?k1 r)" "st ?k1 t = RT_THREAD_SUSPEND"
    using rt_ipc_list_resume_spec [OF w1 assms l1] .
  have step: "rt_ipc_list_resume_all q k = rt_ipc_list_resume_all q k2"
    using k2(1) l l1 by (subst rt_ipc_list_resume_all.simps) (auto simp: rt_ipc_list_resume_def split: bind_splits)
  have q2: "queues k2 q = ts" using k2(7) assms by simp
  have tn: "t \<notin> set ts" using sched_wfD(1) [OF kernel_wfD(1) [OF wf]] l unfolding queues_wf_def by (metis distinct.simps(2))
  obtain k' where k': "rt_ipc_list_resume_all q k2 = Some k'" "kernel_wf k'" "side k2 k'" "current k' = current k2"
    "timers k' = timers k2" "\<forall>u. u \<in> set ts \<longrightarrow> runnable (st k' u) \<and> terror (thr k' u) = - RT_ERROR"
    "\<forall>u. u \<notin> set ts \<longrightarrow> thr k' u = thr k2 u" "\<forall>r. \<not> is_ready_q r \<longrightarrow> queues k' r = (if r = q then [] else queues k2 r)"
    using Cons.hyps(1) [OF q2 [symmetric] k2(2)] unfolding q2 by blast
  have "side k ?k1" by (simp add: side_def rest_def)
  then have "side k k'" using k2(3) k'(3) side_trans by blast
  moreover have "thr k' t = thr k2 t" using k'(7) tn by simp
  then have "runnable (st k' t) \<and> terror (thr k' t) = - RT_ERROR" by (simp add: k2(6))
  then have "\<forall>u. u \<in> set (queues k q) \<longrightarrow> runnable (st k' u) \<and> terror (thr k' u) = - RT_ERROR" using l k'(6) by simp
  moreover have "\<forall>u. u \<notin> set (queues k q) \<longrightarrow> thr k' u = thr k u" using k'(7) l by (simp add: k2(6))
  moreover have "\<forall>r. \<not> is_ready_q r \<longrightarrow> queues k' r = (if r = q then [] else queues k r)" using k'(8) k2(7) by simp
  ultimately show ?case using step k'(1,2,4,5) k2(4,5) by simp
qed

section \<open>IPC objects and the kernel invariant\<close>

text \<open>The kernel invariant reads nothing of the IPC structures, nor of objects that are not threads or timers.\<close>

lemma kernel_wf_cong:
  assumes "queues k' = queues k" "ready_group k' = ready_group k" "thr k' = thr k" "current k' = current k"
    "timers k' = timers k" "timer_list k' = timer_list k" "soft_timer_list k' = soft_timer_list k" "tick k' = tick k"
    "lock_nest k' = lock_nest k" "\<And>t. objs k' (OThread t) = objs k (OThread t)" "\<And>t. objs k' (OTimer t) = objs k (OTimer t)"
  shows "kernel_wf k' = kernel_wf k"
proof -
  have "sched_wf k' = sched_wf k" by (rule sched_wf_cong) (use assms in auto)
  then show ?thesis using assms
    unfolding kernel_wf_def objs_wf_def thread_objs_def timers_wf_def rt_object_get_type_def rt_object_is_systemobject_def lock_ok_def
    by simp
qed

lemma kernel_wf_ipc_frame [simp]:
  "kernel_wf (k\<lparr>sems := a\<rparr>) = kernel_wf k" "kernel_wf (k\<lparr>mutexes := b\<rparr>) = kernel_wf k"
  "kernel_wf (k\<lparr>events := c\<rparr>) = kernel_wf k" "kernel_wf (k\<lparr>mailboxes := d\<rparr>) = kernel_wf k"
  "kernel_wf (k\<lparr>mqs := e\<rparr>) = kernel_wf k" "kernel_wf (k\<lparr>object_list := f\<rparr>) = kernel_wf k"
  "kernel_wf (k\<lparr>interrupt_nest := g\<rparr>) = kernel_wf k"
  by (rule kernel_wf_cong; simp)+

text \<open>References of IPC objects, and the class each belongs to.\<close>

fun ipc_class :: "objref \<Rightarrow> u8" where
  "ipc_class (OSem _) = RT_Object_Class_Semaphore"
| "ipc_class (OMutex _) = RT_Object_Class_Mutex"
| "ipc_class (OEvent _) = RT_Object_Class_Event"
| "ipc_class (OMb _) = RT_Object_Class_MailBox"
| "ipc_class (OMq _) = RT_Object_Class_MessageQueue"
| "ipc_class (OMp _) = RT_Object_Class_MemPool"
| "ipc_class _ = 0"

lemma ipc_class_container: "ipc_class r \<noteq> 0 \<Longrightarrow> ipc_class r \<in> set rt_object_container"
  by (cases r) (simp_all add: rt_object_container_def)

lemma ipc_class_nonzero [simp]:
  "ipc_class (OSem s) \<noteq> 0" "ipc_class (OMutex m) \<noteq> 0" "ipc_class (OEvent e) \<noteq> 0" "ipc_class (OMb b) \<noteq> 0"
  "ipc_class (OMq b) \<noteq> 0" "ipc_class (OMp p) \<noteq> 0"
  by (simp_all add: class_defs)

lemma kernel_wf_upd_obj:
  assumes "ipc_class r \<noteq> 0"
  shows "kernel_wf (k\<lparr>objs := (objs k)(r := ob)\<rparr>) = kernel_wf k"
  by (rule kernel_wf_cong) (use assms in \<open>auto\<close>)

lemma kernel_wf_registered:
  "ipc_class r \<noteq> 0 \<Longrightarrow> kernel_wf (registered r c name k) = kernel_wf k"
  by (rule kernel_wf_cong) (auto simp: registered_objs)

lemma kernel_wf_object_detach:
  "ipc_class r \<noteq> 0 \<Longrightarrow> kernel_wf (rt_object_detach r k) = kernel_wf k"
  by (simp add: rt_object_detach_def list_remove_object_def kernel_wf_upd_obj)

text \<open>Registering a fresh IPC object keeps the invariant.\<close>

lemma rt_ipc_register:
  assumes wf: "kernel_wf k" and r: "ipc_class r \<noteq> 0" "r \<notin> set (object_list k (ipc_class r))"
  obtains k' where "rt_object_init r (ipc_class r) name k = Some (registered r (ipc_class r) name k')"
    "kernel_wf k'" "sched_step k k'" "kernel_wf (registered r (ipc_class r) name k')"
proof -
  obtain k' where k': "rt_object_init r (ipc_class r) name k = Some (registered r (ipc_class r) name k')" "sched_wf k'" "sched_step k k'"
    by (rule rt_object_init_spec [OF kernel_wfD(1,4) [OF wf] ipc_class_container [OF r(1)] r(2)]) blast
  have "kernel_wf k'" by (rule kernel_wf_sched_step [OF wf k'(3,2)])
  then show thesis using k' kernel_wf_registered [OF r(1)] by (intro that [of k']) simp_all
qed

lemma rt_ipc_object_init_idle: "queues k q = [] \<Longrightarrow> rt_ipc_object_init q k = k"
  unfolding rt_ipc_object_init_def by (subst fun_upd_idem) simp_all

section \<open>Blocking calls\<close>

text \<open>The caller of a blocking call: the running thread, outside of interrupts.\<close>

definition caller :: "tid \<Rightarrow> kernel \<Rightarrow> bool" where
  "caller c k \<longleftrightarrow> kernel_wf k \<and> current k = Some c \<and> st k c = RT_THREAD_RUNNING \<and> interrupt_nest k = 0"

lemma callerD:
  "caller c k \<Longrightarrow> kernel_wf k" "caller c k \<Longrightarrow> current k = Some c" "caller c k \<Longrightarrow> st k c = RT_THREAD_RUNNING"
  "caller c k \<Longrightarrow> RT_DEBUG_IN_THREAD_CONTEXT k = Some ()" "caller c k \<Longrightarrow> rt_thread_self k = Some c"
  by (simp_all add: caller_def RT_DEBUG_IN_THREAD_CONTEXT_def RT_DEBUG_NOT_IN_INTERRUPT_def rt_interrupt_get_nest_def
      rt_thread_self_def)

lemma caller_frame [simp]:
  "caller c (k\<lparr>sems := a\<rparr>) = caller c k" "caller c (k\<lparr>mutexes := b\<rparr>) = caller c k" "caller c (k\<lparr>events := d\<rparr>) = caller c k"
  "caller c (k\<lparr>mailboxes := e\<rparr>) = caller c k" "caller c (k\<lparr>mqs := f\<rparr>) = caller c k"
  by (simp_all add: caller_def)

text \<open>Resetting the error number of the caller before it waits.\<close>

abbreviation no_error :: "tid \<Rightarrow> kernel \<Rightarrow> kernel" where
  "no_error t k \<equiv> upd_thr t (\<lambda>th. th\<lparr>terror := RT_EOK\<rparr>) k"

lemma no_error_caller: "caller c k \<Longrightarrow> caller c (no_error c k)"
  unfolding caller_def by (auto intro!: kernel_wf_field_change)

lemma no_error_side [simp]: "side k (no_error c k)"
  by (simp add: side_def rest_def)

text \<open>What a call that starts to wait does, whatever object it waits for.\<close>

lemma block_spec:
  assumes c: "caller c k" and q: "is_wait q" and f: "good_flag flag" and time: "ok_time time"
  obtains k' where "ipc_block q c flag time (no_error c k) = Some k'" "kernel_wf k'" "side k k'"
    "st k' c = RT_THREAD_SUSPEND" "terror (thr k' c) = RT_EOK"
    "\<forall>r. \<not> is_ready_q r \<longrightarrow> queues k' r =
       (if r = q then wait_insert flag (\<lambda>u. current_priority (thr k u)) c (queues k q) else queues k r)"
    "\<forall>u. u \<noteq> c \<longrightarrow> but_stat (thr k' u) = but_stat (thr k u)"
    "time > 0 \<longrightarrow> TThread c \<in> set (timer_list k') \<and> deadline k' (TThread c) = tick k + word_of_int time"
    "(\<exists>u. st k u = RT_THREAD_READY) \<and> lock_nest k = 0 \<longrightarrow> (\<exists>r. current k' = Some r \<and> r \<noteq> c \<and> st k' r = RT_THREAD_RUNNING)"
    "current k' \<noteq> None" "current_priority (thr k' c) = current_priority (thr k c)"
    "\<forall>u. u \<noteq> c \<longrightarrow> runnable (st k' u) = runnable (st k u)"
    "\<forall>u. u \<noteq> c \<longrightarrow> (st k' u = RT_THREAD_SUSPEND) = (st k u = RT_THREAD_SUSPEND)"
proof -
  let ?y = "no_error c k"
  note c1 = callerD [OF no_error_caller [OF c]]
  obtain k' where k': "ipc_block q c flag time ?y = Some k'" "kernel_wf k'" "side ?y k'"
    "st k' c = RT_THREAD_SUSPEND" "current k' \<noteq> None"
    "\<forall>r. \<not> is_ready_q r \<longrightarrow> queues k' r =
       (if r = q then wait_insert flag (\<lambda>u. current_priority (thr ?y u)) c (queues ?y q) else queues ?y r)"
    "\<forall>u. but_stat (thr k' u) = but_stat (thr ?y u)"
    "\<forall>u. u \<noteq> c \<longrightarrow> (st k' u = RT_THREAD_SUSPEND) = (st ?y u = RT_THREAD_SUSPEND)"
    "time > 0 \<longrightarrow> TThread c \<in> set (timer_list k') \<and> deadline k' (TThread c) = tick ?y + word_of_int time"
    "(\<exists>u. st ?y u = RT_THREAD_READY) \<and> lock_nest ?y = 0 \<longrightarrow> (\<exists>r. current k' = Some r \<and> r \<noteq> c \<and> st k' r = RT_THREAD_RUNNING)"
    "\<forall>u. u \<noteq> c \<longrightarrow> runnable (st k' u) = runnable (st ?y u)"
    using ipc_block_spec [OF c1(1,2,3) q f time] .
  have pr: "(\<lambda>u. current_priority (thr ?y u)) = (\<lambda>u. current_priority (thr k u))" by auto
  show thesis
  proof (rule that [of k'])
    show "side k k'" using no_error_side k'(3) by (rule side_trans)
    show "terror (thr k' c) = RT_EOK" using but_stat_fields(2) [OF spec [OF k'(7), of c]] by simp
    show "current_priority (thr k' c) = current_priority (thr k c)" using but_stat_fields(1) [OF spec [OF k'(7), of c]] by simp
    show "\<forall>r. \<not> is_ready_q r \<longrightarrow> queues k' r =
       (if r = q then wait_insert flag (\<lambda>u. current_priority (thr k u)) c (queues k q) else queues k r)"
      using k'(6) unfolding pr by simp
    show "\<forall>u. u \<noteq> c \<longrightarrow> but_stat (thr k' u) = but_stat (thr k u)" using k'(7) by simp
    show "(\<exists>u. st k u = RT_THREAD_READY) \<and> lock_nest k = 0 \<longrightarrow> (\<exists>r. current k' = Some r \<and> r \<noteq> c \<and> st k' r = RT_THREAD_RUNNING)"
    proof (intro impI k'(10) [rule_format])
      assume "(\<exists>u. st k u = RT_THREAD_READY) \<and> lock_nest k = 0"
      then show "(\<exists>u. st ?y u = RT_THREAD_READY) \<and> lock_nest ?y = 0" by (auto split: if_splits)
    qed
  qed (use k' in simp_all)
qed

end
