(* ===== verification/Semaphore.thy ===== *)
theory Semaphore
  imports Ipc
begin

text \<open>
  Counting semaphores of \<^verbatim>\<open>rt-thread/src/ipc.c\<close>: the operations as the source has them, their effect on a
  well-formed kernel, and the proof that they implement the interface \<open>counting_semaphore\<close>.
\<close>

section \<open>Operations\<close>

abbreviation upd_sem :: "oid \<Rightarrow> u16 \<Rightarrow> kernel \<Rightarrow> kernel" where
  "upd_sem s v k \<equiv> k\<lparr>sems := (sems k)(s := (sems k s)\<lparr>sem_value := v\<rparr>)\<rparr>"

definition rt_sem_init :: "oid \<Rightarrow> string \<Rightarrow> u32 \<Rightarrow> u8 \<Rightarrow> kernel \<Rightarrow> (rt_err_t \<times> kernel) option" where
  "rt_sem_init s name v flag k = do {
     rt_assert (v < 0x10000);
     k \<leftarrow> rt_object_init (OSem s) RT_Object_Class_Semaphore name k;
     let k = rt_ipc_object_init (QSem s) k;
     let k = upd_sem s (ucast v) k;
     Some (RT_EOK, upd_obj (OSem s) (\<lambda>ob. ob\<lparr>oflag := flag\<rparr>) k) }"

definition rt_sem_detach :: "oid \<Rightarrow> kernel \<Rightarrow> (rt_err_t \<times> kernel) option" where
  "rt_sem_detach s k = do {
     rt_assert (rt_object_get_type (OSem s) k = RT_Object_Class_Semaphore);
     rt_assert (rt_object_is_systemobject (OSem s) k);
     k \<leftarrow> rt_ipc_list_resume_all (QSem s) k;
     Some (RT_EOK, rt_object_detach (OSem s) k) }"

text \<open>\<open>mem\<close> is the block the allocator returns, if any.\<close>

definition rt_sem_create :: "oid option \<Rightarrow> string \<Rightarrow> u32 \<Rightarrow> u8 \<Rightarrow> kernel \<Rightarrow> (oid option \<times> kernel) option" where
  "rt_sem_create mem name v flag k = do {
     RT_DEBUG_NOT_IN_INTERRUPT k;
     rt_assert (v < 0x10000);
     (r, k) \<leftarrow> rt_object_allocate (map_option OSem mem) RT_Object_Class_Semaphore name k;
     case mem of
       None \<Rightarrow> Some (None, k)
     | Some s \<Rightarrow>
         let k = rt_ipc_object_init (QSem s) k;
             k = upd_sem s (ucast v) k
         in Some (Some s, upd_obj (OSem s) (\<lambda>ob. ob\<lparr>oflag := flag\<rparr>) k) }"

definition rt_sem_delete :: "oid \<Rightarrow> kernel \<Rightarrow> (rt_err_t \<times> kernel) option" where
  "rt_sem_delete s k = do {
     RT_DEBUG_NOT_IN_INTERRUPT k;
     rt_assert (rt_object_get_type (OSem s) k = RT_Object_Class_Semaphore);
     rt_assert (\<not> rt_object_is_systemobject (OSem s) k);
     k \<leftarrow> rt_ipc_list_resume_all (QSem s) k;
     k \<leftarrow> rt_object_delete (OSem s) k;
     Some (RT_EOK, k) }"

definition rt_sem_take :: "oid \<Rightarrow> int \<Rightarrow> kernel \<Rightarrow> (ipc_result \<times> kernel) option" where
  "rt_sem_take s time k = do {
     rt_assert (rt_object_get_type (OSem s) k = RT_Object_Class_Semaphore);
     if sem_value (sems k s) > 0 then Some (Return RT_EOK, upd_sem s (sem_value (sems k s) - 1) k)
     else if time = 0 then Some (Return (- RT_ETIMEOUT), k)
     else do {
       RT_DEBUG_IN_THREAD_CONTEXT k;
       t \<leftarrow> rt_thread_self k;
       let k = upd_thr t (\<lambda>th. th\<lparr>terror := RT_EOK\<rparr>) k;
       k \<leftarrow> ipc_block (QSem s) t (oflag (objs k (OSem s))) time k;
       Some (Blocked, k) } }"

text \<open>The rest of a take that had to wait, when its thread runs again.\<close>

definition rt_sem_take_return :: "tid \<Rightarrow> kernel \<Rightarrow> rt_err_t" where
  "rt_sem_take_return t k = (if terror (thr k t) \<noteq> RT_EOK then terror (thr k t) else RT_EOK)"

definition rt_sem_trytake :: "oid \<Rightarrow> kernel \<Rightarrow> (ipc_result \<times> kernel) option" where
  "rt_sem_trytake s k = rt_sem_take s 0 k"

definition rt_sem_release :: "oid \<Rightarrow> kernel \<Rightarrow> (rt_err_t \<times> kernel) option" where
  "rt_sem_release s k = do {
     rt_assert (rt_object_get_type (OSem s) k = RT_Object_Class_Semaphore);
     if queues k (QSem s) \<noteq> [] then do { k \<leftarrow> ipc_wake (QSem s) k; Some (RT_EOK, k) }
     else Some (RT_EOK, upd_sem s (sem_value (sems k s) + 1) k) }"

definition rt_sem_control :: "oid \<Rightarrow> ipc_cmd \<Rightarrow> kernel \<Rightarrow> (rt_err_t \<times> kernel) option" where
  "rt_sem_control s cmd k = do {
     rt_assert (rt_object_get_type (OSem s) k = RT_Object_Class_Semaphore);
     case cmd of
       RT_IPC_CMD_RESET v \<Rightarrow> do {
         k \<leftarrow> rt_ipc_list_resume_all (QSem s) k;
         k \<leftarrow> rt_schedule (upd_sem s (ucast v) k);
         Some (RT_EOK, k) }
     | RT_IPC_CMD_other \<Rightarrow> Some (- RT_ERROR, k) }"

section \<open>Effect on a well-formed kernel\<close>

definition sem_ok :: "oid \<Rightarrow> kernel \<Rightarrow> bool" where
  "sem_ok s k \<longleftrightarrow> rt_object_get_type (OSem s) k = RT_Object_Class_Semaphore \<and> good_flag (oflag (objs k (OSem s))) \<and>
     (queues k (QSem s) \<noteq> [] \<longrightarrow> sem_value (sems k s) = 0)"

lemma sem_ok_side:
  assumes "side k k'"
  shows "sem_ok s k' \<longleftrightarrow> rt_object_get_type (OSem s) k = RT_Object_Class_Semaphore \<and> good_flag (oflag (objs k (OSem s))) \<and>
     (queues k' (QSem s) \<noteq> [] \<longrightarrow> sem_value (sems k s) = 0)"
  using side_fields(5) [OF assms] side_fields(10,11) [OF assms, of "OSem s"] by (simp add: sem_ok_def)

lemma rt_sem_take_now:
  assumes "sem_ok s k" "sem_value (sems k s) > 0"
  shows "rt_sem_take s time k = Some (Return RT_EOK, upd_sem s (sem_value (sems k s) - 1) k)"
    "sem_ok s (upd_sem s (sem_value (sems k s) - 1) k)"
  using assms by (auto simp: rt_sem_take_def sem_ok_def rt_object_get_type_def)

lemma rt_sem_take_refused:
  assumes "sem_ok s k" "sem_value (sems k s) = 0"
  shows "rt_sem_take s 0 k = Some (Return (- RT_ETIMEOUT), k)"
  using assms by (simp add: rt_sem_take_def sem_ok_def)

lemma rt_sem_take_blocks:
  assumes c: "caller c k" and s: "sem_ok s k" "sem_value (sems k s) = 0" and time: "time \<noteq> 0" "ok_time time"
  obtains k' where "rt_sem_take s time k = Some (Blocked, k')" "kernel_wf k'" "side k k'" "sem_ok s k'"
    "st k' c = RT_THREAD_SUSPEND" "terror (thr k' c) = RT_EOK"
    "queues k' (QSem s) = wait_insert (oflag (objs k (OSem s))) (\<lambda>u. current_priority (thr k u)) c (queues k (QSem s))"
    "time > 0 \<longrightarrow> TThread c \<in> set (timer_list k') \<and> deadline k' (TThread c) = tick k + word_of_int time"
    "(\<exists>u. st k u = RT_THREAD_READY) \<and> lock_nest k = 0 \<longrightarrow> (\<exists>r. current k' = Some r \<and> r \<noteq> c \<and> st k' r = RT_THREAD_RUNNING)"
proof -
  let ?f = "oflag (objs k (OSem s))"
  have f: "good_flag ?f" using s(1) by (simp add: sem_ok_def)
  have q: "is_wait (QSem s)" by simp
  obtain k' where k': "ipc_block (QSem s) c ?f time (no_error c k) = Some k'" "kernel_wf k'" "side k k'"
    "st k' c = RT_THREAD_SUSPEND" "terror (thr k' c) = RT_EOK"
    "\<forall>r. \<not> is_ready_q r \<longrightarrow> queues k' r =
       (if r = QSem s then wait_insert ?f (\<lambda>u. current_priority (thr k u)) c (queues k (QSem s)) else queues k r)"
    "\<forall>u. u \<noteq> c \<longrightarrow> but_stat (thr k' u) = but_stat (thr k u)"
    "time > 0 \<longrightarrow> TThread c \<in> set (timer_list k') \<and> deadline k' (TThread c) = tick k + word_of_int time"
    "(\<exists>u. st k u = RT_THREAD_READY) \<and> lock_nest k = 0 \<longrightarrow> (\<exists>r. current k' = Some r \<and> r \<noteq> c \<and> st k' r = RT_THREAD_RUNNING)"
    "current k' \<noteq> None" "current_priority (thr k' c) = current_priority (thr k c)"
    "\<forall>u. u \<noteq> c \<longrightarrow> runnable (st k' u) = runnable (st k u)"
    "\<forall>u. u \<noteq> c \<longrightarrow> (st k' u = RT_THREAD_SUSPEND) = (st k u = RT_THREAD_SUSPEND)"
    using block_spec [OF c q f time(2)] .
  have "rt_sem_take s time k = Some (Blocked, k')"
    using s time(1) k'(1) callerD(4,5) [OF c] by (simp add: rt_sem_take_def sem_ok_def)
  moreover have "sem_ok s k'" unfolding sem_ok_side [OF k'(3)] using s by (simp add: sem_ok_def)
  ultimately show thesis using k' by (intro that [of k']) simp_all
qed

lemma rt_sem_release_wakes:
  assumes wf: "kernel_wf k" and c: "current k \<noteq> None" and s: "sem_ok s k" and q: "queues k (QSem s) = t # ts"
  obtains k' where "rt_sem_release s k = Some (RT_EOK, k')" "kernel_wf k'" "side k k'" "sem_ok s k'" "current k' \<noteq> None"
    "timers k' = timers k" "runnable (st k' t)" "\<forall>u. but_stat (thr k' u) = but_stat (thr k u)" "queues k' (QSem s) = ts"
    "\<forall>u. u \<noteq> t \<longrightarrow> (st k' u = RT_THREAD_SUSPEND) = (st k u = RT_THREAD_SUSPEND)"
proof -
  have w: "is_wait (QSem s)" by simp
  obtain k' where k': "ipc_wake (QSem s) k = Some k'" "kernel_wf k'" "side k k'" "current k' \<noteq> None" "timers k' = timers k"
    "runnable (st k' t)" "\<forall>u. but_stat (thr k' u) = but_stat (thr k u)"
    "\<forall>u. u \<noteq> t \<longrightarrow> (st k' u = RT_THREAD_SUSPEND) = (st k u = RT_THREAD_SUSPEND)"
    "\<forall>u. u \<noteq> t \<longrightarrow> runnable (st k' u) = runnable (st k u)"
    "\<forall>r. \<not> is_ready_q r \<longrightarrow> queues k' r = (if r = QSem s then ts else queues k r)" "st k t = RT_THREAD_SUSPEND"
    using ipc_wake_spec [OF wf c w q] .
  have "sem_ok s k'" unfolding sem_ok_side [OF k'(3)] using s q by (simp add: sem_ok_def)
  moreover have "rt_sem_release s k = Some (RT_EOK, k')" using s q k'(1) by (simp add: rt_sem_release_def sem_ok_def)
  ultimately show thesis using k' by (intro that [of k']) simp_all
qed

lemma rt_sem_release_free:
  assumes "sem_ok s k" "queues k (QSem s) = []"
  shows "rt_sem_release s k = Some (RT_EOK, upd_sem s (sem_value (sems k s) + 1) k)"
    "sem_ok s (upd_sem s (sem_value (sems k s) + 1) k)"
  using assms by (auto simp: rt_sem_release_def sem_ok_def rt_object_get_type_def)

section \<open>The interface\<close>

text \<open>
  Steps of a kernel that concern one semaphore: takes by the running thread, releases by threads or interrupt
  handlers, a waiter whose timer fired, and whatever else happens that touches neither the semaphore nor its list.
\<close>

inductive sem_step :: "oid \<Rightarrow> kernel \<Rightarrow> sem_label \<Rightarrow> kernel \<Rightarrow> bool" for s where
  take_now: "caller c k \<Longrightarrow> rt_sem_take s time k = Some (Return RT_EOK, k') \<Longrightarrow> sem_step s k Took k'"
| take_fail: "caller c k \<Longrightarrow> rt_sem_take s time k = Some (Return (- RT_ETIMEOUT), k') \<Longrightarrow> sem_step s k Other k'"
| take_wait: "caller c k \<Longrightarrow> ok_time time \<Longrightarrow> rt_sem_take s time k = Some (Blocked, k') \<Longrightarrow> sem_step s k Waits k'"
| release: "current k \<noteq> None \<Longrightarrow> rt_sem_release s k = Some (e, k') \<Longrightarrow> sem_step s k Released k'"
| timeout: "t \<in> set (queues k (QSem s)) \<Longrightarrow> TThread t \<notin> set (timer_list k) \<union> set (soft_timer_list k) \<Longrightarrow>
    current k \<noteq> None \<Longrightarrow> rt_thread_timeout t k = Some k' \<Longrightarrow> sem_step s k Gave_up k'"
| environment: "kernel_wf k' \<Longrightarrow> sems k' s = sems k s \<Longrightarrow> objs k' (OSem s) = objs k (OSem s) \<Longrightarrow>
    queues k' (QSem s) = queues k (QSem s) \<Longrightarrow> sem_step s k Other k'"

abbreviation sem_inv :: "oid \<Rightarrow> kernel \<Rightarrow> bool" where
  "sem_inv s k \<equiv> kernel_wf k \<and> sem_ok s k"

abbreviation sem_count :: "oid \<Rightarrow> kernel \<Rightarrow> nat" where
  "sem_count s k \<equiv> unat (sem_value (sems k s))"

lemma sem_take_cases:
  assumes "sem_ok s k" "rt_sem_take s time k = Some (r, k')"
  shows "r = Return RT_EOK \<and> sem_value (sems k s) > 0 \<or> r = Return (- RT_ETIMEOUT) \<and> sem_value (sems k s) = 0 \<and> time = 0 \<or>
    r = Blocked \<and> sem_value (sems k s) = 0 \<and> time \<noteq> 0"
  using assms by (auto simp: rt_sem_take_def word_gt_0 split: if_splits bind_splits)

lemma sem_step_spec:
  assumes "sem_step s k l k'" and inv: "sem_inv s k"
  shows "sem_inv s k' \<and> (case l of
      Took \<Rightarrow> sem_value (sems k s) \<noteq> 0 \<and> sem_value (sems k' s) = sem_value (sems k s) - 1 \<and> queues k' (QSem s) = queues k (QSem s)
    | Waits \<Rightarrow> sem_value (sems k s) = 0 \<and> sem_value (sems k' s) = 0 \<and> length (queues k' (QSem s)) = Suc (length (queues k (QSem s)))
    | Released \<Rightarrow> (if queues k (QSem s) = [] then sem_value (sems k' s) = sem_value (sems k s) + 1 \<and> queues k' (QSem s) = []
        else sem_value (sems k' s) = sem_value (sems k s) \<and> queues k' (QSem s) = tl (queues k (QSem s)))
    | Gave_up \<Rightarrow> sem_value (sems k' s) = sem_value (sems k s) \<and> Suc (length (queues k' (QSem s))) = length (queues k (QSem s))
    | Other \<Rightarrow> sem_value (sems k' s) = sem_value (sems k s) \<and> queues k' (QSem s) = queues k (QSem s))"
  using assms(1)
proof (cases rule: sem_step.cases)
  case (take_now c time)
  then have "sem_value (sems k s) > 0" using sem_take_cases inv by (fastforce simp: rt_err_defs)
  then show ?thesis using rt_sem_take_now(1) [of s k time] rt_sem_take_now(2) [of s k] take_now inv by auto
next
  case (take_fail c time)
  then have "sem_value (sems k s) = 0" "time = 0" using sem_take_cases inv by (fastforce simp: rt_err_defs)+
  then show ?thesis using rt_sem_take_refused [of s k] take_fail inv by auto
next
  case (take_wait c time)
  then have z: "sem_value (sems k s) = 0" "time \<noteq> 0" using sem_take_cases inv by fastforce+
  have so: "sem_ok s k" using inv by simp
  obtain k2 where k2: "rt_sem_take s time k = Some (Blocked, k2)" "kernel_wf k2" "side k k2" "sem_ok s k2"
    "queues k2 (QSem s) = wait_insert (oflag (objs k (OSem s))) (\<lambda>u. current_priority (thr k u)) c (queues k (QSem s))"
    by (rule rt_sem_take_blocks [OF take_wait(2) so z take_wait(3)]) blast
  have g: "good_flag (oflag (objs k (OSem s)))" using so by (simp add: sem_ok_def)
  show ?thesis using k2 take_wait(1,4) z side_fields(5) [OF k2(3)] length_wait_insert [OF g] by simp
next
  case (release e)
  show ?thesis
  proof (cases "queues k (QSem s)")
    case Nil
    then show ?thesis using rt_sem_release_free [of s k] release inv by auto
  next
    case (Cons t ts)
    have wf: "kernel_wf k" and so: "sem_ok s k" using inv by simp_all
    obtain k2 where k2: "rt_sem_release s k = Some (RT_EOK, k2)" "kernel_wf k2" "side k k2" "sem_ok s k2" "queues k2 (QSem s) = ts"
      by (rule rt_sem_release_wakes [OF wf release(2) so Cons]) blast
    then show ?thesis using release Cons side_fields(5) [OF k2(3)] by simp
  qed
next
  case (timeout t)
  have wf: "kernel_wf k" and so: "sem_ok s k" using inv by simp_all
  have s: "st k t = RT_THREAD_SUSPEND" by (rule waiter_suspended [OF wf _ timeout(2)]) simp
  obtain k2 where k2: "rt_thread_timeout t k = Some k2" "kernel_wf k2" "side k k2"
    "\<forall>q. \<not> is_ready_q q \<longrightarrow> queues k2 q = remove1 t (queues k q)"
    by (rule rt_thread_timeout_spec [OF wf s timeout(4,3)]) blast
  have q2: "queues k2 (QSem s) = remove1 t (queues k (QSem s))" using k2(4) by simp
  have "sem_ok s k2" unfolding sem_ok_side [OF k2(3)] using so timeout(2) by (auto simp: sem_ok_def)
  then show ?thesis using k2 timeout q2 side_fields(5) [OF k2(3)] length_remove1_Suc [OF timeout(2)] by simp
next
  case environment
  then show ?thesis using inv by (simp add: sem_ok_def rt_object_get_type_def)
qed

interpretation sem: counting_semaphore "sem_step s" "sem_inv s" "sem_count s" "\<lambda>k. queues k (QSem s)" "2 ^ 16" for s
proof (unfold_locales, goal_cases)
  case (1 k l k') then show ?case using sem_step_spec by blast
next
  case (2 k k')
  then have "sem_value (sems k s) \<noteq> 0" "sem_value (sems k' s) = sem_value (sems k s) - 1" "queues k' (QSem s) = queues k (QSem s)"
    using sem_step_spec [OF 2(2,1)] by simp_all
  then show ?case by (simp add: unat_minus_one unat_gt_0)
next
  case (3 k k') then show ?case using sem_step_spec [OF 3(2,1)] by simp
next
  case (4 k k')
  have "sem_value (sems k' s) = sem_value (sems k s) + 1 \<Longrightarrow> sem_count s k' = Suc (sem_count s k)"
    using 4(3) unat_add_fit [of "sem_value (sems k s)" 1] by simp
  then show ?case using sem_step_spec [OF 4(2,1)] by (auto split: if_splits)
next
  case (5 k k') then show ?case using sem_step_spec [OF 5(2,1)] by simp
next
  case (6 k k') then show ?case using sem_step_spec [OF 6(2,1)] by simp
next
  case (7 k) then show ?case by (simp add: sem_ok_def)
qed

section \<open>A sample semaphore\<close>

definition sample_sem :: "u16 \<Rightarrow> kernel" where
  "sample_sem v = upd_sem 3 v (upd_obj (OSem 3) (\<lambda>_. \<lparr>oname = ''sem'', otype = 0x82, oflag = 0\<rparr>) sample)"

lemma sample_caller: "caller 5 sample"
  using sample_wf by (simp add: caller_def three_def RT_THREAD_RUNNING_def)

lemma sample_sem_caller: "caller 5 (sample_sem v)"
  using sample_caller by (simp add: caller_def sample_sem_def kernel_wf_upd_obj del: ipc_class.simps)

lemma sample_sem_ok: "sem_ok 3 (sample_sem v)"
  by (simp add: sem_ok_def sample_sem_def rt_object_get_type_def class_defs good_flag_def RT_IPC_FLAG_FIFO_def three_def boot_def)

lemma sample_sem_simps [simp]:
  "sem_value (sems (sample_sem v) 3) = v" "queues (sample_sem v) (QSem 3) = []" "current (sample_sem v) = Some 5"
  "oflag (objs (sample_sem v) (OSem 3)) = 0" "lock_nest (sample_sem v) = 0" "thr (sample_sem v) = thr sample" "tick (sample_sem v) = 0"
  by (simp_all add: sample_sem_def three_def boot_def)

lemma sample_ready: "\<exists>u. st (sample_sem v) u = RT_THREAD_READY"
  by (rule exI [of _ 6]) (simp add: three_def RT_THREAD_READY_def)

section \<open>Properties\<close>



text \<open>
  C14: every outcome of \<open>rt_sem_take\<close>. With tokens it takes one and returns \<open>RT_EOK\<close>; without a token and
  with time 0 it returns \<open>-RT_ETIMEOUT\<close> and changes nothing; otherwise it suspends the caller in the wait list (at the
  back, or by priority), arms its timer exactly when the time is positive, and another ready thread runs.
\<close>

theorem sem_take_outcome:
  assumes c: "caller c k" and s: "sem_ok s k" and time: "ok_time time"
  shows "\<exists>r k'. rt_sem_take s time k = Some (r, k') \<and> kernel_wf k' \<and> sem_ok s k' \<and>
    (if sem_value (sems k s) > 0 then r = Return RT_EOK \<and> sem_value (sems k' s) = sem_value (sems k s) - 1 \<and> thr k' = thr k
     else if time = 0 then r = Return (- RT_ETIMEOUT) \<and> k' = k
     else r = Blocked \<and> st k' c = RT_THREAD_SUSPEND \<and>
       queues k' (QSem s) = wait_insert (oflag (objs k (OSem s))) (\<lambda>u. current_priority (thr k u)) c (queues k (QSem s)) \<and>
       (time > 0 \<longrightarrow> TThread c \<in> set (timer_list k') \<and> deadline k' (TThread c) = tick k + word_of_int time) \<and>
       ((\<exists>u. st k u = RT_THREAD_READY) \<and> lock_nest k = 0 \<longrightarrow> (\<exists>r. current k' = Some r \<and> r \<noteq> c \<and> st k' r = RT_THREAD_RUNNING)))"
proof -
  consider "sem_value (sems k s) > 0" | "sem_value (sems k s) = 0" "time = 0" | "sem_value (sems k s) = 0" "time \<noteq> 0"
    by (metis word_gt_0)
  then show ?thesis
  proof cases
    case 1 then show ?thesis using rt_sem_take_now(1) [OF s, of time] rt_sem_take_now(2) [OF s] callerD(1) [OF c] by simp
  next
    case 2 then show ?thesis using rt_sem_take_refused [OF s] callerD(1) [OF c] s by simp
  next
    case 3
    show ?thesis by (rule rt_sem_take_blocks [OF c s 3 time]) (use 3 in auto)
  qed
qed

theorem sem_take_outcome_witness:
  "\<exists>k'. rt_sem_take 3 20 (sample_sem 0) = Some (Blocked, k') \<and> queues k' (QSem 3) = [5] \<and>
     deadline k' (TThread 5) = 20 \<and> (\<exists>r. current k' = Some r \<and> r \<noteq> 5)"
proof -
  have "ok_time 20" by (simp add: ok_time_def half_def)
  from sem_take_outcome [OF sample_sem_caller sample_sem_ok this, of 0] sample_ready [of 0] show ?thesis
    by (auto simp: wait_insert_def RT_IPC_FLAG_FIFO_def)
qed



text \<open>
  The counter is 16 bits wide and not saturating. With no waiters \<open>rt_sem_release\<close> adds one modulo 65536; at
  the value 65535 the release returns \<open>RT_EOK\<close> and leaves a semaphore without any token.
\<close>

theorem sem_release_counts_mod:
  assumes "sem_ok s k" "queues k (QSem s) = []"
  shows "\<exists>k'. rt_sem_release s k = Some (RT_EOK, k') \<and> sem_ok s k' \<and>
    unat (sem_value (sems k' s)) = (unat (sem_value (sems k s)) + 1) mod 65536"
  using rt_sem_release_free [OF assms] by (simp add: unat_word_ariths)

theorem sem_release_counts_mod_witness:
  "\<exists>k'. rt_sem_release 3 (sample_sem 65535) = Some (RT_EOK, k') \<and> sem_value (sems k' 3) = 0"
  using sem_release_counts_mod [OF sample_sem_ok, of 65535] by (auto simp: unat_eq_zero)

end
