(* ===== verification/Mutex.thy ===== *)
theory Mutex
  imports Semaphore
begin

text \<open>
  Mutexes of \<^verbatim>\<open>rt-thread/src/ipc.c\<close>: recursive, owned by a thread, with priority inheritance through
  \<open>rt_thread_control\<close>. A null pointer owner that the code would read is \<open>None\<close>.
\<close>

section \<open>Operations\<close>

abbreviation upd_mutex :: "oid \<Rightarrow> (rt_mutex \<Rightarrow> rt_mutex) \<Rightarrow> kernel \<Rightarrow> kernel" where
  "upd_mutex m f k \<equiv> k\<lparr>mutexes := (mutexes k)(m := f (mutexes k m))\<rparr>"

definition fresh_mutex :: rt_mutex where
  "fresh_mutex = \<lparr>mutex_value = 1, original_priority = 0xFF, hold = 0, owner = None\<rparr>"

definition rt_mutex_init :: "oid \<Rightarrow> string \<Rightarrow> u8 \<Rightarrow> kernel \<Rightarrow> (rt_err_t \<times> kernel) option" where
  "rt_mutex_init m name flag k = do {
     k \<leftarrow> rt_object_init (OMutex m) RT_Object_Class_Mutex name k;
     let k = rt_ipc_object_init (QMutex m) k;
     let k = upd_mutex m (\<lambda>_. fresh_mutex) k;
     Some (RT_EOK, upd_obj (OMutex m) (\<lambda>ob. ob\<lparr>oflag := flag\<rparr>) k) }"

definition rt_mutex_detach :: "oid \<Rightarrow> kernel \<Rightarrow> (rt_err_t \<times> kernel) option" where
  "rt_mutex_detach m k = do {
     rt_assert (rt_object_get_type (OMutex m) k = RT_Object_Class_Mutex);
     rt_assert (rt_object_is_systemobject (OMutex m) k);
     k \<leftarrow> rt_ipc_list_resume_all (QMutex m) k;
     Some (RT_EOK, rt_object_detach (OMutex m) k) }"

definition rt_mutex_create :: "oid option \<Rightarrow> string \<Rightarrow> u8 \<Rightarrow> kernel \<Rightarrow> (oid option \<times> kernel) option" where
  "rt_mutex_create mem name flag k = do {
     RT_DEBUG_NOT_IN_INTERRUPT k;
     (r, k) \<leftarrow> rt_object_allocate (map_option OMutex mem) RT_Object_Class_Mutex name k;
     case mem of
       None \<Rightarrow> Some (None, k)
     | Some m \<Rightarrow>
         let k = rt_ipc_object_init (QMutex m) k;
             k = upd_mutex m (\<lambda>_. fresh_mutex) k
         in Some (Some m, upd_obj (OMutex m) (\<lambda>ob. ob\<lparr>oflag := flag\<rparr>) k) }"

definition rt_mutex_delete :: "oid \<Rightarrow> kernel \<Rightarrow> (rt_err_t \<times> kernel) option" where
  "rt_mutex_delete m k = do {
     RT_DEBUG_NOT_IN_INTERRUPT k;
     rt_assert (rt_object_get_type (OMutex m) k = RT_Object_Class_Mutex);
     rt_assert (\<not> rt_object_is_systemobject (OMutex m) k);
     k \<leftarrow> rt_ipc_list_resume_all (QMutex m) k;
     k \<leftarrow> rt_object_delete (OMutex m) k;
     Some (RT_EOK, k) }"

text \<open>Priority inheritance: the owner gets the priority of the caller when that is higher.\<close>

definition inherit_priority :: "oid \<Rightarrow> tid \<Rightarrow> kernel \<Rightarrow> kernel option" where
  "inherit_priority m t k = do {
     ow \<leftarrow> owner (mutexes k m);
     if current_priority (thr k t) < current_priority (thr k ow) then do {
       (_, k) \<leftarrow> rt_thread_control ow (RT_THREAD_CTRL_CHANGE_PRIORITY (current_priority (thr k t))) k;
       Some k }
     else Some k }"

text \<open>The part of \<open>rt_mutex_take\<close> from the label \<^verbatim>\<open>__again\<close>.\<close>

definition mutex_acquire :: "oid \<Rightarrow> tid \<Rightarrow> int \<Rightarrow> kernel \<Rightarrow> (ipc_result \<times> kernel) option" where
  "mutex_acquire m t time k =
     (if mutex_value (mutexes k m) > 0 then
        Some (Return RT_EOK, upd_mutex m (\<lambda>mx. mx\<lparr>mutex_value := mutex_value mx - 1, owner := Some t,
          original_priority := current_priority (thr k t), hold := hold mx + 1\<rparr>) k)
      else if time = 0 then
        Some (Return (- RT_ETIMEOUT), upd_thr t (\<lambda>th. th\<lparr>terror := - RT_ETIMEOUT\<rparr>) k)
      else do {
        k \<leftarrow> inherit_priority m t k;
        k \<leftarrow> ipc_block (QMutex m) t (oflag (objs k (OMutex m))) time k;
        Some (Blocked, k) })"

definition rt_mutex_take :: "oid \<Rightarrow> int \<Rightarrow> kernel \<Rightarrow> (ipc_result \<times> kernel) option" where
  "rt_mutex_take m time k = do {
     RT_DEBUG_IN_THREAD_CONTEXT k;
     rt_assert (rt_object_get_type (OMutex m) k = RT_Object_Class_Mutex);
     t \<leftarrow> rt_thread_self k;
     let k = upd_thr t (\<lambda>th. th\<lparr>terror := RT_EOK\<rparr>) k;
     if owner (mutexes k m) = Some t then Some (Return RT_EOK, upd_mutex m (\<lambda>mx. mx\<lparr>hold := hold mx + 1\<rparr>) k)
     else mutex_acquire m t time k }"

text \<open>The rest of a take that had to wait; a signal makes it try again.\<close>

definition rt_mutex_take_return :: "oid \<Rightarrow> tid \<Rightarrow> int \<Rightarrow> kernel \<Rightarrow> (ipc_result \<times> kernel) option" where
  "rt_mutex_take_return m t time k =
     (if terror (thr k t) \<noteq> RT_EOK then
        if terror (thr k t) = - RT_EINTR then mutex_acquire m t time k
        else Some (Return (terror (thr k t)), k)
      else Some (Return RT_EOK, k))"

text \<open>The end of the outermost hold: hand over to the first waiter, or free the mutex.\<close>

definition mutex_pass_on :: "oid \<Rightarrow> kernel \<Rightarrow> kernel option" where
  "mutex_pass_on m k =
     (case queues k (QMutex m) of
        w # _ \<Rightarrow>
          ipc_wake (QMutex m) (upd_mutex m (\<lambda>mx. mx\<lparr>owner := Some w, original_priority := current_priority (thr k w),
            hold := hold mx + 1\<rparr>) k)
      | [] \<Rightarrow> Some (upd_mutex m (\<lambda>mx. mx\<lparr>mutex_value := mutex_value mx + 1, owner := None, original_priority := 0xff\<rparr>) k))"

definition restore_priority :: "oid \<Rightarrow> tid \<Rightarrow> kernel \<Rightarrow> kernel option" where
  "restore_priority m t k =
     (if original_priority (mutexes k m) \<noteq> current_priority (thr k t) then do {
        (_, k) \<leftarrow> rt_thread_control t (RT_THREAD_CTRL_CHANGE_PRIORITY (original_priority (mutexes k m))) k;
        Some k }
      else Some k)"

definition rt_mutex_release :: "oid \<Rightarrow> kernel \<Rightarrow> (rt_err_t \<times> kernel) option" where
  "rt_mutex_release m k = do {
     rt_assert (rt_object_get_type (OMutex m) k = RT_Object_Class_Mutex);
     RT_DEBUG_IN_THREAD_CONTEXT k;
     t \<leftarrow> rt_thread_self k;
     if owner (mutexes k m) \<noteq> Some t then Some (- RT_ERROR, upd_thr t (\<lambda>th. th\<lparr>terror := - RT_ERROR\<rparr>) k)
     else do {
       let k = upd_mutex m (\<lambda>mx. mx\<lparr>hold := hold mx - 1\<rparr>) k;
       if hold (mutexes k m) = 0 then do {
         k \<leftarrow> restore_priority m t k;
         k \<leftarrow> mutex_pass_on m k;
         Some (RT_EOK, k) }
       else Some (RT_EOK, k) } }"

definition rt_mutex_control :: "oid \<Rightarrow> ipc_cmd \<Rightarrow> kernel \<Rightarrow> rt_err_t option" where
  "rt_mutex_control m cmd k = do {
     rt_assert (rt_object_get_type (OMutex m) k = RT_Object_Class_Mutex);
     Some (- RT_ERROR) }"

section \<open>Changing the priority of a live thread\<close>

definition at_priority :: "u8 \<Rightarrow> rt_thread \<Rightarrow> rt_thread" where
  "at_priority p th = th\<lparr>current_priority := p, number_mask := 2 ^ unat p\<rparr>"

lemma at_priority_fields [simp]:
  "stat_of (at_priority p th) = stat_of th" "current_priority (at_priority p th) = p"
  "terror (at_priority p th) = terror th" "stack_ok (at_priority p th) = stack_ok th"
  "unat p < 32 \<Longrightarrow> prio_wf (at_priority p th)" "set_stat s (at_priority p th) = at_priority p (set_stat s th)"
  by (simp_all add: at_priority_def prio_wf_def stack_ok_def rt_scheduler_stack_check_def set_stat_def stat_of_def)

lemma sched_wf_at_priority:
  assumes wf: "sched_wf k" and l: "live (st k t)" "st k t \<noteq> RT_THREAD_READY" and p: "unat p < 32"
  shows "sched_wf (k\<lparr>thr := (thr k)(t := at_priority p (thr k t))\<rparr>)"
proof (rule sched_wf_change [OF wf])
  let ?k = "k\<lparr>thr := (thr k)(t := at_priority p (thr k t))\<rparr>"
  show "group_wf ?k" using sched_wfD(2) [OF wf] by (simp add: group_wf_def)
  show "thr_wf ?k t" using sched_wfD(4,5) [OF wf, of t] l p by (simp add: thr_wf_def thread_wf_def place_wf_def)
qed (use sched_wfD(1) [OF wf] in simp_all)

lemma change_ready_priority:
  assumes wf: "sched_wf k" and r: "st k t = RT_THREAD_READY" and p: "unat p < 32"
  obtains g where
    "(do { k \<leftarrow> rt_schedule_remove_thread t k; k \<leftarrow> change_priority p t k; rt_schedule_insert_thread t k }) =
      Some (k\<lparr>thr := (thr k)(t := at_priority p (thr k t)), queues := q_append (QReady (unat p)) t (q_remove t (queues k)), ready_group := g\<rparr>)"
    "sched_wf (k\<lparr>thr := (thr k)(t := at_priority p (thr k t)), queues := q_append (QReady (unat p)) t (q_remove t (queues k)), ready_group := g\<rparr>)"
proof -
  have pw: "prio_wf (thr k t)" and so: "stack_ok (thr k t)" using sched_wfD(4) [OF wf, of t] r by (simp_all add: thread_wf_def)
  have h: "\<And>p. QReady p \<in> homes (queues k) t \<Longrightarrow> p = prio k t" using sched_wfD(5) [OF wf, of t] by (simp add: place_wf_def)
  have nc: "current k \<noteq> Some t" using sched_wfD(5) [OF wf, of t] r by (auto simp: place_wf_def)
  obtain g1 where g1: "rt_schedule_remove_thread t k = Some (k\<lparr>queues := q_remove t (queues k), ready_group := g1\<rparr>)"
    "group_wf (k\<lparr>queues := q_remove t (queues k), ready_group := g1\<rparr>)"
    using remove_thread_spec [OF sched_wfD(1,2) [OF wf] pw h] .
  let ?k2 = "k\<lparr>thr := (thr k)(t := at_priority p (thr k t)), queues := q_remove t (queues k), ready_group := g1\<rparr>"
  have cp: "change_priority p t (k\<lparr>queues := q_remove t (queues k), ready_group := g1\<rparr>) = Some ?k2"
    using p by (simp add: change_priority_def at_priority_def RT_THREAD_PRIORITY_MAX_def word_less_nat_alt)
  have "group_wf ?k2" "prio_wf (thr ?k2 t)" "current ?k2 \<noteq> Some t" using g1(2) p nc by (simp_all add: group_wf_def)
  from insert_thread_spec [OF this] obtain g where g:
    "rt_schedule_insert_thread t ?k2 = Some (k\<lparr>thr := (thr k)(t := at_priority p (thr k t)), queues := q_append (QReady (unat p)) t (q_remove t (queues k)), ready_group := g\<rparr>)"
    "group_wf (k\<lparr>thr := (thr k)(t := at_priority p (thr k t)), queues := q_append (QReady (unat p)) t (q_remove t (queues k)), ready_group := g\<rparr>)"
    using set_stat_same [OF r] by auto
  let ?k = "k\<lparr>thr := (thr k)(t := at_priority p (thr k t)), queues := q_append (QReady (unat p)) t (q_remove t (queues k)), ready_group := g\<rparr>"
  have "sched_wf ?k"
  proof (rule sched_wf_change [OF wf _ g(2)])
    show "thr_wf ?k t" using sched_wfD(1) [OF wf] p so r nc by (auto simp: thr_wf_def thread_wf_def place_wf_def)
  qed (use sched_wfD(1) [OF wf] in simp_all)
  then show thesis using g1(1) cp g(1) by (intro that [of g]) simp_all
qed

lemma change_priority_spec:
  assumes wf: "kernel_wf k" and l: "live (st k t)" and p: "unat p < 32"
  obtains k' where "rt_thread_control t (RT_THREAD_CTRL_CHANGE_PRIORITY p) k = Some (RT_EOK, k')" "kernel_wf k'" "side k k'"
    "current k' = current k" "timers k' = timers k" "objs k' = objs k" "timer_list k' = timer_list k"
    "thr k' = (thr k)(t := at_priority p (thr k t))" "\<forall>q. \<not> is_ready_q q \<longrightarrow> queues k' q = queues k q"
proof -
  note sw = kernel_wfD(1) [OF wf]
  have ty: "rt_object_get_type (OThread t) k = RT_Object_Class_Thread" using kernel_wfD(2) [OF wf l] by (simp add: thread_objs_def)
  have ok: "kernel_wf k'" if s: "sched_wf k'" "outer k' = outer k" "thr k' = (thr k)(t := at_priority p (thr k t))" for k'
  proof -
    note f = outer_fields [OF s(2)]
    have "objs_wf k'" by (rule objs_wf_cong [OF kernel_wfD(5) [OF wf]]) (use f s(3) in \<open>auto split: if_splits\<close>)
    moreover have "timers_wf k'" by (rule timers_wf_cong [OF kernel_wfD(3) [OF wf]]) (use f s(3) in auto)
    ultimately show ?thesis using s(1) f kernel_wfD(4) [OF wf] by (simp add: kernel_wf_def lock_ok_def)
  qed
  show thesis
  proof (cases "st k t = RT_THREAD_READY")
    case True
    obtain g where g: "(do { k \<leftarrow> rt_schedule_remove_thread t k; k \<leftarrow> change_priority p t k; rt_schedule_insert_thread t k }) =
      Some (k\<lparr>thr := (thr k)(t := at_priority p (thr k t)), queues := q_append (QReady (unat p)) t (q_remove t (queues k)), ready_group := g\<rparr>)"
      "sched_wf (k\<lparr>thr := (thr k)(t := at_priority p (thr k t)), queues := q_append (QReady (unat p)) t (q_remove t (queues k)), ready_group := g\<rparr>)"
      using change_ready_priority [OF sw True p] .
    let ?k = "k\<lparr>thr := (thr k)(t := at_priority p (thr k t)), queues := q_append (QReady (unat p)) t (q_remove t (queues k)), ready_group := g\<rparr>"
    have o: "outer ?k = outer k" by (simp add: outer_def)
    have "rt_thread_control t (RT_THREAD_CTRL_CHANGE_PRIORITY p) k = Some (RT_EOK, ?k)"
      using ty True g(1) by (auto simp: rt_thread_control_def split: bind_splits)
    moreover have "\<forall>q. \<not> is_ready_q q \<longrightarrow> queues ?k q = queues k q"
      using runnable_queues [OF sw, of t] True by (auto simp: q_append_def is_ready_q_def)
    ultimately show thesis using ok [OF g(2) o] side_outer [OF o] by (intro that [of ?k]) simp_all
  next
    case False
    let ?k = "k\<lparr>thr := (thr k)(t := at_priority p (thr k t))\<rparr>"
    have o: "outer ?k = outer k" by (simp add: outer_def)
    have "rt_thread_control t (RT_THREAD_CTRL_CHANGE_PRIORITY p) k = Some (RT_EOK, ?k)"
      using ty False p by (simp add: rt_thread_control_def change_priority_def at_priority_def RT_THREAD_PRIORITY_MAX_def word_less_nat_alt)
    then show thesis using ok [OF sched_wf_at_priority [OF sw l False p] o] side_outer [OF o] by (intro that [of ?k]) simp_all
  qed
qed

section \<open>Effect on a well-formed kernel\<close>

text \<open>
  A free mutex has value 1, hold 0 and no waiters; an owned one has value 0, a hold count, an owner that is
  alive and does not wait for it, and a priority to go back to.
\<close>

definition mutex_ok :: "oid \<Rightarrow> kernel \<Rightarrow> bool" where
  "mutex_ok m k \<longleftrightarrow> rt_object_get_type (OMutex m) k = RT_Object_Class_Mutex \<and> good_flag (oflag (objs k (OMutex m))) \<and>
     (case owner (mutexes k m) of
        None \<Rightarrow> mutex_value (mutexes k m) = 1 \<and> hold (mutexes k m) = 0 \<and> queues k (QMutex m) = []
      | Some ow \<Rightarrow> mutex_value (mutexes k m) = 0 \<and> hold (mutexes k m) \<noteq> 0 \<and> live (st k ow) \<and>
          ow \<notin> set (queues k (QMutex m)) \<and> unat (original_priority (mutexes k m)) < 32)"

lemma at_priority_same: "prio_wf th \<Longrightarrow> at_priority (current_priority th) th = th"
  by (simp add: at_priority_def prio_wf_def)

lemma caller_prio: "caller c k \<Longrightarrow> prio_wf (thr k c)"
  using sched_wfD(4) [OF kernel_wfD(1), of k c] by (simp add: caller_def thread_wf_def)

lemma prio_insert_cong: "(\<And>s. s \<in> insert t (set ts) \<Longrightarrow> pr s = pr' s) \<Longrightarrow> prio_insert pr t ts = prio_insert pr' t ts"
  by (induction ts) auto

lemma wait_insert_cong: "(\<And>s. s \<in> insert t (set ts) \<Longrightarrow> pr s = pr' s) \<Longrightarrow> wait_insert f pr t ts = wait_insert f pr' t ts"
  using prio_insert_cong [of t ts pr pr'] by (simp add: wait_insert_def)

text \<open>The caller against the mutex: it owns it, it is free, or someone else has it.\<close>

lemma rt_mutex_take_nested:
  assumes c: "caller c k" and m: "mutex_ok m k" and o: "owner (mutexes k m) = Some c"
  shows "rt_mutex_take m time k = Some (Return RT_EOK, upd_mutex m (\<lambda>mx. mx\<lparr>hold := hold mx + 1\<rparr>) (no_error c k))"
  using callerD(4,5) [OF c] m o by (simp add: rt_mutex_take_def mutex_ok_def)

definition taken :: "tid \<Rightarrow> u8 \<Rightarrow> rt_mutex \<Rightarrow> rt_mutex" where
  "taken c p mx = mx\<lparr>mutex_value := 0, owner := Some c, original_priority := p, hold := 1\<rparr>"

lemma rt_mutex_take_free:
  assumes c: "caller c k" and m: "mutex_ok m k" and o: "owner (mutexes k m) = None"
  shows "rt_mutex_take m time k = Some (Return RT_EOK, upd_mutex m (taken c (current_priority (thr k c))) (no_error c k))"
    and "mutex_ok m (upd_mutex m (taken c (current_priority (thr k c))) (no_error c k))"
proof -
  show "rt_mutex_take m time k = Some (Return RT_EOK, upd_mutex m (taken c (current_priority (thr k c))) (no_error c k))"
    using callerD(4,5) [OF c] m o by (simp add: rt_mutex_take_def mutex_acquire_def mutex_ok_def taken_def)
  show "mutex_ok m (upd_mutex m (taken c (current_priority (thr k c))) (no_error c k))"
    using m o caller_prio [OF c] callerD(3) [OF c] by (simp add: mutex_ok_def rt_object_get_type_def prio_wf_def taken_def)
qed

lemma rt_mutex_take_refused:
  assumes c: "caller c k" and m: "mutex_ok m k" and o: "owner (mutexes k m) = Some ow" "ow \<noteq> c"
  shows "rt_mutex_take m 0 k = Some (Return (- RT_ETIMEOUT), upd_thr c (\<lambda>th. th\<lparr>terror := - RT_ETIMEOUT\<rparr>) k)"
  using callerD(4,5) [OF c] m o by (simp add: rt_mutex_take_def mutex_acquire_def mutex_ok_def)

lemma inherit_spec:
  assumes c: "caller c k" and o: "owner (mutexes k m) = Some ow" "live (st k ow)"
  obtains k' where "inherit_priority m c k = Some k'" "kernel_wf k'" "side k k'" "current k' = current k"
    "thr k' = (thr k)(ow := at_priority (min (current_priority (thr k c)) (current_priority (thr k ow))) (thr k ow))"
    "\<forall>q. \<not> is_ready_q q \<longrightarrow> queues k' q = queues k q"
proof -
  let ?pc = "current_priority (thr k c)"
  note wf = callerD(1) [OF c]
  show thesis
  proof (cases "?pc < current_priority (thr k ow)")
    case True
    have p: "unat ?pc < 32" using caller_prio [OF c] by (simp add: prio_wf_def)
    obtain k' where k': "rt_thread_control ow (RT_THREAD_CTRL_CHANGE_PRIORITY ?pc) k = Some (RT_EOK, k')" "kernel_wf k'" "side k k'"
      "current k' = current k" "timers k' = timers k" "objs k' = objs k" "timer_list k' = timer_list k"
      "thr k' = (thr k)(ow := at_priority ?pc (thr k ow))" "\<forall>q. \<not> is_ready_q q \<longrightarrow> queues k' q = queues k q"
      using change_priority_spec [OF wf o(2) p] .
    have "min ?pc (current_priority (thr k ow)) = ?pc" using True by (simp add: min_def less_imp_le)
    then show thesis using k' o(1) True by (intro that [of k']) (simp_all add: inherit_priority_def)
  next
    case False
    then have m: "min ?pc (current_priority (thr k ow)) = current_priority (thr k ow)" by (simp add: min_def)
    have "prio_wf (thr k ow)" using sched_wfD(4) [OF kernel_wfD(1) [OF wf], of ow] o(2) by (simp add: thread_wf_def)
    then have "at_priority (min ?pc (current_priority (thr k ow))) (thr k ow) = thr k ow" unfolding m by (rule at_priority_same)
    then show thesis using False wf o(1) by (intro that [of k]) (simp_all add: inherit_priority_def)
  qed
qed

lemma mutex_ok_side:
  assumes s: "side k k'" and m: "mutex_ok m k" and l: "\<And>ow. owner (mutexes k m) = Some ow \<Longrightarrow> live (st k' ow) \<and> ow \<notin> set (queues k' (QMutex m))"
    and q: "owner (mutexes k m) = None \<Longrightarrow> queues k' (QMutex m) = []"
  shows "mutex_ok m k'"
  using side_fields(6) [OF s] side_fields(10,11) [OF s, of "OMutex m"] m l q by (auto simp: mutex_ok_def split: option.splits)

lemma rt_mutex_take_blocks:
  assumes c: "caller c k" and m: "mutex_ok m k" and o: "owner (mutexes k m) = Some ow" "ow \<noteq> c" and time: "time \<noteq> 0" "ok_time time"
  obtains k' where "rt_mutex_take m time k = Some (Blocked, k')" "kernel_wf k'" "side k k'" "mutex_ok m k'"
    "st k' c = RT_THREAD_SUSPEND" "terror (thr k' c) = RT_EOK"
    "queues k' (QMutex m) = wait_insert (oflag (objs k (OMutex m))) (\<lambda>u. current_priority (thr k u)) c (queues k (QMutex m))"
    "current_priority (thr k' ow) = min (current_priority (thr k c)) (current_priority (thr k ow))"
    "\<forall>u. u \<noteq> ow \<longrightarrow> current_priority (thr k' u) = current_priority (thr k u)"
    "time > 0 \<longrightarrow> TThread c \<in> set (timer_list k') \<and> deadline k' (TThread c) = tick k + word_of_int time"
    "current k' \<noteq> None"
proof -
  let ?y = "no_error c k" and ?f = "oflag (objs k (OMutex m))"
  note c1 = no_error_caller [OF c]
  have mo: "live (st k ow)" "ow \<notin> set (queues k (QMutex m))" "good_flag ?f" using m o by (simp_all add: mutex_ok_def)
  have o1: "owner (mutexes ?y m) = Some ow" "live (st ?y ow)" using o mo by simp_all
  obtain k1 where k1: "inherit_priority m c ?y = Some k1" "kernel_wf k1" "side ?y k1" "current k1 = current ?y"
    "thr k1 = (thr ?y)(ow := at_priority (min (current_priority (thr ?y c)) (current_priority (thr ?y ow))) (thr ?y ow))"
    "\<forall>q. \<not> is_ready_q q \<longrightarrow> queues k1 q = queues ?y q"
    using inherit_spec [OF c1 o1] .
  have s1: "side k k1" using no_error_side k1(3) by (rule side_trans)
  have cc: "current k1 = Some c" "st k1 c = RT_THREAD_RUNNING" using k1(4,5) callerD(2,3) [OF c] o(2) by simp_all
  have q: "is_wait (QMutex m)" by simp
  obtain k' where k': "ipc_block (QMutex m) c ?f time k1 = Some k'" "kernel_wf k'" "side k1 k'"
    "st k' c = RT_THREAD_SUSPEND" "current k' \<noteq> None"
    "\<forall>r. \<not> is_ready_q r \<longrightarrow> queues k' r =
       (if r = QMutex m then wait_insert ?f (\<lambda>u. current_priority (thr k1 u)) c (queues k1 (QMutex m)) else queues k1 r)"
    "\<forall>u. but_stat (thr k' u) = but_stat (thr k1 u)"
    "\<forall>u. u \<noteq> c \<longrightarrow> (st k' u = RT_THREAD_SUSPEND) = (st k1 u = RT_THREAD_SUSPEND)"
    "time > 0 \<longrightarrow> TThread c \<in> set (timer_list k') \<and> deadline k' (TThread c) = tick k1 + word_of_int time"
    "(\<exists>u. st k1 u = RT_THREAD_READY) \<and> lock_nest k1 = 0 \<longrightarrow> (\<exists>r. current k' = Some r \<and> r \<noteq> c \<and> st k' r = RT_THREAD_RUNNING)"
    "\<forall>u. u \<noteq> c \<longrightarrow> runnable (st k' u) = runnable (st k1 u)"
    using ipc_block_spec [OF k1(2) cc q mo(3) time(2)] .
  have s2: "side k k'" using s1 k'(3) by (rule side_trans)
  have wi: "queues k' (QMutex m) = wait_insert ?f (\<lambda>u. current_priority (thr k u)) c (queues k (QMutex m))"
    using k'(6) k1(6) by simp (rule wait_insert_cong, use k1(5) mo(2) o(2) in auto)
  have qs: "set (queues k' (QMutex m)) = insert c (set (queues k (QMutex m)))" unfolding wi by (rule wait_insert_props [OF mo(3)])
  have lv: "live (st k' ow)" using mo(1) k'(8,11) o(2) unfolding live_runnable by (simp add: k1(5))
  have pr: "current_priority (thr k' u) = current_priority (thr k1 u)" for u using but_stat_fields(1) [OF spec [OF k'(7)]] .
  show thesis
  proof (rule that [of k'])
    show "rt_mutex_take m time k = Some (Blocked, k')"
      using callerD(4,5) [OF c] m o time(1) k1(1) k'(1) side_fields(10) [OF s1, of "OMutex m"]
      by (simp add: rt_mutex_take_def mutex_acquire_def mutex_ok_def)
    show "mutex_ok m k'" by (rule mutex_ok_side [OF s2 m]) (use o lv qs mo in auto)
    show "terror (thr k' c) = RT_EOK" using but_stat_fields(2) [OF spec [OF k'(7), of c]] o(2) by (simp add: k1(5))
    show "current_priority (thr k' ow) = min (current_priority (thr k c)) (current_priority (thr k ow))"
      unfolding pr using o(2) by (simp add: k1(5))
    show "\<forall>u. u \<noteq> ow \<longrightarrow> current_priority (thr k' u) = current_priority (thr k u)" unfolding pr by (simp add: k1(5))
  qed (use k' s2 wi side_fields(2) [OF s1] in simp_all)
qed

lemma restore_spec:
  assumes wf: "kernel_wf k" and l: "live (st k c)" and p: "unat (original_priority (mutexes k m)) < 32"
  obtains k' where "restore_priority m c k = Some k'" "kernel_wf k'" "side k k'" "current k' = current k"
    "thr k' = (thr k)(c := at_priority (original_priority (mutexes k m)) (thr k c))"
    "\<forall>q. \<not> is_ready_q q \<longrightarrow> queues k' q = queues k q"
proof (cases "original_priority (mutexes k m) = current_priority (thr k c)")
  case True
  have "prio_wf (thr k c)" using sched_wfD(4) [OF kernel_wfD(1) [OF wf], of c] l by (simp add: thread_wf_def)
  then have "at_priority (original_priority (mutexes k m)) (thr k c) = thr k c" unfolding True by (rule at_priority_same)
  then show thesis using True wf by (intro that [of k]) (simp_all add: restore_priority_def)
next
  case False
  obtain k' where k': "rt_thread_control c (RT_THREAD_CTRL_CHANGE_PRIORITY (original_priority (mutexes k m))) k = Some (RT_EOK, k')"
    "kernel_wf k'" "side k k'" "current k' = current k" "timers k' = timers k" "objs k' = objs k" "timer_list k' = timer_list k"
    "thr k' = (thr k)(c := at_priority (original_priority (mutexes k m)) (thr k c))" "\<forall>q. \<not> is_ready_q q \<longrightarrow> queues k' q = queues k q"
    using change_priority_spec [OF wf l p] .
  then show thesis using False by (intro that [of k']) (simp_all add: restore_priority_def)
qed

lemma rt_mutex_release_foreign:
  assumes c: "caller c k" and m: "mutex_ok m k" and o: "owner (mutexes k m) \<noteq> Some c"
  shows "rt_mutex_release m k = Some (- RT_ERROR, upd_thr c (\<lambda>th. th\<lparr>terror := - RT_ERROR\<rparr>) k)"
  using callerD(4,5) [OF c] m o by (simp add: rt_mutex_release_def mutex_ok_def)

lemma rt_mutex_release_nested:
  assumes c: "caller c k" and m: "mutex_ok m k" and o: "owner (mutexes k m) = Some c" and h: "hold (mutexes k m) \<noteq> 1"
  shows "rt_mutex_release m k = Some (RT_EOK, upd_mutex m (\<lambda>mx. mx\<lparr>hold := hold mx - 1\<rparr>) k)"
    "mutex_ok m (upd_mutex m (\<lambda>mx. mx\<lparr>hold := hold mx - 1\<rparr>) k)"
  using callerD(4,5) [OF c] m o h by (simp_all add: rt_mutex_release_def mutex_ok_def rt_object_get_type_def)

text \<open>The last release: the priority goes back and the first waiter, if there is one, becomes the owner.\<close>

lemma rt_mutex_release_last:
  assumes c: "caller c k" and m: "mutex_ok m k" and o: "owner (mutexes k m) = Some c" and h: "hold (mutexes k m) = 1"
  obtains k' where "rt_mutex_release m k = Some (RT_EOK, k')" "kernel_wf k'" "mutex_ok m k'" "current k' \<noteq> None"
    "current_priority (thr k' c) = original_priority (mutexes k m)"
    "\<forall>u. u \<noteq> c \<longrightarrow> current_priority (thr k' u) = current_priority (thr k u)"
    "\<forall>u. terror (thr k' u) = terror (thr k u)"
    "case queues k (QMutex m) of
       [] \<Rightarrow> owner (mutexes k' m) = None
     | w # ws \<Rightarrow> owner (mutexes k' m) = Some w \<and> hold (mutexes k' m) = 1 \<and> queues k' (QMutex m) = ws \<and> runnable (st k' w)"
proof -
  let ?k0 = "upd_mutex m (\<lambda>mx. mx\<lparr>hold := hold mx - 1\<rparr>) k"
  have wf: "kernel_wf ?k0" and lv: "live (st ?k0 c)" and op: "unat (original_priority (mutexes ?k0 m)) < 32"
    using callerD(1,3) [OF c] m o by (simp_all add: mutex_ok_def)
  obtain k1 where k1: "restore_priority m c ?k0 = Some k1" "kernel_wf k1" "side ?k0 k1" "current k1 = current ?k0"
    "thr k1 = (thr ?k0)(c := at_priority (original_priority (mutexes ?k0 m)) (thr ?k0 c))"
    "\<forall>q. \<not> is_ready_q q \<longrightarrow> queues k1 q = queues ?k0 q"
    using restore_spec [OF wf lv op] .
  note f1 = side_fields(6) [OF k1(3)] side_fields(10,11) [OF k1(3), of "OMutex m"]
  have rel: "rt_mutex_release m k = map_option (Pair RT_EOK) (mutex_pass_on m k1)"
    using callerD(4,5) [OF c] m o h k1(1) by (cases "mutex_pass_on m k1") (simp_all add: rt_mutex_release_def mutex_ok_def)
  have ty: "rt_object_get_type (OMutex m) k1 = RT_Object_Class_Mutex" "good_flag (oflag (objs k1 (OMutex m)))"
    using f1 m by (simp_all add: mutex_ok_def rt_object_get_type_def)
  have q1: "queues k1 (QMutex m) = queues k (QMutex m)" using k1(6) by simp
  show thesis
  proof (cases "queues k (QMutex m)")
    case Nil
    let ?k = "upd_mutex m (\<lambda>mx. mx\<lparr>mutex_value := mutex_value mx + 1, owner := None, original_priority := 0xff\<rparr>) k1"
    have "mutex_ok m ?k" using ty q1 Nil f1 m o h by (simp add: mutex_ok_def rt_object_get_type_def)
    then show thesis using rel q1 Nil k1(2,4,5) callerD(2) [OF c] f1
      by (intro that [of ?k]) (simp_all add: mutex_pass_on_def)
  next
    case (Cons w ws)
    let ?k2 = "upd_mutex m (\<lambda>mx. mx\<lparr>owner := Some w, original_priority := current_priority (thr k1 w), hold := hold mx + 1\<rparr>) k1"
    have w2: "kernel_wf ?k2" and c2: "current ?k2 \<noteq> None" and q2: "queues ?k2 (QMutex m) = w # ws" and q: "is_wait (QMutex m)"
      using k1(2,4) callerD(2) [OF c] q1 Cons by simp_all
    obtain k' where k': "ipc_wake (QMutex m) ?k2 = Some k'" "kernel_wf k'" "side ?k2 k'" "current k' \<noteq> None" "timers k' = timers ?k2"
      "runnable (st k' w)" "\<forall>u. but_stat (thr k' u) = but_stat (thr ?k2 u)"
      "\<forall>u. u \<noteq> w \<longrightarrow> (st k' u = RT_THREAD_SUSPEND) = (st ?k2 u = RT_THREAD_SUSPEND)"
      "\<forall>u. u \<noteq> w \<longrightarrow> runnable (st k' u) = runnable (st ?k2 u)"
      "\<forall>r. \<not> is_ready_q r \<longrightarrow> queues k' r = (if r = QMutex m then ws else queues ?k2 r)" "st ?k2 w = RT_THREAD_SUSPEND"
      using ipc_wake_spec [OF w2 c2 q q2] .
    note f' = side_fields(6) [OF k'(3)] side_fields(10,11) [OF k'(3), of "OMutex m"]
    have wn: "w \<notin> set ws" using sched_wfD(1) [OF kernel_wfD(1) [OF w2]] q2 unfolding queues_wf_def by (metis distinct.simps(2))
    have pw: "unat (current_priority (thr k1 w)) < 32"
      using sched_wfD(4) [OF kernel_wfD(1) [OF w2], of w] k'(11) by (simp add: thread_wf_def prio_wf_def)
    have wc: "w \<noteq> c" using m o Cons by (auto simp: mutex_ok_def)
    have q': "queues k' (QMutex m) = ws" using k'(10) by simp
    have "mutex_ok m k'" using ty f' f1 wn pw q' k'(6) m o h by (simp add: mutex_ok_def rt_object_get_type_def live_runnable)
    moreover have "current_priority (thr k' u) = current_priority (thr k1 u)" "terror (thr k' u) = terror (thr k1 u)" for u
      using but_stat_fields(1,2) [OF spec [OF k'(7), of u]] by simp_all
    ultimately show thesis using rel q1 Cons k' f' f1 h wc q'
      by (intro that [of k']) (simp_all add: mutex_pass_on_def k1(5))
  qed
qed

section \<open>The interface\<close>

text \<open>The abstract lock that a mutex implements: its owner and how often it holds the mutex.\<close>

definition mutex_holder :: "oid \<Rightarrow> kernel \<Rightarrow> (tid \<times> nat) option" where
  "mutex_holder m k = map_option (\<lambda>t. (t, unat (hold (mutexes k m)))) (owner (mutexes k m))"

text \<open>
  A waiter that is handed the mutex by a release enters at that moment. The environment may do anything that keeps
  the kernel well-formed, leaves the mutex alone and keeps its owner alive; waiters may give up.
\<close>

inductive mutex_step :: "oid \<Rightarrow> kernel \<Rightarrow> tid lock_label \<Rightarrow> kernel \<Rightarrow> bool" for m where
  take: "caller c k \<Longrightarrow> rt_mutex_take m time k = Some (Return RT_EOK, k') \<Longrightarrow> mutex_step m k (Lock c) k'"
| take_fail: "caller c k \<Longrightarrow> rt_mutex_take m time k = Some (Return (- RT_ETIMEOUT), k') \<Longrightarrow> mutex_step m k Neutral k'"
| take_wait: "caller c k \<Longrightarrow> ok_time time \<Longrightarrow> rt_mutex_take m time k = Some (Blocked, k') \<Longrightarrow> mutex_step m k Neutral k'"
| release: "caller c k \<Longrightarrow> rt_mutex_release m k = Some (RT_EOK, k') \<Longrightarrow>
    mutex_step m k (Unlock c (if owner (mutexes k' m) = Some c then None else owner (mutexes k' m))) k'"
| release_fail: "caller c k \<Longrightarrow> rt_mutex_release m k = Some (- RT_ERROR, k') \<Longrightarrow> mutex_step m k Neutral k'"
| environment: "kernel_wf k' \<Longrightarrow> mutexes k' m = mutexes k m \<Longrightarrow> objs k' (OMutex m) = objs k (OMutex m) \<Longrightarrow>
    set (queues k' (QMutex m)) \<subseteq> set (queues k (QMutex m)) \<Longrightarrow>
    (\<forall>ow. owner (mutexes k m) = Some ow \<longrightarrow> live (st k' ow)) \<Longrightarrow> mutex_step m k Neutral k'"

lemma mutex_take_cases:
  assumes "caller c k" "mutex_ok m k" "rt_mutex_take m time k = Some (r, k')"
  shows "r = Return RT_EOK \<and> (owner (mutexes k m) = Some c \<or> owner (mutexes k m) = None) \<or>
    (\<exists>ow. ow \<noteq> c \<and> owner (mutexes k m) = Some ow \<and> (r = Return (- RT_ETIMEOUT) \<and> time = 0 \<or> r = Blocked \<and> time \<noteq> 0))"
  using assms callerD(5) [OF assms(1)]
  by (auto simp: rt_mutex_take_def mutex_acquire_def mutex_ok_def Let_def split: if_splits bind_splits option.splits)

lemma mutex_release_cases:
  assumes "caller c k" "mutex_ok m k" "rt_mutex_release m k = Some (r, k')"
  shows "r = (if owner (mutexes k m) = Some c then RT_EOK else - RT_ERROR)"
  using assms callerD(5) [OF assms(1)] by (auto simp: rt_mutex_release_def Let_def split: if_splits bind_splits)

abbreviation mutex_inv :: "oid \<Rightarrow> kernel \<Rightarrow> bool" where
  "mutex_inv m k \<equiv> kernel_wf k \<and> mutex_ok m k"

lemma thread_error_change:
  assumes "caller c k"
  shows "kernel_wf (upd_thr c (\<lambda>th. th\<lparr>terror := e\<rparr>) k)" "mutex_ok m (upd_thr c (\<lambda>th. th\<lparr>terror := e\<rparr>) k) = mutex_ok m k"
    "mutex_holder m (upd_thr c (\<lambda>th. th\<lparr>terror := e\<rparr>) k) = mutex_holder m k"
  using callerD(1) [OF assms]
  by (auto intro!: kernel_wf_field_change simp: mutex_ok_def mutex_holder_def rt_object_get_type_def split: option.splits)

lemma hold_up:
  assumes "unat (h :: u8) + 1 < 256"
  shows "unat (h + 1) = unat h + 1" "h + 1 \<noteq> 0"
proof -
  show e: "unat (h + 1) = unat h + 1" using unat_add_fit [of h 1] assms by simp
  show "h + 1 \<noteq> 0" using e by (metis add_is_0 unsigned_0 zero_neq_one)
qed

lemma unat_gt_one: "h \<noteq> 0 \<Longrightarrow> h \<noteq> 1 \<Longrightarrow> unat (h :: u8) > 1"
  using word_unat_eq_iff [of h 0] word_unat_eq_iff [of h 1] by (simp only: unsigned_0 unsigned_1)

lemma mutex_take_step:
  assumes c: "caller c k" and t: "rt_mutex_take m time k = Some (Return RT_EOK, k')" and i: "mutex_ok m k"
    and lim: "\<And>t. holds_of (mutex_holder m k) t + 1 < 256"
  shows "mutex_inv m k' \<and> lock_next (mutex_holder m k) (Lock c) (mutex_holder m k')"
proof -
  have "owner (mutexes k m) = Some c \<or> owner (mutexes k m) = None" using mutex_take_cases [OF c i t] by (auto simp: rt_err_defs)
  then show ?thesis
  proof
    assume o: "owner (mutexes k m) = Some c"
    then have k': "k' = upd_mutex m (\<lambda>mx. mx\<lparr>hold := hold mx + 1\<rparr>) (no_error c k)" using rt_mutex_take_nested [OF c i] t by simp
    have "unat (hold (mutexes k m)) + 1 < 256" using lim [of c] o by (simp add: mutex_holder_def)
    note h = hold_up [OF this]
    have "mutex_ok m k'" unfolding k' using i o h by (simp add: mutex_ok_def rt_object_get_type_def)
    moreover have "kernel_wf k'" unfolding k' using callerD(1) [OF no_error_caller [OF c]] by simp
    ultimately show ?thesis using o h by (simp add: mutex_holder_def k')
  next
    assume o: "owner (mutexes k m) = None"
    then have k': "k' = upd_mutex m (taken c (current_priority (thr k c))) (no_error c k)" using rt_mutex_take_free(1) [OF c i] t by simp
    have "kernel_wf k'" unfolding k' using callerD(1) [OF no_error_caller [OF c]] by simp
    then show ?thesis using rt_mutex_take_free(2) [OF c i o] o by (simp add: mutex_holder_def k' taken_def)
  qed
qed

lemma mutex_release_step:
  assumes c: "caller c k" and t: "rt_mutex_release m k = Some (RT_EOK, k')" and i: "mutex_ok m k"
  shows "mutex_inv m k' \<and>
    lock_next (mutex_holder m k) (Unlock c (if owner (mutexes k' m) = Some c then None else owner (mutexes k' m))) (mutex_holder m k')"
proof -
  have o: "owner (mutexes k m) = Some c" using mutex_release_cases [OF c i t] by (auto simp: rt_err_defs split: if_splits)
  have nz: "hold (mutexes k m) \<noteq> 0" "c \<notin> set (queues k (QMutex m))" using i o by (simp_all add: mutex_ok_def)
  show ?thesis
  proof (cases "hold (mutexes k m) = 1")
    case False
    then have k': "k' = upd_mutex m (\<lambda>mx. mx\<lparr>hold := hold mx - 1\<rparr>) k" using rt_mutex_release_nested(1) [OF c i o] t by simp
    have u: "unat (hold (mutexes k m) - 1) = unat (hold (mutexes k m)) - 1" using nz(1) by (simp add: unat_minus_one)
    moreover have "unat (hold (mutexes k m)) > 1" by (rule unat_gt_one [OF nz(1) False])
    ultimately show ?thesis using rt_mutex_release_nested(2) [OF c i o False] o callerD(1) [OF c] by (simp add: mutex_holder_def k')
  next
    case True
    obtain k2 where k2: "rt_mutex_release m k = Some (RT_EOK, k2)" "kernel_wf k2" "mutex_ok m k2"
      "case queues k (QMutex m) of
       [] \<Rightarrow> owner (mutexes k2 m) = None
     | w # ws \<Rightarrow> owner (mutexes k2 m) = Some w \<and> hold (mutexes k2 m) = 1 \<and> queues k2 (QMutex m) = ws \<and> runnable (st k2 w)"
      by (rule rt_mutex_release_last [OF c i o True]) blast
    then show ?thesis using t o True nz(2) by (cases "queues k (QMutex m)") (auto simp: mutex_holder_def)
  qed
qed

lemma mutex_wait_step:
  assumes c: "caller c k" and time: "ok_time time" and t: "rt_mutex_take m time k = Some (Blocked, k')" and i: "mutex_ok m k"
  shows "mutex_inv m k' \<and> mutex_holder m k' = mutex_holder m k"
proof -
  obtain ow where o: "ow \<noteq> c" "owner (mutexes k m) = Some ow" "time \<noteq> 0" using mutex_take_cases [OF c i t] by auto
  obtain k2 where k2: "rt_mutex_take m time k = Some (Blocked, k2)" "kernel_wf k2" "side k k2" "mutex_ok m k2"
    by (rule rt_mutex_take_blocks [OF c i o(2,1,3) time]) blast
  then show ?thesis using t side_fields(6) [OF k2(3)] by (simp add: mutex_holder_def)
qed

lemma mutex_step_spec:
  assumes "mutex_step m k l k'" and i: "mutex_inv m k" and lim: "\<And>t. holds_of (mutex_holder m k) t + 1 < 256"
  shows "mutex_inv m k' \<and> lock_next (mutex_holder m k) l (mutex_holder m k')"
  using assms(1)
proof (cases rule: mutex_step.cases)
  case (take c time) then show ?thesis using mutex_take_step [OF take(2,3) _ lim] i by simp
next
  case (take_fail c time)
  then obtain ow where o: "ow \<noteq> c" "owner (mutexes k m) = Some ow" "time = 0" using mutex_take_cases [OF take_fail(2) _ take_fail(3)] i
    by (auto simp: rt_err_defs)
  then have "k' = upd_thr c (\<lambda>th. th\<lparr>terror := - RT_ETIMEOUT\<rparr>) k" using rt_mutex_take_refused [OF take_fail(2) _ o(2,1)] take_fail(3) i by simp
  then show ?thesis using thread_error_change [OF take_fail(2)] i take_fail(1) by simp
next
  case (take_wait c time) then show ?thesis using mutex_wait_step [OF take_wait(2,3,4)] i by simp
next
  case (release c) then show ?thesis using mutex_release_step [OF release(2,3)] i by simp
next
  case (release_fail c)
  then have "owner (mutexes k m) \<noteq> Some c" using mutex_release_cases [OF release_fail(2) _ release_fail(3)] i by (auto simp: rt_err_defs)
  then have "k' = upd_thr c (\<lambda>th. th\<lparr>terror := - RT_ERROR\<rparr>) k" using rt_mutex_release_foreign [OF release_fail(2)] release_fail(3) i by simp
  then show ?thesis using thread_error_change [OF release_fail(2)] i release_fail(1) by simp
next
  case environment
  then have "mutex_ok m k'" using i by (auto simp: mutex_ok_def rt_object_get_type_def split: option.splits)
  then show ?thesis using environment by (simp add: mutex_holder_def)
qed

interpretation mutex: recursive_lock "mutex_step m" "mutex_inv m" "mutex_holder m" 256 for m
  by unfold_locales (use mutex_step_spec in blast)+

section \<open>A sample mutex\<close>

text \<open>Mutex 4 of the sample kernel, free or held by thread 6 of priority 10, with thread 5 (raised to priority 3) running.\<close>

definition sample_mutex :: "rt_mutex \<Rightarrow> kernel" where
  "sample_mutex mx = upd_mutex 4 (\<lambda>_. mx) (upd_obj (OMutex 4) (\<lambda>_. \<lparr>oname = ''mtx'', otype = 0x83, oflag = 1\<rparr>)
     (sample\<lparr>thr := (thr sample)(5 := at_priority 3 (thr sample 5))\<rparr>))"

lemma sample_mutex_simps [simp]:
  "mutexes (sample_mutex mx) 4 = mx" "queues (sample_mutex mx) (QMutex 4) = []" "current (sample_mutex mx) = Some 5"
  "thr (sample_mutex mx) = (thr sample)(5 := at_priority 3 (thr sample 5))" "oflag (objs (sample_mutex mx) (OMutex 4)) = 1"
  "tick (sample_mutex mx) = 0"
  by (simp_all add: sample_mutex_def three_def boot_def)

lemma sample_mutex_caller: "caller 5 (sample_mutex mx)"
proof -
  have s: "st sample 5 = RT_THREAD_RUNNING" by (rule callerD(3) [OF sample_caller])
  let ?k = "sample\<lparr>thr := (thr sample)(5 := at_priority 3 (thr sample 5))\<rparr>"
  have "live (st sample 5)" "unat (3 :: u8) < 32" using s by simp_all
  from change_priority_spec [OF sample_wf this] obtain k' where "kernel_wf k'"
    "rt_thread_control 5 (RT_THREAD_CTRL_CHANGE_PRIORITY 3) sample = Some (RT_EOK, k')" by metis
  moreover have "rt_thread_control 5 (RT_THREAD_CTRL_CHANGE_PRIORITY 3) sample = Some (RT_EOK, ?k)"
    using s sample_objs [of 5] by (simp add: rt_thread_control_def change_priority_def at_priority_def thread_objs_def RT_THREAD_PRIORITY_MAX_def)
  ultimately have w: "kernel_wf ?k" by simp
  have "kernel_wf (sample_mutex mx) = kernel_wf ?k" by (rule kernel_wf_cong) (simp_all add: sample_mutex_def)
  then show ?thesis using s w unfolding caller_def by (simp add: sample_mutex_def)
qed

abbreviation held_by_6 :: rt_mutex where
  "held_by_6 \<equiv> \<lparr>mutex_value = 0, original_priority = 10, hold = 1, owner = Some 6\<rparr>"

abbreviation held_by_5 :: "u8 \<Rightarrow> rt_mutex" where
  "held_by_5 h \<equiv> \<lparr>mutex_value = 0, original_priority = 10, hold = h, owner = Some 5\<rparr>"

lemma sample_mutex_ok:
  "mutex_ok 4 (sample_mutex fresh_mutex)" "mutex_ok 4 (sample_mutex held_by_6)" "h \<noteq> 0 \<Longrightarrow> mutex_ok 4 (sample_mutex (held_by_5 h))"
proof -
  have "st sample 6 = RT_THREAD_READY" "st sample 5 = RT_THREAD_RUNNING"
    by (simp_all add: three_def RT_THREAD_READY_def RT_THREAD_RUNNING_def)
  then show "mutex_ok 4 (sample_mutex fresh_mutex)" "mutex_ok 4 (sample_mutex held_by_6)" "h \<noteq> 0 \<Longrightarrow> mutex_ok 4 (sample_mutex (held_by_5 h))"
    by (simp_all add: mutex_ok_def fresh_mutex_def)
       (simp_all add: sample_mutex_def rt_object_get_type_def class_defs good_flag_def RT_IPC_FLAG_PRIO_def)
qed

section \<open>Properties\<close>



text \<open>
  C17: every outcome of \<open>rt_mutex_take\<close>. The owner nests (the hold count grows modulo 256); a free mutex becomes
  the caller's, with its priority noted; a mutex of another thread is refused at time 0, and otherwise the caller is
  suspended in the wait list while the owner runs at the higher of both priorities: priority inheritance.
\<close>

theorem mutex_take_outcome:
  assumes c: "caller c k" and m: "mutex_ok m k" and time: "ok_time time"
  shows "\<exists>r k'. rt_mutex_take m time k = Some (r, k') \<and> kernel_wf k' \<and>
    (case owner (mutexes k m) of
       None \<Rightarrow> r = Return RT_EOK \<and> owner (mutexes k' m) = Some c \<and> hold (mutexes k' m) = 1 \<and>
         original_priority (mutexes k' m) = current_priority (thr k c) \<and> mutex_ok m k'
     | Some ow \<Rightarrow>
         if ow = c then r = Return RT_EOK \<and> owner (mutexes k' m) = Some c \<and>
           unat (hold (mutexes k' m)) = (unat (hold (mutexes k m)) + 1) mod 256
         else if time = 0 then r = Return (- RT_ETIMEOUT) \<and> terror (thr k' c) = - RT_ETIMEOUT \<and> mutexes k' m = mutexes k m
         else r = Blocked \<and> mutex_ok m k' \<and> mutexes k' m = mutexes k m \<and> st k' c = RT_THREAD_SUSPEND \<and>
           queues k' (QMutex m) = wait_insert (oflag (objs k (OMutex m))) (\<lambda>u. current_priority (thr k u)) c (queues k (QMutex m)) \<and>
           current_priority (thr k' ow) = min (current_priority (thr k c)) (current_priority (thr k ow)) \<and>
           (time > 0 \<longrightarrow> TThread c \<in> set (timer_list k') \<and> deadline k' (TThread c) = tick k + word_of_int time))"
proof (cases "owner (mutexes k m)")
  case None
  have "kernel_wf (no_error c k)" using callerD(1) [OF no_error_caller [OF c]] .
  then show ?thesis using rt_mutex_take_free [OF c m None] None by (simp add: taken_def)
next
  case (Some ow)
  consider "ow = c" | "ow \<noteq> c" "time = 0" | "ow \<noteq> c" "time \<noteq> 0" by blast
  then show ?thesis
  proof cases
    case 1
    have "kernel_wf (no_error c k)" using callerD(1) [OF no_error_caller [OF c]] .
    then show ?thesis using rt_mutex_take_nested [OF c m] Some 1 by (simp add: unat_word_ariths)
  next
    case 2
    then show ?thesis using rt_mutex_take_refused [OF c m Some 2(1)] thread_error_change(1) [OF c] Some by simp
  next
    case 3
    obtain k' where k': "rt_mutex_take m time k = Some (Blocked, k')" "kernel_wf k'" "side k k'" "mutex_ok m k'"
      "st k' c = RT_THREAD_SUSPEND" "terror (thr k' c) = RT_EOK"
      "queues k' (QMutex m) = wait_insert (oflag (objs k (OMutex m))) (\<lambda>u. current_priority (thr k u)) c (queues k (QMutex m))"
      "current_priority (thr k' ow) = min (current_priority (thr k c)) (current_priority (thr k ow))"
      "\<forall>u. u \<noteq> ow \<longrightarrow> current_priority (thr k' u) = current_priority (thr k u)"
      "time > 0 \<longrightarrow> TThread c \<in> set (timer_list k') \<and> deadline k' (TThread c) = tick k + word_of_int time"
      "current k' \<noteq> None"
      using rt_mutex_take_blocks [OF c m Some 3 time] .
    then show ?thesis using Some 3 side_fields(6) [OF k'(3)] by (intro exI [of _ Blocked] exI [of _ k']) simp
  qed
qed

theorem mutex_take_outcome_witness:
  "\<exists>k'. rt_mutex_take 4 50 (sample_mutex held_by_6) = Some (Blocked, k') \<and> mutex_ok 4 k' \<and> queues k' (QMutex 4) = [5] \<and>
     current_priority (thr (sample_mutex held_by_6) 6) = 10 \<and> current_priority (thr k' 6) = 3 \<and> deadline k' (TThread 5) = 50"
proof -
  have t: "ok_time 50" by (simp add: ok_time_def half_def)
  have p: "current_priority (thr sample 6) = 10" by (simp add: three_def sample_thread_def)
  from mutex_take_outcome [OF sample_mutex_caller sample_mutex_ok(2) t] show ?thesis
    using p by (auto simp: wait_insert_def RT_IPC_FLAG_FIFO_def RT_IPC_FLAG_PRIO_def min_def)
qed

text \<open>
  C18: every outcome of \<open>rt_mutex_release\<close>. A thread that is not the owner gets \<open>-RT_ERROR\<close> and the mutex is
  untouched; an inner release lowers the hold count; the last one gives the caller its original priority back
  and makes the first waiter, now runnable, the owner, or leaves the mutex free.
\<close>

theorem mutex_release_outcome:
  assumes c: "caller c k" and m: "mutex_ok m k"
  shows "\<exists>e k'. rt_mutex_release m k = Some (e, k') \<and> kernel_wf k' \<and> mutex_ok m k' \<and>
    (if owner (mutexes k m) \<noteq> Some c then e = - RT_ERROR \<and> mutexes k' = mutexes k
     else e = RT_EOK \<and>
       (if hold (mutexes k m) \<noteq> 1 then owner (mutexes k' m) = Some c \<and> hold (mutexes k' m) = hold (mutexes k m) - 1
        else current_priority (thr k' c) = original_priority (mutexes k m) \<and>
          (case queues k (QMutex m) of
             [] \<Rightarrow> owner (mutexes k' m) = None
           | w # ws \<Rightarrow> owner (mutexes k' m) = Some w \<and> hold (mutexes k' m) = 1 \<and> queues k' (QMutex m) = ws \<and>
               runnable (st k' w) \<and> terror (thr k' w) = terror (thr k w))))"
proof -
  consider "owner (mutexes k m) \<noteq> Some c" | "owner (mutexes k m) = Some c" "hold (mutexes k m) \<noteq> 1"
    | "owner (mutexes k m) = Some c" "hold (mutexes k m) = 1" by blast
  then show ?thesis
  proof cases
    case 1
    then show ?thesis using rt_mutex_release_foreign [OF c m 1] thread_error_change(1,2) [OF c] m by simp
  next
    case 2
    then show ?thesis using rt_mutex_release_nested [OF c m 2] callerD(1) [OF c] by simp
  next
    case 3
    obtain k' where k': "rt_mutex_release m k = Some (RT_EOK, k')" "kernel_wf k'" "mutex_ok m k'" "current k' \<noteq> None"
      "current_priority (thr k' c) = original_priority (mutexes k m)"
      "\<forall>u. u \<noteq> c \<longrightarrow> current_priority (thr k' u) = current_priority (thr k u)"
      "\<forall>u. terror (thr k' u) = terror (thr k u)"
      "case queues k (QMutex m) of
         [] \<Rightarrow> owner (mutexes k' m) = None
       | w # ws \<Rightarrow> owner (mutexes k' m) = Some w \<and> hold (mutexes k' m) = 1 \<and> queues k' (QMutex m) = ws \<and> runnable (st k' w)"
      using rt_mutex_release_last [OF c m 3] .
    then show ?thesis using 3 by (intro exI [of _ RT_EOK] exI [of _ k']) (auto split: list.splits)
  qed
qed

theorem mutex_release_outcome_witness:
  "\<exists>k'. rt_mutex_release 4 (sample_mutex (held_by_5 1)) = Some (RT_EOK, k') \<and> mutex_ok 4 k' \<and> owner (mutexes k' 4) = None \<and>
     current_priority (thr (sample_mutex (held_by_5 1)) 5) = 3 \<and> current_priority (thr k' 5) = 10"
  using mutex_release_outcome [OF sample_mutex_caller sample_mutex_ok(3), of 1] by auto

end
