(* ===== verification/Event.thy ===== *)
theory Event
  imports Mutex
begin

text \<open>
  Event flags of \<^verbatim>\<open>rt-thread/src/ipc.c\<close>: threads wait for all or for any of a set of bits. The main result is that
  a send leaves no waiter behind whose condition holds.
\<close>

section \<open>Operations\<close>

definition RT_EVENT_FLAG_AND :: u8 where "RT_EVENT_FLAG_AND = 0x01"
definition RT_EVENT_FLAG_OR :: u8 where "RT_EVENT_FLAG_OR = 0x02"
definition RT_EVENT_FLAG_CLEAR :: u8 where "RT_EVENT_FLAG_CLEAR = 0x04"

abbreviation upd_event :: "oid \<Rightarrow> u32 \<Rightarrow> kernel \<Rightarrow> kernel" where
  "upd_event e v k \<equiv> k\<lparr>events := (events k)(e := (events k e)\<lparr>event_bits := v\<rparr>)\<rparr>"

abbreviation bits_of :: "oid \<Rightarrow> kernel \<Rightarrow> u32" where
  "bits_of e k \<equiv> event_bits (events k e)"

definition rt_event_init :: "oid \<Rightarrow> string \<Rightarrow> u8 \<Rightarrow> kernel \<Rightarrow> (rt_err_t \<times> kernel) option" where
  "rt_event_init e name flag k = do {
     k \<leftarrow> rt_object_init (OEvent e) RT_Object_Class_Event name k;
     let k = upd_obj (OEvent e) (\<lambda>ob. ob\<lparr>oflag := flag\<rparr>) k;
     let k = rt_ipc_object_init (QEvent e) k;
     Some (RT_EOK, upd_event e 0 k) }"

definition rt_event_detach :: "oid \<Rightarrow> kernel \<Rightarrow> (rt_err_t \<times> kernel) option" where
  "rt_event_detach e k = do {
     rt_assert (rt_object_get_type (OEvent e) k = RT_Object_Class_Event);
     rt_assert (rt_object_is_systemobject (OEvent e) k);
     k \<leftarrow> rt_ipc_list_resume_all (QEvent e) k;
     Some (RT_EOK, rt_object_detach (OEvent e) k) }"

definition rt_event_create :: "oid option \<Rightarrow> string \<Rightarrow> u8 \<Rightarrow> kernel \<Rightarrow> (oid option \<times> kernel) option" where
  "rt_event_create mem name flag k = do {
     RT_DEBUG_NOT_IN_INTERRUPT k;
     (r, k) \<leftarrow> rt_object_allocate (map_option OEvent mem) RT_Object_Class_Event name k;
     case mem of
       None \<Rightarrow> Some (None, k)
     | Some e \<Rightarrow>
         let k = upd_obj (OEvent e) (\<lambda>ob. ob\<lparr>oflag := flag\<rparr>) k;
             k = rt_ipc_object_init (QEvent e) k
         in Some (Some e, upd_event e 0 k) }"

definition rt_event_delete :: "oid \<Rightarrow> kernel \<Rightarrow> (rt_err_t \<times> kernel) option" where
  "rt_event_delete e k = do {
     rt_assert (rt_object_get_type (OEvent e) k = RT_Object_Class_Event);
     rt_assert (\<not> rt_object_is_systemobject (OEvent e) k);
     RT_DEBUG_NOT_IN_INTERRUPT k;
     k \<leftarrow> rt_ipc_list_resume_all (QEvent e) k;
     k \<leftarrow> rt_object_delete (OEvent e) k;
     Some (RT_EOK, k) }"

text \<open>
  The test of a waiter against the current set, with the change it makes to the event set the thread asked for: the status
  and the thread afterwards.
\<close>

definition event_check :: "u32 \<Rightarrow> rt_thread \<Rightarrow> bool \<times> rt_thread" where
  "event_check s th =
     (if event_info th AND RT_EVENT_FLAG_AND \<noteq> 0 then (event_set th AND s = event_set th, th)
      else if event_info th AND RT_EVENT_FLAG_OR \<noteq> 0 then
        if event_set th AND s \<noteq> 0 then (True, th\<lparr>event_set := event_set th AND s\<rparr>) else (False, th)
      else (False, th))"

text \<open>
  The loop of \<open>rt_event_send\<close>. It takes the successor of a node before the thread is resumed, so it visits the waiters of
  the list as it was at the start. The Boolean is \<^verbatim>\<open>need_schedule\<close>.
\<close>

fun event_scan :: "oid \<Rightarrow> tid list \<Rightarrow> bool \<Rightarrow> kernel \<Rightarrow> (bool \<times> kernel) option" where
  "event_scan e [] b k = Some (b, k)"
| "event_scan e (t # ts) b k =
     (case event_check (bits_of e k) (thr k t) of
        (status, th) \<Rightarrow>
          if status then do {
            let k = k\<lparr>thr := (thr k)(t := th)\<rparr>;
            let k = (if event_info th AND RT_EVENT_FLAG_CLEAR \<noteq> 0 then upd_event e (bits_of e k AND NOT (event_set th)) k else k);
            (_, k) \<leftarrow> rt_thread_resume t k;
            event_scan e ts True k }
          else event_scan e ts b k)"

definition rt_event_send :: "oid \<Rightarrow> u32 \<Rightarrow> kernel \<Rightarrow> (rt_err_t \<times> kernel) option" where
  "rt_event_send e flags k = do {
     rt_assert (rt_object_get_type (OEvent e) k = RT_Object_Class_Event);
     if flags = 0 then Some (- RT_ERROR, k)
     else do {
       let k = upd_event e (bits_of e k OR flags) k;
       (b, k) \<leftarrow> event_scan e (queues k (QEvent e)) False k;
       k \<leftarrow> (if b then rt_schedule k else Some k);
       Some (RT_EOK, k) } }"

text \<open>The second component of the result is what the call stores in \<^verbatim>\<open>*recved\<close>.\<close>

definition rt_event_recv :: "oid \<Rightarrow> u32 \<Rightarrow> u8 \<Rightarrow> int \<Rightarrow> kernel \<Rightarrow> (ipc_result \<times> u32 option \<times> kernel) option" where
  "rt_event_recv e flags opt time k = do {
     RT_DEBUG_IN_THREAD_CONTEXT k;
     rt_assert (rt_object_get_type (OEvent e) k = RT_Object_Class_Event);
     if flags = 0 then Some (Return (- RT_ERROR), None, k)
     else do {
       t \<leftarrow> rt_thread_self k;
       let k = upd_thr t (\<lambda>th. th\<lparr>terror := RT_EOK\<rparr>) k;
       status \<leftarrow> (if opt AND RT_EVENT_FLAG_AND \<noteq> 0 then Some (bits_of e k AND flags = flags)
                 else if opt AND RT_EVENT_FLAG_OR \<noteq> 0 then Some (bits_of e k AND flags \<noteq> 0)
                 else None);
       if status then
         Some (Return (terror (thr k t)), Some (bits_of e k AND flags),
           if opt AND RT_EVENT_FLAG_CLEAR \<noteq> 0 then upd_event e (bits_of e k AND NOT flags) k else k)
       else if time = 0 then
         Some (Return (- RT_ETIMEOUT), None, upd_thr t (\<lambda>th. th\<lparr>terror := - RT_ETIMEOUT\<rparr>) k)
       else do {
         let k = upd_thr t (\<lambda>th. th\<lparr>event_set := flags, event_info := opt\<rparr>) k;
         k \<leftarrow> ipc_block (QEvent e) t (oflag (objs k (OEvent e))) time k;
         Some (Blocked, None, k) } } }"

definition rt_event_recv_return :: "tid \<Rightarrow> kernel \<Rightarrow> rt_err_t \<times> u32 option" where
  "rt_event_recv_return t k =
     (if terror (thr k t) \<noteq> RT_EOK then (terror (thr k t), None) else (terror (thr k t), Some (event_set (thr k t))))"

definition rt_event_control :: "oid \<Rightarrow> ipc_cmd \<Rightarrow> kernel \<Rightarrow> (rt_err_t \<times> kernel) option" where
  "rt_event_control e cmd k = do {
     rt_assert (rt_object_get_type (OEvent e) k = RT_Object_Class_Event);
     case cmd of
       RT_IPC_CMD_RESET _ \<Rightarrow> do {
         k \<leftarrow> rt_ipc_list_resume_all (QEvent e) k;
         k \<leftarrow> rt_schedule (upd_event e 0 k);
         Some (RT_EOK, k) }
     | RT_IPC_CMD_other \<Rightarrow> Some (- RT_ERROR, k) }"

section \<open>One pass over the waiters\<close>

definition satisfied :: "rt_thread \<Rightarrow> u32 \<Rightarrow> bool" where
  "satisfied th s \<longleftrightarrow> fst (event_check s th)"

definition left_bits :: "u32 \<Rightarrow> rt_thread \<Rightarrow> u32" where
  "left_bits s th = (if event_info th AND RT_EVENT_FLAG_CLEAR \<noteq> 0 then s AND NOT (event_set (snd (event_check s th))) else s)"

text \<open>The reference: which waiters stay, and which bits are left.\<close>

fun event_pass :: "(tid \<Rightarrow> rt_thread) \<Rightarrow> u32 \<Rightarrow> tid list \<Rightarrow> tid list \<times> u32" where
  "event_pass T s [] = ([], s)"
| "event_pass T s (t # ts) =
     (if satisfied (T t) s
      then event_pass T (left_bits s (T t)) ts
      else let (ks, s') = event_pass T s ts in (t # ks, s'))"

abbreviation within :: "u32 \<Rightarrow> u32 \<Rightarrow> bool" where
  "within a b \<equiv> (\<forall>n. bit a n \<longrightarrow> bit b n)"

lemma left_within: "within (left_bits s th) s"
  by (simp add: left_bits_def bit_and_iff)

lemma satisfied_mono:
  assumes "satisfied th a" "within a b"
  shows "satisfied th b"
proof -
  have 1: "event_set th AND b = event_set th" if e: "event_set th AND a = event_set th"
  proof (rule bit_word_eqI)
    fix n
    have "bit (event_set th) n \<longrightarrow> bit a n" using arg_cong [OF e, of "\<lambda>w. bit w n"] by (auto simp: bit_and_iff)
    then show "bit (event_set th AND b) n = bit (event_set th) n" using assms(2) by (auto simp: bit_and_iff)
  qed
  have 2: "event_set th AND b \<noteq> 0" if n: "event_set th AND a \<noteq> 0"
  proof -
    obtain i where "bit (event_set th AND a) i" using word_nonzero_bit [OF n] by blast
    then have "bit (event_set th AND b) i" using assms(2) by (simp add: bit_and_iff)
    then show ?thesis by force
  qed
  show ?thesis using assms(1) 1 2 by (auto simp: satisfied_def event_check_def split: if_splits)
qed

lemma event_pass_within: "within (snd (event_pass T s ts)) s"
proof (induction ts arbitrary: s)
  case (Cons t ts)
  show ?case
  proof (cases "satisfied (T t) s")
    case True
    have "within (snd (event_pass T (left_bits s (T t)) ts)) (left_bits s (T t))" by (rule Cons.IH)
    then show ?thesis using True left_within [of s "T t"] by simp
  qed (use Cons.IH [of s] in \<open>simp add: case_prod_beta\<close>)
qed simp

text \<open>No waiter that stays is satisfied by what is left.\<close>

lemma event_pass_kept: "t \<in> set (fst (event_pass T s ts)) \<Longrightarrow> t \<in> set ts \<and> \<not> satisfied (T t) (snd (event_pass T s ts))"
proof (induction ts arbitrary: s)
  case (Cons u ts)
  show ?case
  proof (cases "satisfied (T u) s")
    case True
    then show ?thesis using Cons by auto
  next
    case False
    have "\<not> satisfied (T u) (snd (event_pass T s ts))" using satisfied_mono [OF _ event_pass_within] False by blast
    then show ?thesis using Cons False by (auto simp: case_prod_beta)
  qed
qed simp

lemma event_pass_woken: "t \<in> set ts \<Longrightarrow> t \<notin> set (fst (event_pass T s ts)) \<Longrightarrow> satisfied (T t) s"
proof (induction ts arbitrary: s)
  case (Cons u ts)
  show ?case
  proof (cases "satisfied (T u) s")
    case True
    have "satisfied (T t) (left_bits s (T u))" if "t \<noteq> u" using Cons True that by simp
    then show ?thesis using True satisfied_mono [OF _ left_within] by (cases "t = u") auto
  qed (use Cons in \<open>auto simp: case_prod_beta\<close>)
qed simp

lemma event_pass_no_clear:
  "(\<And>t. t \<in> set ts \<Longrightarrow> event_info (T t) AND RT_EVENT_FLAG_CLEAR = 0) \<Longrightarrow>
   event_pass T s ts = (filter (\<lambda>t. \<not> satisfied (T t) s) ts, s)"
  by (induction ts) (simp_all add: left_bits_def)

lemma event_pass_cong: "(\<And>t. t \<in> set ts \<Longrightarrow> T t = T' t) \<Longrightarrow> event_pass T s ts = event_pass T' s ts"
  by (induction ts arbitrary: s) simp_all

section \<open>Effect on a well-formed kernel\<close>

lemma event_check_fields:
  "stat_of (snd (event_check s th)) = stat_of th" "current_priority (snd (event_check s th)) = current_priority th"
  "number_mask (snd (event_check s th)) = number_mask th" "stack_ok (snd (event_check s th)) = stack_ok th"
  "event_info (snd (event_check s th)) = event_info th" "terror (snd (event_check s th)) = terror th"
  by (simp_all add: event_check_def)

text \<open>One satisfied waiter is resumed.\<close>

lemma event_wake_one:
  assumes wf: "kernel_wf k" and q: "t \<in> set (queues k (QEvent e))" and s: "satisfied (thr k t) (bits_of e k)"
  obtains k' where "event_scan e (t # ts) b k = event_scan e ts True k'" "kernel_wf k'" "current k' = current k"
    "bits_of e k' = left_bits (bits_of e k) (thr k t)" "runnable (st k' t)" "terror (thr k' t) = terror (thr k t)"
    "\<forall>u. u \<noteq> t \<longrightarrow> thr k' u = thr k u" "objs k' (OEvent e) = objs k (OEvent e)"
    "queues k' (QEvent e) = remove1 t (queues k (QEvent e))"
    "event_set (thr k' t) = event_set (snd (event_check (bits_of e k) (thr k t)))"
proof -
  define th where "th = snd (event_check (bits_of e k) (thr k t))"
  note tf = event_check_fields [of "bits_of e k" "thr k t", folded th_def]
  have ck: "event_check (bits_of e k) (thr k t) = (True, th)" using s by (simp add: satisfied_def prod_eq_iff th_def)
  let ?k1 = "k\<lparr>thr := (thr k)(t := th)\<rparr>"
  let ?k2 = "if event_info th AND RT_EVENT_FLAG_CLEAR \<noteq> 0 then upd_event e (bits_of e ?k1 AND NOT (event_set th)) ?k1 else ?k1"
  have w1: "kernel_wf ?k1" by (rule kernel_wf_field_change [OF wf]) (simp_all add: tf)
  have w2: "kernel_wf ?k2" using w1 by simp
  have st2: "st ?k2 t = RT_THREAD_SUSPEND" using waiter_suspended [OF wf _ q] by (simp add: tf)
  obtain k' where k': "rt_thread_resume t ?k2 = Some (RT_EOK, k')" "kernel_wf k'" "side ?k2 k'"
    "current k' = current ?k2" "timers k' = timers ?k2"
    "thr k' = (thr ?k2)(t := set_stat (if current ?k2 = Some t then RT_THREAD_RUNNING else RT_THREAD_READY) (thr ?k2 t))"
    "\<forall>q. \<not> is_ready_q q \<longrightarrow> queues k' q = remove1 t (queues ?k2 q)"
    "\<forall>p. queues k' (QReady p) = queues ?k2 (QReady p) @ (if current ?k2 \<noteq> Some t \<and> p = prio ?k2 t then [t] else [])"
    using rt_thread_resume_spec [OF w2 st2] .
  have t2: "thr ?k2 = (thr k)(t := th)" by simp
  have ek: "events k' = events ?k2" by (rule side_fields(7) [OF k'(3)])
  have ok: "objs k' (OEvent e) = objs k (OEvent e)" using side_fields(10) [OF k'(3), of "OEvent e"] by simp
  show thesis
  proof (rule that [of k'])
    show "event_scan e (t # ts) b k = event_scan e ts True k'"
      using k'(1) ck by (subst event_scan.simps) (simp add: Let_def)
    show "bits_of e k' = left_bits (bits_of e k) (thr k t)" unfolding ek using ck by (simp add: left_bits_def tf)
    show "runnable (st k' t)" "terror (thr k' t) = terror (thr k t)" "event_set (thr k' t) = event_set (snd (event_check (bits_of e k) (thr k t)))"
      using ck by (simp_all add: k'(6) tf)
    show "\<forall>u. u \<noteq> t \<longrightarrow> thr k' u = thr k u" by (simp add: k'(6))
    show "queues k' (QEvent e) = remove1 t (queues k (QEvent e))" using k'(7) by simp
  qed (use k'(2,4) ok in simp_all)
qed

lemma event_scan_spec:
  assumes "kernel_wf k" "queues k (QEvent e) = us @ ts"
  shows "\<exists>b' k'. event_scan e ts b k = Some (b', k') \<and> kernel_wf k' \<and> current k' = current k \<and>
    objs k' (OEvent e) = objs k (OEvent e) \<and> bits_of e k' = snd (event_pass (thr k) (bits_of e k) ts) \<and>
    queues k' (QEvent e) = us @ fst (event_pass (thr k) (bits_of e k) ts) \<and>
    (\<forall>t\<in>set ts. t \<notin> set (fst (event_pass (thr k) (bits_of e k) ts)) \<longrightarrow> runnable (st k' t) \<and> terror (thr k' t) = terror (thr k t)) \<and>
    (\<forall>t. t \<notin> set ts \<or> t \<in> set (fst (event_pass (thr k) (bits_of e k) ts)) \<longrightarrow> thr k' t = thr k t) \<and>
    (b' \<longleftrightarrow> b \<or> fst (event_pass (thr k) (bits_of e k) ts) \<noteq> ts)"
  using assms
proof (induction ts arbitrary: us b k)
  case Nil
  then show ?case by simp
next
  case (Cons t ts)
  have wf: "kernel_wf k" and q: "queues k (QEvent e) = us @ t # ts" by fact+
  have d: "distinct (us @ t # ts)" using sched_wfD(1) [OF kernel_wfD(1) [OF wf]] q unfolding queues_wf_def by metis
  show ?case
  proof (cases "satisfied (thr k t) (bits_of e k)")
    case False
    have "event_scan e (t # ts) b k = event_scan e ts b k"
      using False by (cases "event_check (bits_of e k) (thr k t)") (simp add: satisfied_def)
    moreover have "queues k (QEvent e) = (us @ [t]) @ ts" using q by simp
    note ih = Cons.IH [OF wf this, of b]
    ultimately show ?thesis using False d ih by (simp add: case_prod_beta) blast
  next
    case True
    have "t \<in> set (queues k (QEvent e))" using q by simp
    then obtain k1 where k1: "event_scan e (t # ts) b k = event_scan e ts True k1" "kernel_wf k1" "current k1 = current k"
      "bits_of e k1 = left_bits (bits_of e k) (thr k t)" "runnable (st k1 t)" "terror (thr k1 t) = terror (thr k t)"
      "\<forall>u. u \<noteq> t \<longrightarrow> thr k1 u = thr k u" "objs k1 (OEvent e) = objs k (OEvent e)"
      "queues k1 (QEvent e) = remove1 t (queues k (QEvent e))"
      "event_set (thr k1 t) = event_set (snd (event_check (bits_of e k) (thr k t)))"
      using event_wake_one [OF wf _ True] by blast
    have q1: "queues k1 (QEvent e) = us @ ts" using k1(9) q d by (simp add: remove1_append)
    have tn: "t \<notin> set ts" using d by simp
    have pe: "event_pass (thr k1) s ts = event_pass (thr k) s ts" for s
      by (rule event_pass_cong) (use k1(7) tn in auto)
    have pl: "event_pass (thr k) (bits_of e k) (t # ts) = event_pass (thr k1) (bits_of e k1) ts" using True k1(4) pe by simp
    have sub: "set (fst (event_pass (thr k1) (bits_of e k1) ts)) \<subseteq> set ts" using event_pass_kept by fast
    have ne: "fst (event_pass (thr k1) (bits_of e k1) ts) \<noteq> t # ts" using sub tn by auto
    obtain b' k' where k': "event_scan e ts True k1 = Some (b', k')" "kernel_wf k'" "current k' = current k1"
      "objs k' (OEvent e) = objs k1 (OEvent e)" "bits_of e k' = snd (event_pass (thr k1) (bits_of e k1) ts)"
      "queues k' (QEvent e) = us @ fst (event_pass (thr k1) (bits_of e k1) ts)"
      "\<forall>t\<in>set ts. t \<notin> set (fst (event_pass (thr k1) (bits_of e k1) ts)) \<longrightarrow> runnable (st k' t) \<and> terror (thr k' t) = terror (thr k1 t)"
      "\<forall>t. t \<notin> set ts \<or> t \<in> set (fst (event_pass (thr k1) (bits_of e k1) ts)) \<longrightarrow> thr k' t = thr k1 t" "b'"
      using Cons.IH [OF k1(2) q1, of True] by blast
    have tt: "thr k' t = thr k1 t" using k'(8) tn by simp
    show ?thesis unfolding pl
    proof (intro exI [of _ b'] exI [of _ k'] conjI)
      show "\<forall>u\<in>set (t # ts). u \<notin> set (fst (event_pass (thr k1) (bits_of e k1) ts)) \<longrightarrow> runnable (st k' u) \<and> terror (thr k' u) = terror (thr k u)"
        using k'(7) tt k1(5,6,7) tn by auto
      show "\<forall>u. u \<notin> set (t # ts) \<or> u \<in> set (fst (event_pass (thr k1) (bits_of e k1) ts)) \<longrightarrow> thr k' u = thr k u"
        using k'(8) k1(7) sub tn by (metis in_mono list.set_intros(1,2))
      show "b' \<longleftrightarrow> b \<or> fst (event_pass (thr k1) (bits_of e k1) ts) \<noteq> t # ts" using k'(9) ne by simp
    qed (use k1 k' in simp_all)
  qed
qed

definition event_ok :: "oid \<Rightarrow> kernel \<Rightarrow> bool" where
  "event_ok e k \<longleftrightarrow> rt_object_get_type (OEvent e) k = RT_Object_Class_Event \<and> good_flag (oflag (objs k (OEvent e))) \<and>
     (\<forall>t\<in>set (queues k (QEvent e)). \<not> satisfied (thr k t) (bits_of e k))"

lemma satisfied_cong:
  "event_set a = event_set b \<Longrightarrow> event_info a = event_info b \<Longrightarrow> satisfied a s = satisfied b s"
  by (simp add: satisfied_def event_check_def)

lemma satisfied_but_stat: "but_stat a = but_stat b \<Longrightarrow> satisfied a s = satisfied b s"
  by (rule satisfied_cong) (rule but_stat_fields; assumption)+

text \<open>A receive that does not have to wait.\<close>

definition recv_test :: "u8 \<Rightarrow> u32 \<Rightarrow> u32 \<Rightarrow> bool" where
  "recv_test opt flags s \<longleftrightarrow> (if opt AND RT_EVENT_FLAG_AND \<noteq> 0 then s AND flags = flags else s AND flags \<noteq> 0)"

definition good_option :: "u8 \<Rightarrow> bool" where
  "good_option opt \<longleftrightarrow> opt AND RT_EVENT_FLAG_AND \<noteq> 0 \<or> opt AND RT_EVENT_FLAG_OR \<noteq> 0"

lemma recv_test_satisfied:
  "good_option opt \<Longrightarrow> satisfied (th\<lparr>event_set := flags, event_info := opt\<rparr>) s = recv_test opt flags s"
  by (auto simp: satisfied_def event_check_def recv_test_def good_option_def and.commute)

lemma rt_event_recv_eq:
  assumes c: "caller c k" and e: "event_ok e k" and f: "flags \<noteq> 0" "good_option opt"
  shows "rt_event_recv e flags opt time k =
    (if recv_test opt flags (bits_of e k) then
       Some (Return RT_EOK, Some (bits_of e k AND flags),
         if opt AND RT_EVENT_FLAG_CLEAR \<noteq> 0 then upd_event e (bits_of e k AND NOT flags) (no_error c k) else no_error c k)
     else if time = 0 then Some (Return (- RT_ETIMEOUT), None, upd_thr c (\<lambda>th. th\<lparr>terror := - RT_ETIMEOUT\<rparr>) k)
     else do {
       k' \<leftarrow> ipc_block (QEvent e) c (oflag (objs k (OEvent e))) time (upd_thr c (\<lambda>th. th\<lparr>event_set := flags, event_info := opt\<rparr>) (no_error c k));
       Some (Blocked, None, k') })"
  using callerD(4,5) [OF c] e f
  by (simp add: rt_event_recv_def event_ok_def recv_test_def good_option_def Let_def)

lemma rt_event_recv_blocks:
  assumes c: "caller c k" and e: "event_ok e k" and f: "flags \<noteq> 0" "good_option opt" and n: "\<not> recv_test opt flags (bits_of e k)"
    and time: "time \<noteq> 0" "ok_time time"
  obtains k' where "rt_event_recv e flags opt time k = Some (Blocked, None, k')" "kernel_wf k'" "event_ok e k'" "bits_of e k' = bits_of e k"
    "st k' c = RT_THREAD_SUSPEND" "set (queues k' (QEvent e)) = insert c (set (queues k (QEvent e)))"
    "event_set (thr k' c) = flags" "event_info (thr k' c) = opt" "terror (thr k' c) = RT_EOK" "current k' \<noteq> None"
    "\<forall>u. u \<noteq> c \<longrightarrow> but_stat (thr k' u) = but_stat (thr k u)"
    "time > 0 \<longrightarrow> TThread c \<in> set (timer_list k') \<and> deadline k' (TThread c) = tick k + word_of_int time"
proof -
  let ?k2 = "upd_thr c (\<lambda>th. th\<lparr>event_set := flags, event_info := opt\<rparr>) (no_error c k)"
  let ?f = "oflag (objs k (OEvent e))"
  note c1 = callerD [OF no_error_caller [OF c]]
  have w: "kernel_wf ?k2" by (rule kernel_wf_field_change [OF c1(1)]) simp_all
  have cc: "current ?k2 = Some c" "st ?k2 c = RT_THREAD_RUNNING" using c1(2,3) by simp_all
  have q: "is_wait (QEvent e)" and g: "good_flag ?f" using e by (simp_all add: event_ok_def)
  obtain k' where k': "ipc_block (QEvent e) c ?f time ?k2 = Some k'" "kernel_wf k'" "side ?k2 k'"
    "st k' c = RT_THREAD_SUSPEND" "current k' \<noteq> None"
    "\<forall>r. \<not> is_ready_q r \<longrightarrow> queues k' r =
       (if r = QEvent e then wait_insert ?f (\<lambda>u. current_priority (thr ?k2 u)) c (queues ?k2 (QEvent e)) else queues ?k2 r)"
    "\<forall>u. but_stat (thr k' u) = but_stat (thr ?k2 u)"
    "\<forall>u. u \<noteq> c \<longrightarrow> (st k' u = RT_THREAD_SUSPEND) = (st ?k2 u = RT_THREAD_SUSPEND)"
    "time > 0 \<longrightarrow> TThread c \<in> set (timer_list k') \<and> deadline k' (TThread c) = tick ?k2 + word_of_int time"
    "(\<exists>u. st ?k2 u = RT_THREAD_READY) \<and> lock_nest ?k2 = 0 \<longrightarrow> (\<exists>r. current k' = Some r \<and> r \<noteq> c \<and> st k' r = RT_THREAD_RUNNING)"
    "\<forall>u. u \<noteq> c \<longrightarrow> runnable (st k' u) = runnable (st ?k2 u)"
    using ipc_block_spec [OF w cc q g time(2)] .
  have qs: "set (queues k' (QEvent e)) = insert c (set (queues k (QEvent e)))" using k'(6) wait_insert_props(1) [OF g] by simp
  have bs: "satisfied (thr k' u) s = satisfied (thr ?k2 u) s" for u s using satisfied_but_stat [OF spec [OF k'(7)]] .
  have bits: "bits_of e k' = bits_of e k" using side_fields(7) [OF k'(3)] by simp
  have "\<not> satisfied (thr ?k2 u) (bits_of e k)" if "u \<in> insert c (set (queues k (QEvent e)))" for u
    using that recv_test_satisfied [OF f(2), where th = "(thr k c)\<lparr>terror := RT_EOK\<rparr>"] n e by (cases "u = c") (auto simp: event_ok_def)
  then have ok: "event_ok e k'" using e bs bits qs side_fields(10,11) [OF k'(3), of "OEvent e"]
    by (simp add: event_ok_def rt_object_get_type_def)
  have fld: "event_set (thr k' c) = flags" "event_info (thr k' c) = opt" "terror (thr k' c) = RT_EOK"
    using arg_cong [OF spec [OF k'(7), of c], of event_set] arg_cong [OF spec [OF k'(7), of c], of event_info]
      arg_cong [OF spec [OF k'(7), of c], of terror] by (simp_all add: but_stat_def)
  show thesis
    by (rule that [of k']) (use rt_event_recv_eq [OF c e f, of time] n time(1) k' qs bits ok fld in \<open>simp_all\<close>)
qed

section \<open>Properties\<close>

text \<open>
  C19: \<open>rt_event_send\<close> loses no wake-up. The call returns, no thread that still waits has its condition met by the bits
  that are left, every waiter that left the list had its condition met by the old bits with the sent ones, is runnable,
  and its receive returns its error number unchanged; and when no waiter clears bits, exactly the satisfied
  waiters leave and the bits are the union.
\<close>

theorem event_send_wakes:
  assumes wf: "kernel_wf k" and c: "current k \<noteq> None" and ty: "rt_object_get_type (OEvent e) k = RT_Object_Class_Event" and f: "flags \<noteq> 0"
  shows "\<exists>k'. rt_event_send e flags k = Some (RT_EOK, k') \<and> kernel_wf k' \<and>
    (\<forall>t\<in>set (queues k' (QEvent e)). \<not> satisfied (thr k' t) (bits_of e k')) \<and>
    (\<forall>t\<in>set (queues k (QEvent e)) - set (queues k' (QEvent e)).
       runnable (st k' t) \<and> satisfied (thr k t) (bits_of e k OR flags) \<and> fst (rt_event_recv_return t k') = terror (thr k t)) \<and>
    (\<forall>n. bit (bits_of e k') n \<longrightarrow> bit (bits_of e k OR flags) n) \<and>
    ((\<forall>t\<in>set (queues k (QEvent e)). event_info (thr k t) AND RT_EVENT_FLAG_CLEAR = 0) \<longrightarrow>
       bits_of e k' = bits_of e k OR flags \<and>
       queues k' (QEvent e) = filter (\<lambda>t. \<not> satisfied (thr k t) (bits_of e k OR flags)) (queues k (QEvent e)))"
proof -
  let ?k1 = "upd_event e (bits_of e k OR flags) k" and ?ts = "queues k (QEvent e)"
  let ?p = "event_pass (thr k) (bits_of e k OR flags) ?ts"
  have w1: "kernel_wf ?k1" and q1: "queues ?k1 (QEvent e) = [] @ ?ts" using wf by simp_all
  obtain b k2 where k2: "event_scan e ?ts False ?k1 = Some (b, k2)" "kernel_wf k2" "current k2 = current k"
    "bits_of e k2 = snd ?p" "queues k2 (QEvent e) = fst ?p"
    "\<forall>t\<in>set ?ts. t \<notin> set (fst ?p) \<longrightarrow> runnable (st k2 t) \<and> terror (thr k2 t) = terror (thr k t)"
    "\<forall>t. t \<notin> set ?ts \<or> t \<in> set (fst ?p) \<longrightarrow> thr k2 t = thr k t"
    using event_scan_spec [OF w1 q1, of False] by auto
  obtain k' where k': "(if b then rt_schedule k2 else Some k2) = Some k'" "kernel_wf k'" "sched_step k2 k'"
  proof (cases b)
    case True
    have "current k2 \<noteq> None" using k2(3) c by simp
    then show ?thesis using rt_schedule_kernel [OF k2(2)] True that by metis
  qed (use k2(2) that in simp)
  note sd = sched_stepD [OF k'(3)]
  have q: "queues k' (QEvent e) = fst ?p" using sd(2) [of "QEvent e"] k2(5) by simp
  have bits: "bits_of e k' = snd ?p" using outer_fields [OF sd(1)] k2(4) by simp
  have kept: "\<forall>t\<in>set (fst ?p). \<not> satisfied (thr k' t) (snd ?p)"
    using satisfied_but_stat [OF sd(3)] k2(7) event_pass_kept by metis
  have woken: "\<forall>t\<in>set ?ts - set (fst ?p). runnable (st k' t) \<and> satisfied (thr k t) (bits_of e k OR flags) \<and>
      fst (rt_event_recv_return t k') = terror (thr k t)"
  proof
    fix t assume t: "t \<in> set ?ts - set (fst ?p)"
    then have "runnable (st k2 t)" "terror (thr k2 t) = terror (thr k t)" using k2(6) by simp_all
    then show "runnable (st k' t) \<and> satisfied (thr k t) (bits_of e k OR flags) \<and> fst (rt_event_recv_return t k') = terror (thr k t)"
      using event_pass_woken [of t ?ts "thr k"] t sd(5) [of t] but_stat_fields(2) [OF sd(3), of t] by (simp add: rt_event_recv_return_def)
  qed
  have nc: "snd ?p = bits_of e k OR flags \<and> fst ?p = filter (\<lambda>t. \<not> satisfied (thr k t) (bits_of e k OR flags)) ?ts"
    if "\<forall>t\<in>set ?ts. event_info (thr k t) AND RT_EVENT_FLAG_CLEAR = 0"
    using event_pass_no_clear [of ?ts "thr k" "bits_of e k OR flags"] that by (metis fst_conv snd_conv)
  have eq: "rt_event_send e flags k = Some (RT_EOK, k')" using ty f k2(1) k'(1) by (simp add: rt_event_send_def)
  show ?thesis
    by (intro exI [of _ k'] conjI, unfold q bits)
      (use eq k'(2) kept woken nc event_pass_within [of "thr k" "bits_of e k OR flags" ?ts] in blast)+
qed

text \<open>Event 2 of the sample kernel, with no bits set.\<close>

definition sample_event :: kernel where
  "sample_event = upd_obj (OEvent 2) (\<lambda>_. \<lparr>oname = ''ev'', otype = 0x84, oflag = 0\<rparr>) sample"

lemma sample_event_caller: "caller 5 sample_event"
  using sample_caller by (simp add: caller_def sample_event_def kernel_wf_upd_obj del: ipc_class.simps)

lemma sample_event_simps [simp]:
  "bits_of 2 sample_event = 0" "queues sample_event (QEvent 2) = []"
  by (simp_all add: sample_event_def sample_def three_def boot_def)

lemma sample_event_ok: "event_ok 2 sample_event"
  by (simp add: event_ok_def) (simp add: sample_event_def rt_object_get_type_def class_defs good_flag_def RT_IPC_FLAG_FIFO_def)



theorem event_send_wakes_witness:
  "\<exists>k k'. rt_event_recv 2 3 RT_EVENT_FLAG_AND (- 1) sample_event = Some (Blocked, None, k) \<and>
     rt_event_send 2 7 k = Some (RT_EOK, k') \<and> runnable (st k' 5) \<and> queues k' (QEvent 2) = [] \<and> bits_of 2 k' = 7 \<and>
     rt_event_recv_return 5 k' = (RT_EOK, Some (event_set (thr k' 5)))"
proof -
  have g: "good_option RT_EVENT_FLAG_AND" "ok_time (- 1)" "(3 :: u32) \<noteq> 0" "(- 1 :: int) \<noteq> 0"
    by (simp_all add: good_option_def RT_EVENT_FLAG_AND_def ok_time_def half_def)
  have n: "\<not> recv_test RT_EVENT_FLAG_AND 3 (bits_of 2 sample_event)" by (simp add: recv_test_def RT_EVENT_FLAG_AND_def)
  obtain k where k: "rt_event_recv 2 3 RT_EVENT_FLAG_AND (- 1) sample_event = Some (Blocked, None, k)" "kernel_wf k" "event_ok 2 k"
    "bits_of 2 k = bits_of 2 sample_event" "set (queues k (QEvent 2)) = insert 5 (set (queues sample_event (QEvent 2)))"
    "event_set (thr k 5) = 3" "event_info (thr k 5) = RT_EVENT_FLAG_AND" "terror (thr k 5) = RT_EOK" "current k \<noteq> None"
    by (rule rt_event_recv_blocks [OF sample_event_caller sample_event_ok g(3,1) n g(4,2)]) blast
  have ty: "rt_object_get_type (OEvent 2) k = RT_Object_Class_Event" using k(3) by (simp add: event_ok_def)
  have nc: "\<forall>t\<in>set (queues k (QEvent 2)). event_info (thr k t) AND RT_EVENT_FLAG_CLEAR = 0"
    using k(5,7) by (simp add: RT_EVENT_FLAG_AND_def RT_EVENT_FLAG_CLEAR_def)
  have z: "(7 :: u32) \<noteq> 0" by simp
  have sat: "satisfied (thr k 5) 7" using k(6,7) by (simp add: satisfied_def event_check_def RT_EVENT_FLAG_AND_def)
  obtain k' where k': "rt_event_send 2 7 k = Some (RT_EOK, k')"
    "\<forall>t\<in>set (queues k (QEvent 2)) - set (queues k' (QEvent 2)). runnable (st k' t) \<and> satisfied (thr k t) (bits_of 2 k OR 7) \<and> fst (rt_event_recv_return t k') = terror (thr k t)"
    "bits_of 2 k' = bits_of 2 k OR 7" "queues k' (QEvent 2) = filter (\<lambda>t. \<not> satisfied (thr k t) (bits_of 2 k OR 7)) (queues k (QEvent 2))"
    using event_send_wakes [OF k(2,9) ty z] nc by blast
  have q': "queues k' (QEvent 2) = []" unfolding k'(4) using k(4,5) sat by (simp add: filter_empty_conv)
  have "runnable (st k' 5)" "fst (rt_event_recv_return 5 k') = RT_EOK" using k'(2) k(5,8) q' by simp_all
  then show ?thesis using k(1,4) k'(1,3) q' by (auto simp: rt_event_recv_return_def split: if_splits)
qed

end
