(* ===== verification/Mailbox.thy ===== *)
theory Mailbox
  imports Event
begin

text \<open>
  Mailboxes of \<^verbatim>\<open>rt-thread/src/ipc.c\<close>: a ring of 32-bit values with waiting receivers and waiting senders. A call
  that is resumed after waiting goes through its loop again with the time that is left; the return parts take
  the tick at which the wait began. The mailbox is shown to be a first-in-first-out \<open>channel\<close>.
\<close>

section \<open>Operations\<close>

abbreviation upd_mb :: "oid \<Rightarrow> (rt_mailbox \<Rightarrow> rt_mailbox) \<Rightarrow> kernel \<Rightarrow> kernel" where
  "upd_mb m f k \<equiv> k\<lparr>mailboxes := (mailboxes k)(m := f (mailboxes k m))\<rparr>"

definition rt_mb_init :: "oid \<Rightarrow> string \<Rightarrow> u32 list \<Rightarrow> u32 \<Rightarrow> u8 \<Rightarrow> kernel \<Rightarrow> (rt_err_t \<times> kernel) option" where
  "rt_mb_init m name pool sz flag k = do {
     k \<leftarrow> rt_object_init (OMb m) RT_Object_Class_MailBox name k;
     let k = upd_obj (OMb m) (\<lambda>ob. ob\<lparr>oflag := flag\<rparr>) k;
     let k = rt_ipc_object_init (QMbRecv m) k;
     let k = upd_mb m (\<lambda>_. \<lparr>mb_pool = pool, mb_size = ucast sz, mb_entry = 0, in_offset = 0, out_offset = 0\<rparr>) k;
     Some (RT_EOK, rt_ipc_object_init (QMbSend m) k) }"

definition rt_mb_detach :: "oid \<Rightarrow> kernel \<Rightarrow> (rt_err_t \<times> kernel) option" where
  "rt_mb_detach m k = do {
     rt_assert (rt_object_get_type (OMb m) k = RT_Object_Class_MailBox);
     rt_assert (rt_object_is_systemobject (OMb m) k);
     k \<leftarrow> rt_ipc_list_resume_all (QMbRecv m) k;
     k \<leftarrow> rt_ipc_list_resume_all (QMbSend m) k;
     Some (RT_EOK, rt_object_detach (OMb m) k) }"

text \<open>\<open>mem\<close> and \<open>pool\<close> are what the allocator returns for the structure and for the ring.\<close>

definition rt_mb_create :: "oid option \<Rightarrow> u32 list option \<Rightarrow> string \<Rightarrow> u32 \<Rightarrow> u8 \<Rightarrow> kernel \<Rightarrow> (oid option \<times> kernel) option" where
  "rt_mb_create mem pool name sz flag k = do {
     RT_DEBUG_NOT_IN_INTERRUPT k;
     (r, k) \<leftarrow> rt_object_allocate (map_option OMb mem) RT_Object_Class_MailBox name k;
     case mem of
       None \<Rightarrow> Some (None, k)
     | Some m \<Rightarrow> do {
         let k = upd_obj (OMb m) (\<lambda>ob. ob\<lparr>oflag := flag\<rparr>) k;
         let k = rt_ipc_object_init (QMbRecv m) k;
         let k = upd_mb m (\<lambda>mb. mb\<lparr>mb_size := ucast sz\<rparr>) k;
         case pool of
           None \<Rightarrow> do { k \<leftarrow> rt_object_delete (OMb m) k; Some (None, k) }
         | Some p \<Rightarrow>
             let k = upd_mb m (\<lambda>mb. mb\<lparr>mb_pool := p, mb_entry := 0, in_offset := 0, out_offset := 0\<rparr>) k
             in Some (Some m, rt_ipc_object_init (QMbSend m) k) } }"

definition rt_mb_delete :: "oid \<Rightarrow> kernel \<Rightarrow> (rt_err_t \<times> kernel) option" where
  "rt_mb_delete m k = do {
     RT_DEBUG_NOT_IN_INTERRUPT k;
     rt_assert (rt_object_get_type (OMb m) k = RT_Object_Class_MailBox);
     rt_assert (\<not> rt_object_is_systemobject (OMb m) k);
     k \<leftarrow> rt_ipc_list_resume_all (QMbRecv m) k;
     k \<leftarrow> rt_ipc_list_resume_all (QMbSend m) k;
     k \<leftarrow> rt_object_delete (OMb m) k;
     Some (RT_EOK, k) }"

text \<open>An offset moves to the next cell, back to the first one at the end.\<close>

definition next_offset :: "u16 \<Rightarrow> u16 \<Rightarrow> u16" where
  "next_offset sz off = (if off + 1 \<ge> sz then 0 else off + 1)"

text \<open>The parts of the two calls after their loops: store or fetch a value, and resume one waiting partner.\<close>

definition mb_put :: "oid \<Rightarrow> u32 \<Rightarrow> kernel \<Rightarrow> (ipc_result \<times> kernel) option" where
  "mb_put m v k = do {
     let mb = mailboxes k m;
     pool \<leftarrow> buf_write (mb_pool mb) (unat (in_offset mb)) [v];
     let k = upd_mb m (\<lambda>_. mb\<lparr>mb_pool := pool, in_offset := next_offset (mb_size mb) (in_offset mb), mb_entry := mb_entry mb + 1\<rparr>) k;
     k \<leftarrow> (if queues k (QMbRecv m) \<noteq> [] then ipc_wake (QMbRecv m) k else Some k);
     Some (Return RT_EOK, k) }"

definition mb_get :: "oid \<Rightarrow> kernel \<Rightarrow> (ipc_result \<times> u32 option \<times> kernel) option" where
  "mb_get m k = do {
     let mb = mailboxes k m;
     vs \<leftarrow> buf_read (mb_pool mb) (unat (out_offset mb)) 1;
     let k = upd_mb m (\<lambda>_. mb\<lparr>out_offset := next_offset (mb_size mb) (out_offset mb), mb_entry := mb_entry mb - 1\<rparr>) k;
     k \<leftarrow> (if queues k (QMbSend m) \<noteq> [] then ipc_wake (QMbSend m) k else Some k);
     Some (Return RT_EOK, Some (hd vs), k) }"

text \<open>The loops, entered at their test. \<open>t\<close> is the thread the call found at its start.\<close>

definition mb_send_loop :: "oid \<Rightarrow> u32 \<Rightarrow> int \<Rightarrow> tid option \<Rightarrow> kernel \<Rightarrow> (ipc_result \<times> kernel) option" where
  "mb_send_loop m v time self k =
     (if mb_entry (mailboxes k m) = mb_size (mailboxes k m) then do {
        t \<leftarrow> self;
        let k = upd_thr t (\<lambda>th. th\<lparr>terror := RT_EOK\<rparr>) k;
        if time = 0 then Some (Return (- RT_EFULL), k)
        else do {
          RT_DEBUG_IN_THREAD_CONTEXT k;
          k \<leftarrow> ipc_block (QMbSend m) t (oflag (objs k (OMb m))) time k;
          Some (Blocked, k) } }
      else mb_put m v k)"

definition mb_recv_loop :: "oid \<Rightarrow> int \<Rightarrow> tid option \<Rightarrow> kernel \<Rightarrow> (ipc_result \<times> u32 option \<times> kernel) option" where
  "mb_recv_loop m time self k =
     (if mb_entry (mailboxes k m) = 0 then do {
        t \<leftarrow> self;
        let k = upd_thr t (\<lambda>th. th\<lparr>terror := RT_EOK\<rparr>) k;
        if time = 0 then Some (Return (- RT_ETIMEOUT), None, upd_thr t (\<lambda>th. th\<lparr>terror := - RT_ETIMEOUT\<rparr>) k)
        else do {
          RT_DEBUG_IN_THREAD_CONTEXT k;
          k \<leftarrow> ipc_block (QMbRecv m) t (oflag (objs k (OMb m))) time k;
          Some (Blocked, None, k) } }
      else mb_get m k)"

definition rt_mb_send_wait :: "oid \<Rightarrow> u32 \<Rightarrow> int \<Rightarrow> kernel \<Rightarrow> (ipc_result \<times> kernel) option" where
  "rt_mb_send_wait m v time k = do {
     rt_assert (rt_object_get_type (OMb m) k = RT_Object_Class_MailBox);
     if mb_entry (mailboxes k m) = mb_size (mailboxes k m) \<and> time = 0 then Some (Return (- RT_EFULL), k)
     else mb_send_loop m v time (rt_thread_self k) k }"

text \<open>
  The time left when a call that began to wait at tick \<open>start\<close> runs again: \<^verbatim>\<open>timeout -= tick_delta\<close> on 32 bits, not
  below zero; a negative time waits for ever.
\<close>

definition time_left :: "int \<Rightarrow> u32 \<Rightarrow> kernel \<Rightarrow> int" where
  "time_left time start k =
     (if time > 0 then max 0 (sint (word_of_int time - (rt_tick_get k - start))) else time)"

definition rt_mb_send_wait_return :: "oid \<Rightarrow> u32 \<Rightarrow> int \<Rightarrow> u32 \<Rightarrow> tid \<Rightarrow> kernel \<Rightarrow> (ipc_result \<times> kernel) option" where
  "rt_mb_send_wait_return m v time start t k =
     (if terror (thr k t) \<noteq> RT_EOK then Some (Return (terror (thr k t)), k)
      else mb_send_loop m v (time_left time start k) (Some t) k)"

definition rt_mb_send :: "oid \<Rightarrow> u32 \<Rightarrow> kernel \<Rightarrow> (ipc_result \<times> kernel) option" where
  "rt_mb_send m v k = rt_mb_send_wait m v 0 k"

definition rt_mb_recv :: "oid \<Rightarrow> int \<Rightarrow> kernel \<Rightarrow> (ipc_result \<times> u32 option \<times> kernel) option" where
  "rt_mb_recv m time k = do {
     rt_assert (rt_object_get_type (OMb m) k = RT_Object_Class_MailBox);
     if mb_entry (mailboxes k m) = 0 \<and> time = 0 then Some (Return (- RT_ETIMEOUT), None, k)
     else mb_recv_loop m time (rt_thread_self k) k }"

definition rt_mb_recv_return :: "oid \<Rightarrow> int \<Rightarrow> u32 \<Rightarrow> tid \<Rightarrow> kernel \<Rightarrow> (ipc_result \<times> u32 option \<times> kernel) option" where
  "rt_mb_recv_return m time start t k =
     (if terror (thr k t) \<noteq> RT_EOK then Some (Return (terror (thr k t)), None, k)
      else mb_recv_loop m (time_left time start k) (Some t) k)"

definition rt_mb_control :: "oid \<Rightarrow> ipc_cmd \<Rightarrow> kernel \<Rightarrow> (rt_err_t \<times> kernel) option" where
  "rt_mb_control m cmd k = do {
     rt_assert (rt_object_get_type (OMb m) k = RT_Object_Class_MailBox);
     case cmd of
       RT_IPC_CMD_RESET _ \<Rightarrow> do {
         k \<leftarrow> rt_ipc_list_resume_all (QMbRecv m) k;
         k \<leftarrow> rt_ipc_list_resume_all (QMbSend m) k;
         k \<leftarrow> rt_schedule (upd_mb m (\<lambda>mb. mb\<lparr>mb_entry := 0, in_offset := 0, out_offset := 0\<rparr>) k);
         Some (RT_EOK, k) }
     | RT_IPC_CMD_other \<Rightarrow> Some (- RT_ERROR, k) }"

section \<open>The ring of values\<close>

definition ring_list :: "'a list \<Rightarrow> nat \<Rightarrow> nat \<Rightarrow> nat \<Rightarrow> 'a list" where
  "ring_list pool N out n = map (\<lambda>i. pool ! ((out + i) mod N)) [0..<n]"

lemma ring_index_neq: "i < n \<Longrightarrow> n < N \<Longrightarrow> (out + i) mod N \<noteq> (out + n) mod (N :: nat)"
proof
  assume l: "i < n" "n < N" and e: "(out + i) mod N = (out + n) mod N"
  then have "N dvd (out + n) - (out + i)" by (metis add_le_cancel_left less_imp_le mod_eq_dvd_iff_nat)
  then have "N dvd n - i" by simp
  then show False using l by (auto dest: dvd_imp_le)
qed

lemma ring_put:
  assumes "n < N" "N \<le> length pool"
  shows "ring_list (pool[(out + n) mod N := v]) N out (Suc n) = ring_list pool N out n @ [v]"
proof -
  have "(out + n) mod N < N" using assms(1) by simp
  then have "(out + n) mod N < length pool" using assms(2) by simp
  moreover have "\<forall>i<n. (out + n) mod N \<noteq> (out + i) mod N" using ring_index_neq assms(1) by metis
  ultimately show ?thesis using assms by (simp add: ring_list_def)
qed

lemma ring_get:
  assumes "out < N" "n > 0"
  shows "ring_list pool N out n = pool ! out # ring_list pool N (Suc out mod N) (n - 1)"
proof -
  obtain j where j: "n = Suc j" using assms(2) gr0_conv_Suc by blast
  have "[0..<Suc j] = 0 # map Suc [0..<j]" by (metis map_Suc_upt upt_conv_Cons zero_less_Suc)
  then show ?thesis using assms(1) j by (simp add: ring_list_def mod_simps comp_def)
qed

lemma buf_write_one: "off < length b \<Longrightarrow> buf_write b off [x] = Some (b[off := x])"
  by (simp add: upd_conv_take_nth_drop)

lemma unat_next_offset:
  assumes "unat off < unat sz"
  shows "unat (next_offset sz off) = Suc (unat off) mod unat sz"
proof -
  have u: "unat (off + 1) = Suc (unat off)"
    using assms unat_add_fit [of off 1] unsigned_less [of sz, where 'a = nat] by simp
  show ?thesis
  proof (cases "Suc (unat off) = unat sz")
    case True
    then show ?thesis using u by (simp add: next_offset_def word_le_nat_alt)
  next
    case False
    then have "Suc (unat off) < unat sz" using assms by simp
    then show ?thesis using u by (simp add: next_offset_def word_le_nat_alt)
  qed
qed

section \<open>Effect on a well-formed kernel\<close>

definition mb_contents :: "oid \<Rightarrow> kernel \<Rightarrow> u32 list" where
  "mb_contents m k = (let mb = mailboxes k m in
     ring_list (mb_pool mb) (unat (mb_size mb)) (unat (out_offset mb)) (unat (mb_entry mb)))"

definition ring_wf :: "rt_mailbox \<Rightarrow> bool" where
  "ring_wf mb \<longleftrightarrow> unat (mb_size mb) \<le> length (mb_pool mb) \<and> unat (mb_entry mb) \<le> unat (mb_size mb) \<and>
     unat (out_offset mb) < unat (mb_size mb) \<and> unat (in_offset mb) = (unat (out_offset mb) + unat (mb_entry mb)) mod unat (mb_size mb)"

definition mb_ok :: "oid \<Rightarrow> kernel \<Rightarrow> bool" where
  "mb_ok m k \<longleftrightarrow> rt_object_get_type (OMb m) k = RT_Object_Class_MailBox \<and> good_flag (oflag (objs k (OMb m))) \<and> ring_wf (mailboxes k m)"

lemma ring_wf_put:
  assumes "ring_wf mb" "mb_entry mb \<noteq> mb_size mb"
  shows "buf_write (mb_pool mb) (unat (in_offset mb)) [v] = Some ((mb_pool mb)[unat (in_offset mb) := v])"
    "unat (mb_entry mb + 1) = Suc (unat (mb_entry mb))"
    "ring_wf (mb\<lparr>mb_pool := (mb_pool mb)[unat (in_offset mb) := v], in_offset := next_offset (mb_size mb) (in_offset mb), mb_entry := mb_entry mb + 1\<rparr>)"
proof -
  have l: "unat (mb_entry mb) < unat (mb_size mb)" using assms by (simp add: ring_wf_def word_unat_eq_iff)
  then have i: "unat (in_offset mb) < unat (mb_size mb)" using assms(1) by (simp add: ring_wf_def)
  have "unat (mb_size mb) \<le> length (mb_pool mb)" using assms(1) by (simp add: ring_wf_def)
  then show "buf_write (mb_pool mb) (unat (in_offset mb)) [v] = Some ((mb_pool mb)[unat (in_offset mb) := v])"
    using i by (intro buf_write_one) simp
  show e: "unat (mb_entry mb + 1) = Suc (unat (mb_entry mb))"
    using l unat_add_fit [of "mb_entry mb" 1] unsigned_less [of "mb_size mb", where 'a = nat] by simp
  show "ring_wf (mb\<lparr>mb_pool := (mb_pool mb)[unat (in_offset mb) := v], in_offset := next_offset (mb_size mb) (in_offset mb), mb_entry := mb_entry mb + 1\<rparr>)"
    using assms(1) l unat_next_offset [OF i] e by (simp add: ring_wf_def mod_simps)
qed

lemma ring_wf_get:
  assumes "ring_wf mb" "mb_entry mb \<noteq> 0"
  shows "buf_read (mb_pool mb) (unat (out_offset mb)) 1 = Some [mb_pool mb ! unat (out_offset mb)]"
    "unat (mb_entry mb - 1) = unat (mb_entry mb) - 1" "0 < unat (mb_entry mb)"
    "ring_wf (mb\<lparr>out_offset := next_offset (mb_size mb) (out_offset mb), mb_entry := mb_entry mb - 1\<rparr>)"
proof -
  have o: "unat (out_offset mb) < unat (mb_size mb)" "unat (out_offset mb) < length (mb_pool mb)" using assms(1) by (auto simp: ring_wf_def)
  then show "buf_read (mb_pool mb) (unat (out_offset mb)) 1 = Some [mb_pool mb ! unat (out_offset mb)]"
    by (simp add: take_Suc_conv_app_nth hd_drop_conv_nth take_Suc)
  show e: "unat (mb_entry mb - 1) = unat (mb_entry mb) - 1" using assms(2) by (simp add: unat_minus_one)
  show p: "0 < unat (mb_entry mb)" using assms(2) by (simp add: unat_gt_0)
  obtain j where "unat (mb_entry mb) = Suc j" using p gr0_conv_Suc by blast
  then have "(Suc (unat (out_offset mb)) mod unat (mb_size mb) + (unat (mb_entry mb) - 1)) mod unat (mb_size mb) =
    (unat (out_offset mb) + unat (mb_entry mb)) mod unat (mb_size mb)" by (simp add: mod_simps)
  then show "ring_wf (mb\<lparr>out_offset := next_offset (mb_size mb) (out_offset mb), mb_entry := mb_entry mb - 1\<rparr>)"
    using assms(1) o unat_next_offset [OF o(1)] e by (auto simp: ring_wf_def)
qed

lemma mb_ok_side:
  assumes "side k k'"
  shows "mb_ok m k' = mb_ok m k" "mb_contents m k' = mb_contents m k"
  using side_fields(8) [OF assms] side_fields(10,11) [OF assms, of "OMb m"] by (simp_all add: mb_ok_def mb_contents_def)

text \<open>Waking one partner, if one waits.\<close>

lemma wake_if_any:
  assumes wf: "kernel_wf k" and c: "current k \<noteq> None" and q: "is_wait q"
  obtains k' where "(if queues k q \<noteq> [] then ipc_wake q k else Some k) = Some k'" "kernel_wf k'" "side k k'" "current k' \<noteq> None"
    "queues k' q = tl (queues k q)" "queues k q \<noteq> [] \<longrightarrow> runnable (st k' (hd (queues k q)))"
    "\<forall>u. but_stat (thr k' u) = but_stat (thr k u)"
proof (cases "queues k q")
  case Nil
  then show thesis using wf c by (intro that [of k]) simp_all
next
  case (Cons t ts)
  obtain k' where k': "ipc_wake q k = Some k'" "kernel_wf k'" "side k k'" "current k' \<noteq> None" "timers k' = timers k"
    "runnable (st k' t)" "\<forall>u. but_stat (thr k' u) = but_stat (thr k u)"
    "\<forall>u. u \<noteq> t \<longrightarrow> (st k' u = RT_THREAD_SUSPEND) = (st k u = RT_THREAD_SUSPEND)"
    "\<forall>u. u \<noteq> t \<longrightarrow> runnable (st k' u) = runnable (st k u)"
    "\<forall>r. \<not> is_ready_q r \<longrightarrow> queues k' r = (if r = q then ts else queues k r)" "st k t = RT_THREAD_SUSPEND"
    using ipc_wake_spec [OF wf c q Cons] .
  then show thesis using Cons q by (intro that [of k']) simp_all
qed

lemma mb_put_spec:
  assumes wf: "kernel_wf k" and c: "current k \<noteq> None" and m: "mb_ok m k" and room: "mb_entry (mailboxes k m) \<noteq> mb_size (mailboxes k m)"
  obtains k' where "mb_put m v k = Some (Return RT_EOK, k')" "kernel_wf k'" "current k' \<noteq> None" "mb_ok m k'"
    "mb_contents m k' = mb_contents m k @ [v]" "queues k' (QMbRecv m) = tl (queues k (QMbRecv m))"
    "queues k (QMbRecv m) \<noteq> [] \<longrightarrow> runnable (st k' (hd (queues k (QMbRecv m))))"
    "mb_size (mailboxes k' m) = mb_size (mailboxes k m)" "\<forall>u. but_stat (thr k' u) = but_stat (thr k u)"
proof -
  define mb where "mb = mailboxes k m"
  have rw: "ring_wf mb" "mb_entry mb \<noteq> mb_size mb" using m room by (simp_all add: mb_ok_def mb_def)
  note p = ring_wf_put(1) [OF rw, of v] ring_wf_put(2) [OF rw] ring_wf_put(3) [OF rw, of v]
  let ?mb = "mb\<lparr>mb_pool := (mb_pool mb)[unat (in_offset mb) := v], in_offset := next_offset (mb_size mb) (in_offset mb), mb_entry := mb_entry mb + 1\<rparr>"
  let ?k1 = "upd_mb m (\<lambda>_. ?mb) k"
  have w1: "kernel_wf ?k1" "current ?k1 \<noteq> None" "is_wait (QMbRecv m)" using wf c by simp_all
  obtain k' where k': "(if queues ?k1 (QMbRecv m) \<noteq> [] then ipc_wake (QMbRecv m) ?k1 else Some ?k1) = Some k'" "kernel_wf k'" "side ?k1 k'"
    "current k' \<noteq> None" "queues k' (QMbRecv m) = tl (queues ?k1 (QMbRecv m))"
    "queues ?k1 (QMbRecv m) \<noteq> [] \<longrightarrow> runnable (st k' (hd (queues ?k1 (QMbRecv m))))" "\<forall>u. but_stat (thr k' u) = but_stat (thr ?k1 u)"
    using wake_if_any [OF w1] .
  have ok1: "mb_ok m ?k1" using m p(3) by (simp add: mb_ok_def rt_object_get_type_def)
  have ct: "mb_contents m ?k1 = mb_contents m k @ [v]"
  proof -
    have "unat (mb_entry mb) < unat (mb_size mb)" "unat (mb_size mb) \<le> length (mb_pool mb)"
      using rw by (simp_all add: ring_wf_def word_unat_eq_iff)
    from ring_put [OF this, of "unat (out_offset mb)" v] show ?thesis
      using rw(1) p(2) by (simp add: mb_contents_def mb_def [symmetric] ring_wf_def)
  qed
  have "mb_put m v k = Some (Return RT_EOK, k')" using p(1) k'(1) by (auto simp: mb_put_def Let_def mb_def [symmetric] split: if_splits)
  then show thesis using k' ok1 ct mb_ok_side [OF k'(3), of m] side_fields(8) [OF k'(3)] by (intro that [of k']) (simp_all add: mb_def)
qed

lemma mb_get_spec:
  assumes wf: "kernel_wf k" and c: "current k \<noteq> None" and m: "mb_ok m k" and some: "mb_entry (mailboxes k m) \<noteq> 0"
  obtains v k' where "mb_get m k = Some (Return RT_EOK, Some v, k')" "kernel_wf k'" "current k' \<noteq> None" "mb_ok m k'"
    "mb_contents m k = v # mb_contents m k'" "queues k' (QMbSend m) = tl (queues k (QMbSend m))"
    "queues k (QMbSend m) \<noteq> [] \<longrightarrow> runnable (st k' (hd (queues k (QMbSend m))))"
    "mb_size (mailboxes k' m) = mb_size (mailboxes k m)" "\<forall>u. but_stat (thr k' u) = but_stat (thr k u)"
proof -
  define mb where "mb = mailboxes k m"
  have rw: "ring_wf mb" "mb_entry mb \<noteq> 0" using m some by (simp_all add: mb_ok_def mb_def)
  note p = ring_wf_get [OF rw]
  let ?mb = "mb\<lparr>out_offset := next_offset (mb_size mb) (out_offset mb), mb_entry := mb_entry mb - 1\<rparr>"
  let ?k1 = "upd_mb m (\<lambda>_. ?mb) k"
  have w1: "kernel_wf ?k1" "current ?k1 \<noteq> None" "is_wait (QMbSend m)" using wf c by simp_all
  obtain k' where k': "(if queues ?k1 (QMbSend m) \<noteq> [] then ipc_wake (QMbSend m) ?k1 else Some ?k1) = Some k'" "kernel_wf k'" "side ?k1 k'"
    "current k' \<noteq> None" "queues k' (QMbSend m) = tl (queues ?k1 (QMbSend m))"
    "queues ?k1 (QMbSend m) \<noteq> [] \<longrightarrow> runnable (st k' (hd (queues ?k1 (QMbSend m))))" "\<forall>u. but_stat (thr k' u) = but_stat (thr ?k1 u)"
    using wake_if_any [OF w1] .
  have ok1: "mb_ok m ?k1" using m p(4) by (simp add: mb_ok_def rt_object_get_type_def)
  have o: "unat (out_offset mb) < unat (mb_size mb)" using rw by (simp add: ring_wf_def)
  have ct: "mb_contents m k = (mb_pool mb ! unat (out_offset mb)) # mb_contents m ?k1"
    using ring_get [OF o p(3), of "mb_pool mb"] p(2) unat_next_offset [OF o] by (simp add: mb_contents_def mb_def [symmetric])
  have "mb_get m k = Some (Return RT_EOK, Some (mb_pool mb ! unat (out_offset mb)), k')"
    using p(1) k'(1) by (auto simp: mb_get_def Let_def mb_def [symmetric] split: if_splits)
  then show thesis using k' ok1 ct mb_ok_side [OF k'(3), of m] side_fields(8) [OF k'(3)] by (intro that [of _ k']) (simp_all add: mb_def)
qed

abbreviation mb_inv :: "oid \<Rightarrow> kernel \<Rightarrow> bool" where
  "mb_inv m k \<equiv> kernel_wf k \<and> current k \<noteq> None \<and> mb_ok m k"

abbreviation mb_full :: "oid \<Rightarrow> kernel \<Rightarrow> bool" where
  "mb_full m k \<equiv> mb_entry (mailboxes k m) = mb_size (mailboxes k m)"

text \<open>A call that waits leaves the mailbox as it is.\<close>

lemma mb_block_spec:
  assumes c: "caller c k" and m: "mb_ok m k" and time: "ok_time time" and q: "is_wait q"
  obtains k' where "ipc_block q c (oflag (objs k (OMb m))) time (no_error c k) = Some k'" "mb_inv m k'"
    "mb_contents m k' = mb_contents m k" "mailboxes k' = mailboxes k" "st k' c = RT_THREAD_SUSPEND" "c \<in> set (queues k' q)"
    "time > 0 \<longrightarrow> TThread c \<in> set (timer_list k') \<and> deadline k' (TThread c) = tick k + word_of_int time"
proof -
  let ?f = "oflag (objs k (OMb m))"
  have f: "good_flag ?f" using m by (simp add: mb_ok_def)
  obtain k' where k': "ipc_block q c ?f time (no_error c k) = Some k'" "kernel_wf k'" "side k k'"
    "st k' c = RT_THREAD_SUSPEND" "terror (thr k' c) = RT_EOK"
    "\<forall>r. \<not> is_ready_q r \<longrightarrow> queues k' r =
       (if r = q then wait_insert ?f (\<lambda>u. current_priority (thr k u)) c (queues k q) else queues k r)"
    "\<forall>u. u \<noteq> c \<longrightarrow> but_stat (thr k' u) = but_stat (thr k u)"
    "time > 0 \<longrightarrow> TThread c \<in> set (timer_list k') \<and> deadline k' (TThread c) = tick k + word_of_int time"
    "(\<exists>u. st k u = RT_THREAD_READY) \<and> lock_nest k = 0 \<longrightarrow> (\<exists>r. current k' = Some r \<and> r \<noteq> c \<and> st k' r = RT_THREAD_RUNNING)"
    "current k' \<noteq> None" "current_priority (thr k' c) = current_priority (thr k c)"
    "\<forall>u. u \<noteq> c \<longrightarrow> runnable (st k' u) = runnable (st k u)"
    "\<forall>u. u \<noteq> c \<longrightarrow> (st k' u = RT_THREAD_SUSPEND) = (st k u = RT_THREAD_SUSPEND)"
    using block_spec [OF c q f time] .
  have "c \<in> set (queues k' q)" using k'(6) q wait_insert_props(1) [OF f] by simp
  then show thesis using k' m mb_ok_side [OF k'(3), of m] side_fields(8) [OF k'(3)] by (intro that [of k']) simp_all
qed

lemma mb_error_change:
  assumes "kernel_wf k" "mb_ok m k"
  shows "kernel_wf (upd_thr t (\<lambda>th. th\<lparr>terror := e\<rparr>) k)" "mb_ok m (upd_thr t (\<lambda>th. th\<lparr>terror := e\<rparr>) k)"
    "mb_contents m (upd_thr t (\<lambda>th. th\<lparr>terror := e\<rparr>) k) = mb_contents m k"
  using assms by (auto intro!: kernel_wf_field_change simp: mb_ok_def mb_contents_def rt_object_get_type_def)

text \<open>The loops, from any entry: they put or get, refuse, or wait.\<close>

lemma mb_send_loop_spec:
  assumes i: "mb_inv m k" and time: "ok_time time" and full: "mb_full m k \<Longrightarrow> \<exists>t. self = Some t \<and> (time \<noteq> 0 \<longrightarrow> caller t k)"
  shows "\<exists>r k'. mb_send_loop m v time self k = Some (r, k') \<and> mb_inv m k' \<and> mb_size (mailboxes k' m) = mb_size (mailboxes k m) \<and>
    (if mb_full m k then r = (if time = 0 then Return (- RT_EFULL) else Blocked) \<and> mb_contents m k' = mb_contents m k
     else r = Return RT_EOK \<and> mb_contents m k' = mb_contents m k @ [v] \<and> queues k' (QMbRecv m) = tl (queues k (QMbRecv m)) \<and>
       (queues k (QMbRecv m) \<noteq> [] \<longrightarrow> runnable (st k' (hd (queues k (QMbRecv m))))))"
proof (cases "mb_full m k")
  case False
  have i': "kernel_wf k" "current k \<noteq> None" "mb_ok m k" using i by simp_all
  show ?thesis by (rule mb_put_spec [OF i' False, of v]) (use False in \<open>simp add: mb_send_loop_def\<close>)
next
  case True
  then obtain t where t: "self = Some t" "time \<noteq> 0 \<longrightarrow> caller t k" using full by blast
  show ?thesis
  proof (cases "time = 0")
    case z: True
    then show ?thesis using True t i mb_error_change [of k m t RT_EOK] by (simp add: mb_send_loop_def)
  next
    case False
    then have c: "caller t k" using t by simp
    have mo: "mb_ok m k" and q: "is_wait (QMbSend m)" using i by simp_all
    obtain k' where k': "ipc_block (QMbSend m) t (oflag (objs k (OMb m))) time (no_error t k) = Some k'" "mb_inv m k'"
      "mb_contents m k' = mb_contents m k" "mailboxes k' = mailboxes k"
      by (rule mb_block_spec [OF c mo time q]) blast
    then show ?thesis using True False t callerD(4) [OF no_error_caller [OF c]] by (simp add: mb_send_loop_def)
  qed
qed

lemma mb_recv_loop_spec:
  assumes i: "mb_inv m k" and time: "ok_time time"
    and empty: "mb_entry (mailboxes k m) = 0 \<Longrightarrow> \<exists>t. self = Some t \<and> (time \<noteq> 0 \<longrightarrow> caller t k)"
  shows "\<exists>r v k'. mb_recv_loop m time self k = Some (r, v, k') \<and> mb_inv m k' \<and> mb_size (mailboxes k' m) = mb_size (mailboxes k m) \<and>
    (if mb_entry (mailboxes k m) = 0
     then r = (if time = 0 then Return (- RT_ETIMEOUT) else Blocked) \<and> v = None \<and> mb_contents m k' = mb_contents m k
     else r = Return RT_EOK \<and> (\<exists>x. v = Some x \<and> mb_contents m k = x # mb_contents m k') \<and> queues k' (QMbSend m) = tl (queues k (QMbSend m)) \<and>
       (queues k (QMbSend m) \<noteq> [] \<longrightarrow> runnable (st k' (hd (queues k (QMbSend m))))))"
proof (cases "mb_entry (mailboxes k m) = 0")
  case False
  have i': "kernel_wf k" "current k \<noteq> None" "mb_ok m k" using i by simp_all
  show ?thesis by (rule mb_get_spec [OF i' False]) (use False in \<open>simp add: mb_recv_loop_def\<close>)
next
  case True
  then obtain t where t: "self = Some t" "time \<noteq> 0 \<longrightarrow> caller t k" using empty by blast
  show ?thesis
  proof (cases "time = 0")
    case z: True
    then show ?thesis using True t i mb_error_change [of k m t "- RT_ETIMEOUT"] by (simp add: mb_recv_loop_def)
  next
    case False
    then have c: "caller t k" using t by simp
    have mo: "mb_ok m k" and q: "is_wait (QMbRecv m)" using i by simp_all
    obtain k' where k': "ipc_block (QMbRecv m) t (oflag (objs k (OMb m))) time (no_error t k) = Some k'" "mb_inv m k'"
      "mb_contents m k' = mb_contents m k" "mailboxes k' = mailboxes k"
      by (rule mb_block_spec [OF c mo time q]) blast
    then show ?thesis using True False t callerD(4) [OF no_error_caller [OF c]] by (simp add: mb_recv_loop_def)
  qed
qed

section \<open>The interface\<close>

text \<open>
  Steps that concern one mailbox: sends and receives, by the running thread when they may wait, also from interrupt
  handlers when the time is 0; the continuation of calls that waited; anything else that leaves the mailbox alone.
\<close>

inductive mb_step :: "oid \<Rightarrow> kernel \<Rightarrow> u32 chan_label \<Rightarrow> kernel \<Rightarrow> bool" for m where
  send: "ok_time time \<Longrightarrow> (time \<noteq> 0 \<longrightarrow> (\<exists>c. caller c k)) \<Longrightarrow> rt_mb_send_wait m v time k = Some (r, k') \<Longrightarrow>
    mb_step m k (if r = Return RT_EOK then Put v else Idle) k'"
| send_again: "caller t k \<Longrightarrow> ok_time (time_left time start k) \<Longrightarrow> rt_mb_send_wait_return m v time start t k = Some (r, k') \<Longrightarrow>
    mb_step m k (if r = Return RT_EOK then Put v else Idle) k'"
| recv: "ok_time time \<Longrightarrow> (time \<noteq> 0 \<longrightarrow> (\<exists>c. caller c k)) \<Longrightarrow> rt_mb_recv m time k = Some (r, v, k') \<Longrightarrow>
    mb_step m k (case v of None \<Rightarrow> Idle | Some x \<Rightarrow> Got x) k'"
| recv_again: "caller t k \<Longrightarrow> ok_time (time_left time start k) \<Longrightarrow> rt_mb_recv_return m time start t k = Some (r, v, k') \<Longrightarrow>
    mb_step m k (case v of None \<Rightarrow> Idle | Some x \<Rightarrow> Got x) k'"
| environment: "kernel_wf k' \<Longrightarrow> current k' \<noteq> None \<Longrightarrow> mailboxes k' m = mailboxes k m \<Longrightarrow> objs k' (OMb m) = objs k (OMb m) \<Longrightarrow>
    mb_step m k Idle k'"

text \<open>What one step does to the contents.\<close>

definition chan_effect :: "'m list \<Rightarrow> 'm chan_label \<Rightarrow> 'm list \<Rightarrow> bool" where
  "chan_effect xs l ys \<longleftrightarrow>
     (case l of Put m \<Rightarrow> ys = xs @ [m] | Urgent m \<Rightarrow> ys = m # xs | Got m \<Rightarrow> xs = m # ys | Idle \<Rightarrow> ys = xs)"

lemma err_neq [simp]: "RT_EFULL \<noteq> 0" "RT_ETIMEOUT \<noteq> 0" "RT_EOK = 0" "RT_ERROR \<noteq> 0"
  by (simp_all add: rt_err_defs)

lemma rt_mb_send_wait_spec:
  assumes i: "mb_inv m k" and time: "ok_time time" "time \<noteq> 0 \<Longrightarrow> \<exists>c. caller c k"
  shows "\<exists>r k'. rt_mb_send_wait m v time k = Some (r, k') \<and> mb_inv m k' \<and> mb_size (mailboxes k' m) = mb_size (mailboxes k m) \<and>
    (if mb_full m k then r = (if time = 0 then Return (- RT_EFULL) else Blocked) \<and> mb_contents m k' = mb_contents m k
     else r = Return RT_EOK \<and> mb_contents m k' = mb_contents m k @ [v] \<and> queues k' (QMbRecv m) = tl (queues k (QMbRecv m)) \<and>
       (queues k (QMbRecv m) \<noteq> [] \<longrightarrow> runnable (st k' (hd (queues k (QMbRecv m))))))"
proof (cases "mb_full m k \<and> time = 0")
  case True
  then show ?thesis using i by (simp add: rt_mb_send_wait_def mb_ok_def)
next
  case False
  have "\<exists>t. rt_thread_self k = Some t \<and> (time \<noteq> 0 \<longrightarrow> caller t k)" if "mb_full m k"
    using that False time(2) callerD(5) by blast
  from mb_send_loop_spec [OF i time(1) this, of v] show ?thesis using False i
    by (simp add: rt_mb_send_wait_def mb_ok_def)
qed

lemma rt_mb_recv_spec:
  assumes i: "mb_inv m k" and time: "ok_time time" "time \<noteq> 0 \<Longrightarrow> \<exists>c. caller c k"
  shows "\<exists>r v k'. rt_mb_recv m time k = Some (r, v, k') \<and> mb_inv m k' \<and> mb_size (mailboxes k' m) = mb_size (mailboxes k m) \<and>
    (if mb_entry (mailboxes k m) = 0
     then r = (if time = 0 then Return (- RT_ETIMEOUT) else Blocked) \<and> v = None \<and> mb_contents m k' = mb_contents m k
     else r = Return RT_EOK \<and> (\<exists>x. v = Some x \<and> mb_contents m k = x # mb_contents m k') \<and> queues k' (QMbSend m) = tl (queues k (QMbSend m)) \<and>
       (queues k (QMbSend m) \<noteq> [] \<longrightarrow> runnable (st k' (hd (queues k (QMbSend m))))))"
proof (cases "mb_entry (mailboxes k m) = 0 \<and> time = 0")
  case True
  then show ?thesis using i by (simp add: rt_mb_recv_def mb_ok_def)
next
  case False
  have "\<exists>t. rt_thread_self k = Some t \<and> (time \<noteq> 0 \<longrightarrow> caller t k)" if "mb_entry (mailboxes k m) = 0"
    using that False time(2) callerD(5) by blast
  from mb_recv_loop_spec [OF i time(1) this] show ?thesis using False i
    by (simp add: rt_mb_recv_def mb_ok_def)
qed

lemma mb_step_spec:
  assumes "mb_step m k l k'" and i: "mb_inv m k"
  shows "mb_inv m k' \<and> mb_size (mailboxes k' m) = mb_size (mailboxes k m) \<and> chan_effect (mb_contents m k) l (mb_contents m k')"
  using assms(1)
proof (cases rule: mb_step.cases)
  case (send time v r)
  have "time \<noteq> 0 \<Longrightarrow> \<exists>c. caller c k" using send by simp
  from rt_mb_send_wait_spec [OF i send(2) this, of v] send(1,4) show ?thesis by (auto simp: chan_effect_def split: if_splits)
next
  case (send_again t time start v r)
  show ?thesis
  proof (cases "terror (thr k t) = RT_EOK")
    case True
    have "\<exists>u. Some t = Some u \<and> (time_left time start k \<noteq> 0 \<longrightarrow> caller u k)" using send_again(2) by simp
    from mb_send_loop_spec [OF i send_again(3) this, of v] send_again(1,4) True show ?thesis
      by (auto simp: rt_mb_send_wait_return_def chan_effect_def split: if_splits)
  qed (use send_again(1,4) i in \<open>auto simp: rt_mb_send_wait_return_def chan_effect_def\<close>)
next
  case (recv time r v)
  have "time \<noteq> 0 \<Longrightarrow> \<exists>c. caller c k" using recv by simp
  from rt_mb_recv_spec [OF i recv(2) this] recv(1,4) show ?thesis by (auto simp: chan_effect_def split: if_splits)
next
  case (recv_again t time start r v)
  show ?thesis
  proof (cases "terror (thr k t) = RT_EOK")
    case True
    have "\<exists>u. Some t = Some u \<and> (time_left time start k \<noteq> 0 \<longrightarrow> caller u k)" using recv_again(2) by simp
    from mb_recv_loop_spec [OF i recv_again(3) this] recv_again(1,4) True show ?thesis
      by (auto simp: rt_mb_recv_return_def chan_effect_def split: if_splits)
  qed (use recv_again(1,4) i in \<open>auto simp: rt_mb_recv_return_def chan_effect_def\<close>)
next
  case environment
  then show ?thesis using i by (simp add: chan_effect_def mb_ok_def mb_contents_def rt_object_get_type_def)
qed

interpretation mb: channel "mb_step m" "mb_inv m" "mb_contents m" "\<lambda>k. unat (mb_size (mailboxes k m))" for m
proof (unfold_locales, goal_cases)
  case (1 k l k') then show ?case using mb_step_spec [OF 1(2,1)] by simp
next
  case (2 k x k') then show ?case using mb_step_spec [OF 2(2,1)] by (simp add: chan_effect_def)
next
  case (3 k x k') then show ?case using mb_step_spec [OF 3(2,1)] by (simp add: chan_effect_def)
next
  case (4 k x k') then show ?case using mb_step_spec [OF 4(2,1)] by (simp add: chan_effect_def)
next
  case (5 k k') then show ?case using mb_step_spec [OF 5(2,1)] by (simp add: chan_effect_def)
next
  case (6 k) then show ?case by (simp add: mb_contents_def mb_ok_def ring_wf_def ring_list_def Let_def)
qed

section \<open>A sample mailbox\<close>

text \<open>Mailbox 8 of the sample kernel: two cells, one of them filled with 11, the next one is the first cell again.\<close>

definition sample_mb :: kernel where
  "sample_mb = upd_mb 8 (\<lambda>_. \<lparr>mb_pool = [0, 11], mb_size = 2, mb_entry = 1, in_offset = 0, out_offset = 1\<rparr>)
     (upd_obj (OMb 8) (\<lambda>_. \<lparr>oname = ''mb'', otype = 0x85, oflag = 0\<rparr>) sample)"

lemma sample_mb_caller: "caller 5 sample_mb"
  using sample_caller by (simp add: caller_def sample_mb_def kernel_wf_upd_obj del: ipc_class.simps)

lemma sample_mb_inv: "mb_inv 8 sample_mb"
  using callerD(1,2) [OF sample_mb_caller]
  by (simp add: mb_ok_def ring_wf_def) (simp add: sample_mb_def rt_object_get_type_def class_defs good_flag_def RT_IPC_FLAG_FIFO_def)

lemma sample_mb_contents: "mb_contents 8 sample_mb = [11]" "\<not> mb_full 8 sample_mb" "mb_size (mailboxes sample_mb 8) = 2"
  "queues sample_mb (QMbRecv 8) = []"
  by (simp_all add: mb_contents_def sample_mb_def ring_list_def three_def boot_def)

section \<open>Properties\<close>

text \<open>
  C21: a mailbox is a bounded first-in-first-out channel. Over any run of sends, receives, resumed calls and unrelated
  kernel activity, the values in the mailbox followed by those sent equal those received followed by those left; at no
  time are there more values than cells, and the kernel stays well-formed.
\<close>

theorem mailbox_fifo:
  assumes "runs (mb_step m) k ls k'" "kernel_wf k" "current k \<noteq> None" "mb_ok m k" "urgent ls = []"
  shows "mb_contents m k @ sent ls = got ls @ mb_contents m k' \<and> kernel_wf k' \<and> mb_ok m k' \<and>
    length (mb_contents m k') \<le> unat (mb_size (mailboxes k m))"
proof -
  have i: "mb_inv m k" using assms(2-4) by simp
  have j: "mb_inv m k'" "unat (mb_size (mailboxes k' m)) = unat (mb_size (mailboxes k m))" using mb.inv_runs [OF assms(1) i] by simp_all
  show ?thesis using mb.runs_fifo [OF assms(1) i assms(5)] mb.bounded [OF j(1)] j by simp
qed

theorem mailbox_fifo_witness:
  "\<exists>k'. runs (mb_step 8) sample_mb [Put 22, Got 11] k' \<and> mb_contents 8 k' = [22]"
proof -
  have t: "ok_time 0" by (simp add: ok_time_def half_def)
  obtain k1 where k1: "rt_mb_send_wait 8 22 0 sample_mb = Some (Return RT_EOK, k1)" "mb_inv 8 k1" "mb_contents 8 k1 = [11, 22]"
    using rt_mb_send_wait_spec [OF sample_mb_inv t, of 22] sample_mb_contents by auto
  have ne: "mb_entry (mailboxes k1 8) \<noteq> 0" using k1(3) by (auto simp: mb_contents_def ring_list_def Let_def)
  obtain x k2 where k2: "rt_mb_recv 8 0 k1 = Some (Return RT_EOK, Some x, k2)" "mb_contents 8 k1 = x # mb_contents 8 k2"
    using rt_mb_recv_spec [OF k1(2) t] ne by auto
  have x: "x = 11" using k1(3) k2(2) by simp
  have s1: "mb_step 8 sample_mb (Put 22) k1" using mb_step.send [OF t _ k1(1)] by simp
  have s2: "mb_step 8 k1 (Got 11) k2" using mb_step.recv [OF t _ k2(1)] x by simp
  have r: "runs (mb_step 8) sample_mb [Put 22, Got 11] k2" by (rule runs_two [where step = "mb_step 8", OF s1 s2])
  have i: "kernel_wf sample_mb" "current sample_mb \<noteq> None" "mb_ok 8 sample_mb" using sample_mb_inv by simp_all
  from mailbox_fifo [OF r i] sample_mb_contents(1) r show ?thesis by (intro exI [of _ k2]) simp
qed

text \<open>
  Every outcome of \<open>rt_mb_send_wait\<close>. With room the value is appended, the first waiting receiver becomes
  runnable, and the call returns \<open>RT_EOK\<close>; a full mailbox gives \<open>-RT_EFULL\<close> at time 0 and otherwise suspends the caller.
\<close>

theorem mailbox_send_outcome:
  assumes i: "kernel_wf k" "current k \<noteq> None" "mb_ok m k" and time: "ok_time time" "time \<noteq> 0 \<longrightarrow> (\<exists>c. caller c k)"
  shows "\<exists>r k'. rt_mb_send_wait m v time k = Some (r, k') \<and> kernel_wf k' \<and> mb_ok m k' \<and>
    (if mb_entry (mailboxes k m) = mb_size (mailboxes k m)
     then r = (if time = 0 then Return (- RT_EFULL) else Blocked) \<and> mb_contents m k' = mb_contents m k
     else r = Return RT_EOK \<and> mb_contents m k' = mb_contents m k @ [v] \<and> queues k' (QMbRecv m) = tl (queues k (QMbRecv m)) \<and>
       (queues k (QMbRecv m) \<noteq> [] \<longrightarrow> runnable (st k' (hd (queues k (QMbRecv m))))))"
proof -
  have "mb_inv m k" "time \<noteq> 0 \<Longrightarrow> \<exists>c. caller c k" using i time by simp_all
  from rt_mb_send_wait_spec [OF this(1) time(1) this(2), of v] show ?thesis by blast
qed

theorem mailbox_send_outcome_witness:
  "\<exists>k'. rt_mb_send_wait 8 22 100 sample_mb = Some (Return RT_EOK, k') \<and> mb_contents 8 k' = [11, 22]"
proof -
  have t: "ok_time 100" "(100 :: int) \<noteq> 0 \<longrightarrow> (\<exists>c. caller c sample_mb)"
    using sample_mb_caller by (auto simp: ok_time_def half_def)
  have i: "kernel_wf sample_mb" "current sample_mb \<noteq> None" "mb_ok 8 sample_mb" using sample_mb_inv by simp_all
  from mailbox_send_outcome [OF i t, of 22] sample_mb_contents show ?thesis by auto
qed

end
