(* ===== verification/Message_Queue.thy ===== *)
theory Message_Queue
  imports Mailbox
begin

text \<open>
  Message queues of \<^verbatim>\<open>rt-thread/src/ipc.c\<close>: messages of a fixed size in the nodes of a pool, linked into the
  queue or into the free list. A node that a call has taken from one list and not yet put into the other, while
  interrupts are enabled and it copies the bytes, is in flight; the invariant allows for any number of such nodes, so it
  holds at the moments at which another thread or an interrupt handler may run.
\<close>

section \<open>Operations\<close>

abbreviation upd_mq :: "oid \<Rightarrow> (rt_messagequeue \<Rightarrow> rt_messagequeue) \<Rightarrow> kernel \<Rightarrow> kernel" where
  "upd_mq m f k \<equiv> k\<lparr>mqs := (mqs k)(m := f (mqs k m))\<rparr>"

text \<open>The loop that links all nodes into the free list.\<close>

fun mq_free_all :: "nat \<Rightarrow> rt_messagequeue \<Rightarrow> rt_messagequeue" where
  "mq_free_all 0 mq = mq"
| "mq_free_all (Suc n) mq =
     (let mq = mq_free_all n mq in mq\<lparr>mq_next := (mq_next mq)(n := msg_queue_free mq), msg_queue_free := Some n\<rparr>)"

definition mq_setup :: "u16 \<Rightarrow> u16 \<Rightarrow> (nat \<Rightarrow> u8 list) \<Rightarrow> rt_messagequeue" where
  "mq_setup msz n body =
     mq_free_all (unat n) \<lparr>msg_size = msz, max_msgs = n, mq_entry = 0, mq_next = (\<lambda>_. None), mq_data = body,
       msg_queue_head = None, msg_queue_tail = None, msg_queue_free = None\<rparr>"

text \<open>\<open>body\<close> holds the bytes of the pool behind each node header; \<^verbatim>\<open>sizeof(struct rt_mq_message)\<close> is 4.\<close>

definition rt_mq_init :: "oid \<Rightarrow> string \<Rightarrow> (nat \<Rightarrow> u8 list) \<Rightarrow> u32 \<Rightarrow> u32 \<Rightarrow> u8 \<Rightarrow> kernel \<Rightarrow> (rt_err_t \<times> kernel) option" where
  "rt_mq_init m name body msz psz flag k = do {
     k \<leftarrow> rt_object_init (OMq m) RT_Object_Class_MessageQueue name k;
     let k = upd_obj (OMq m) (\<lambda>ob. ob\<lparr>oflag := flag\<rparr>) k;
     let k = rt_ipc_object_init (QMqRecv m) k;
     let msz16 = (ucast (rt_align_up msz (of_nat RT_ALIGN_SIZE)) :: u16);
     let n = (ucast (psz div (ucast msz16 + 4)) :: u16);
     let k = upd_mq m (\<lambda>_. mq_setup msz16 n body) k;
     Some (RT_EOK, rt_ipc_object_init (QMqSend m) k) }"

definition rt_mq_detach :: "oid \<Rightarrow> kernel \<Rightarrow> (rt_err_t \<times> kernel) option" where
  "rt_mq_detach m k = do {
     rt_assert (rt_object_get_type (OMq m) k = RT_Object_Class_MessageQueue);
     rt_assert (rt_object_is_systemobject (OMq m) k);
     k \<leftarrow> rt_ipc_list_resume_all (QMqRecv m) k;
     k \<leftarrow> rt_ipc_list_resume_all (QMqSend m) k;
     Some (RT_EOK, rt_object_detach (OMq m) k) }"

definition rt_mq_create ::
  "oid option \<Rightarrow> (nat \<Rightarrow> u8 list) option \<Rightarrow> string \<Rightarrow> u32 \<Rightarrow> u32 \<Rightarrow> u8 \<Rightarrow> kernel \<Rightarrow> (oid option \<times> kernel) option" where
  "rt_mq_create mem pool name msz n flag k = do {
     RT_DEBUG_NOT_IN_INTERRUPT k;
     (r, k) \<leftarrow> rt_object_allocate (map_option OMq mem) RT_Object_Class_MessageQueue name k;
     case mem of
       None \<Rightarrow> Some (None, k)
     | Some m \<Rightarrow> do {
         let k = upd_obj (OMq m) (\<lambda>ob. ob\<lparr>oflag := flag\<rparr>) k;
         let k = rt_ipc_object_init (QMqRecv m) k;
         let msz16 = (ucast (rt_align_up msz (of_nat RT_ALIGN_SIZE)) :: u16);
         let k = upd_mq m (\<lambda>mq. mq\<lparr>msg_size := msz16, max_msgs := ucast n\<rparr>) k;
         case pool of
           None \<Rightarrow> do { k \<leftarrow> rt_object_delete (OMq m) k; Some (None, k) }
         | Some body \<Rightarrow>
             let k = upd_mq m (\<lambda>_. mq_setup msz16 (ucast n) body) k
             in Some (Some m, rt_ipc_object_init (QMqSend m) k) } }"

definition rt_mq_delete :: "oid \<Rightarrow> kernel \<Rightarrow> (rt_err_t \<times> kernel) option" where
  "rt_mq_delete m k = do {
     RT_DEBUG_NOT_IN_INTERRUPT k;
     rt_assert (rt_object_get_type (OMq m) k = RT_Object_Class_MessageQueue);
     rt_assert (\<not> rt_object_is_systemobject (OMq m) k);
     k \<leftarrow> rt_ipc_list_resume_all (QMqRecv m) k;
     k \<leftarrow> rt_ipc_list_resume_all (QMqSend m) k;
     k \<leftarrow> rt_object_delete (OMq m) k;
     Some (RT_EOK, k) }"

text \<open>The sections of the calls, each run with interrupts disabled, and the copies between them.\<close>

definition mq_alloc :: "nat \<Rightarrow> rt_messagequeue \<Rightarrow> rt_messagequeue" where
  "mq_alloc n mq = mq\<lparr>msg_queue_free := mq_next mq n\<rparr>"

definition mq_fill :: "nat \<Rightarrow> u8 list \<Rightarrow> rt_messagequeue \<Rightarrow> rt_messagequeue option" where
  "mq_fill n bs mq = do {
     d \<leftarrow> buf_write (mq_data mq n) 0 bs;
     Some (mq\<lparr>mq_data := (mq_data mq)(n := d)\<rparr>) }"

definition mq_link_tail :: "nat \<Rightarrow> rt_messagequeue \<Rightarrow> rt_messagequeue" where
  "mq_link_tail n mq =
     (let mq = (case msg_queue_tail mq of None \<Rightarrow> mq | Some t \<Rightarrow> mq\<lparr>mq_next := (mq_next mq)(t := Some n)\<rparr>);
          mq = mq\<lparr>msg_queue_tail := Some n\<rparr>;
          mq = (if msg_queue_head mq = None then mq\<lparr>msg_queue_head := Some n\<rparr> else mq)
      in mq\<lparr>mq_entry := mq_entry mq + 1\<rparr>)"

definition mq_link_head :: "nat \<Rightarrow> rt_messagequeue \<Rightarrow> rt_messagequeue" where
  "mq_link_head n mq =
     (let mq = mq\<lparr>mq_next := (mq_next mq)(n := msg_queue_head mq), msg_queue_head := Some n\<rparr>;
          mq = (if msg_queue_tail mq = None then mq\<lparr>msg_queue_tail := Some n\<rparr> else mq)
      in mq\<lparr>mq_entry := mq_entry mq + 1\<rparr>)"

definition mq_unhook :: "nat \<Rightarrow> rt_messagequeue \<Rightarrow> rt_messagequeue" where
  "mq_unhook n mq =
     (let mq = mq\<lparr>msg_queue_head := mq_next mq n\<rparr>
      in if msg_queue_tail mq = Some n then mq\<lparr>msg_queue_tail := None\<rparr> else mq)"

definition mq_unlink :: "nat \<Rightarrow> rt_messagequeue \<Rightarrow> rt_messagequeue" where
  "mq_unlink n mq = (let mq = mq_unhook n mq in mq\<lparr>mq_entry := mq_entry mq - 1\<rparr>)"

definition mq_give_back :: "nat \<Rightarrow> rt_messagequeue \<Rightarrow> rt_messagequeue" where
  "mq_give_back n mq = mq\<lparr>mq_next := (mq_next mq)(n := msg_queue_free mq), msg_queue_free := Some n\<rparr>"

text \<open>The parts of the calls after their loops.\<close>

definition mq_put :: "oid \<Rightarrow> nat \<Rightarrow> u8 list \<Rightarrow> kernel \<Rightarrow> (ipc_result \<times> kernel) option" where
  "mq_put m n bs k = do {
     let k = upd_mq m (mq_alloc n) k;
     let k = upd_mq m (\<lambda>mq. mq\<lparr>mq_next := (mq_next mq)(n := None)\<rparr>) k;
     mq \<leftarrow> mq_fill n bs (mqs k m);
     let k = upd_mq m (\<lambda>_. mq_link_tail n mq) k;
     k \<leftarrow> (if queues k (QMqRecv m) \<noteq> [] then ipc_wake (QMqRecv m) k else Some k);
     Some (Return RT_EOK, k) }"

definition mq_get :: "oid \<Rightarrow> u32 \<Rightarrow> kernel \<Rightarrow> (ipc_result \<times> u8 list option \<times> kernel) option" where
  "mq_get m sz k = do {
     n \<leftarrow> msg_queue_head (mqs k m);
     let k = upd_mq m (mq_unlink n) k;
     bs \<leftarrow> buf_read (mq_data (mqs k m) n) 0 (min (unat sz) (unat (msg_size (mqs k m))));
     let k = upd_mq m (mq_give_back n) k;
     k \<leftarrow> (if queues k (QMqSend m) \<noteq> [] then ipc_wake (QMqSend m) k else Some k);
     Some (Return RT_EOK, Some bs, k) }"

definition mq_send_loop :: "oid \<Rightarrow> u8 list \<Rightarrow> int \<Rightarrow> tid option \<Rightarrow> kernel \<Rightarrow> (ipc_result \<times> kernel) option" where
  "mq_send_loop m bs time self k =
     (case msg_queue_free (mqs k m) of
        None \<Rightarrow> do {
          t \<leftarrow> self;
          let k = upd_thr t (\<lambda>th. th\<lparr>terror := RT_EOK\<rparr>) k;
          if time = 0 then Some (Return (- RT_EFULL), k)
          else do {
            RT_DEBUG_IN_THREAD_CONTEXT k;
            k \<leftarrow> ipc_block (QMqSend m) t (oflag (objs k (OMq m))) time k;
            Some (Blocked, k) } }
      | Some n \<Rightarrow> mq_put m n bs k)"

definition mq_recv_loop :: "oid \<Rightarrow> u32 \<Rightarrow> int \<Rightarrow> tid option \<Rightarrow> kernel \<Rightarrow> (ipc_result \<times> u8 list option \<times> kernel) option" where
  "mq_recv_loop m sz time self k =
     (if mq_entry (mqs k m) = 0 then do {
        RT_DEBUG_IN_THREAD_CONTEXT k;
        t \<leftarrow> self;
        let k = upd_thr t (\<lambda>th. th\<lparr>terror := RT_EOK\<rparr>) k;
        if time = 0 then Some (Return (- RT_ETIMEOUT), None, upd_thr t (\<lambda>th. th\<lparr>terror := - RT_ETIMEOUT\<rparr>) k)
        else do {
          k \<leftarrow> ipc_block (QMqRecv m) t (oflag (objs k (OMq m))) time k;
          Some (Blocked, None, k) } }
      else mq_get m sz k)"

text \<open>\<open>bs\<close> is the caller's buffer, \<open>sz\<close> the size it passes.\<close>

definition rt_mq_send_wait :: "oid \<Rightarrow> u8 list \<Rightarrow> u32 \<Rightarrow> int \<Rightarrow> kernel \<Rightarrow> (ipc_result \<times> kernel) option" where
  "rt_mq_send_wait m buf sz time k = do {
     rt_assert (rt_object_get_type (OMq m) k = RT_Object_Class_MessageQueue);
     rt_assert (sz \<noteq> 0);
     if sz > ucast (msg_size (mqs k m)) then Some (Return (- RT_ERROR), k)
     else if msg_queue_free (mqs k m) = None \<and> time = 0 then Some (Return (- RT_EFULL), k)
     else do {
       bs \<leftarrow> buf_read buf 0 (unat sz);
       mq_send_loop m bs time (rt_thread_self k) k } }"

definition rt_mq_send_wait_return :: "oid \<Rightarrow> u8 list \<Rightarrow> u32 \<Rightarrow> int \<Rightarrow> u32 \<Rightarrow> tid \<Rightarrow> kernel \<Rightarrow> (ipc_result \<times> kernel) option" where
  "rt_mq_send_wait_return m buf sz time start t k =
     (if terror (thr k t) \<noteq> RT_EOK then Some (Return (terror (thr k t)), k)
      else do {
        bs \<leftarrow> buf_read buf 0 (unat sz);
        mq_send_loop m bs (time_left time start k) (Some t) k })"

definition rt_mq_send :: "oid \<Rightarrow> u8 list \<Rightarrow> u32 \<Rightarrow> kernel \<Rightarrow> (ipc_result \<times> kernel) option" where
  "rt_mq_send m buf sz k = rt_mq_send_wait m buf sz 0 k"

definition rt_mq_urgent :: "oid \<Rightarrow> u8 list \<Rightarrow> u32 \<Rightarrow> kernel \<Rightarrow> (rt_err_t \<times> kernel) option" where
  "rt_mq_urgent m buf sz k = do {
     rt_assert (rt_object_get_type (OMq m) k = RT_Object_Class_MessageQueue);
     rt_assert (sz \<noteq> 0);
     if sz > ucast (msg_size (mqs k m)) then Some (- RT_ERROR, k)
     else case msg_queue_free (mqs k m) of
       None \<Rightarrow> Some (- RT_EFULL, k)
     | Some n \<Rightarrow> do {
         let k = upd_mq m (mq_alloc n) k;
         bs \<leftarrow> buf_read buf 0 (unat sz);
         mq \<leftarrow> mq_fill n bs (mqs k m);
         let k = upd_mq m (\<lambda>_. mq_link_head n mq) k;
         k \<leftarrow> (if queues k (QMqRecv m) \<noteq> [] then ipc_wake (QMqRecv m) k else Some k);
         Some (RT_EOK, k) } }"

definition rt_mq_recv :: "oid \<Rightarrow> u32 \<Rightarrow> int \<Rightarrow> kernel \<Rightarrow> (ipc_result \<times> u8 list option \<times> kernel) option" where
  "rt_mq_recv m sz time k = do {
     rt_assert (rt_object_get_type (OMq m) k = RT_Object_Class_MessageQueue);
     rt_assert (sz \<noteq> 0);
     if mq_entry (mqs k m) = 0 \<and> time = 0 then Some (Return (- RT_ETIMEOUT), None, k)
     else mq_recv_loop m sz time (rt_thread_self k) k }"

definition rt_mq_recv_return :: "oid \<Rightarrow> u32 \<Rightarrow> int \<Rightarrow> u32 \<Rightarrow> tid \<Rightarrow> kernel \<Rightarrow> (ipc_result \<times> u8 list option \<times> kernel) option" where
  "rt_mq_recv_return m sz time start t k =
     (if terror (thr k t) \<noteq> RT_EOK then Some (Return (terror (thr k t)), None, k)
      else mq_recv_loop m sz (time_left time start k) (Some t) k)"

text \<open>The loop of the reset command, which gives all queued nodes back.\<close>

partial_function (option) mq_drain :: "rt_messagequeue \<Rightarrow> rt_messagequeue option" where
  "mq_drain mq =
     (case msg_queue_head mq of
        None \<Rightarrow> Some mq
      | Some n \<Rightarrow>
          mq_drain (mq_give_back n (mq_unhook n mq)))"

definition rt_mq_control :: "oid \<Rightarrow> ipc_cmd \<Rightarrow> kernel \<Rightarrow> (rt_err_t \<times> kernel) option" where
  "rt_mq_control m cmd k = do {
     rt_assert (rt_object_get_type (OMq m) k = RT_Object_Class_MessageQueue);
     case cmd of
       RT_IPC_CMD_RESET _ \<Rightarrow> do {
         k \<leftarrow> rt_ipc_list_resume_all (QMqRecv m) k;
         k \<leftarrow> rt_ipc_list_resume_all (QMqSend m) k;
         mq \<leftarrow> mq_drain (mqs k m);
         k \<leftarrow> rt_schedule (upd_mq m (\<lambda>_. mq\<lparr>mq_entry := 0\<rparr>) k);
         Some (RT_EOK, k) }
     | RT_IPC_CMD_other \<Rightarrow> Some (- RT_ERROR, k) }"

section \<open>Linked nodes\<close>

fun chain :: "(nat \<Rightarrow> nat option) \<Rightarrow> nat option \<Rightarrow> nat list \<Rightarrow> bool" where
  "chain nx p [] \<longleftrightarrow> p = None"
| "chain nx p (x # xs) \<longleftrightarrow> p = Some x \<and> chain nx (nx x) xs"

fun walk :: "(nat \<Rightarrow> nat option) \<Rightarrow> nat option \<Rightarrow> nat \<Rightarrow> nat list" where
  "walk nx p 0 = []"
| "walk nx None (Suc n) = []"
| "walk nx (Some x) (Suc n) = x # walk nx (nx x) n"

lemma walk_chain: "chain nx p xs \<Longrightarrow> walk nx p (length xs) = xs"
  by (induction xs arbitrary: p) auto

lemma chain_upd [simp]: "y \<notin> set xs \<Longrightarrow> chain (nx(y := v)) p xs = chain nx p xs"
  by (induction xs arbitrary: p) auto

lemma chain_snoc:
  assumes "chain nx p xs" "xs \<noteq> []" "distinct xs" "y \<notin> set xs" "nx y = None"
  shows "chain (nx(last xs := Some y)) p (xs @ [y])"
  using assms
proof (induction xs arbitrary: p)
  case (Cons x xs)
  show ?case
  proof (cases "xs = []")
    case False
    then have "last xs \<noteq> x" using Cons.prems by (metis distinct.simps(2) last_in_set)
    then show ?thesis using Cons False by auto
  qed (use Cons.prems in auto)
qed simp

text \<open>
  The invariant of the pool: \<open>qs\<close> are the queued nodes in order, \<open>fs\<close> the free ones, \<open>hs\<close> those in flight; each node of
  the pool is exactly one of them.
\<close>

definition mq_links :: "rt_messagequeue \<Rightarrow> nat list \<Rightarrow> nat list \<Rightarrow> nat list \<Rightarrow> bool" where
  "mq_links mq qs fs hs \<longleftrightarrow>
     chain (mq_next mq) (msg_queue_head mq) qs \<and> msg_queue_tail mq = (if qs = [] then None else Some (last qs)) \<and>
     chain (mq_next mq) (msg_queue_free mq) fs \<and> distinct (qs @ fs @ hs) \<and> set (qs @ fs @ hs) = {..<unat (max_msgs mq)} \<and>
     (\<forall>n<unat (max_msgs mq). length (mq_data mq n) = unat (msg_size mq))"

definition mq_wf :: "rt_messagequeue \<Rightarrow> nat list \<Rightarrow> nat list \<Rightarrow> nat list \<Rightarrow> bool" where
  "mq_wf mq qs fs hs \<longleftrightarrow> mq_links mq qs fs hs \<and> unat (mq_entry mq) = length qs"

lemma mq_wf_count: "mq_wf mq qs fs hs \<Longrightarrow> length qs + length fs + length hs = unat (max_msgs mq)"
  unfolding mq_wf_def mq_links_def by (metis add.assoc card_lessThan distinct_card length_append)

lemma mq_wf_free: "mq_wf mq qs fs hs \<Longrightarrow> msg_queue_free mq = None \<longleftrightarrow> fs = []"
  "mq_wf mq qs fs hs \<Longrightarrow> msg_queue_free mq = Some n \<Longrightarrow> \<exists>fs'. fs = n # fs'"
  by (cases fs; auto simp: mq_wf_def mq_links_def)+

lemma mq_wf_head: "mq_wf mq qs fs hs \<Longrightarrow> mq_entry mq = 0 \<longleftrightarrow> qs = []"
  by (auto simp: mq_wf_def mq_links_def unat_eq_0)

lemma mq_alloc_wf: "mq_wf mq qs (n # fs) hs \<Longrightarrow> mq_wf (mq_alloc n mq) qs fs (n # hs)"
  by (auto simp: mq_wf_def mq_links_def mq_alloc_def)

lemma mq_clear_wf:
  "mq_wf mq qs fs hs \<Longrightarrow> n \<in> set hs \<Longrightarrow> mq_wf (mq\<lparr>mq_next := (mq_next mq)(n := v)\<rparr>) qs fs hs"
  by (subgoal_tac "n \<notin> set qs \<and> n \<notin> set fs") (auto simp: mq_wf_def mq_links_def)

lemma mq_fill_wf:
  assumes "mq_wf mq qs fs hs" "n \<in> set hs" "length bs \<le> unat (msg_size mq)"
  shows "mq_fill n bs mq = Some (mq\<lparr>mq_data := (mq_data mq)(n := bs @ drop (length bs) (mq_data mq n))\<rparr>)"
    "mq_wf (mq\<lparr>mq_data := (mq_data mq)(n := bs @ drop (length bs) (mq_data mq n))\<rparr>) qs fs hs"
proof -
  have "n \<in> set (qs @ fs @ hs)" using assms(2) by simp
  then have "n < unat (max_msgs mq)" using assms(1) unfolding mq_wf_def mq_links_def by blast
  then have l: "length (mq_data mq n) = unat (msg_size mq)" using assms(1) by (simp add: mq_wf_def mq_links_def)
  then show "mq_fill n bs mq = Some (mq\<lparr>mq_data := (mq_data mq)(n := bs @ drop (length bs) (mq_data mq n))\<rparr>)"
    using assms(3) by (simp add: mq_fill_def)
  show "mq_wf (mq\<lparr>mq_data := (mq_data mq)(n := bs @ drop (length bs) (mq_data mq n))\<rparr>) qs fs hs"
    using assms l by (simp add: mq_wf_def mq_links_def)
qed

lemma mq_entry_up:
  assumes "mq_wf mq qs fs (n # hs)"
  shows "unat (mq_entry mq + 1) = Suc (length qs)"
proof -
  have "length qs < unat (max_msgs mq)" using mq_wf_count [OF assms] by simp
  moreover have "unat (mq_entry mq) = length qs" using assms by (simp add: mq_wf_def mq_links_def)
  ultimately show ?thesis using unat_add_fit [of "mq_entry mq" 1] unsigned_less [of "max_msgs mq", where 'a = nat] by simp
qed

lemma mq_link_tail_wf:
  assumes w: "mq_wf mq qs fs (n # hs)" and nx: "mq_next mq n = None"
  shows "mq_wf (mq_link_tail n mq) (qs @ [n]) fs hs"
proof -
  have d: "distinct (qs @ fs @ n # hs)" "n \<notin> set qs" "n \<notin> set fs" using w by (auto simp: mq_wf_def mq_links_def)
  have e: "unat (mq_entry mq + 1) = Suc (length qs)" by (rule mq_entry_up [OF w])
  show ?thesis
  proof (cases "qs = []")
    case True
    then show ?thesis using w nx e d by (auto simp: mq_wf_def mq_links_def mq_link_tail_def)
  next
    case False
    have lf: "last qs \<notin> set fs" using d(1) last_in_set [OF False] by auto
    have "chain ((mq_next mq)(last qs := Some n)) (msg_queue_head mq) (qs @ [n])"
      by (rule chain_snoc) (use w nx d False in \<open>auto simp: mq_wf_def mq_links_def\<close>)
    moreover have "msg_queue_head mq \<noteq> None" using w False by (cases qs) (auto simp: mq_wf_def mq_links_def)
    ultimately show ?thesis using w e d lf False by (auto simp: mq_wf_def mq_links_def mq_link_tail_def)
  qed
qed

lemma mq_link_head_wf:
  assumes w: "mq_wf mq qs fs (n # hs)"
  shows "mq_wf (mq_link_head n mq) (n # qs) fs hs"
  using w mq_entry_up [OF w] by (cases qs) (auto simp: mq_wf_def mq_links_def mq_link_head_def)

lemma mq_unhook_links:
  assumes w: "mq_links mq (n # qs) fs hs"
  shows "mq_links (mq_unhook n mq) qs fs (n # hs)"
proof -
  have "last qs \<noteq> n" if "qs \<noteq> []" using w last_in_set [OF that] by (auto simp: mq_links_def)
  then show ?thesis using w by (auto simp: mq_links_def mq_unhook_def Let_def)
qed

lemma mq_unlink_wf:
  assumes w: "mq_wf mq (n # qs) fs hs"
  shows "mq_wf (mq_unlink n mq) qs fs (n # hs)"
proof -
  have e: "unat (mq_entry mq) = Suc (length qs)" "mq_links mq (n # qs) fs hs" using w by (simp_all add: mq_wf_def)
  then have "mq_entry mq \<noteq> 0" by auto
  then have "unat (mq_entry mq - 1) = length qs" using e by (simp add: unat_minus_one)
  moreover have "mq_entry (mq_unhook n mq) = mq_entry mq" by (simp add: mq_unhook_def Let_def)
  ultimately show ?thesis using mq_unhook_links [OF e(2)] by (simp add: mq_wf_def mq_links_def mq_unlink_def)
qed

lemma mq_give_back_links: "mq_links mq qs fs (n # hs) \<Longrightarrow> mq_links (mq_give_back n mq) qs (n # fs) hs"
  by (auto simp: mq_links_def mq_give_back_def)

lemma mq_give_back_wf:
  assumes w: "mq_wf mq qs fs (n # hs)"
  shows "mq_wf (mq_give_back n mq) qs (n # fs) hs"
  using w by (auto simp: mq_wf_def mq_links_def mq_give_back_def)

text \<open>Setting up a queue: all nodes free, in descending order.\<close>

lemma mq_free_all_fields:
  "msg_queue_head (mq_free_all n mq) = msg_queue_head mq" "msg_queue_tail (mq_free_all n mq) = msg_queue_tail mq"
  "max_msgs (mq_free_all n mq) = max_msgs mq" "mq_entry (mq_free_all n mq) = mq_entry mq"
  "mq_data (mq_free_all n mq) = mq_data mq" "msg_size (mq_free_all n mq) = msg_size mq"
  by (induction n) (simp_all add: Let_def)

lemma mq_free_all_chain:
  "msg_queue_free mq = None \<Longrightarrow> chain (mq_next (mq_free_all n mq)) (msg_queue_free (mq_free_all n mq)) (rev [0..<n])"
proof (induction n)
  case (Suc n)
  have "n \<notin> set (rev [0..<n])" by simp
  from chain_upd [OF this] Suc show ?case by (simp add: Let_def del: fun_upd_apply) (simp add: fun_upd_def)
qed simp

lemma mq_setup_wf:
  assumes "\<And>i. i < unat n \<Longrightarrow> length (body i) = unat msz"
  shows "mq_wf (mq_setup msz n body) [] (rev [0..<unat n]) []"
  using assms unfolding mq_wf_def mq_links_def mq_setup_def mq_free_all_fields
  by (auto simp: lessThan_atLeast0 intro!: mq_free_all_chain)

text \<open>The reset loop ends and frees every queued node.\<close>

lemma mq_drain_spec:
  assumes "mq_links mq qs fs hs"
  shows "\<exists>mq'. mq_drain mq = Some mq' \<and> mq_wf (mq'\<lparr>mq_entry := 0\<rparr>) [] (rev qs @ fs) hs"
  using assms
proof (induction qs arbitrary: mq fs)
  case Nil
  then have "msg_queue_head mq = None" by (simp add: mq_links_def)
  then have "mq_drain mq = Some mq" by (subst mq_drain.simps) simp
  then show ?case using Nil by (auto simp: mq_wf_def mq_links_def)
next
  case (Cons n qs)
  have "msg_queue_head mq = Some n" using Cons.prems by (simp add: mq_links_def)
  then have "mq_drain mq = mq_drain (mq_give_back n (mq_unhook n mq))" by (subst mq_drain.simps) simp
  then show ?case using Cons.IH [OF mq_give_back_links [OF mq_unhook_links [OF Cons.prems]]] by simp
qed

section \<open>Effect on a well-formed kernel\<close>

definition mq_messages :: "rt_messagequeue \<Rightarrow> u8 list list" where
  "mq_messages mq = map (mq_data mq) (walk (mq_next mq) (msg_queue_head mq) (unat (mq_entry mq)))"

abbreviation mq_contents :: "oid \<Rightarrow> kernel \<Rightarrow> u8 list list" where
  "mq_contents m k \<equiv> mq_messages (mqs k m)"

lemma mq_messages_wf: "mq_wf mq qs fs hs \<Longrightarrow> mq_messages mq = map (mq_data mq) qs"
  using walk_chain [of "mq_next mq" "msg_queue_head mq" qs] by (simp add: mq_messages_def mq_wf_def mq_links_def)

definition mq_ok :: "oid \<Rightarrow> kernel \<Rightarrow> bool" where
  "mq_ok m k \<longleftrightarrow> rt_object_get_type (OMq m) k = RT_Object_Class_MessageQueue \<and> good_flag (oflag (objs k (OMq m))) \<and>
     (\<exists>qs fs hs. mq_wf (mqs k m) qs fs hs)"

abbreviation mq_inv :: "oid \<Rightarrow> kernel \<Rightarrow> bool" where
  "mq_inv m k \<equiv> kernel_wf k \<and> current k \<noteq> None \<and> mq_ok m k"

lemma mq_ok_upd:
  "mq_ok m k \<Longrightarrow> mq_wf mq qs fs hs \<Longrightarrow> mq_ok m (upd_mq m (\<lambda>_. mq) k)"
  by (auto simp: mq_ok_def rt_object_get_type_def)

lemma mq_ok_side:
  assumes "side k k'"
  shows "mq_ok m k' = mq_ok m k" "mqs k' = mqs k"
  using side_fields(9) [OF assms] side_fields(10,11) [OF assms, of "OMq m"] by (simp_all add: mq_ok_def)

lemma mq_fields [simp]:
  "max_msgs (mq_link_tail n mq) = max_msgs mq" "msg_size (mq_link_tail n mq) = msg_size mq" "mq_data (mq_link_tail n mq) = mq_data mq"
  "max_msgs (mq_link_head n mq) = max_msgs mq" "msg_size (mq_link_head n mq) = msg_size mq" "mq_data (mq_link_head n mq) = mq_data mq"
  "max_msgs (mq_unlink n mq) = max_msgs mq" "msg_size (mq_unlink n mq) = msg_size mq" "mq_data (mq_unlink n mq) = mq_data mq"
  "max_msgs (mq_give_back n mq) = max_msgs mq" "msg_size (mq_give_back n mq) = msg_size mq" "mq_data (mq_give_back n mq) = mq_data mq"
  "max_msgs (mq_alloc n mq) = max_msgs mq" "msg_size (mq_alloc n mq) = msg_size mq" "mq_data (mq_alloc n mq) = mq_data mq"
  by (simp_all add: mq_link_tail_def mq_link_head_def mq_unlink_def mq_unhook_def mq_give_back_def mq_alloc_def Let_def split: option.splits)

text \<open>Replacing the queue record and waking one partner: what all calls end with.\<close>

lemma mq_finish:
  assumes i: "mq_inv m k" and w: "mq_wf mq qs fs hs" and q: "is_wait q"
  obtains k' where "(if queues (upd_mq m (\<lambda>_. mq) k) q \<noteq> [] then ipc_wake q (upd_mq m (\<lambda>_. mq) k) else Some (upd_mq m (\<lambda>_. mq) k)) = Some k'"
    "mq_inv m k'" "mqs k' m = mq" "queues k' q = tl (queues k q)" "queues k q \<noteq> [] \<longrightarrow> runnable (st k' (hd (queues k q)))"
proof -
  let ?k1 = "upd_mq m (\<lambda>_. mq) k"
  have w1: "kernel_wf ?k1" "current ?k1 \<noteq> None" using i by simp_all
  obtain k' where k': "(if queues ?k1 q \<noteq> [] then ipc_wake q ?k1 else Some ?k1) = Some k'" "kernel_wf k'" "side ?k1 k'" "current k' \<noteq> None"
    "queues k' q = tl (queues ?k1 q)" "queues ?k1 q \<noteq> [] \<longrightarrow> runnable (st k' (hd (queues ?k1 q)))"
    "\<forall>u. but_stat (thr k' u) = but_stat (thr ?k1 u)"
    using wake_if_any [OF w1 q] .
  have "mq_ok m ?k1" using mq_ok_upd [OF _ w] i by simp
  then show thesis using k' mq_ok_side(1) [OF k'(3), of m] mq_ok_side(2) [OF k'(3)] by (intro that [of k']) simp_all
qed

lemma mq_put_spec:
  assumes i: "mq_inv m k" and n: "msg_queue_free (mqs k m) = Some n" and l: "length bs \<le> unat (msg_size (mqs k m))"
  obtains k' where "mq_put m n bs k = Some (Return RT_EOK, k')" "mq_inv m k'"
    "mq_contents m k' = mq_contents m k @ [bs @ drop (length bs) (mq_data (mqs k m) n)]"
    "max_msgs (mqs k' m) = max_msgs (mqs k m)" "queues k' (QMqRecv m) = tl (queues k (QMqRecv m))"
    "queues k (QMqRecv m) \<noteq> [] \<longrightarrow> runnable (st k' (hd (queues k (QMqRecv m))))"
proof -
  define mq where "mq = mqs k m"
  obtain qs fs hs where w: "mq_wf mq qs fs hs" using i by (auto simp: mq_ok_def mq_def)
  obtain fs' where fs: "fs = n # fs'" using mq_wf_free(2) [OF w] n by (auto simp: mq_def)
  let ?mq1 = "(mq_alloc n mq)\<lparr>mq_next := (mq_next (mq_alloc n mq))(n := None)\<rparr>"
  have w1: "mq_wf ?mq1 qs fs' (n # hs)" by (rule mq_clear_wf [OF mq_alloc_wf]) (use w fs in simp_all)
  let ?mq2 = "?mq1\<lparr>mq_data := (mq_data ?mq1)(n := bs @ drop (length bs) (mq_data ?mq1 n))\<rparr>"
  have l1: "length bs \<le> unat (msg_size ?mq1)" and h1: "n \<in> set (n # hs)" using l by (simp_all add: mq_def)
  note f = mq_fill_wf [OF w1 h1 l1]
  have nx: "mq_next ?mq2 n = None" by simp
  have w3: "mq_wf (mq_link_tail n ?mq2) (qs @ [n]) fs' hs" by (rule mq_link_tail_wf [OF f(2) nx])
  have q: "is_wait (QMqRecv m)" by simp
  let ?k1 = "upd_mq m (\<lambda>_. mq_link_tail n ?mq2) k"
  obtain k' where k': "(if queues ?k1 (QMqRecv m) \<noteq> [] then ipc_wake (QMqRecv m) ?k1 else Some ?k1) = Some k'" "mq_inv m k'"
    "mqs k' m = mq_link_tail n ?mq2" "queues k' (QMqRecv m) = tl (queues k (QMqRecv m))"
    "queues k (QMqRecv m) \<noteq> [] \<longrightarrow> runnable (st k' (hd (queues k (QMqRecv m))))"
    using mq_finish [OF i w3 q] .
  have nq: "n \<notin> set qs" using w fs by (auto simp: mq_wf_def mq_links_def)
  then have "mq_contents m k' = mq_contents m k @ [bs @ drop (length bs) (mq_data (mqs k m) n)]"
    using mq_messages_wf [OF w3] mq_messages_wf [OF w] unfolding k'(3) mq_def [symmetric] by simp
  moreover have "mq_put m n bs k = Some (Return RT_EOK, k')"
    using f(1) k'(1) by (auto simp: mq_put_def Let_def mq_def [symmetric] split: if_splits)
  ultimately show thesis using k' by (intro that [of k']) (simp_all add: mq_def)
qed

lemma rt_mq_urgent_spec:
  assumes i: "mq_inv m k" and n: "msg_queue_free (mqs k m) = Some n"
    and sz: "sz \<noteq> 0" "sz \<le> ucast (msg_size (mqs k m))" "unat sz \<le> length buf"
  obtains k' where "rt_mq_urgent m buf sz k = Some (RT_EOK, k')" "mq_inv m k'"
    "mq_contents m k' = (take (unat sz) buf @ drop (unat sz) (mq_data (mqs k m) n)) # mq_contents m k"
    "max_msgs (mqs k' m) = max_msgs (mqs k m)" "queues k' (QMqRecv m) = tl (queues k (QMqRecv m))"
    "queues k (QMqRecv m) \<noteq> [] \<longrightarrow> runnable (st k' (hd (queues k (QMqRecv m))))"
proof -
  define mq where "mq = mqs k m"
  obtain qs fs hs where w: "mq_wf mq qs fs hs" using i by (auto simp: mq_ok_def mq_def)
  obtain fs' where fs: "fs = n # fs'" using mq_wf_free(2) [OF w] n by (auto simp: mq_def)
  let ?bs = "take (unat sz) buf"
  have bl: "length ?bs = unat sz" using sz(3) by simp
  let ?mq1 = "mq_alloc n mq"
  have w1: "mq_wf ?mq1 qs fs' (n # hs)" by (rule mq_alloc_wf) (use w fs in simp)
  let ?mq2 = "?mq1\<lparr>mq_data := (mq_data ?mq1)(n := ?bs @ drop (length ?bs) (mq_data ?mq1 n))\<rparr>"
  have "unat sz \<le> unat (msg_size mq)" using sz(2) by (simp add: word_le_nat_alt mq_def)
  then have l1: "length ?bs \<le> unat (msg_size ?mq1)" and h1: "n \<in> set (n # hs)" using bl by simp_all
  note f = mq_fill_wf [OF w1 h1 l1]
  have w3: "mq_wf (mq_link_head n ?mq2) (n # qs) fs' hs" by (rule mq_link_head_wf [OF f(2)])
  have q: "is_wait (QMqRecv m)" by simp
  let ?k1 = "upd_mq m (\<lambda>_. mq_link_head n ?mq2) k"
  obtain k' where k': "(if queues ?k1 (QMqRecv m) \<noteq> [] then ipc_wake (QMqRecv m) ?k1 else Some ?k1) = Some k'" "mq_inv m k'"
    "mqs k' m = mq_link_head n ?mq2" "queues k' (QMqRecv m) = tl (queues k (QMqRecv m))"
    "queues k (QMqRecv m) \<noteq> [] \<longrightarrow> runnable (st k' (hd (queues k (QMqRecv m))))"
    using mq_finish [OF i w3 q] .
  have nq: "n \<notin> set qs" using w fs by (auto simp: mq_wf_def mq_links_def)
  then have "mq_contents m k' = (?bs @ drop (unat sz) (mq_data (mqs k m) n)) # mq_contents m k"
    using mq_messages_wf [OF w3] mq_messages_wf [OF w] bl unfolding k'(3) mq_def [symmetric] by simp
  moreover have "rt_mq_urgent m buf sz k = Some (RT_EOK, k')"
    using i f(1) k'(1) sz n by (auto simp: rt_mq_urgent_def mq_ok_def Let_def mq_def [symmetric] split: if_splits)
  ultimately show thesis using k' by (intro that [of k']) (simp_all add: mq_def)
qed

lemma mq_get_spec:
  assumes i: "mq_inv m k" and e: "mq_entry (mqs k m) \<noteq> 0"
  obtains x k' where "mq_get m sz k = Some (Return RT_EOK, Some (take (unat sz) x), k')" "mq_inv m k'"
    "mq_contents m k = x # mq_contents m k'"
    "max_msgs (mqs k' m) = max_msgs (mqs k m)" "queues k' (QMqSend m) = tl (queues k (QMqSend m))"
    "queues k (QMqSend m) \<noteq> [] \<longrightarrow> runnable (st k' (hd (queues k (QMqSend m))))"
proof -
  define mq where "mq = mqs k m"
  obtain qs fs hs where w0: "mq_wf mq qs fs hs" using i by (auto simp: mq_ok_def mq_def)
  obtain n qs' where qs: "qs = n # qs'" using mq_wf_head [OF w0] e by (cases qs) (auto simp: mq_def)
  have w: "mq_wf mq (n # qs') fs hs" using w0 qs by simp
  have h: "msg_queue_head mq = Some n" and ln: "length (mq_data mq n) = unat (msg_size mq)" 
    using w by (auto simp: mq_wf_def mq_links_def)
  note w1 = mq_unlink_wf [OF w]
  note w2 = mq_give_back_wf [OF w1]
  let ?mq2 = "mq_give_back n (mq_unlink n mq)"
  have q: "is_wait (QMqSend m)" by simp
  let ?k1 = "upd_mq m (\<lambda>_. ?mq2) k"
  obtain k' where k': "(if queues ?k1 (QMqSend m) \<noteq> [] then ipc_wake (QMqSend m) ?k1 else Some ?k1) = Some k'" "mq_inv m k'"
    "mqs k' m = ?mq2" "queues k' (QMqSend m) = tl (queues k (QMqSend m))"
    "queues k (QMqSend m) \<noteq> [] \<longrightarrow> runnable (st k' (hd (queues k (QMqSend m))))"
    using mq_finish [OF i w2 q] .
  have "mq_contents m k = mq_data mq n # mq_contents m k'"
    using mq_messages_wf [OF w2] mq_messages_wf [OF w] unfolding k'(3) mq_def [symmetric] by simp
  moreover have "take (min (unat sz) (unat (msg_size mq))) (mq_data mq n) = take (unat sz) (mq_data mq n)" using ln by (simp add: min_def)
  then have "mq_get m sz k = Some (Return RT_EOK, Some (take (unat sz) (mq_data mq n)), k')"
    using h ln k'(1) by (auto simp: mq_get_def Let_def mq_def [symmetric] split: if_splits)
  ultimately show thesis using k' h by (intro that [of "mq_data mq n" k']) (simp_all add: mq_def)
qed

text \<open>A call that waits leaves the queue as it is.\<close>

lemma mq_block_spec:
  assumes c: "caller c k" and m: "mq_ok m k" and time: "ok_time time" and q: "is_wait q"
  obtains k' where "ipc_block q c (oflag (objs k (OMq m))) time (no_error c k) = Some k'" "mq_inv m k'" "mqs k' = mqs k"
proof -
  have f: "good_flag (oflag (objs k (OMq m)))" using m by (simp add: mq_ok_def)
  obtain k' where k': "ipc_block q c (oflag (objs k (OMq m))) time (no_error c k) = Some k'" "kernel_wf k'" "side k k'" "current k' \<noteq> None"
    by (rule block_spec [OF c q f time]) blast
  then show thesis using m mq_ok_side(1) [OF k'(3), of m] mq_ok_side(2) [OF k'(3)] by (intro that [of k']) simp_all
qed

lemma mq_error_change:
  assumes "kernel_wf k" "mq_ok m k"
  shows "kernel_wf (upd_thr t (\<lambda>th. th\<lparr>terror := e\<rparr>) k)" "mq_ok m (upd_thr t (\<lambda>th. th\<lparr>terror := e\<rparr>) k)"
  using assms by (auto intro!: kernel_wf_field_change simp: mq_ok_def rt_object_get_type_def)

lemma mq_send_loop_spec:
  assumes i: "mq_inv m k" and time: "ok_time time" and l: "length bs \<le> unat (msg_size (mqs k m))"
    and full: "msg_queue_free (mqs k m) = None \<Longrightarrow> \<exists>t. self = Some t \<and> (time \<noteq> 0 \<longrightarrow> caller t k)"
  shows "\<exists>r k'. mq_send_loop m bs time self k = Some (r, k') \<and> mq_inv m k' \<and> max_msgs (mqs k' m) = max_msgs (mqs k m) \<and>
    (case msg_queue_free (mqs k m) of
       None \<Rightarrow> r = (if time = 0 then Return (- RT_EFULL) else Blocked) \<and> mq_contents m k' = mq_contents m k
     | Some n \<Rightarrow> r = Return RT_EOK \<and> mq_contents m k' = mq_contents m k @ [bs @ drop (length bs) (mq_data (mqs k m) n)] \<and>
         queues k' (QMqRecv m) = tl (queues k (QMqRecv m)) \<and>
         (queues k (QMqRecv m) \<noteq> [] \<longrightarrow> runnable (st k' (hd (queues k (QMqRecv m))))))"
proof (cases "msg_queue_free (mqs k m)")
  case (Some n)
  show ?thesis by (rule mq_put_spec [OF i Some l]) (use Some in \<open>simp add: mq_send_loop_def\<close>)
next
  case None
  then obtain t where t: "self = Some t" "time \<noteq> 0 \<longrightarrow> caller t k" using full by blast
  show ?thesis
  proof (cases "time = 0")
    case True
    then show ?thesis using None t i mq_error_change [of k m t RT_EOK] by (simp add: mq_send_loop_def)
  next
    case False
    then have c: "caller t k" using t by simp
    have mo: "mq_ok m k" and q: "is_wait (QMqSend m)" using i by simp_all
    show ?thesis by (rule mq_block_spec [OF c mo time q])
        (use None False t callerD(4) [OF no_error_caller [OF c]] in \<open>simp add: mq_send_loop_def\<close>)
  qed
qed

lemma mq_recv_loop_spec:
  assumes i: "mq_inv m k" and time: "ok_time time"
    and empty: "mq_entry (mqs k m) = 0 \<Longrightarrow> \<exists>t. self = Some t \<and> caller t k"
  shows "\<exists>r v k'. mq_recv_loop m sz time self k = Some (r, v, k') \<and> mq_inv m k' \<and> max_msgs (mqs k' m) = max_msgs (mqs k m) \<and>
    (if mq_entry (mqs k m) = 0
     then r = (if time = 0 then Return (- RT_ETIMEOUT) else Blocked) \<and> v = None \<and> mq_contents m k' = mq_contents m k
     else r = Return RT_EOK \<and> (\<exists>x. v = Some (take (unat sz) x) \<and> mq_contents m k = x # mq_contents m k') \<and>
       queues k' (QMqSend m) = tl (queues k (QMqSend m)) \<and>
       (queues k (QMqSend m) \<noteq> [] \<longrightarrow> runnable (st k' (hd (queues k (QMqSend m))))))"
proof (cases "mq_entry (mqs k m) = 0")
  case False
  show ?thesis by (rule mq_get_spec [OF i False, of sz]) (use False in \<open>auto simp: mq_recv_loop_def\<close>)
next
  case True
  then obtain t where t: "self = Some t" "caller t k" using empty by blast
  show ?thesis
  proof (cases "time = 0")
    case z: True
    then show ?thesis using True t i mq_error_change [of k m t "- RT_ETIMEOUT"] callerD(4) [OF t(2)] by (simp add: mq_recv_loop_def)
  next
    case False
    have mo: "mq_ok m k" and q: "is_wait (QMqRecv m)" using i by simp_all
    show ?thesis by (rule mq_block_spec [OF t(2) mo time q])
        (use True False t callerD(4) [OF t(2)] in \<open>simp add: mq_recv_loop_def\<close>)
  qed
qed

lemma rt_mq_send_wait_spec:
  assumes i: "mq_inv m k" and time: "ok_time time" "time \<noteq> 0 \<Longrightarrow> \<exists>c. caller c k"
    and sz: "sz \<noteq> 0" "sz \<le> ucast (msg_size (mqs k m))" "unat sz \<le> length buf"
  shows "\<exists>r k'. rt_mq_send_wait m buf sz time k = Some (r, k') \<and> mq_inv m k' \<and> max_msgs (mqs k' m) = max_msgs (mqs k m) \<and>
    (case msg_queue_free (mqs k m) of
       None \<Rightarrow> r = (if time = 0 then Return (- RT_EFULL) else Blocked) \<and> mq_contents m k' = mq_contents m k
     | Some n \<Rightarrow> r = Return RT_EOK \<and> mq_contents m k' = mq_contents m k @ [take (unat sz) buf @ drop (unat sz) (mq_data (mqs k m) n)] \<and>
         queues k' (QMqRecv m) = tl (queues k (QMqRecv m)) \<and>
         (queues k (QMqRecv m) \<noteq> [] \<longrightarrow> runnable (st k' (hd (queues k (QMqRecv m))))))"
proof -
  let ?bs = "take (unat sz) buf"
  have bl: "length ?bs = unat sz" "buf_read buf 0 (unat sz) = Some ?bs" using sz(3) by simp_all
  have l: "length ?bs \<le> unat (msg_size (mqs k m))" using sz(2) bl by (simp add: word_le_nat_alt)
  have ty: "rt_object_get_type (OMq m) k = RT_Object_Class_MessageQueue" using i by (simp add: mq_ok_def)
  have ns: "\<not> sz > ucast (msg_size (mqs k m))" using sz(2) by simp
  show ?thesis
  proof (cases "msg_queue_free (mqs k m) = None \<and> time = 0")
    case True
    then show ?thesis using i ty sz(1) ns by (simp add: rt_mq_send_wait_def)
  next
    case False
    have "\<exists>t. rt_thread_self k = Some t \<and> (time \<noteq> 0 \<longrightarrow> caller t k)" if "msg_queue_free (mqs k m) = None"
      using that False time(2) callerD(5) by blast
    note sl = mq_send_loop_spec [OF i time(1) l this, unfolded bl(1)]
    have "rt_mq_send_wait m buf sz time k = mq_send_loop m ?bs time (rt_thread_self k) k"
      using False ty sz(1) ns bl(2) by (auto simp: rt_mq_send_wait_def)
    then show ?thesis using sl by simp
  qed
qed

lemma rt_mq_recv_spec:
  assumes i: "mq_inv m k" and time: "ok_time time" "time \<noteq> 0 \<Longrightarrow> \<exists>c. caller c k" and sz: "sz \<noteq> 0"
  shows "\<exists>r v k'. rt_mq_recv m sz time k = Some (r, v, k') \<and> mq_inv m k' \<and> max_msgs (mqs k' m) = max_msgs (mqs k m) \<and>
    (if mq_entry (mqs k m) = 0
     then r = (if time = 0 then Return (- RT_ETIMEOUT) else Blocked) \<and> v = None \<and> mq_contents m k' = mq_contents m k
     else r = Return RT_EOK \<and> (\<exists>x. v = Some (take (unat sz) x) \<and> mq_contents m k = x # mq_contents m k') \<and>
       queues k' (QMqSend m) = tl (queues k (QMqSend m)) \<and>
       (queues k (QMqSend m) \<noteq> [] \<longrightarrow> runnable (st k' (hd (queues k (QMqSend m))))))"
proof (cases "mq_entry (mqs k m) = 0 \<and> time = 0")
  case True
  then show ?thesis using i sz by (simp add: rt_mq_recv_def mq_ok_def)
next
  case False
  have "\<exists>t. rt_thread_self k = Some t \<and> caller t k" if "mq_entry (mqs k m) = 0"
    using that False time(2) callerD(5) by blast
  note rl = mq_recv_loop_spec [OF i time(1) this, of sz]
  have "rt_mq_recv m sz time k = mq_recv_loop m sz time (rt_thread_self k) k"
    using False sz i by (auto simp: rt_mq_recv_def mq_ok_def)
  then show ?thesis using rl by simp
qed

section \<open>The interface\<close>

text \<open>
  A message is the whole body of a node: the bytes sent and, behind them, what the node held before. Steps as for the
  mailbox, and urgent messages that go to the front.
\<close>

abbreviation fits :: "oid \<Rightarrow> u8 list \<Rightarrow> u32 \<Rightarrow> kernel \<Rightarrow> bool" where
  "fits m buf sz k \<equiv> sz \<noteq> 0 \<and> sz \<le> ucast (msg_size (mqs k m)) \<and> unat sz \<le> length buf"

definition stored :: "oid \<Rightarrow> u8 list \<Rightarrow> u32 \<Rightarrow> kernel \<Rightarrow> u8 list option" where
  "stored m buf sz k =
     map_option (\<lambda>n. take (unat sz) buf @ drop (unat sz) (mq_data (mqs k m) n)) (msg_queue_free (mqs k m))"

inductive mq_step :: "oid \<Rightarrow> kernel \<Rightarrow> u8 list chan_label \<Rightarrow> kernel \<Rightarrow> bool" for m where
  send: "ok_time time \<Longrightarrow> (time \<noteq> 0 \<longrightarrow> (\<exists>c. caller c k)) \<Longrightarrow> fits m buf sz k \<Longrightarrow>
    rt_mq_send_wait m buf sz time k = Some (r, k') \<Longrightarrow>
    mq_step m k (case stored m buf sz k of None \<Rightarrow> Idle | Some x \<Rightarrow> Put x) k'"
| send_again: "caller t k \<Longrightarrow> terror (thr k t) = RT_EOK \<Longrightarrow> ok_time (time_left time start k) \<Longrightarrow> fits m buf sz k \<Longrightarrow>
    rt_mq_send_wait_return m buf sz time start t k = Some (r, k') \<Longrightarrow>
    mq_step m k (case stored m buf sz k of None \<Rightarrow> Idle | Some x \<Rightarrow> Put x) k'"
| urgent: "fits m buf sz k \<Longrightarrow> rt_mq_urgent m buf sz k = Some (e, k') \<Longrightarrow>
    mq_step m k (case stored m buf sz k of None \<Rightarrow> Idle | Some x \<Rightarrow> Urgent x) k'"
| recv: "ok_time time \<Longrightarrow> (time \<noteq> 0 \<longrightarrow> (\<exists>c. caller c k)) \<Longrightarrow> sz \<noteq> 0 \<Longrightarrow> rt_mq_recv m sz time k = Some (r, v, k') \<Longrightarrow>
    mq_step m k (case v of None \<Rightarrow> Idle | Some _ \<Rightarrow> Got (hd (mq_contents m k))) k'"
| recv_again: "caller t k \<Longrightarrow> terror (thr k t) = RT_EOK \<Longrightarrow> ok_time (time_left time start k) \<Longrightarrow>
    rt_mq_recv_return m sz time start t k = Some (r, v, k') \<Longrightarrow>
    mq_step m k (case v of None \<Rightarrow> Idle | Some _ \<Rightarrow> Got (hd (mq_contents m k))) k'"
| environment: "kernel_wf k' \<Longrightarrow> current k' \<noteq> None \<Longrightarrow> mqs k' m = mqs k m \<Longrightarrow> objs k' (OMq m) = objs k (OMq m) \<Longrightarrow>
    mq_step m k Idle k'"

lemma mq_step_spec:
  assumes "mq_step m k l k'" and i: "mq_inv m k"
  shows "mq_inv m k' \<and> max_msgs (mqs k' m) = max_msgs (mqs k m) \<and> chan_effect (mq_contents m k) l (mq_contents m k')"
  using assms(1)
proof (cases rule: mq_step.cases)
  case (send time buf sz r)
  have t: "time \<noteq> 0 \<Longrightarrow> \<exists>c. caller c k" and f: "sz \<noteq> 0" "sz \<le> ucast (msg_size (mqs k m))" "unat sz \<le> length buf" using send by simp_all
  from rt_mq_send_wait_spec [OF i send(2) t f] send(1,5) show ?thesis
    by (cases "msg_queue_free (mqs k m)") (auto simp: chan_effect_def stored_def)
next
  case (send_again t time start buf sz r)
  let ?bs = "take (unat sz) buf"
  have bl: "length ?bs = unat sz" "buf_read buf 0 (unat sz) = Some ?bs" using send_again(5) by simp_all
  have l: "length ?bs \<le> unat (msg_size (mqs k m))" using send_again(5) bl by (simp add: word_le_nat_alt)
  have "\<exists>u. Some t = Some u \<and> (time_left time start k \<noteq> 0 \<longrightarrow> caller u k)" using send_again(2) by simp
  note sl = mq_send_loop_spec [OF i send_again(4) l this, unfolded bl(1)]
  have "mq_send_loop m ?bs (time_left time start k) (Some t) k = Some (r, k')"
    using send_again(3,6) bl(2) by (simp add: rt_mq_send_wait_return_def)
  then show ?thesis using sl send_again(1)
    by (cases "msg_queue_free (mqs k m)") (auto simp: chan_effect_def stored_def)
next
  case (urgent buf sz e)
  show ?thesis
  proof (cases "msg_queue_free (mqs k m)")
    case None
    then show ?thesis using urgent i by (auto simp: rt_mq_urgent_def chan_effect_def stored_def split: if_splits)
  next
    case (Some n)
    have f: "sz \<noteq> 0" "sz \<le> ucast (msg_size (mqs k m))" "unat sz \<le> length buf" using urgent by simp_all
    show ?thesis by (rule rt_mq_urgent_spec [OF i Some f]) (use urgent Some in \<open>auto simp: chan_effect_def stored_def\<close>)
  qed
next
  case (recv time sz r v)
  have t: "time \<noteq> 0 \<Longrightarrow> \<exists>c. caller c k" using recv by simp
  from rt_mq_recv_spec [OF i recv(2) t recv(4)] recv(1,5) show ?thesis by (auto simp: chan_effect_def split: if_splits)
next
  case (recv_again t time start sz r v)
  have "\<exists>u. Some t = Some u \<and> caller u k" using recv_again(2) by simp
  from mq_recv_loop_spec [OF i recv_again(4) this, of sz] recv_again(1,3,5) show ?thesis
    by (auto simp: rt_mq_recv_return_def chan_effect_def split: if_splits)
next
  case environment
  then show ?thesis using i by (simp add: chan_effect_def mq_ok_def rt_object_get_type_def)
qed

interpretation mq: channel "mq_step m" "mq_inv m" "mq_contents m" "\<lambda>k. unat (max_msgs (mqs k m))" for m
proof (unfold_locales, goal_cases)
  case (1 k l k') then show ?case using mq_step_spec [OF 1(2,1)] by simp
next
  case (2 k x k') then show ?case using mq_step_spec [OF 2(2,1)] by (simp add: chan_effect_def)
next
  case (3 k x k') then show ?case using mq_step_spec [OF 3(2,1)] by (simp add: chan_effect_def)
next
  case (4 k x k') then show ?case using mq_step_spec [OF 4(2,1)] by (simp add: chan_effect_def)
next
  case (5 k k') then show ?case using mq_step_spec [OF 5(2,1)] by (simp add: chan_effect_def)
next
  case (6 k)
  then obtain qs fs hs where w: "mq_wf (mqs k m) qs fs hs" by (auto simp: mq_ok_def)
  show ?case using mq_messages_wf [OF w] mq_wf_count [OF w] by simp
qed

section \<open>A sample queue\<close>

text \<open>Queue 9 of the sample kernel as set up for two messages of four bytes.\<close>

definition sample_mq :: kernel where
  "sample_mq = upd_mq 9 (\<lambda>_. mq_setup 4 2 (\<lambda>_. [0, 0, 0, 0]))
     (upd_obj (OMq 9) (\<lambda>_. \<lparr>oname = ''mq'', otype = 0x86, oflag = 0\<rparr>) sample)"

lemma sample_mq_caller: "caller 5 sample_mq"
  using sample_caller by (simp add: caller_def sample_mq_def kernel_wf_upd_obj del: ipc_class.simps)

lemma sample_mq_fields:
  "mqs sample_mq 9 = mq_setup 4 2 (\<lambda>_. [0, 0, 0, 0])" "queues sample_mq (QMqRecv 9) = []"
  by (simp_all add: sample_mq_def three_def boot_def)

lemma sample_mq_wf: "mq_wf (mqs sample_mq 9) [] [1, 0] []"
  using mq_setup_wf [of 2 "\<lambda>_. [0, 0, 0, 0]" 4] unfolding sample_mq_fields by (simp add: upt_rec)

lemma sample_mq_inv: "mq_inv 9 sample_mq"
  using callerD(1,2) [OF sample_mq_caller] sample_mq_wf
  by (auto simp: mq_ok_def) (simp_all add: sample_mq_def rt_object_get_type_def class_defs good_flag_def RT_IPC_FLAG_FIFO_def)

lemma sample_mq_start: "mq_contents 9 sample_mq = []" "msg_queue_free (mqs sample_mq 9) = Some 1" "msg_size (mqs sample_mq 9) = 4"
  "mq_data (mqs sample_mq 9) n = [0, 0, 0, 0]"
  using mq_messages_wf [OF sample_mq_wf] sample_mq_wf
  by (simp_all add: mq_wf_def mq_links_def) (simp_all add: sample_mq_fields mq_setup_def mq_free_all_fields)

section \<open>Properties\<close>



text \<open>
  C23: the reset command of \<open>rt_mq_control\<close> ends. Its loop over the queued nodes comes to an end, every waiting thread
  becomes runnable with \<open>-RT_ERROR\<close>, no message is left, all nodes that are not in flight are free again, and the kernel
  invariant holds.
\<close>

theorem message_queue_reset:
  assumes i: "kernel_wf k" "current k \<noteq> None" "mq_ok m k"
  shows "\<exists>k'. rt_mq_control m (RT_IPC_CMD_RESET v) k = Some (RT_EOK, k') \<and> kernel_wf k' \<and> mq_ok m k' \<and> mq_contents m k' = [] \<and>
    queues k' (QMqRecv m) = [] \<and> queues k' (QMqSend m) = [] \<and>
    (\<forall>t\<in>set (queues k (QMqRecv m)) \<union> set (queues k (QMqSend m)). runnable (st k' t) \<and> terror (thr k' t) = - RT_ERROR)"
proof -
  let ?R = "QMqRecv m" and ?S = "QMqSend m"
  have wR: "is_wait ?R" and wS: "is_wait ?S" by simp_all
  obtain k1 where k1: "rt_ipc_list_resume_all ?R k = Some k1" "kernel_wf k1" "side k k1" "current k1 = current k"
    "\<forall>u. u \<in> set (queues k ?R) \<longrightarrow> runnable (st k1 u) \<and> terror (thr k1 u) = - RT_ERROR"
    "\<forall>r. \<not> is_ready_q r \<longrightarrow> queues k1 r = (if r = ?R then [] else queues k r)"
    using rt_ipc_list_resume_all_spec [OF wR i(1)] by blast
  obtain k2 where k2: "rt_ipc_list_resume_all ?S k1 = Some k2" "kernel_wf k2" "side k1 k2" "current k2 = current k1"
    "\<forall>u. u \<in> set (queues k1 ?S) \<longrightarrow> runnable (st k2 u) \<and> terror (thr k2 u) = - RT_ERROR"
    "\<forall>u. u \<notin> set (queues k1 ?S) \<longrightarrow> thr k2 u = thr k1 u"
    "\<forall>r. \<not> is_ready_q r \<longrightarrow> queues k2 r = (if r = ?S then [] else queues k1 r)"
    using rt_ipc_list_resume_all_spec [OF wS k1(2)] by blast
  have sd: "side k k2" by (rule side_trans [OF k1(3) k2(3)])
  have ok2: "mq_ok m k2" using mq_ok_side(1) [OF sd] i(3) by simp
  then obtain qs fs hs where w: "mq_wf (mqs k2 m) qs fs hs" by (auto simp: mq_ok_def)
  then have "mq_links (mqs k2 m) qs fs hs" by (simp add: mq_wf_def)
  from mq_drain_spec [OF this] obtain mq where mq: "mq_drain (mqs k2 m) = Some mq" "mq_wf (mq\<lparr>mq_entry := 0\<rparr>) [] (rev qs @ fs) hs" by blast
  let ?k3 = "upd_mq m (\<lambda>_. mq\<lparr>mq_entry := 0\<rparr>) k2"
  have w3: "kernel_wf ?k3" "current ?k3 \<noteq> None" using k2(2,4) k1(4) i(2) by simp_all
  have ok3: "mq_ok m ?k3" by (rule mq_ok_upd [OF ok2 mq(2)])
  obtain k' where k': "rt_schedule ?k3 = Some k'" "kernel_wf k'" "sched_step ?k3 k'" using rt_schedule_kernel [OF w3] .
  note st = sched_stepD [OF k'(3)] and s3 = sched_step_side [OF k'(3)]
  have q1S: "queues k1 ?S = queues k ?S" and q2: "queues k2 ?R = []" "queues k2 ?S = []" using k1(6) k2(7) by simp_all
  have run: "runnable (st k2 t) \<and> terror (thr k2 t) = - RT_ERROR" if "t \<in> set (queues k ?R) \<union> set (queues k ?S)" for t
    using that k1(5) k2(5,6) q1S by (cases "t \<in> set (queues k ?S)") auto
  have "runnable (st k' t) \<and> terror (thr k' t) = - RT_ERROR" if "t \<in> set (queues k ?R) \<union> set (queues k ?S)" for t
    using run [OF that] st(5) [of t] but_stat_fields(2) [OF st(3), of t] by simp
  moreover have "rt_mq_control m (RT_IPC_CMD_RESET v) k = Some (RT_EOK, k')"
    using i(3) k1(1) k2(1) mq(1) k'(1) by (simp add: rt_mq_control_def mq_ok_def)
  moreover have "mq_contents m k' = []" using mq_messages_wf [OF mq(2)] mq_ok_side(2) [OF s3] by simp
  moreover have "queues k' ?R = []" "queues k' ?S = []" using st(2) [of ?R] st(2) [of ?S] q2 by simp_all
  ultimately show ?thesis using k'(2) mq_ok_side(1) [OF s3, of m] ok3 by blast
qed

theorem message_queue_reset_witness:
  "\<exists>k'. rt_mq_control 9 (RT_IPC_CMD_RESET 0) sample_mq = Some (RT_EOK, k') \<and> mq_ok 9 k' \<and> mq_contents 9 k' = []"
proof -
  have i: "kernel_wf sample_mq" "current sample_mq \<noteq> None" "mq_ok 9 sample_mq" using sample_mq_inv by simp_all
  from message_queue_reset [OF i] show ?thesis by blast
qed

end
