(* ===== verification/Memory.thy ===== *)
theory Memory
  imports Prelude
begin

text \<open>
  The memory and string functions of \<^verbatim>\<open>rt-thread/src/kservice.c\<close> on a store of bytes: the routines that work a word at a time
  are shown to do what the byte-wise definitions say. A C string is the bytes in front of the first zero; a loop that
  looks for it is a partial function, which returns when there is one.
\<close>

section \<open>Bytes and words\<close>

type_synonym bytes = "nat \<Rightarrow> u8"

definition rd16 :: "bytes \<Rightarrow> nat \<Rightarrow> u16" where
  "rd16 b i = ucast (b i) OR push_bit 8 (ucast (b (i + 1)))"

definition wr16 :: "bytes \<Rightarrow> nat \<Rightarrow> u16 \<Rightarrow> bytes" where
  "wr16 b i v = b(i := ucast v, i + 1 := ucast (drop_bit 8 v))"

definition rd32 :: "bytes \<Rightarrow> nat \<Rightarrow> u32" where
  "rd32 b i = ucast (rd16 b i) OR push_bit 16 (ucast (rd16 b (i + 2)))"

definition wr32 :: "bytes \<Rightarrow> nat \<Rightarrow> u32 \<Rightarrow> bytes" where
  "wr32 b i v = wr16 (wr16 b i (ucast v)) (i + 2) (ucast (drop_bit 16 v))"

section \<open>The routines\<close>

text \<open>\<open>rt_memset\<close>: the loops that store four words, one word, one byte; each gives the address it has reached and what is left.\<close>

fun memset_big :: "u32 \<Rightarrow> nat \<Rightarrow> nat \<Rightarrow> bytes \<Rightarrow> nat \<times> nat \<times> bytes" where
  "memset_big buffer a count b =
     (if count \<ge> 16 then
        let b = wr32 b a buffer; b = wr32 b (a + 4) buffer; b = wr32 b (a + 8) buffer; b = wr32 b (a + 12) buffer
        in memset_big buffer (a + 16) (count - 16) b
      else (a, count, b))"

fun memset_words :: "u32 \<Rightarrow> nat \<Rightarrow> nat \<Rightarrow> bytes \<Rightarrow> nat \<times> nat \<times> bytes" where
  "memset_words buffer a count b =
     (if count \<ge> 4 then memset_words buffer (a + 4) (count - 4) (wr32 b a buffer) else (a, count, b))"

fun memset_bytes :: "u8 \<Rightarrow> nat \<Rightarrow> nat \<Rightarrow> bytes \<Rightarrow> bytes" where
  "memset_bytes d m 0 b = b"
| "memset_bytes d m (Suc count) b = memset_bytes d (m + 1) count (b(m := d))"

definition rt_memset :: "nat \<Rightarrow> u32 \<Rightarrow> nat \<Rightarrow> bytes \<Rightarrow> bytes" where
  "rt_memset s c count b =
     (let d = c AND 0xff;
          (m, count, b) =
            (if \<not> count < 4 \<and> s mod 4 = 0 then
               let buffer = push_bit 8 d OR d; buffer = buffer OR push_bit 16 buffer;
                   (a, count, b) = memset_big buffer s count b
               in memset_words buffer a count b
             else (s, count, b))
      in memset_bytes (ucast d) m count b)"

text \<open>\<open>rt_memcpy\<close>, the same way.\<close>

fun memcpy_big :: "nat \<Rightarrow> nat \<Rightarrow> nat \<Rightarrow> bytes \<Rightarrow> nat \<times> nat \<times> nat \<times> bytes" where
  "memcpy_big d s len b =
     (if len \<ge> 16 then
        let b = wr32 b d (rd32 b s); b = wr32 b (d + 4) (rd32 b (s + 4));
            b = wr32 b (d + 8) (rd32 b (s + 8)); b = wr32 b (d + 12) (rd32 b (s + 12))
        in memcpy_big (d + 16) (s + 16) (len - 16) b
      else (d, s, len, b))"

fun memcpy_words :: "nat \<Rightarrow> nat \<Rightarrow> nat \<Rightarrow> bytes \<Rightarrow> nat \<times> nat \<times> nat \<times> bytes" where
  "memcpy_words d s len b =
     (if len \<ge> 4 then memcpy_words (d + 4) (s + 4) (len - 4) (wr32 b d (rd32 b s)) else (d, s, len, b))"

fun memcpy_bytes :: "nat \<Rightarrow> nat \<Rightarrow> nat \<Rightarrow> bytes \<Rightarrow> bytes" where
  "memcpy_bytes d s 0 b = b"
| "memcpy_bytes d s (Suc len) b = memcpy_bytes (d + 1) (s + 1) len (b(d := b s))"

definition rt_memcpy :: "nat \<Rightarrow> nat \<Rightarrow> nat \<Rightarrow> bytes \<Rightarrow> bytes" where
  "rt_memcpy dst src len b =
     (let (d, s, len, b) =
        (if \<not> len < 16 \<and> src mod 4 = 0 \<and> dst mod 4 = 0 then
           let (d, s, len, b) = memcpy_big dst src len b in memcpy_words d s len b
         else (dst, src, len, b))
      in memcpy_bytes d s len b)"

declare memset_big.simps [simp del] memset_words.simps [simp del] memcpy_big.simps [simp del] memcpy_words.simps [simp del]

text \<open>\<open>rt_memmove\<close>: backwards when the target starts inside the source.\<close>

fun memmove_back :: "nat \<Rightarrow> nat \<Rightarrow> nat \<Rightarrow> bytes \<Rightarrow> bytes" where
  "memmove_back tmp s 0 b = b"
| "memmove_back tmp s (Suc n) b = memmove_back (tmp - 1) (s - 1) n (b(tmp - 1 := b (s - 1)))"

definition rt_memmove :: "nat \<Rightarrow> nat \<Rightarrow> nat \<Rightarrow> bytes \<Rightarrow> bytes" where
  "rt_memmove dest src n b =
     (if src < dest \<and> dest < src + n then memmove_back (dest + n) (src + n) n b else memcpy_bytes dest src n b)"

fun rt_memcmp :: "nat \<Rightarrow> nat \<Rightarrow> nat \<Rightarrow> bytes \<Rightarrow> int" where
  "rt_memcmp cs ct 0 b = 0"
| "rt_memcmp cs ct (Suc count) b =
     (let res = uint (b cs) - uint (b ct) in if res \<noteq> 0 then res else rt_memcmp (cs + 1) (ct + 1) count b)"

partial_function (option) strlen_loop :: "bytes \<Rightarrow> nat \<Rightarrow> nat \<Rightarrow> nat option" where
  "strlen_loop b s sc = (if b sc \<noteq> 0 then strlen_loop b s (sc + 1) else Some (sc - s))"

definition rt_strlen :: "bytes \<Rightarrow> nat \<Rightarrow> nat option" where
  "rt_strlen b s = strlen_loop b s s"

text \<open>\<open>rt_strnlen\<close> looks at a byte before it compares the distance with the limit.\<close>

function strnlen_loop :: "bytes \<Rightarrow> nat \<Rightarrow> nat \<Rightarrow> nat \<Rightarrow> nat" where
  "strnlen_loop b s maxlen sc = (if b sc \<noteq> 0 \<and> sc - s < maxlen then strnlen_loop b s maxlen (sc + 1) else sc - s)"
  by pat_completeness auto
termination by (relation "measure (\<lambda>(b, s, m, sc). s + m - sc)") auto

declare strnlen_loop.simps [simp del]

definition rt_strnlen :: "bytes \<Rightarrow> nat \<Rightarrow> nat \<Rightarrow> nat" where
  "rt_strnlen b s maxlen = strnlen_loop b s maxlen s"

text \<open>The search loop of \<open>rt_strstr\<close>; \<open>None\<close> inside is the null pointer.\<close>

function strstr_loop :: "bytes \<Rightarrow> nat \<Rightarrow> nat \<Rightarrow> nat \<Rightarrow> int \<Rightarrow> nat option" where
  "strstr_loop b s1 s2 l2 l1 =
     (if l1 \<ge> int l2 then
        let l1 = l1 - 1 in
        if rt_memcmp s1 s2 l2 b = 0 then Some s1 else strstr_loop b (s1 + 1) s2 l2 l1
      else None)"
  by pat_completeness auto
termination by (relation "measure (\<lambda>(b, s1, s2, l2, l1). nat (l1 + 1))") auto

declare strstr_loop.simps [simp del]

definition rt_strstr :: "bytes \<Rightarrow> nat \<Rightarrow> nat \<Rightarrow> nat option option" where
  "rt_strstr b s1 s2 = do {
     l2 \<leftarrow> rt_strlen b s2;
     if l2 = 0 then Some (Some s1)
     else do { l1 \<leftarrow> rt_strlen b s1; Some (strstr_loop b s1 s2 l2 (int l1)) } }"

definition lower :: "int \<Rightarrow> int" where
  "lower ca = (if ca \<ge> 65 \<and> ca \<le> 90 then ca + 32 else ca)"

partial_function (option) rt_strcasecmp :: "bytes \<Rightarrow> nat \<Rightarrow> nat \<Rightarrow> u32 option" where
  "rt_strcasecmp m a b =
     (let ca = lower (uint (m a)); cb = lower (uint (m b))
      in if ca = cb \<and> ca \<noteq> 0 then rt_strcasecmp m (a + 1) (b + 1) else Some (word_of_int (ca - cb)))"

partial_function (option) rt_strcmp :: "bytes \<Rightarrow> nat \<Rightarrow> nat \<Rightarrow> int option" where
  "rt_strcmp m cs ct =
     (if m cs \<noteq> 0 \<and> m cs = m ct then rt_strcmp m (cs + 1) (ct + 1) else Some (uint (m cs) - uint (m ct)))"

section \<open>Reference definitions\<close>

definition fill :: "nat \<Rightarrow> u8 \<Rightarrow> nat \<Rightarrow> bytes \<Rightarrow> bytes" where
  "fill p v n b = (\<lambda>i. if p \<le> i \<and> i < p + n then v else b i)"

definition copied :: "nat \<Rightarrow> nat \<Rightarrow> nat \<Rightarrow> bytes \<Rightarrow> bytes" where
  "copied d s n b = (\<lambda>i. if d \<le> i \<and> i < d + n then b (s + (i - d)) else b i)"

definition view :: "bytes \<Rightarrow> nat \<Rightarrow> nat \<Rightarrow> u8 list" where
  "view b s n = map b [s..<s + n]"

text \<open>A C string: bytes that are not zero, and a zero.\<close>

definition c_string :: "bytes \<Rightarrow> nat \<Rightarrow> u8 list \<Rightarrow> bool" where
  "c_string b s xs \<longleftrightarrow> view b s (length xs) = xs \<and> 0 \<notin> set xs \<and> b (s + length xs) = 0"

section \<open>Words in memory\<close>

lemma rd16_wr16 [simp]: "rd16 (wr16 b i v) i = v"
  by (rule bit_word_eqI) (auto simp: rd16_def wr16_def bit_simps)

lemma rd16_other: "i + 2 \<le> j \<or> j + 2 \<le> i \<Longrightarrow> rd16 (wr16 b i v) j = rd16 b j"
  by (auto simp: rd16_def wr16_def)

lemma rd32_wr32 [simp]: "rd32 (wr32 b i v) i = v"
proof -
  have "rd16 (wr32 b i v) i = ucast v" "rd16 (wr32 b i v) (i + 2) = ucast (drop_bit 16 v)"
    by (simp_all add: wr32_def rd16_other)
  then show ?thesis by (intro bit_word_eqI) (auto simp: rd32_def bit_simps)
qed

lemma wr16_bytes: "j < i \<or> i + 2 \<le> j \<Longrightarrow> wr16 b i v j = b j"
  by (auto simp: wr16_def)

lemma wr32_bytes: "j < i \<or> i + 4 \<le> j \<Longrightarrow> wr32 b i v j = b j"
  by (auto simp: wr32_def wr16_bytes)

lemma rd16_cong: "(\<And>j. i \<le> j \<Longrightarrow> j < i + 2 \<Longrightarrow> b j = b' j) \<Longrightarrow> rd16 b i = rd16 b' i"
  by (simp add: rd16_def)

lemma rd32_cong: "(\<And>j. i \<le> j \<Longrightarrow> j < i + 4 \<Longrightarrow> b j = b' j) \<Longrightarrow> rd32 b i = rd32 b' i"
  using rd16_cong [of i b b'] rd16_cong [of "i + 2" b b'] by (simp add: rd32_def)

lemma wr32_inside: "wr32 b i v i = ucast v" "wr32 b i v (i + 1) = ucast (drop_bit 8 v)"
  "wr32 b i v (i + 2) = ucast (drop_bit 16 v)" "wr32 b i v (i + 3) = ucast (drop_bit 24 v)"
proof -
  show "wr32 b i v i = ucast v" "wr32 b i v (i + 2) = ucast (drop_bit 16 v)"
    by (simp_all add: wr32_def wr16_def, (rule bit_word_eqI, simp add: bit_simps)+)
  show "wr32 b i v (i + 1) = ucast (drop_bit 8 v)" "wr32 b i v (i + 3) = ucast (drop_bit 24 v)"
    by (simp_all add: wr32_def wr16_def) (rule bit_word_eqI, auto simp: bit_simps)+
qed

section \<open>Filling and copying\<close>

lemma in_word_cases: "(i :: nat) < a + 4 \<Longrightarrow> a \<le> i \<Longrightarrow> i = a \<or> i = a + 1 \<or> i = a + 2 \<or> i = a + 3"
  by linarith

lemma wr32_fill:
  assumes "ucast v = d" "ucast (drop_bit 8 v) = d" "ucast (drop_bit 16 v) = d" "ucast (drop_bit 24 v) = d"
  shows "wr32 b a v = fill a d 4 b"
proof (rule ext)
  fix i
  show "wr32 b a v i = fill a d 4 b i"
    using wr32_inside [of b a v] wr32_bytes [of i a b v] in_word_cases [of i a] assms by (cases "a \<le> i \<and> i < a + 4") (auto simp: fill_def)
qed

lemma memset_pattern:
  fixes c :: u32
  defines "d \<equiv> c AND 0xff"
  defines "w \<equiv> (push_bit 8 d OR d) OR push_bit 16 (push_bit 8 d OR d)"
  shows "ucast w = (ucast d :: u8)" "ucast (drop_bit 8 w) = (ucast d :: u8)" "ucast (drop_bit 16 w) = (ucast d :: u8)"
    "ucast (drop_bit 24 w) = (ucast d :: u8)"
proof -
  have d: "bit d n \<longleftrightarrow> n < 8 \<and> bit c n" for n
  proof -
    have "d = c AND mask 8" by (simp add: d_def mask_eq_exp_minus_1)
    then show ?thesis by (auto simp: bit_and_iff bit_mask_iff dest: bit_imp_le_length)
  qed
  show "ucast w = (ucast d :: u8)" "ucast (drop_bit 8 w) = (ucast d :: u8)" "ucast (drop_bit 16 w) = (ucast d :: u8)"
    "ucast (drop_bit 24 w) = (ucast d :: u8)"
    by (rule bit_word_eqI; auto simp: w_def bit_simps d)+
qed

lemma fill_fill: "fill (p + n) v m (fill p v n b) = fill p v (n + m) b"
  by (auto simp: fill_def)

lemma fill_0 [simp]: "fill p v 0 b = b"
  by (rule ext) (auto simp: fill_def)

text \<open>Each loop fills what it passes.\<close>

lemma memset_words_fill:
  assumes w: "\<And>a b. wr32 b a w = fill a d 4 b"
  shows "memset_words w a n b = (a', n', b') \<Longrightarrow> \<exists>k. a' = a + k \<and> n = k + n' \<and> b' = fill a d k b"
proof (induction n arbitrary: a b rule: less_induct)
  case (less n)
  show ?case
  proof (cases "n \<ge> 4")
    case True
    then have "memset_words w (a + 4) (n - 4) (fill a d 4 b) = (a', n', b')" using less.prems w by (simp add: memset_words.simps [of w a n b])
    from less.IH [OF _ this] True obtain k where "a' = a + 4 + k" "n - 4 = k + n'" "b' = fill (a + 4) d k (fill a d 4 b)" by auto
    then show ?thesis using True by (intro exI [of _ "4 + k"]) (simp add: fill_fill)
  next
    case False then show ?thesis using less.prems by (intro exI [of _ 0]) (simp add: memset_words.simps)
  qed
qed

lemma memset_big_fill:
  assumes w: "\<And>a b. wr32 b a w = fill a d 4 b"
  shows "memset_big w a n b = (a', n', b') \<Longrightarrow> \<exists>k. a' = a + k \<and> n = k + n' \<and> b' = fill a d k b"
proof (induction n arbitrary: a b rule: less_induct)
  case (less n)
  have f: "fill (a + 12) d 4 (fill (a + 8) d 4 (fill (a + 4) d 4 (fill a d 4 b))) = fill a d 16 b"
    by (rule ext) (auto simp: fill_def)
  show ?case
  proof (cases "n \<ge> 16")
    case True
    then have "memset_big w (a + 16) (n - 16) (fill a d 16 b) = (a', n', b')" using less.prems w f by (simp add: memset_big.simps [of w a n b] Let_def)
    from less.IH [OF _ this] True obtain k where "a' = a + 16 + k" "n - 16 = k + n'" "b' = fill (a + 16) d k (fill a d 16 b)" by auto
    then show ?thesis using True by (intro exI [of _ "16 + k"]) (simp add: fill_fill)
  next
    case False then show ?thesis using less.prems by (intro exI [of _ 0]) (simp add: memset_big.simps)
  qed
qed

lemma memset_bytes_fill: "memset_bytes d m n b = fill m d n b"
proof (induction d m n b rule: memset_bytes.induct)
  case (2 d m n b)
  have "b(m := d) = fill m d 1 b" by (auto simp: fill_def)
  then show ?case using 2 fill_fill [of m 1 d n b] by simp
qed simp

lemma ucast_and_ff: "ucast (c AND 0xff :: u32) = (ucast c :: u8)"
proof -
  have "c AND 0xff = c AND mask 8" by (simp add: mask_eq_exp_minus_1)
  then show ?thesis by (intro bit_word_eqI) (auto simp: bit_simps)
qed

lemma rt_memset_fill: "rt_memset s c n b = fill s (ucast c) n b"
proof (cases "\<not> n < 4 \<and> s mod 4 = 0")
  case True
  define d where "d = c AND 0xff"
  define w where "w = (push_bit 8 d OR d) OR push_bit 16 (push_bit 8 d OR d)"
  have w: "wr32 b a w = fill a (ucast d) 4 b" for a b
    unfolding w_def d_def by (rule wr32_fill) (rule memset_pattern)+
  obtain a1 n1 b1 where 1: "memset_big w s n b = (a1, n1, b1)" by (cases "memset_big w s n b")
  obtain a2 n2 b2 where 2: "memset_words w a1 n1 b1 = (a2, n2, b2)" by (cases "memset_words w a1 n1 b1")
  obtain k where k: "a1 = s + k" "n = k + n1" "b1 = fill s (ucast d) k b" using memset_big_fill [OF w 1] by auto
  obtain l where l: "a2 = a1 + l" "n1 = l + n2" "b2 = fill a1 (ucast d) l b1" using memset_words_fill [OF w 2] by auto
  have "rt_memset s c n b = fill a2 (ucast d) n2 b2"
    using True 1 2 by (simp add: rt_memset_def Let_def d_def w_def memset_bytes_fill)
  also have "\<dots> = fill s (ucast d) n b" using k l by (simp add: fill_fill add.assoc)
  finally show ?thesis by (simp add: d_def ucast_and_ff)
next
  case False
  then show ?thesis by (auto simp: rt_memset_def Let_def memset_bytes_fill ucast_and_ff)
qed

text \<open>Copying upwards is right when the target does not start inside the source.\<close>

definition upward :: "nat \<Rightarrow> nat \<Rightarrow> nat \<Rightarrow> bool" where
  "upward d s n \<longleftrightarrow> d \<le> s \<or> s + n \<le> d"

lemma copied_0 [simp]: "copied d s 0 b = b"
  by (rule ext) (auto simp: copied_def)

lemma copied_copied:
  assumes "upward d s (n + m)"
  shows "copied (d + n) (s + n) m (copied d s n b) = copied d s (n + m) b"
  using assms by (intro ext) (auto simp: copied_def upward_def algebra_simps)

lemma wr32_copied: "wr32 b d (rd32 b s) = copied d s 4 b"
proof (rule ext)
  fix i
  have "ucast (rd32 b s) = b s" "ucast (drop_bit 8 (rd32 b s)) = b (s + 1)"
    "ucast (drop_bit 16 (rd32 b s)) = b (s + 2)" "ucast (drop_bit 24 (rd32 b s)) = b (s + 3)"
    by (rule bit_word_eqI; auto simp: rd32_def rd16_def bit_simps numeral_3_eq_3 dest: bit_imp_le_length)+
  then show "wr32 b d (rd32 b s) i = copied d s 4 b i"
    using wr32_inside [of b d "rd32 b s"] wr32_bytes [of i d b "rd32 b s"] in_word_cases [of i d]
    by (cases "d \<le> i \<and> i < d + 4") (auto simp: copied_def)
qed

lemma memcpy_bytes_copied: "upward d s n \<Longrightarrow> memcpy_bytes d s n b = copied d s n b"
proof (induction d s n b rule: memcpy_bytes.induct)
  case (2 d s n b)
  have "b(d := b s) = copied d s 1 b" by (rule ext) (auto simp: copied_def)
  moreover have "upward (d + 1) (s + 1) n" "upward d s (1 + n)" using 2(2) by (auto simp: upward_def)
  ultimately show ?case using 2(1) copied_copied [of d s 1 n b] by simp
qed simp

lemma memcpy_words_copied:
  "memcpy_words d s n b = (d', s', n', b') \<Longrightarrow> upward d s n \<Longrightarrow> \<exists>k. d' = d + k \<and> s' = s + k \<and> n = k + n' \<and> b' = copied d s k b"
proof (induction n arbitrary: d s b rule: less_induct)
  case (less n)
  show ?case
  proof (cases "n \<ge> 4")
    case True
    then have e: "memcpy_words (d + 4) (s + 4) (n - 4) (copied d s 4 b) = (d', s', n', b')"
      using less.prems(1) by (simp add: memcpy_words.simps [of d s n b] wr32_copied)
    have u: "upward (d + 4) (s + 4) (n - 4)" using less.prems(2) True by (auto simp: upward_def)
    from less.IH [OF _ e u] True obtain k where k: "d' = d + 4 + k" "s' = s + 4 + k" "n - 4 = k + n'"
      "b' = copied (d + 4) (s + 4) k (copied d s 4 b)" by auto
    have "upward d s (4 + k)" using less.prems(2) k(3) True by (auto simp: upward_def)
    then show ?thesis using True k by (intro exI [of _ "4 + k"]) (simp add: copied_copied)
  next
    case False then show ?thesis using less.prems by (intro exI [of _ 0]) (simp add: memcpy_words.simps)
  qed
qed

lemma memcpy_big_copied:
  "memcpy_big d s n b = (d', s', n', b') \<Longrightarrow> upward d s n \<Longrightarrow> \<exists>k. d' = d + k \<and> s' = s + k \<and> n = k + n' \<and> b' = copied d s k b"
proof (induction n arbitrary: d s b rule: less_induct)
  case (less n)
  show ?case
  proof (cases "n \<ge> 16")
    case True
    have up: "upward d s m" if "m \<le> n" for m using less.prems(2) that by (auto simp: upward_def)
    have "copied (d + 12) (s + 12) 4 (copied (d + 8) (s + 8) 4 (copied (d + 4) (s + 4) 4 (copied d s 4 b))) = copied d s 16 b"
      using copied_copied [OF up, of 4 4 b] copied_copied [OF up, of 8 4 b] copied_copied [OF up, of 12 4 b] True by simp
    then have e: "memcpy_big (d + 16) (s + 16) (n - 16) (copied d s 16 b) = (d', s', n', b')"
      using less.prems(1) True by (simp add: memcpy_big.simps [of d s n b] wr32_copied Let_def)
    have u: "upward (d + 16) (s + 16) (n - 16)" using less.prems(2) True by (auto simp: upward_def)
    from less.IH [OF _ e u] True obtain k where k: "d' = d + 16 + k" "s' = s + 16 + k" "n - 16 = k + n'"
      "b' = copied (d + 16) (s + 16) k (copied d s 16 b)" by auto
    have "upward d s (16 + k)" using k(3) True by (intro up) simp
    then show ?thesis using True k by (intro exI [of _ "16 + k"]) (simp add: copied_copied)
  next
    case False then show ?thesis using less.prems by (intro exI [of _ 0]) (simp add: memcpy_big.simps)
  qed
qed

lemma rt_memcpy_copied:
  assumes u: "upward d s n"
  shows "rt_memcpy d s n b = copied d s n b"
proof (cases "\<not> n < 16 \<and> s mod 4 = 0 \<and> d mod 4 = 0")
  case True
  obtain d1 s1 n1 b1 where 1: "memcpy_big d s n b = (d1, s1, n1, b1)" by (cases "memcpy_big d s n b")
  obtain d2 s2 n2 b2 where 2: "memcpy_words d1 s1 n1 b1 = (d2, s2, n2, b2)" by (cases "memcpy_words d1 s1 n1 b1")
  obtain k where k: "d1 = d + k" "s1 = s + k" "n = k + n1" "b1 = copied d s k b" using memcpy_big_copied [OF 1 u] by auto
  have u1: "upward d1 s1 n1" using u k by (auto simp: upward_def)
  obtain l where l: "d2 = d1 + l" "s2 = s1 + l" "n1 = l + n2" "b2 = copied d1 s1 l b1" using memcpy_words_copied [OF 2 u1] by auto
  have u2: "upward d2 s2 n2" using u1 l by (auto simp: upward_def)
  have "upward d s (k + l)" using u k l by (auto simp: upward_def)
  then have b2: "b2 = copied d s (k + l) b" using k l copied_copied [of d s k l b] by simp
  have "rt_memcpy d s n b = copied d2 s2 n2 b2" using True 1 2 memcpy_bytes_copied [OF u2] by (simp add: rt_memcpy_def)
  then show ?thesis using u b2 k l copied_copied [of d s "k + l" n2 b] by (simp add: add.assoc)
next
  case False
  then show ?thesis using memcpy_bytes_copied [OF u] by (auto simp: rt_memcpy_def)
qed

lemma memmove_back_copied: "s \<le> d \<Longrightarrow> memmove_back (d + n) (s + n) n b = copied d s n b"
proof (induction n arbitrary: b)
  case (Suc n)
  have "copied d s n (b(d + n := b (s + n))) = copied d s (Suc n) b"
    using Suc.prems by (intro ext) (auto simp: copied_def less_Suc_eq)
  then show ?case using Suc by simp
qed simp

lemma rt_memmove_copied: "rt_memmove d s n b = copied d s n b"
proof (cases "s < d \<and> d < s + n")
  case True then show ?thesis using memmove_back_copied [of s d n b] by (simp add: rt_memmove_def)
next
  case False
  then have "upward d s n" by (auto simp: upward_def)
  then show ?thesis using False memcpy_bytes_copied by (auto simp: rt_memmove_def)
qed

section \<open>Comparing and searching\<close>

lemma view_Suc: "view b s (Suc n) = b s # view b (s + 1) n"
  using upt_conv_Cons [of s "s + Suc n"] by (simp add: view_def)

lemma length_view [simp]: "length (view b s n) = n"
  by (simp add: view_def)

lemma nth_view: "i < n \<Longrightarrow> view b s n ! i = b (s + i)"
  by (simp add: view_def)

lemma take_drop_view: "i + m \<le> n \<Longrightarrow> take m (drop i (view b s n)) = view b (s + i) m"
  by (simp add: view_def drop_map take_map)

lemma rt_memcmp_eq_0: "rt_memcmp cs ct n b = 0 \<longleftrightarrow> view b cs n = view b ct n"
proof (induction cs ct n b rule: rt_memcmp.induct)
  case (2 cs ct n b) then show ?case by (auto simp: view_Suc Let_def word_uint_eq_iff)
qed (simp add: view_def)

lemma rt_memcmp_less:
  "rt_memcmp cs ct n b < 0 \<longleftrightarrow> (\<exists>k < n. (\<forall>i < k. b (cs + i) = b (ct + i)) \<and> b (cs + k) < b (ct + k))"
proof (induction cs ct n b rule: rt_memcmp.induct)
  case (2 cs ct n b)
  have split: "(\<exists>k < Suc n. (\<forall>i < k. b (cs + i) = b (ct + i)) \<and> b (cs + k) < b (ct + k)) \<longleftrightarrow>
      b cs < b ct \<or> b cs = b ct \<and> (\<exists>k < n. (\<forall>i < k. b (cs + 1 + i) = b (ct + 1 + i)) \<and> b (cs + 1 + k) < b (ct + 1 + k))"
    unfolding Ex_less_Suc2 by (auto simp: All_less_Suc2)
  show ?case
  proof (cases "b cs = b ct")
    case True then show ?thesis using 2 split by (simp add: Let_def)
  next
    case False
    then have "uint (b cs) \<noteq> uint (b ct)" by (simp add: word_uint_eq_iff)
    then show ?thesis using False split by (auto simp: Let_def word_less_def)
  qed
qed simp

lemma c_string_nth: "c_string b s xs \<Longrightarrow> i < length xs \<Longrightarrow> b (s + i) = xs ! i \<and> xs ! i \<noteq> 0"
  unfolding c_string_def by (metis nth_mem nth_view)

lemma c_string_Nil: "c_string b s [] \<longleftrightarrow> b s = 0"
  by (simp add: c_string_def view_def)

lemma c_string_Cons: "c_string b s (x # xs) \<longleftrightarrow> b s = x \<and> x \<noteq> 0 \<and> c_string b (s + 1) xs"
  by (auto simp: c_string_def view_Suc)

lemma strlen_loop_eq: "c_string b sc xs \<Longrightarrow> s \<le> sc \<Longrightarrow> strlen_loop b s sc = Some (sc - s + length xs)"
proof (induction xs arbitrary: sc)
  case Nil then show ?case by (simp add: strlen_loop.simps c_string_Nil)
next
  case (Cons x xs)
  then show ?case by (subst strlen_loop.simps) (auto simp: c_string_Cons)
qed

lemma rt_strlen_eq: "c_string b s xs \<Longrightarrow> rt_strlen b s = Some (length xs)"
  by (simp add: rt_strlen_def strlen_loop_eq)

lemma strnlen_loop_eq:
  "c_string b sc xs \<Longrightarrow> s \<le> sc \<Longrightarrow> strnlen_loop b s m sc = (if sc - s < m then min (sc - s + length xs) m else sc - s)"
proof (induction xs arbitrary: sc)
  case Nil then show ?case by (simp add: strnlen_loop.simps c_string_Nil)
next
  case (Cons x xs)
  then show ?case by (subst strnlen_loop.simps) (auto simp: c_string_Cons)
qed

lemma rt_strnlen_eq: "c_string b s xs \<Longrightarrow> rt_strnlen b s m = min (length xs) m"
  by (simp add: rt_strnlen_def strnlen_loop_eq)

lemma rt_strcmp_eq: "c_string m p xs \<Longrightarrow> c_string m q ys \<Longrightarrow> \<exists>r. rt_strcmp m p q = Some r \<and> (r = 0 \<longleftrightarrow> xs = ys)"
proof (induction xs arbitrary: p q ys)
  case Nil
  then show ?case by (cases ys) (auto simp: rt_strcmp.simps [of m p q] c_string_Nil c_string_Cons word_uint_eq_iff)
next
  case (Cons x xs)
  show ?case
  proof (cases ys)
    case Nil then show ?thesis using Cons.prems by (auto simp: rt_strcmp.simps [of m p q] c_string_Nil c_string_Cons word_uint_eq_iff)
  next
    case (Cons y ys')
    then show ?thesis using Cons.prems Cons.IH [of "p + 1" "q + 1" ys'] by (subst rt_strcmp.simps) (auto simp: c_string_Cons word_uint_eq_iff)
  qed
qed

text \<open>\<open>rt_strstr\<close> finds the first occurrence.\<close>

definition occurs :: "u8 list \<Rightarrow> u8 list \<Rightarrow> nat \<Rightarrow> bool" where
  "occurs ys xs i \<longleftrightarrow> i + length ys \<le> length xs \<and> take (length ys) (drop i xs) = ys"

lemma strstr_loop_spec:
  assumes x: "c_string b s1 xs" and y: "c_string b s2 ys" and ne: "ys \<noteq> []"
  shows "j \<le> length xs \<Longrightarrow> (case strstr_loop b (s1 + j) s2 (length ys) (int (length xs - j)) of
      Some p \<Rightarrow> \<exists>i \<ge> j. p = s1 + i \<and> occurs ys xs i \<and> (\<forall>k. j \<le> k \<and> k < i \<longrightarrow> \<not> occurs ys xs k)
    | None \<Rightarrow> \<forall>k \<ge> j. \<not> occurs ys xs k)"
proof (induction "length xs - j" arbitrary: j rule: less_induct)
  case less
  have vx: "view b s1 (length xs) = xs" and vy: "view b s2 (length ys) = ys" using x y by (simp_all add: c_string_def)
  show ?case
  proof (cases "j + length ys \<le> length xs")
    case False
    then have "length xs - j < length ys" using ne by (cases ys) auto
    then show ?thesis using False by (subst strstr_loop.simps) (simp add: occurs_def)
  next
    case True
    have "view b (s1 + j) (length ys) = take (length ys) (drop j xs)" using take_drop_view [OF True, of b s1] vx by simp
    then have cmp: "rt_memcmp (s1 + j) s2 (length ys) b = 0 \<longleftrightarrow> occurs ys xs j"
      using True vy by (simp add: rt_memcmp_eq_0 occurs_def)
    have j: "j + 1 \<le> length xs" "length xs - (j + 1) < length xs - j" "int (length xs - j) - 1 = int (length xs - (j + 1))"
      using True ne by (cases ys; simp)+
    show ?thesis
    proof (cases "occurs ys xs j")
      case True
      then show ?thesis using cmp \<open>j + length ys \<le> length xs\<close> by (subst strstr_loop.simps) (auto intro!: exI [of _ j])
    next
      case no: False
      let ?next = "strstr_loop b (s1 + (j + 1)) s2 (length ys) (int (length xs - (j + 1)))"
      have st: "strstr_loop b (s1 + j) s2 (length ys) (int (length xs - j)) = ?next"
        using cmp no True j(3) by (subst strstr_loop.simps) (simp add: Let_def add.assoc)
      show ?thesis
      proof (cases ?next)
        case None
        then have "\<forall>k \<ge> j + 1. \<not> occurs ys xs k" using less(1) [OF j(2,1)] by simp
        then have "\<forall>k \<ge> j. \<not> occurs ys xs k" using no by (metis Suc_eq_plus1 le_antisym not_less_eq_eq)
        then show ?thesis using st None by simp
      next
        case (Some p)
        then obtain i where i: "i \<ge> j + 1" "p = s1 + i" "occurs ys xs i" "\<forall>k. j + 1 \<le> k \<and> k < i \<longrightarrow> \<not> occurs ys xs k"
          using less(1) [OF j(2,1)] by auto
        then have "\<forall>k. j \<le> k \<and> k < i \<longrightarrow> \<not> occurs ys xs k" using no by (metis Suc_eq_plus1 le_antisym not_less_eq_eq)
        then show ?thesis using st Some i by auto
      qed
    qed
  qed
qed

section \<open>Properties\<close>


text \<open>
  On two C strings \<open>rt_strstr\<close> returns, with the address of the first occurrence of the second in the first, or with the null
  pointer when there is none.
\<close>

theorem strstr_first:
  assumes x: "c_string b s1 xs" and y: "c_string b s2 ys"
  shows "\<exists>r. rt_strstr b s1 s2 = Some r \<and>
    (case r of Some p \<Rightarrow> \<exists>i. p = s1 + i \<and> occurs ys xs i \<and> (\<forall>k < i. \<not> occurs ys xs k) | None \<Rightarrow> \<forall>k. \<not> occurs ys xs k)"
proof (cases "ys = []")
  case True
  then show ?thesis using rt_strlen_eq [OF y] by (auto simp: rt_strstr_def occurs_def intro!: exI [of _ 0])
next
  case False
  then show ?thesis
    using strstr_loop_spec [OF x y False, of 0] rt_strlen_eq [OF x] rt_strlen_eq [OF y]
    by (simp add: rt_strstr_def split: option.splits)
qed

theorem strstr_first_witness:
  "rt_strstr (\<lambda>i. [65, 66, 65, 67, 0, 65, 67, 0] ! (i mod 8)) 0 5 = Some (Some 2)"
proof -
  define b :: bytes where "b = (\<lambda>i. [65, 66, 65, 67, 0, 65, 67, 0] ! (i mod 8))"
  have x: "c_string b 0 [65, 66, 65, 67]" and y: "c_string b 5 [65, 67]" by (simp_all add: c_string_def view_def b_def upt_rec)
  obtain r where r: "rt_strstr b 0 5 = Some r" "case r of Some p \<Rightarrow> \<exists>i. p = 0 + i \<and> occurs [65, 67] [65, 66, 65, 67] i \<and>
      (\<forall>k < i. \<not> occurs [65, 67] [65, 66, 65, 67] k) | None \<Rightarrow> \<forall>k. \<not> occurs [65, 67] [65, 66, 65, 67] k"
    using strstr_first [OF x y] by blast
  have o: "occurs [65, 67] [65, 66, 65, 67] i \<longleftrightarrow> i = 2" for i
    by (cases i rule: nat.exhaust; auto simp: occurs_def less_Suc_eq numeral_eq_Suc drop_Cons' take_Cons')
  show ?thesis using r unfolding o b_def [symmetric] by (cases r) auto
qed

end
