(* ===== verification/Heap.thy ===== *)
theory Heap
  imports Interfaces Memory
begin

text \<open>
  The small-memory heap of \<^verbatim>\<open>rt-thread/src/mem.c\<close>: a chain of blocks with headers inside the managed
  memory, first fit from the lowest free block, and merging of neighbours on release. The memory is a
  store of bytes at offsets from \<open>heap_ptr\<close>; the header of a block is read from and written to these bytes, so a header
  written in the wrong place or a write outside a block would show.
  Pointers to headers (\<open>lfree\<close>, \<open>heap_end\<close>, \<open>mem\<close>) are offsets, pointers of the caller (\<open>rmem\<close>)
  are addresses. This theory has the sections a caller runs while it holds the semaphore \<open>heap_sem\<close>, and
  what they do to the chain of blocks; \<^verbatim>\<open>Heap_Calls\<close> has the calls.
\<close>

section \<open>Headers in memory\<close>

text \<open>\<^verbatim>\<open>struct heap_mem\<close>: magic, used, next and prev at the offsets 0, 2, 4 and 8.\<close>

definition hmagic :: "bytes \<Rightarrow> nat \<Rightarrow> u16" where "hmagic b p = rd16 b p"
definition hused :: "bytes \<Rightarrow> nat \<Rightarrow> u16" where "hused b p = rd16 b (p + 2)"
definition hnext :: "bytes \<Rightarrow> nat \<Rightarrow> u32" where "hnext b p = rd32 b (p + 4)"
definition hprev :: "bytes \<Rightarrow> nat \<Rightarrow> u32" where "hprev b p = rd32 b (p + 8)"
definition set_magic :: "nat \<Rightarrow> u16 \<Rightarrow> bytes \<Rightarrow> bytes" where "set_magic p v b = wr16 b p v"
definition set_used :: "nat \<Rightarrow> u16 \<Rightarrow> bytes \<Rightarrow> bytes" where "set_used p v b = wr16 b (p + 2) v"
definition set_next :: "nat \<Rightarrow> u32 \<Rightarrow> bytes \<Rightarrow> bytes" where "set_next p v b = wr32 b (p + 4) v"
definition set_prev :: "nat \<Rightarrow> u32 \<Rightarrow> bytes \<Rightarrow> bytes" where "set_prev p v b = wr32 b (p + 8) v"

definition HEAP_MAGIC :: u16 where "HEAP_MAGIC = 0x1ea0"
abbreviation SIZEOF_STRUCT_MEM :: u32 where "SIZEOF_STRUCT_MEM \<equiv> 12"
abbreviation MIN_SIZE :: u32 where "MIN_SIZE \<equiv> 12"
abbreviation MIN_SIZE_ALIGNED :: u32 where "MIN_SIZE_ALIGNED \<equiv> 12"

record heap =
  heap_ptr :: u32
  heap_end :: nat
  lfree :: nat
  heap_sem :: nat
  mem_size_aligned :: u32
  used_mem :: u32
  max_mem :: u32
  hbytes :: bytes

section \<open>The sections that hold the semaphore\<close>

text \<open>\<open>plug_holes\<close>; its first assertion, \<open>mem \<ge> heap_ptr\<close>, holds for every offset.\<close>

definition plug_forward :: "nat \<Rightarrow> heap \<Rightarrow> heap" where
  "plug_forward mem h =
     (let b = hbytes h; nmem = unat (hnext b mem) in
      if mem \<noteq> nmem \<and> hused b nmem = 0 \<and> nmem \<noteq> heap_end h then
        let h = (if lfree h = nmem then h\<lparr>lfree := mem\<rparr> else h);
            b = set_next mem (hnext b nmem) b;
            b = set_prev (unat (hnext b nmem)) (of_nat mem) b
        in h\<lparr>hbytes := b\<rparr>
      else h)"

definition plug_backward :: "nat \<Rightarrow> heap \<Rightarrow> heap" where
  "plug_backward mem h =
     (let b = hbytes h; pmem = unat (hprev b mem) in
      if pmem \<noteq> mem \<and> hused b pmem = 0 then
        let h = (if lfree h = mem then h\<lparr>lfree := pmem\<rparr> else h);
            b = set_next pmem (hnext b mem) b;
            b = set_prev (unat (hnext b mem)) (of_nat pmem) b
        in h\<lparr>hbytes := b\<rparr>
      else h)"

definition plug_holes :: "nat \<Rightarrow> heap \<Rightarrow> heap option" where
  "plug_holes mem h = do {
     rt_assert (mem < heap_end h);
     rt_assert (hused (hbytes h) mem = 0);
     Some (plug_backward mem (plug_forward mem h)) }"

text \<open>The search loop of \<open>rt_malloc\<close>; the offset of the block found, or none.\<close>

partial_function (option) malloc_search :: "u32 \<Rightarrow> heap \<Rightarrow> u32 \<Rightarrow> u32 option option" where
  "malloc_search sz h ptr =
     (if ptr < mem_size_aligned h - sz then
        if hused (hbytes h) (unat ptr) = 0 \<and> hnext (hbytes h) (unat ptr) - (ptr + SIZEOF_STRUCT_MEM) \<ge> sz
        then Some (Some ptr)
        else malloc_search sz h (hnext (hbytes h) (unat ptr))
      else Some None)"

text \<open>The loop that moves \<open>lfree\<close> to the next free block.\<close>

partial_function (option) next_free :: "heap \<Rightarrow> nat \<Rightarrow> nat option" where
  "next_free h l =
     (if hused (hbytes h) l \<noteq> 0 \<and> l \<noteq> heap_end h then next_free h (unat (hnext (hbytes h) l)) else Some l)"

definition count_used :: "u32 \<Rightarrow> heap \<Rightarrow> heap" where
  "count_used n h =
     (let h = h\<lparr>used_mem := used_mem h + n\<rparr>
      in if max_mem h < used_mem h then h\<lparr>max_mem := used_mem h\<rparr> else h)"

text \<open>A new free block behind the first \<open>sz\<close> bytes of the block at \<open>ptr\<close>.\<close>

definition split_block :: "u32 \<Rightarrow> u32 \<Rightarrow> heap \<Rightarrow> bytes" where
  "split_block sz ptr h =
     (let b = hbytes h; mem = unat ptr; ptr2 = ptr + SIZEOF_STRUCT_MEM + sz; mem2 = unat ptr2;
          b = set_magic mem2 HEAP_MAGIC b;
          b = set_used mem2 0 b;
          b = set_next mem2 (hnext b mem) b;
          b = set_prev mem2 ptr b;
          b = set_next mem ptr2 b
      in if hnext b mem2 \<noteq> mem_size_aligned h + SIZEOF_STRUCT_MEM
         then set_prev (unat (hnext b mem2)) ptr2 b else b)"

definition malloc_mark :: "u32 \<Rightarrow> u32 \<Rightarrow> heap \<Rightarrow> heap" where
  "malloc_mark sz ptr h =
     (let mem = unat ptr;
          h = (if hnext (hbytes h) mem - (ptr + SIZEOF_STRUCT_MEM) \<ge> sz + SIZEOF_STRUCT_MEM + MIN_SIZE_ALIGNED
               then count_used (sz + SIZEOF_STRUCT_MEM) (h\<lparr>hbytes := set_used mem 1 (split_block sz ptr h)\<rparr>)
               else count_used (hnext (hbytes h) mem - ptr) (h\<lparr>hbytes := set_used mem 1 (hbytes h)\<rparr>))
      in h\<lparr>hbytes := set_magic mem HEAP_MAGIC (hbytes h)\<rparr>)"

definition malloc_section :: "u32 \<Rightarrow> heap \<Rightarrow> (u32 option \<times> heap) option" where
  "malloc_section sz h = do {
     r \<leftarrow> malloc_search sz h (of_nat (lfree h));
     case r of
       None \<Rightarrow> Some (None, h)
     | Some ptr \<Rightarrow> do {
         let h = malloc_mark sz ptr h;
         h \<leftarrow> (if unat ptr = lfree h then do {
             l \<leftarrow> next_free h (lfree h);
             rt_assert (l = heap_end h \<or> hused (hbytes h) l = 0);
             Some (h\<lparr>lfree := l\<rparr>) }
           else Some h);
         Some (Some ptr, h) } }"

definition free_mark :: "nat \<Rightarrow> heap \<Rightarrow> heap" where
  "free_mark mem h = h\<lparr>hbytes := set_magic mem HEAP_MAGIC (set_used mem 0 (hbytes h)),
     lfree := (if mem < lfree h then mem else lfree h), used_mem := used_mem h - (hnext (hbytes h) mem - of_nat mem)\<rparr>"

definition free_section :: "nat \<Rightarrow> heap \<Rightarrow> heap option" where
  "free_section mem h = do {
     rt_assert (hused (hbytes h) mem \<noteq> 0);
     rt_assert (hmagic (hbytes h) mem = HEAP_MAGIC);
     plug_holes mem (free_mark mem h) }"

text \<open>
  The section of \<open>rt_realloc\<close>: the size of the block, and whether the block stays where it is.
\<close>

definition realloc_section :: "u32 \<Rightarrow> u32 \<Rightarrow> heap \<Rightarrow> (u32 \<times> bool \<times> heap) option" where
  "realloc_section ptr newsize h = do {
     let sz = hnext (hbytes h) (unat ptr) - ptr - SIZEOF_STRUCT_MEM;
     if sz = newsize then Some (sz, True, h)
     else if newsize + SIZEOF_STRUCT_MEM + MIN_SIZE < sz then do {
       let h = h\<lparr>used_mem := used_mem h - (sz - newsize), hbytes := split_block newsize ptr h\<rparr>;
       h \<leftarrow> plug_holes (unat (ptr + SIZEOF_STRUCT_MEM + newsize)) h;
       Some (sz, True, h) }
     else Some (sz, False, h) }"

section \<open>Reading and writing headers\<close>

lemmas hfield_defs = hmagic_def hused_def hnext_def hprev_def set_magic_def set_used_def set_next_def set_prev_def

lemma hfields_same [simp]:
  "hmagic (set_magic p m b) p = m" "hmagic (set_used p u b) p = hmagic b p"
  "hmagic (set_next p x b) p = hmagic b p" "hmagic (set_prev p x b) p = hmagic b p"
  "hused (set_magic p m b) p = hused b p" "hused (set_used p u b) p = u"
  "hused (set_next p x b) p = hused b p" "hused (set_prev p x b) p = hused b p"
  "hnext (set_magic p m b) p = hnext b p" "hnext (set_used p u b) p = hnext b p"
  "hnext (set_next p x b) p = x" "hnext (set_prev p x b) p = hnext b p"
  "hprev (set_magic p m b) p = hprev b p" "hprev (set_used p u b) p = hprev b p"
  "hprev (set_next p x b) p = hprev b p" "hprev (set_prev p x b) p = x"
  unfolding hfield_defs by (simp_all, (rule rd16_cong rd32_cong; auto simp: wr16_bytes wr32_bytes)+)

text \<open>A setter changes only the 12 bytes of its header.\<close>

lemma set_bytes:
  assumes "j < p \<or> p + 12 \<le> j"
  shows "set_magic p m b j = b j" "set_used p u b j = b j" "set_next p x b j = b j" "set_prev p x b j = b j"
  using assms by (auto simp: hfield_defs wr16_bytes wr32_bytes)

lemma hfields_cong:
  assumes "\<And>j. p \<le> j \<Longrightarrow> j < p + 12 \<Longrightarrow> b j = b' j"
  shows "hmagic b p = hmagic b' p" "hused b p = hused b' p" "hnext b p = hnext b' p" "hprev b p = hprev b' p"
  unfolding hfield_defs by (rule rd16_cong rd32_cong; simp add: assms)+

lemma hfields_other:
  assumes "q + 12 \<le> p \<or> p + 12 \<le> q"
  shows "hmagic (set_magic p m b) q = hmagic b q" "hmagic (set_used p u b) q = hmagic b q"
    "hmagic (set_next p x b) q = hmagic b q" "hmagic (set_prev p x b) q = hmagic b q"
    "hused (set_magic p m b) q = hused b q" "hused (set_used p u b) q = hused b q"
    "hused (set_next p x b) q = hused b q" "hused (set_prev p x b) q = hused b q"
    "hnext (set_magic p m b) q = hnext b q" "hnext (set_used p u b) q = hnext b q"
    "hnext (set_next p x b) q = hnext b q" "hnext (set_prev p x b) q = hnext b q"
    "hprev (set_magic p m b) q = hprev b q" "hprev (set_used p u b) q = hprev b q"
    "hprev (set_next p x b) q = hprev b q" "hprev (set_prev p x b) q = hprev b q"
  by (rule hfields_cong; use assms in \<open>auto simp: set_bytes\<close>)+

section \<open>The chain of blocks\<close>

text \<open>A block is the number of its data bytes and whether it is in use.\<close>

type_synonym block = "nat \<times> bool"

fun span :: "block list \<Rightarrow> nat" where
  "span [] = 0"
| "span ((n, u) # bs) = 12 + n + span bs"

fun last_off :: "nat \<Rightarrow> nat \<Rightarrow> block list \<Rightarrow> nat" where
  "last_off pv off [] = pv"
| "last_off pv off ((n, u) # bs) = last_off off (off + 12 + n) bs"

text \<open>\<open>rep b pv off bs\<close>: from \<open>off\<close> on the memory holds the headers of the blocks \<open>bs\<close>; \<open>pv\<close> is the block before.\<close>

fun rep :: "bytes \<Rightarrow> nat \<Rightarrow> nat \<Rightarrow> block list \<Rightarrow> bool" where
  "rep b pv off [] \<longleftrightarrow> True"
| "rep b pv off ((n, u) # bs) \<longleftrightarrow> hmagic b off = HEAP_MAGIC \<and> hused b off = of_bool u \<and>
     unat (hnext b off) = off + 12 + n \<and> unat (hprev b off) = pv \<and> rep b off (off + 12 + n) bs"

text \<open>The data areas of the blocks in use: offset and length, and their bytes.\<close>

fun live_from :: "nat \<Rightarrow> block list \<Rightarrow> (nat \<times> nat) list" where
  "live_from off [] = []"
| "live_from off ((n, u) # bs) = (if u then [(off + 12, n)] else []) @ live_from (off + 12 + n) bs"

fun live_byte :: "nat \<Rightarrow> block list \<Rightarrow> nat \<Rightarrow> bool" where
  "live_byte off [] i \<longleftrightarrow> False"
| "live_byte off ((n, u) # bs) i \<longleftrightarrow> u \<and> off + 12 \<le> i \<and> i < off + 12 + n \<or> live_byte (off + 12 + n) bs i"

fun used_sum :: "block list \<Rightarrow> nat" where
  "used_sum [] = 0"
| "used_sum ((n, u) # bs) = (if u then 12 + n else 0) + used_sum bs"

lemma span_append [simp]: "span (xs @ ys) = span xs + span ys"
  by (induction xs rule: span.induct) auto

lemma used_sum_append [simp]: "used_sum (xs @ ys) = used_sum xs + used_sum ys"
  by (induction xs rule: used_sum.induct) auto

lemma used_sum_le: "used_sum bs \<le> span bs"
  by (induction bs rule: used_sum.induct) auto

lemma live_from_append [simp]: "live_from off (xs @ ys) = live_from off xs @ live_from (off + span xs) ys"
  by (induction off xs rule: live_from.induct) (auto simp: add.assoc)

lemma live_byte_append [simp]: "live_byte off (xs @ ys) i \<longleftrightarrow> live_byte off xs i \<or> live_byte (off + span xs) ys i"
  by (induction off xs i rule: live_byte.induct) (auto simp: add.assoc)

lemma last_off_append [simp]: "last_off pv off (xs @ ys) = last_off (last_off pv off xs) (off + span xs) ys"
  by (induction pv off xs rule: last_off.induct) (auto simp: add.assoc)

lemma rep_append [simp]:
  "rep b pv off (xs @ ys) \<longleftrightarrow> rep b pv off xs \<and> rep b (last_off pv off xs) (off + span xs) ys"
  by (induction b pv off xs rule: rep.induct) (auto simp: add.assoc)

lemma span_eq_0 [simp]: "span bs = 0 \<longleftrightarrow> bs = []"
  by (cases bs rule: span.cases) auto

lemma span_unique:
  "xs @ ys = xs' @ ys' \<Longrightarrow> span xs = span xs' \<Longrightarrow> xs = xs' \<and> ys = ys'"
proof (induction xs arbitrary: xs')
  case Nil then show ?case by (cases xs') (auto simp: eq_commute [of 0])
next
  case (Cons x xs) then show ?case by (cases xs'; cases x) auto
qed

lemma rep_cong:
  "(\<And>i. off \<le> i \<Longrightarrow> i < off + span bs \<Longrightarrow> b i = b' i) \<Longrightarrow> rep b pv off bs = rep b' pv off bs"
proof (induction b pv off bs rule: rep.induct)
  case (2 b pv off n u bs)
  have "rep b off (off + 12 + n) bs = rep b' off (off + 12 + n) bs" using 2 by auto
  moreover have "hmagic b off = hmagic b' off" "hused b off = hused b' off" "hnext b off = hnext b' off" "hprev b off = hprev b' off"
    using 2(2) by (intro hfields_cong; simp)+
  ultimately show ?case by simp
qed simp

lemma rep_outside:
  assumes "p + 12 \<le> off \<or> off + span bs \<le> p"
  shows "rep (set_magic p m b) pv off bs = rep b pv off bs" "rep (set_used p u b) pv off bs = rep b pv off bs"
    "rep (set_next p x b) pv off bs = rep b pv off bs" "rep (set_prev p x b) pv off bs = rep b pv off bs"
  by (rule rep_cong; use assms in \<open>auto simp: set_bytes\<close>)+

text \<open>Giving the first block of a chain a new predecessor.\<close>

lemma rep_new_prev:
  assumes "rep b pv off bs" "bs \<noteq> []"
  shows "rep (set_prev off x b) (unat x) off bs"
  using assms by (cases bs rule: span.cases) (auto simp: rep_outside)

lemma live_byte_bounds: "live_byte off bs i \<Longrightarrow> off + 12 \<le> i \<and> i < off + span bs"
  by (induction off bs i rule: live_byte.induct) auto

lemma unat_plus12 [simp]: "unat x + 12 < 2 ^ 32 \<Longrightarrow> unat (x + 12 :: u32) = unat x + 12"
  by (simp add: unat_add_fit)

text \<open>Splitting a block leaves a used block of the requested size and a free one behind it.\<close>

lemma split_block_rep:
  assumes rep: "rep (hbytes h) 0 0 (xs @ (n, u) # ys)" and p: "span xs = unat ptr" and fits: "unat sz + 12 \<le> n"
    and small: "unat ptr + 12 + n < 2 ^ 32" and last: "ys = [] \<longleftrightarrow> unat ptr + 12 + n = unat (mem_size_aligned h + 12)"
  shows "rep (split_block sz ptr h) 0 0 (xs @ (unat sz, u) # (n - 12 - unat sz, False) # ys)"
    "live_byte 0 (xs @ (unat sz, True) # (n - 12 - unat sz, False) # ys) i \<Longrightarrow> split_block sz ptr h i = hbytes h i"
    "hused (split_block sz ptr h) (unat ptr + 12 + n + span ys) = hused (hbytes h) (unat ptr + 12 + n + span ys)"
proof -
  let ?p = "unat ptr"
  define q where "q = ?p + 12 + n"
  define p2 where "p2 = ?p + 12 + unat sz"
  have up2: "unat (ptr + 12 + sz) = p2" using small fits by (simp add: unat_add_fit p2_def)
  have pq: "?p + 12 \<le> p2" "p2 + 12 \<le> q" using fits by (auto simp: p2_def q_def)
  have r: "rep (hbytes h) 0 0 xs" "hmagic (hbytes h) ?p = HEAP_MAGIC" "hused (hbytes h) ?p = of_bool u"
    "unat (hnext (hbytes h) ?p) = q" "unat (hprev (hbytes h) ?p) = last_off 0 0 xs" "rep (hbytes h) ?p q ys"
    using rep p by (auto simp: q_def)
  have nx: "hnext (hbytes h) ?p = of_nat q" unfolding r(4) [symmetric] by simp
  define b where "b = set_next ?p (ptr + 12 + sz) (set_prev p2 ptr (set_next p2 (of_nat q) (set_used p2 0 (set_magic p2 HEAP_MAGIC (hbytes h)))))"
  have sq: "q < 2 ^ 32" using small by (simp add: q_def)
  have lst: "of_nat q = mem_size_aligned h + 12 \<longleftrightarrow> ys = []"
    using last sq unat_of_nat_small [of q, where 'a = 32] by (auto simp: word_unat_eq_iff q_def)
  have hn2: "hnext b p2 = of_nat q" using pq by (simp add: b_def hfields_other)
  have uq: "unat (of_nat q :: u32) = q" using sq by simp
  have sb: "split_block sz ptr h = (if ys = [] then b else set_prev q (ptr + 12 + sz) b)"
    unfolding split_block_def Let_def up2
    using pq nx hn2 lst uq by (simp add: b_def hfields_other)
  have hb: "hmagic b ?p = HEAP_MAGIC" "hused b ?p = of_bool u" "hnext b ?p = ptr + 12 + sz" "unat (hprev b ?p) = last_off 0 0 xs"
    "hmagic b p2 = HEAP_MAGIC" "hused b p2 = 0" "hprev b p2 = ptr"
    using pq r by (simp_all add: b_def hfields_other)
  have rx: "rep b 0 0 xs" using r(1) p pq by (simp add: b_def rep_outside)
  have ry: "rep b ?p q ys" using r(6) pq by (simp add: b_def rep_outside)
  have end_rep: "rep (split_block sz ptr h) p2 q ys"
    using rep_new_prev [OF ry, of "ptr + 12 + sz"] sb by (cases "ys = []") (auto simp: up2)
  have tot: "12 + (n - 12 - unat sz) + p2 = q" using fits by (simp add: p2_def q_def)
  have "rep (split_block sz ptr h) 0 0 xs" using rx p pq by (simp add: sb rep_outside)
  moreover have "hmagic (split_block sz ptr h) ?p = HEAP_MAGIC" "hused (split_block sz ptr h) ?p = of_bool u"
    "unat (hnext (split_block sz ptr h) ?p) = p2" "unat (hprev (split_block sz ptr h) ?p) = last_off 0 0 xs"
    "hmagic (split_block sz ptr h) p2 = HEAP_MAGIC" "hused (split_block sz ptr h) p2 = 0"
    "unat (hnext (split_block sz ptr h) p2) = q" "hprev (split_block sz ptr h) p2 = ptr"
    using hb hn2 pq by (simp_all add: sb hfields_other up2 uq)
  ultimately show "rep (split_block sz ptr h) 0 0 (xs @ (unat sz, u) # (n - 12 - unat sz, False) # ys)"
    using end_rep tot p by (simp add: p2_def algebra_simps)
  show "split_block sz ptr h i = hbytes h i" if "live_byte 0 (xs @ (unat sz, True) # (n - 12 - unat sz, False) # ys) i"
  proof -
    have "live_byte 0 xs i \<or> (?p + 12 \<le> i \<and> i < p2) \<or> live_byte q ys i"
      using that tot p by (auto simp: p2_def algebra_simps)
    then have "(i < ?p \<or> ?p + 12 \<le> i) \<and> (i < p2 \<or> p2 + 12 \<le> i) \<and> (ys = [] \<or> i < q \<or> q + 12 \<le> i)"
      using live_byte_bounds [of 0 xs i] live_byte_bounds [of q ys i] p pq by auto
    then show ?thesis by (auto simp: sb b_def set_bytes)
  qed
  have "q + 12 \<le> q + span ys \<or> ys = []" by (cases ys rule: span.cases) auto
  then show "hused (split_block sz ptr h) (unat ptr + 12 + n + span ys) = hused (hbytes h) (unat ptr + 12 + n + span ys)"
    using pq unfolding q_def [symmetric] by (auto simp: sb b_def hfields_other)
qed

text \<open>Joining two free blocks.\<close>

fun is_free :: "nat \<Rightarrow> block list \<Rightarrow> nat \<Rightarrow> bool" where
  "is_free off [] l \<longleftrightarrow> False"
| "is_free off ((n, u) # bs) l \<longleftrightarrow> \<not> u \<and> l = off \<or> is_free (off + 12 + n) bs l"

lemma is_free_append [simp]: "is_free off (xs @ ys) l \<longleftrightarrow> is_free off xs l \<or> is_free (off + span xs) ys l"
  by (induction off xs l rule: is_free.induct) (auto simp: add.assoc)

lemma is_free_bounds: "is_free off bs l \<Longrightarrow> off \<le> l \<and> l + 12 \<le> off + span bs"
  by (induction off bs l rule: is_free.induct) auto

definition join_bytes :: "nat \<Rightarrow> nat \<Rightarrow> bytes \<Rightarrow> bytes" where
  "join_bytes p q b = set_prev q (of_nat p) (set_next p (of_nat q) b)"

lemma join_rep:
  assumes rep: "rep b 0 0 (xs @ (n, False) # (m, False) # ys)" and p: "p = span xs" and q: "q = p + 24 + n + m"
    and small: "q < 2 ^ 32"
  shows "rep (join_bytes p q b) 0 0 (xs @ (n + 12 + m, False) # ys)"
    "live_byte 0 (xs @ (n + 12 + m, False) # ys) i \<Longrightarrow> join_bytes p q b i = b i"
    "hused (join_bytes p q b) (q + span ys) = hused b (q + span ys)"
proof -
  have "p < 2 ^ 32" using small q by simp
  then have up: "unat (of_nat p :: u32) = p" "unat (of_nat q :: u32) = q" using small by simp_all
  have pq: "p + 24 \<le> q" using q by simp
  have r: "rep b 0 0 xs" "hmagic b p = HEAP_MAGIC" "hused b p = 0" "unat (hprev b p) = last_off 0 0 xs" "rep b (p + 12 + n) q ys"
    using rep p q by (auto simp: algebra_simps)
  have x: "rep (join_bytes p q b) 0 0 xs" using r(1) p pq by (simp add: join_bytes_def rep_outside)
  have "rep (set_next p (of_nat q) b) (p + 12 + n) q ys" using r(5) pq by (simp add: rep_outside)
  then have y: "rep (join_bytes p q b) p q ys"
    using rep_new_prev [of "set_next p (of_nat q) b" "p + 12 + n" q ys "of_nat p"] up
    by (cases "ys = []") (auto simp: join_bytes_def)
  have "hmagic (join_bytes p q b) p = HEAP_MAGIC" "hused (join_bytes p q b) p = 0" "unat (hnext (join_bytes p q b) p) = q"
    "unat (hprev (join_bytes p q b) p) = last_off 0 0 xs"
    using r pq up by (simp_all add: join_bytes_def hfields_other)
  then show "rep (join_bytes p q b) 0 0 (xs @ (n + 12 + m, False) # ys)" using x y p q by (simp add: algebra_simps)
  show "join_bytes p q b i = b i" if "live_byte 0 (xs @ (n + 12 + m, False) # ys) i"
  proof -
    have "live_byte 0 xs i \<or> live_byte q ys i" using that p q by (simp add: algebra_simps)
    then have "(i < p \<or> p + 12 \<le> i) \<and> (i < q \<or> q + 12 \<le> i)"
      using live_byte_bounds [of 0 xs i] live_byte_bounds [of q ys i] p pq by auto
    then show ?thesis by (auto simp: join_bytes_def set_bytes)
  qed
  have "q + 12 \<le> q + span ys \<or> ys = []" by (cases ys rule: span.cases) auto
  then show "hused (join_bytes p q b) (q + span ys) = hused b (q + span ys)"
    using pq by (auto simp: join_bytes_def hfields_other)
qed

lemma plug_forward_join:
  assumes rep: "rep (hbytes h) 0 0 (xs @ (n, False) # (m, False) # ys)" and p: "p = span xs" and q: "q = p + 24 + n + m"
    and small: "q < 2 ^ 32" and e: "heap_end h = q + span ys"
  shows "plug_forward p h = h\<lparr>lfree := (if lfree h = p + 12 + n then p else lfree h), hbytes := join_bytes p q (hbytes h)\<rparr>"
proof -
  let ?b = "hbytes h"
  have r: "unat (hnext ?b p) = p + 12 + n" "hused ?b (p + 12 + n) = 0" "unat (hnext ?b (p + 12 + n)) = q"
    using rep p q by (auto simp: algebra_simps)
  have nq: "hnext ?b (p + 12 + n) = of_nat q" unfolding r(3) [symmetric] by simp
  have "hnext (set_next p x ?b) (p + 12 + n) = hnext ?b (p + 12 + n)" for x by (simp add: hfields_other)
  then show ?thesis using r e q nq small by (auto simp: plug_forward_def Let_def join_bytes_def)
qed

lemma plug_forward_keep:
  assumes "rep (hbytes h) 0 0 (xs @ (n, False) # ys)" "p = span xs" "heap_end h = p + 12 + n + span ys" "ys = [] \<or> snd (hd ys)"
  shows "plug_forward p h = h"
  using assms by (cases ys rule: span.cases) (auto simp: plug_forward_def Let_def)

lemma plug_backward_join:
  assumes rep: "rep (hbytes h) 0 0 (xs @ (n, False) # (m, False) # ys)" and p: "p = span xs" and q: "q = p + 24 + n + m"
    and small: "q < 2 ^ 32"
  shows "plug_backward (p + 12 + n) h =
    h\<lparr>lfree := (if lfree h = p + 12 + n then p else lfree h), hbytes := join_bytes p q (hbytes h)\<rparr>"
proof -
  let ?b = "hbytes h"
  have r: "unat (hprev ?b (p + 12 + n)) = p" "hused ?b p = 0" "unat (hnext ?b (p + 12 + n)) = q"
    using rep p q by (auto simp: algebra_simps)
  have nq: "hnext ?b (p + 12 + n) = of_nat q" unfolding r(3) [symmetric] by simp
  have "hnext (set_next p x ?b) (p + 12 + n) = hnext ?b (p + 12 + n)" for x by (simp add: hfields_other)
  then show ?thesis using r q nq small by (auto simp: plug_backward_def Let_def join_bytes_def)
qed

lemma plug_backward_keep:
  assumes rep: "rep (hbytes h) 0 0 (xs @ (n, False) # ys)" and p: "p = span xs" and last: "xs = [] \<or> snd (last xs)"
  shows "plug_backward p h = h"
proof (cases xs rule: rev_cases)
  case Nil then show ?thesis using rep p by (simp add: plug_backward_def)
next
  case (snoc zs x)
  obtain m where x: "x = (m, True)" using last snoc by (cases x) auto
  then have "unat (hprev (hbytes h) p) = span zs" "hused (hbytes h) (span zs) = 1" using rep p snoc by (auto simp: add.assoc)
  then show ?thesis by (simp add: plug_backward_def)
qed

section \<open>The invariant\<close>

definition no_adjacent :: "block list \<Rightarrow> bool" where
  "no_adjacent = successively (\<lambda>x y. snd x \<or> snd y)"

lemma no_adjacent_Nil [simp]: "no_adjacent []"
  by (simp add: no_adjacent_def)

lemma no_adjacent_append:
  "no_adjacent (xs @ ys) \<longleftrightarrow> no_adjacent xs \<and> no_adjacent ys \<and> (xs = [] \<or> ys = [] \<or> snd (last xs) \<or> snd (hd ys))"
  by (auto simp: no_adjacent_def successively_append_iff)

lemma no_adjacent_Cons: "no_adjacent (x # ys) \<longleftrightarrow> no_adjacent ys \<and> (ys = [] \<or> snd x \<or> snd (hd ys))"
  by (auto simp: no_adjacent_def successively_Cons)

text \<open>
  \<open>heap_inv h bs\<close>: the memory is the chain \<open>bs\<close> from \<open>heap_ptr\<close> to \<open>heap_end\<close>, block sizes are multiples of 4, no two
  free blocks are neighbours, \<open>lfree\<close> is a free block or the end, and the statistics are exact.
\<close>

definition heap_bounds :: "heap \<Rightarrow> bool" where
  "heap_bounds h \<longleftrightarrow> unat (mem_size_aligned h) + 12 = heap_end h \<and> 12 \<le> unat (mem_size_aligned h) \<and>
     unat (heap_ptr h) + heap_end h + 12 < 2 ^ 32 \<and> 4 dvd unat (heap_ptr h)"

definition chain :: "heap \<Rightarrow> block list \<Rightarrow> bool" where
  "chain h bs \<longleftrightarrow> rep (hbytes h) 0 0 bs \<and> span bs = heap_end h \<and> hused (hbytes h) (heap_end h) = 1 \<and>
     (\<forall>x \<in> set bs. 4 dvd fst x) \<and> (is_free 0 bs (lfree h) \<or> lfree h = heap_end h)"

definition heap_inv :: "heap \<Rightarrow> block list \<Rightarrow> bool" where
  "heap_inv h bs \<longleftrightarrow> heap_bounds h \<and> chain h bs \<and> no_adjacent bs \<and>
     unat (used_mem h) = used_sum bs \<and> used_mem h \<le> max_mem h"

text \<open>What an operation leaves alone.\<close>

definition same_frame :: "heap \<Rightarrow> heap \<Rightarrow> bool" where
  "same_frame h h' \<longleftrightarrow> heap_ptr h' = heap_ptr h \<and> heap_end h' = heap_end h \<and> heap_sem h' = heap_sem h \<and>
     mem_size_aligned h' = mem_size_aligned h"

definition keeps_data :: "block list \<Rightarrow> heap \<Rightarrow> heap \<Rightarrow> bool" where
  "keeps_data bs h h' \<longleftrightarrow> (\<forall>i. live_byte 0 bs i \<longrightarrow> hbytes h' i = hbytes h i)"

lemma same_frame_bounds: "same_frame h h' \<Longrightarrow> heap_bounds h' = heap_bounds h"
  by (simp add: same_frame_def heap_bounds_def)

text \<open>One merge, in terms of the invariant; it serves both directions.\<close>

lemma chain_join:
  assumes c: "chain h (xs @ (n, False) # (m, False) # ys)" and bd: "heap_bounds h" and p: "p = span xs"
    and h': "h' = h\<lparr>lfree := (if lfree h = p + 12 + n then p else lfree h), hbytes := join_bytes p (p + 24 + n + m) (hbytes h)\<rparr>"
  shows "chain h' (xs @ (n + 12 + m, False) # ys)" "keeps_data (xs @ (n + 12 + m, False) # ys) h h'"
proof -
  let ?q = "p + 24 + n + m"
  have r: "rep (hbytes h) 0 0 (xs @ (n, False) # (m, False) # ys)" and e: "heap_end h = ?q + span ys"
    using c p by (auto simp: chain_def)
  have sm: "?q < 2 ^ 32" using bd e by (simp add: heap_bounds_def)
  note j = join_rep [OF r p refl sm]
  have "4 dvd n" "4 dvd m" using c by (auto simp: chain_def)
  then have "4 dvd n + 12 + m" by presburger
  then show "chain h' (xs @ (n + 12 + m, False) # ys)" using c e j(1,3) h' p by (auto simp: chain_def algebra_simps)
  show "keeps_data (xs @ (n + 12 + m, False) # ys) h h'" using j(2) h' by (simp add: keeps_data_def)
qed

text \<open>The effect of merging: only free blocks change.\<close>

definition lowest :: "heap \<Rightarrow> block list \<Rightarrow> bool" where
  "lowest h bs \<longleftrightarrow> lfree h = span (takeWhile snd bs)"

definition merged :: "heap \<Rightarrow> block list \<Rightarrow> heap \<Rightarrow> block list \<Rightarrow> bool" where
  "merged h bs h' bs' \<longleftrightarrow> chain h' bs' \<and> same_frame h h' \<and> used_mem h' = used_mem h \<and> max_mem h' = max_mem h \<and>
     keeps_data bs' h h' \<and> live_from 0 bs' = live_from 0 bs \<and> (\<forall>i. live_byte 0 bs' i = live_byte 0 bs i) \<and>
     used_sum bs' = used_sum bs \<and> (lowest h bs \<longrightarrow> lowest h' bs')"

lemma merged_refl: "chain h bs \<Longrightarrow> merged h bs h bs"
  by (simp add: merged_def same_frame_def keeps_data_def)

lemma merged_trans: "merged h bs h' bs' \<Longrightarrow> merged h' bs' h'' bs'' \<Longrightarrow> merged h bs h'' bs''"
  by (simp add: merged_def same_frame_def keeps_data_def)

lemma merged_join:
  assumes c: "chain h (xs @ (n, False) # (m, False) # ys)" and bd: "heap_bounds h" and p: "p = span xs"
    and h': "h' = h\<lparr>lfree := (if lfree h = p + 12 + n then p else lfree h), hbytes := join_bytes p (p + 24 + n + m) (hbytes h)\<rparr>"
  shows "merged h (xs @ (n, False) # (m, False) # ys) h' (xs @ (n + 12 + m, False) # ys)"
proof -
  have "lowest h (xs @ (n, False) # (m, False) # ys) \<longrightarrow> lowest h' (xs @ (n + 12 + m, False) # ys)"
  proof (cases "\<forall>x \<in> set xs. snd x")
    case True
    then show ?thesis using h' p by (auto simp: lowest_def takeWhile_append)
  next
    case False
    then have "span (takeWhile snd xs) \<le> span xs"
      by (metis le_add1 span_append takeWhile_dropWhile_id)
    then show ?thesis using False h' p by (auto simp: lowest_def takeWhile_append)
  qed
  moreover have "12 + (n + 12 + m) = 12 + n + (12 + m)" by simp
  ultimately show ?thesis using chain_join [OF c bd p h'] h'
    by (auto simp: merged_def same_frame_def keeps_data_def algebra_simps)
qed

lemma plug_forward_spec:
  assumes c: "chain h (xs @ (n, False) # ys)" and bd: "heap_bounds h" and p: "p = span xs" and ny: "no_adjacent ys"
  obtains n' ys' where "merged h (xs @ (n, False) # ys) (plug_forward p h) (xs @ (n', False) # ys')"
    "no_adjacent ((n', False) # ys')"
proof -
  have r: "rep (hbytes h) 0 0 (xs @ (n, False) # ys)" and e: "heap_end h = p + 12 + n + span ys"
    using c p by (auto simp: chain_def)
  show thesis
  proof (cases "ys = [] \<or> snd (hd ys)")
    case True
    then show ?thesis using plug_forward_keep [OF r p e] merged_refl [OF c] ny by (intro that [of n ys]) (auto simp: no_adjacent_Cons)
  next
    case False
    then obtain m zs where ys: "ys = (m, False) # zs" by (cases ys) auto
    have e2: "heap_end h = p + 24 + n + m + span zs" using e ys by simp
    have sm: "p + 24 + n + m < 2 ^ 32" using bd e2 by (simp add: heap_bounds_def)
    note pf = plug_forward_join [OF r [unfolded ys] p refl sm e2]
    show ?thesis
      using merged_join [OF c [unfolded ys] bd p pf] ny ys by (intro that [of "n + 12 + m" zs]) (auto simp: no_adjacent_Cons)
  qed
qed

lemma plug_backward_spec:
  assumes c: "chain h (xs @ (n, False) # ys)" and bd: "heap_bounds h" and p: "p = span xs"
    and nx: "no_adjacent xs" and ny: "no_adjacent ((n, False) # ys)"
  obtains bs' where "merged h (xs @ (n, False) # ys) (plug_backward p h) bs'" "no_adjacent bs'"
proof (cases "xs = [] \<or> snd (last xs)")
  case True
  have r: "rep (hbytes h) 0 0 (xs @ (n, False) # ys)" using c by (simp add: chain_def)
  show thesis using plug_backward_keep [OF r p True] merged_refl [OF c] True nx ny
    by (intro that [of "xs @ (n, False) # ys"]) (auto simp: no_adjacent_append)
next
  case False
  then obtain m zs where xs: "xs = zs @ [(m, False)]" by (cases xs rule: rev_cases) auto
  have c2: "chain h (zs @ (m, False) # (n, False) # ys)" using c xs by simp
  have r: "rep (hbytes h) 0 0 (zs @ (m, False) # (n, False) # ys)" and e: "heap_end h = span zs + 24 + m + n + span ys"
    using c2 by (auto simp: chain_def)
  have sm: "span zs + 24 + m + n < 2 ^ 32" using bd e by (simp add: heap_bounds_def)
  have pz: "p = span zs + 12 + m" using p xs by simp
  note pb = plug_backward_join [OF r refl refl sm, folded pz]
  have "merged h (zs @ (m, False) # (n, False) # ys) (plug_backward p h) (zs @ (m + 12 + n, False) # ys)"
    by (rule merged_join [OF c2 bd refl]) (use pb pz in simp)
  then show thesis using nx ny xs by (intro that) (auto simp: no_adjacent_append no_adjacent_Cons)
qed

lemma plug_holes_spec:
  assumes c: "chain h (xs @ (n, False) # ys)" and bd: "heap_bounds h" and p: "p = span xs"
    and nx: "no_adjacent xs" and ny: "no_adjacent ys"
  obtains h' bs' where "plug_holes p h = Some h'" "merged h (xs @ (n, False) # ys) h' bs'" "no_adjacent bs'"
proof -
  obtain n1 ys1 where f: "merged h (xs @ (n, False) # ys) (plug_forward p h) (xs @ (n1, False) # ys1)"
    "no_adjacent ((n1, False) # ys1)"
    by (rule plug_forward_spec [OF c bd p ny])
  then have c1: "chain (plug_forward p h) (xs @ (n1, False) # ys1)" and "same_frame h (plug_forward p h)"
    by (simp_all add: merged_def)
  then have bd1: "heap_bounds (plug_forward p h)" using bd same_frame_bounds by blast
  obtain bs' where b: "merged (plug_forward p h) (xs @ (n1, False) # ys1) (plug_backward p (plug_forward p h)) bs'" "no_adjacent bs'"
    by (rule plug_backward_spec [OF c1 bd1 p nx f(2)])
  have "p < heap_end h" "hused (hbytes h) p = 0" using c p by (auto simp: chain_def)
  then have "plug_holes p h = Some (plug_backward p (plug_forward p h))" by (simp add: plug_holes_def)
  then show thesis using merged_trans [OF f(1) b(1)] b(2) by (rule that)
qed

section \<open>Releasing a block\<close>

lemma span_takeWhile_less:
  assumes "\<not> (\<forall>x \<in> set xs. snd x)"
  shows "span (takeWhile snd xs) + 12 \<le> span xs"
proof -
  have "dropWhile snd xs \<noteq> []" using assms by (simp add: dropWhile_eq_Nil_conv)
  then have "12 \<le> span (dropWhile snd xs)" by (cases "dropWhile snd xs" rule: span.cases) auto
  then show ?thesis by (metis add_left_mono span_append takeWhile_dropWhile_id)
qed

lemma free_mark_spec:
  assumes inv: "heap_inv h (xs @ (n, True) # ys)" and p: "p = span xs"
  shows "chain (free_mark p h) (xs @ (n, False) # ys)" "same_frame h (free_mark p h)" "max_mem (free_mark p h) = max_mem h"
    "keeps_data (xs @ (n, False) # ys) h (free_mark p h)" "unat (used_mem (free_mark p h)) = used_sum (xs @ (n, False) # ys)"
    "lowest h (xs @ (n, True) # ys) \<longrightarrow> lowest (free_mark p h) (xs @ (n, False) # ys)"
    "used_mem (free_mark p h) \<le> used_mem h"
proof -
  let ?b = "hbytes h" and ?h = "free_mark p h"
  have c: "chain h (xs @ (n, True) # ys)" and bd: "heap_bounds h" using inv by (simp_all add: heap_inv_def)
  have r: "rep ?b 0 0 xs" "unat (hnext ?b p) = p + 12 + n" "unat (hprev ?b p) = last_off 0 0 xs" "rep ?b p (p + 12 + n) ys"
    and e: "heap_end h = p + 12 + n + span ys"
    using c p by (auto simp: chain_def algebra_simps)
  have b': "hbytes ?h = set_magic p HEAP_MAGIC (set_used p 0 ?b)" by (simp add: free_mark_def)
  have "rep (hbytes ?h) 0 0 (xs @ (n, False) # ys)" using r p unfolding b' by (simp add: rep_outside algebra_simps)
  moreover have "hused (hbytes ?h) (heap_end h) = 1" using c e unfolding b' by (simp add: hfields_other chain_def)
  moreover have "is_free 0 (xs @ (n, False) # ys) (lfree ?h) \<or> lfree ?h = heap_end h"
    using c p by (auto simp: chain_def free_mark_def)
  ultimately show "chain ?h (xs @ (n, False) # ys)" using c e by (simp add: chain_def free_mark_def)
  show "same_frame h ?h" "max_mem ?h = max_mem h" by (simp_all add: free_mark_def same_frame_def)
  show "keeps_data (xs @ (n, False) # ys) h ?h"
    unfolding keeps_data_def b'
  proof (intro allI impI)
    fix i assume "live_byte 0 (xs @ (n, False) # ys) i"
    then have "i < p \<or> p + 12 \<le> i"
      using live_byte_bounds [of 0 xs i] live_byte_bounds [of "p + 12 + n" ys i] p by (auto simp: add.assoc)
    then show "set_magic p HEAP_MAGIC (set_used p 0 ?b) i = ?b i" by (simp add: set_bytes)
  qed
  have "p < 2 ^ 32" using bd e by (simp add: heap_bounds_def)
  then have up: "unat (of_nat p :: u32) = p" by simp
  then have d: "unat (hnext ?b p - of_nat p) = 12 + n" using r(2) by (subst unat_sub) (auto simp: word_le_nat_alt)
  have u: "unat (used_mem h) = used_sum xs + 12 + n + used_sum ys" using inv by (simp add: heap_inv_def)
  then have le: "hnext ?b p - of_nat p \<le> used_mem h" using d by (simp add: word_le_nat_alt)
  then have "unat (used_mem ?h) = unat (used_mem h) - (12 + n)" using d by (simp add: free_mark_def unat_sub)
  then show "unat (used_mem ?h) = used_sum (xs @ (n, False) # ys)" using u by simp
  with u show "used_mem ?h \<le> used_mem h" by (simp add: word_le_nat_alt)
  show "lowest h (xs @ (n, True) # ys) \<longrightarrow> lowest ?h (xs @ (n, False) # ys)"
    using span_takeWhile_less [of xs] p
    by (cases "\<forall>x \<in> set xs. snd x") (auto simp: lowest_def takeWhile_append free_mark_def)
qed

lemma free_section_spec:
  assumes inv: "heap_inv h (xs @ (n, True) # ys)" and p: "p = span xs"
  obtains h' bs' where "free_section p h = Some h'" "heap_inv h' bs'" "same_frame h h'" "keeps_data bs' h h'"
    "live_from 0 bs' = live_from 0 xs @ live_from (p + 12 + n) ys" "lowest h (xs @ (n, True) # ys) \<longrightarrow> lowest h' bs'"
    "\<forall>i. live_byte 0 bs' i = live_byte 0 (xs @ (n, False) # ys) i"
proof -
  note m = free_mark_spec [OF inv p]
  have bd: "heap_bounds (free_mark p h)" using inv same_frame_bounds [OF m(2)] by (simp add: heap_inv_def)
  have na: "no_adjacent xs" "no_adjacent ys" using inv by (auto simp: heap_inv_def no_adjacent_append no_adjacent_Cons)
  obtain h' bs' where h': "plug_holes p (free_mark p h) = Some h'" "merged (free_mark p h) (xs @ (n, False) # ys) h' bs'" "no_adjacent bs'"
    by (rule plug_holes_spec [OF m(1) bd p na])
  have "hused (hbytes h) p = 1" "hmagic (hbytes h) p = HEAP_MAGIC" using inv p by (auto simp: heap_inv_def chain_def)
  then have "free_section p h = Some h'" using h'(1) by (simp add: free_section_def)
  moreover have "heap_inv h' bs'"
    using h' m same_frame_bounds [of "free_mark p h" h'] bd inv by (auto simp: heap_inv_def merged_def)
  moreover have "same_frame h h'" "keeps_data bs' h h'" using h'(2) m(2,4) by (auto simp: merged_def same_frame_def keeps_data_def)
  ultimately show thesis using h'(2) m(6) p by (intro that [of h' bs']) (auto simp: merged_def algebra_simps)
qed

section \<open>Allocating a block\<close>

lemma is_free_split:
  assumes "is_free 0 bs l \<or> l = span bs"
  obtains xs ys where "bs = xs @ ys" "l = span xs"
proof -
  have "is_free off cs l \<Longrightarrow> \<exists>xs ys. cs = xs @ ys \<and> l = off + span xs" for off cs
  proof (induction off cs l rule: is_free.induct)
    case (2 off n u bs l)
    show ?case
    proof (cases "\<not> u \<and> l = off")
      case True then show ?thesis by (intro exI [of _ "[]"] exI [of _ "(n, u) # bs"]) simp
    next
      case False
      then obtain xs ys where "bs = xs @ ys" "l = off + 12 + n + span xs" using 2 by auto
      then show ?thesis by (intro exI [of _ "(n, u) # xs"] exI [of _ ys]) simp
    qed
  qed simp
  then show thesis using assms that [of bs "[]"] that by (metis add_0 append_Nil2)
qed

text \<open>A free block of at least \<open>sz\<close> bytes that starts low enough for the loop of \<open>rt_malloc\<close>.\<close>

definition fits :: "u32 \<Rightarrow> heap \<Rightarrow> nat \<Rightarrow> block \<Rightarrow> bool" where
  "fits sz h p x \<longleftrightarrow> \<not> snd x \<and> unat sz \<le> fst x \<and> p + unat sz < unat (mem_size_aligned h)"

lemma malloc_search_spec:
  assumes bd: "heap_bounds h" and sz: "unat sz \<le> unat (mem_size_aligned h)"
  shows "rep (hbytes h) 0 0 (xs @ ys) \<Longrightarrow> span (xs @ ys) = heap_end h \<Longrightarrow>
    malloc_search sz h (of_nat (span xs)) = Some None \<and> (\<forall>zs x ws. ys = zs @ x # ws \<longrightarrow> \<not> fits sz h (span (xs @ zs)) x) \<or>
    (\<exists>zs n ws. ys = zs @ (n, False) # ws \<and> malloc_search sz h (of_nat (span xs)) = Some (Some (of_nat (span (xs @ zs)))) \<and>
       fits sz h (span (xs @ zs)) (n, False))"
proof (induction ys arbitrary: xs)
  case Nil
  have "span xs < 2 ^ 32" using Nil bd by (simp add: heap_bounds_def)
  then have "unat (of_nat (span xs) :: u32) = heap_end h" using Nil by simp
  then have "\<not> of_nat (span xs) < mem_size_aligned h - sz"
    using bd sz by (auto simp: word_less_nat_alt unat_sub word_le_nat_alt heap_bounds_def)
  then show ?case by (simp add: malloc_search.simps)
next
  case (Cons x ys)
  obtain n u where x: "x = (n, u)" by (cases x)
  let ?p = "span xs" and ?b = "hbytes h"
  have e: "?p + 12 + n + span ys = heap_end h" using Cons(3) x by simp
  have sm: "?p + 12 + n < 2 ^ 32" using e bd by (simp add: heap_bounds_def)
  have up: "unat (of_nat ?p :: u32) = ?p" using sm by simp
  have r: "hused ?b ?p = of_bool u" "unat (hnext ?b ?p) = ?p + 12 + n" using Cons(2) x by auto
  have s: "unat (hnext ?b ?p) = span (xs @ [x])" using r(2) x by simp
  have nx: "hnext ?b ?p = of_nat (span (xs @ [x]))" unfolding s [symmetric] by simp
  have p12: "unat (of_nat ?p + 12 :: u32) = ?p + 12" using up sm by (simp only: unat_plus12)
  have room: "unat (hnext ?b ?p - (of_nat ?p + 12)) = n" using r(2) p12 by (subst unat_sub) (auto simp: word_le_nat_alt)
  have lt: "of_nat ?p < mem_size_aligned h - sz \<longleftrightarrow> ?p + unat sz < unat (mem_size_aligned h)"
    using sz up by (auto simp: word_less_nat_alt unat_sub word_le_nat_alt)
  have IH: "malloc_search sz h (of_nat (span (xs @ [x]))) = Some None \<and>
      (\<forall>zs y ws. ys = zs @ y # ws \<longrightarrow> \<not> fits sz h (span ((xs @ [x]) @ zs)) y) \<or>
    (\<exists>zs n ws. ys = zs @ (n, False) # ws \<and> malloc_search sz h (of_nat (span (xs @ [x]))) = Some (Some (of_nat (span ((xs @ [x]) @ zs)))) \<and>
       fits sz h (span ((xs @ [x]) @ zs)) (n, False))"
    using Cons.IH [of "xs @ [x]"] Cons.prems by simp
  consider (stop) "\<not> ?p + unat sz < unat (mem_size_aligned h)" | (found) "fits sz h ?p x"
    | (go) "?p + unat sz < unat (mem_size_aligned h)" "\<not> fits sz h ?p x" by blast
  then show ?case
  proof cases
    case stop
    then have "malloc_search sz h (of_nat ?p) = Some None" using lt by (simp add: malloc_search.simps)
    moreover have "\<not> fits sz h (span (xs @ zs)) y" for zs y using stop by (simp add: fits_def)
    ultimately show ?thesis by blast
  next
    case found
    then have "malloc_search sz h (of_nat ?p) = Some (Some (of_nat ?p))"
      using lt up r room x by (simp add: malloc_search.simps fits_def word_le_nat_alt)
    then show ?thesis using found x by (intro disjI2 exI [of _ "[]"] exI [of _ n] exI [of _ ys]) (auto simp: fits_def)
  next
    case go
    then have st: "malloc_search sz h (of_nat ?p) = malloc_search sz h (of_nat (span (xs @ [x])))"
      using lt up r room x nx by (subst malloc_search.simps) (auto simp: fits_def word_le_nat_alt)
    from IH show ?thesis
    proof
      assume a: "malloc_search sz h (of_nat (span (xs @ [x]))) = Some None \<and>
        (\<forall>zs y ws. ys = zs @ y # ws \<longrightarrow> \<not> fits sz h (span ((xs @ [x]) @ zs)) y)"
      have "\<not> fits sz h (span (xs @ zs)) y" if "x # ys = zs @ y # ws" for zs y ws
      proof (cases zs)
        case Nil then show ?thesis using that go(2) by simp
      next
        case (Cons z zs')
        then have "ys = zs' @ y # ws" "z = x" using that by auto
        then have "\<not> fits sz h (span ((xs @ [x]) @ zs')) y" using a by blast
        then show ?thesis using Cons \<open>z = x\<close> by simp
      qed
      then show ?thesis using a st by auto
    next
      assume "\<exists>zs n ws. ys = zs @ (n, False) # ws \<and> malloc_search sz h (of_nat (span (xs @ [x]))) =
          Some (Some (of_nat (span ((xs @ [x]) @ zs)))) \<and> fits sz h (span ((xs @ [x]) @ zs)) (n, False)"
      then obtain zs m ws where "ys = zs @ (m, False) # ws" "malloc_search sz h (of_nat (span (xs @ [x]))) =
          Some (Some (of_nat (span ((xs @ [x]) @ zs))))" "fits sz h (span ((xs @ [x]) @ zs)) (m, False)" by blast
      then show ?thesis using st by (intro disjI2 exI [of _ "x # zs"] exI [of _ m] exI [of _ ws]) auto
    qed
  qed
qed

lemma next_free_spec:
  "rep (hbytes h) 0 0 (xs @ ys) \<Longrightarrow> span (xs @ ys) = heap_end h \<Longrightarrow>
   next_free h (span xs) = Some (span xs + span (takeWhile snd ys))"
proof (induction ys arbitrary: xs)
  case Nil then show ?case by (simp add: next_free.simps)
next
  case (Cons x ys)
  obtain n u where x: "x = (n, u)" by (cases x)
  have r: "hused (hbytes h) (span xs) = of_bool u" "unat (hnext (hbytes h) (span xs)) = span (xs @ [x])" "span xs \<noteq> heap_end h"
    using Cons.prems x by auto
  then show ?case using Cons.IH [of "xs @ [x]"] Cons.prems x by (subst next_free.simps) auto
qed

lemma rep_mark_used:
  assumes "rep b 0 0 (xs @ (n, u) # ys)" "p = span xs"
  shows "rep (set_magic p HEAP_MAGIC (set_used p 1 b)) 0 0 (xs @ (n, True) # ys)"
    "live_byte 0 (xs @ (n, True) # ys) i \<Longrightarrow> set_magic p HEAP_MAGIC (set_used p 1 b) i = b i"
    "p + 12 \<le> e \<Longrightarrow> hused (set_magic p HEAP_MAGIC (set_used p 1 b)) e = hused b e"
proof -
  show "rep (set_magic p HEAP_MAGIC (set_used p 1 b)) 0 0 (xs @ (n, True) # ys)"
    using assms by (simp add: rep_outside algebra_simps)
  assume "live_byte 0 (xs @ (n, True) # ys) i"
  then have "i < p \<or> p + 12 \<le> i"
    using live_byte_bounds [of 0 xs i] live_byte_bounds [of "p + 12 + n" ys i] assms(2) by (auto simp: add.assoc)
  then show "set_magic p HEAP_MAGIC (set_used p 1 b) i = b i" by (simp add: set_bytes)
qed (simp add: hfields_other)

lemma count_used_spec:
  assumes "unat (used_mem h) + unat n < 2 ^ 32" "used_mem h \<le> max_mem h"
  shows "unat (used_mem (count_used n h)) = unat (used_mem h) + unat n" "used_mem (count_used n h) \<le> max_mem (count_used n h)"
    "hbytes (count_used n h) = hbytes h" "lfree (count_used n h) = lfree h" "same_frame h (count_used n h)"
  using assms unat_add_fit [of "used_mem h" n] by (auto simp: count_used_def Let_def same_frame_def)

text \<open>The blocks after the free block of \<open>n\<close> bytes in front of \<open>ys\<close> was given out for a request of \<open>sz\<close> bytes.\<close>

definition carve :: "nat \<Rightarrow> nat \<Rightarrow> block list \<Rightarrow> block list" where
  "carve sz n ys = (if sz + 24 \<le> n then (sz, True) # (n - 12 - sz, False) # ys else (n, True) # ys)"

lemma malloc_mark_spec:
  assumes inv: "heap_inv h (xs @ (n, False) # ys)" and p: "p = span xs" and sz: "unat sz \<le> n" "4 dvd unat sz"
  defines "bs' \<equiv> xs @ carve (unat sz) n ys" and "h' \<equiv> malloc_mark sz (of_nat p) h"
  shows "rep (hbytes h') 0 0 bs'" "span bs' = heap_end h" "hused (hbytes h') (heap_end h) = 1" "\<forall>x \<in> set bs'. 4 dvd fst x"
    "same_frame h h'" "lfree h' = lfree h" "unat (used_mem h') = used_sum bs'" "used_mem h' \<le> max_mem h'"
    "no_adjacent bs'" "keeps_data bs' h h'"
proof -
  let ?b = "hbytes h" and ?ptr = "of_nat p :: u32"
  have r: "rep ?b 0 0 (xs @ (n, False) # ys)" and e: "heap_end h = p + 12 + n + span ys" and hu: "hused ?b (heap_end h) = 1"
    and d4: "4 dvd n" "\<forall>x \<in> set (xs @ ys). 4 dvd fst x" and bd: "heap_bounds h" and u: "unat (used_mem h) = used_sum xs + used_sum ys"
    "used_mem h \<le> max_mem h" and na: "no_adjacent (xs @ (n, False) # ys)"
    using inv p by (auto simp: heap_inv_def chain_def)
  have sm: "p + 12 + n + 12 < 2 ^ 32" using bd e by (simp add: heap_bounds_def)
  then have up: "unat ?ptr = p" by simp
  have nx: "unat (hnext ?b p) = p + 12 + n" using r p by simp
  have p12: "unat (?ptr + 12) = p + 12" using up sm by (simp only: unat_plus12)
  have room: "unat (hnext ?b p - (?ptr + 12)) = n" using nx p12 by (subst unat_sub) (auto simp: word_le_nat_alt)
  have whole: "unat (hnext ?b p - ?ptr) = 12 + n" using nx up by (subst unat_sub) (auto simp: word_le_nat_alt)
  have need: "unat (sz + 12 + 12) = unat sz + 24" using sz sm by (simp add: unat_add_fit)
  have "used_sum xs + used_sum ys \<le> p + span ys" using used_sum_le [of xs] used_sum_le [of ys] p by simp
  then have us: "unat (used_mem h) + 12 + n < 2 ^ 32" using u bd e by (simp add: heap_bounds_def)
  have adj: "xs = [] \<or> snd (last xs)" "no_adjacent xs" "no_adjacent ys" "ys = [] \<or> snd (hd ys)"
    using na by (auto simp: no_adjacent_append no_adjacent_Cons)
  have "rep (hbytes h') 0 0 bs' \<and> span bs' = heap_end h \<and> hused (hbytes h') (heap_end h) = 1 \<and> (\<forall>x \<in> set bs'. 4 dvd fst x) \<and>
    same_frame h h' \<and> lfree h' = lfree h \<and> unat (used_mem h') = used_sum bs' \<and> used_mem h' \<le> max_mem h' \<and>
    no_adjacent bs' \<and> keeps_data bs' h h'"
  proof (cases "unat sz + 24 \<le> n")
    case True
    define ys' where "ys' = (n - 12 - unat sz, False) # ys"
    have bs': "bs' = xs @ (unat sz, True) # ys'" using True by (simp add: bs'_def carve_def ys'_def)
    have pp: "span xs = unat ?ptr" using p up by simp
    have f: "unat sz + 12 \<le> n" using True by simp
    have sm2: "unat ?ptr + 12 + n < 2 ^ 32" using sm up by simp
    have "unat (mem_size_aligned h + 12) = heap_end h" using bd by (simp add: heap_bounds_def)
    then have l: "ys = [] \<longleftrightarrow> unat ?ptr + 12 + n = unat (mem_size_aligned h + 12)" using e up by auto
    note sp = split_block_rep [OF r pp f sm2 l, unfolded up, folded ys'_def]
    note mk = rep_mark_used [OF sp(1) p]
    define g where "g = h\<lparr>hbytes := set_used p 1 (split_block sz ?ptr h)\<rparr>"
    have szs: "unat (sz + 12) = unat sz + 12" using need sz sm by (simp add: unat_add_fit)
    have "unat (used_mem g) + unat (sz + 12) < 2 ^ 32" "used_mem g \<le> max_mem g" using us f u szs by (simp_all add: g_def)
    note cu = count_used_spec [OF this]
    have h': "h' = (count_used (sz + 12) g)\<lparr>hbytes := set_magic p HEAP_MAGIC (set_used p 1 (split_block sz ?ptr h))\<rparr>"
      using True room need cu(3) up unfolding h'_def malloc_mark_def Let_def by (simp add: word_le_nat_alt g_def)
    have "4 dvd n - 12 - unat sz" using d4(1) sz(2) True by presburger
    moreover have "keeps_data bs' h h'"
      using mk(2) sp(2) unfolding keeps_data_def h' bs' by (auto simp: ys'_def)
    ultimately show ?thesis
      using mk(1) mk(3) [of "heap_end h"] sp(3) hu e d4 sz cu u p adj True szs
      unfolding h' bs' by (auto simp: same_frame_def g_def ys'_def no_adjacent_append no_adjacent_Cons)
  next
    case False
    have bs': "bs' = xs @ (n, True) # ys" using False by (simp add: bs'_def carve_def)
    note mk = rep_mark_used [OF r p]
    define g where "g = h\<lparr>hbytes := set_used p 1 ?b\<rparr>"
    have "unat (used_mem g) + unat (hnext ?b p - ?ptr) < 2 ^ 32" "used_mem g \<le> max_mem g" using us u whole by (simp_all add: g_def)
    note cu = count_used_spec [OF this]
    have h': "h' = (count_used (hnext ?b p - ?ptr) g)\<lparr>hbytes := set_magic p HEAP_MAGIC (set_used p 1 ?b)\<rparr>"
      using False room need cu(3) up unfolding h'_def malloc_mark_def Let_def by (simp add: word_le_nat_alt g_def)
    show ?thesis
      using mk(1) mk(2) mk(3) [of "heap_end h"] hu e d4 sz cu u p adj whole
      unfolding h' bs' by (auto simp: same_frame_def g_def no_adjacent_append no_adjacent_Cons keeps_data_def)
  qed
  then show "rep (hbytes h') 0 0 bs'" "span bs' = heap_end h" "hused (hbytes h') (heap_end h) = 1" "\<forall>x \<in> set bs'. 4 dvd fst x"
    "same_frame h h'" "lfree h' = lfree h" "unat (used_mem h') = used_sum bs'" "used_mem h' \<le> max_mem h'"
    "no_adjacent bs'" "keeps_data bs' h h'" by blast+
qed

lemma span_carve [simp]: "sz \<le> n \<Longrightarrow> span (carve sz n ys) = 12 + n + span ys"
  by (simp add: carve_def)

lemma is_free_carve: "is_free (p + 12 + n) ys l \<Longrightarrow> is_free p (carve sz n ys) l"
  by (auto simp: carve_def algebra_simps)

lemma is_free_takeWhile: "is_free off bs (off + span (takeWhile snd bs)) \<or> span (takeWhile snd bs) = span bs"
proof (induction off bs "off + span (takeWhile snd bs)" rule: is_free.induct)
  case (2 off n u bs)
  then show ?case by (cases u) (auto simp: add.assoc)
qed simp

lemma split_behind:
  assumes "as @ cs = xs @ x # ys" "span as \<le> span xs"
  obtains zs where "xs = as @ zs" "cs = zs @ x # ys"
proof -
  from assms(1) consider us where "as @ us = xs" "cs = us @ x # ys" | us where "as = xs @ us" "us @ cs = x # ys"
    by (auto simp: append_eq_append_conv2)
  then show thesis
  proof cases
    case 1 then show ?thesis using that by blast
  next
    case 2
    then have "us = []" using assms(2) by simp
    then show ?thesis using 2 that [of "[]"] by simp
  qed
qed

lemma malloc_section_spec:
  assumes inv: "heap_inv h bs" and sz: "unat sz \<le> unat (mem_size_aligned h)" "4 dvd unat sz"
  shows "malloc_section sz h = Some (None, h) \<and> (\<forall>xs x ys. bs = xs @ x # ys \<and> lfree h \<le> span xs \<longrightarrow> \<not> fits sz h (span xs) x) \<or>
    (\<exists>xs n ys h'. bs = xs @ (n, False) # ys \<and> malloc_section sz h = Some (Some (of_nat (span xs)), h') \<and>
       fits sz h (span xs) (n, False) \<and> heap_inv h' (xs @ carve (unat sz) n ys) \<and> same_frame h h' \<and>
       keeps_data (xs @ carve (unat sz) n ys) h h' \<and> (lowest h bs \<longrightarrow> lowest h' (xs @ carve (unat sz) n ys)) \<and>
       lfree h \<le> span xs)"
proof -
  have c: "chain h bs" and bd: "heap_bounds h" using inv by (simp_all add: heap_inv_def)
  have "is_free 0 bs (lfree h) \<or> lfree h = span bs" using c by (auto simp: chain_def)
  then obtain as cs where ac: "bs = as @ cs" "lfree h = span as" by (rule is_free_split)
  have r: "rep (hbytes h) 0 0 (as @ cs)" "span (as @ cs) = heap_end h" using c ac by (auto simp: chain_def)
  from malloc_search_spec [OF bd sz(1) r] show ?thesis
  proof
    assume a: "malloc_search sz h (of_nat (span as)) = Some None \<and>
      (\<forall>zs x ws. cs = zs @ x # ws \<longrightarrow> \<not> fits sz h (span (as @ zs)) x)"
    have "\<not> fits sz h (span xs) x" if b: "bs = xs @ x # ys \<and> lfree h \<le> span xs" for xs x ys
    proof -
      have "as @ cs = xs @ x # ys" "span as \<le> span xs" using b ac by simp_all
      then obtain zs where "xs = as @ zs" "cs = zs @ x # ys" by (rule split_behind)
      then show ?thesis using a by blast
    qed
    then show ?thesis using a ac(2) by (auto simp: malloc_section_def)
  next
    assume "\<exists>zs n ws. cs = zs @ (n, False) # ws \<and> malloc_search sz h (of_nat (span as)) =
      Some (Some (of_nat (span (as @ zs)))) \<and> fits sz h (span (as @ zs)) (n, False)"
    then obtain zs n ys where f: "cs = zs @ (n, False) # ys" "malloc_search sz h (of_nat (lfree h)) =
      Some (Some (of_nat (span (as @ zs))))" "fits sz h (span (as @ zs)) (n, False)" using ac(2) by auto
    define xs p bs' g where "xs = as @ zs" and "p = span xs" and "bs' = xs @ carve (unat sz) n ys" and "g = malloc_mark sz (of_nat p) h"
    have bs: "bs = xs @ (n, False) # ys" using ac(1) f(1) by (simp add: xs_def)
    have le: "lfree h \<le> p" using ac(2) by (simp add: p_def xs_def)
    have szn: "unat sz \<le> n" using f(3) by (simp add: fits_def)
    note mk = malloc_mark_spec [OF inv [unfolded bs] p_def szn sz(2), folded bs'_def g_def]
    have e: "heap_end h = p + 12 + n + span ys" using c bs by (simp add: chain_def p_def)
    have "p < 2 ^ 32" using bd e by (simp add: heap_bounds_def)
    then have up: "unat (of_nat p :: u32) = p" by simp
    have ge: "heap_end g = heap_end h" using mk(5) by (simp add: same_frame_def)
    have chain: "chain (g\<lparr>lfree := l\<rparr>) bs'" if "is_free 0 bs' l \<or> l = heap_end h" for l
      using that mk ge by (simp add: chain_def)
    define h' where "h' = (if p = lfree h then g\<lparr>lfree := p + span (takeWhile snd (carve (unat sz) n ys))\<rparr> else g)"
    have ch': "chain h' bs'"
    proof (cases "p = lfree h")
      case True
      have "is_free 0 bs' (p + span (takeWhile snd (carve (unat sz) n ys))) \<or> p + span (takeWhile snd (carve (unat sz) n ys)) = heap_end h"
        using is_free_takeWhile [of p "carve (unat sz) n ys"] mk(2) by (auto simp: bs'_def p_def)
      then show ?thesis using chain True by (simp add: h'_def)
    next
      case False
      have "is_free 0 bs (lfree h) \<or> lfree h = heap_end h" using c by (simp add: chain_def)
      then have "is_free 0 bs' (lfree h) \<or> lfree h = heap_end h"
        using False is_free_carve [of p n ys "lfree h" "unat sz"] by (auto simp: bs bs'_def p_def)
      moreover have "g\<lparr>lfree := lfree h\<rparr> = g" using mk(6) by simp
      ultimately show ?thesis using chain [of "lfree h"] False by (simp add: h'_def)
    qed
    have low: "lowest h bs \<longrightarrow> lowest h' bs'"
      using span_takeWhile_less [of xs] mk(6)
      by (cases "\<forall>x \<in> set xs. snd x") (auto simp: lowest_def bs bs'_def h'_def p_def takeWhile_append)
    have "next_free g p = Some (p + span (takeWhile snd (carve (unat sz) n ys)))"
      using next_free_spec [of g xs "carve (unat sz) n ys"] mk(1,2) ge by (simp add: p_def bs'_def)
    moreover have "p = lfree h \<longrightarrow> lfree h' = heap_end h' \<or> hused (hbytes h') (lfree h') = 0"
    proof (cases "is_free 0 bs' (lfree h')")
      case True
      have "is_free off b (lfree h') \<Longrightarrow> rep (hbytes h') pv off b \<Longrightarrow> hused (hbytes h') (lfree h') = 0" for pv off b
        by (induction off b "lfree h'" arbitrary: pv rule: is_free.induct) auto
      then show ?thesis using True ch' by (auto simp: chain_def)
    next
      case False then show ?thesis using ch' by (auto simp: chain_def)
    qed
    moreover have "malloc_section sz h = do {
        h \<leftarrow> (if p = lfree g then do { l \<leftarrow> next_free g p; rt_assert (l = heap_end g \<or> hused (hbytes g) l = 0); Some (g\<lparr>lfree := l\<rparr>) }
          else Some g);
        Some (Some (of_nat p), h) }"
      using f(2) up by (simp add: malloc_section_def Let_def xs_def [symmetric] p_def [symmetric] g_def [symmetric])
    ultimately have "malloc_section sz h = Some (Some (of_nat (span xs)), h')"
      using mk(6) ge by (cases "p = lfree h") (auto simp: p_def [symmetric] h'_def)
    moreover have "same_frame h h'" "keeps_data bs' h h'" "used_mem h' = used_mem g" "max_mem h' = max_mem g"
      using mk(5,10) by (auto simp: h'_def same_frame_def keeps_data_def)
    moreover have "heap_inv h' bs'"
      using ch' bd same_frame_bounds [of h h'] calculation(2-) mk by (simp add: heap_inv_def)
    moreover have "fits sz h (span xs) (n, False)" using f(3) by (simp add: xs_def)
    ultimately show ?thesis using bs low le unfolding bs'_def p_def by blast
  qed
qed

section \<open>Resizing a block\<close>

definition shrink_mark :: "nat \<Rightarrow> nat \<Rightarrow> u32 \<Rightarrow> heap \<Rightarrow> heap" where
  "shrink_mark p n sz h = h\<lparr>used_mem := used_mem h - (of_nat n - sz), hbytes := split_block sz (of_nat p) h\<rparr>"

lemma shrink_mark_spec:
  assumes inv: "heap_inv h (xs @ (n, True) # ys)" and p: "p = span xs" and sz: "4 dvd unat sz" "unat sz + 24 < n"
  defines "g \<equiv> shrink_mark p n sz h" and "bs' \<equiv> xs @ (unat sz, True) # (n - 12 - unat sz, False) # ys"
  shows "chain g bs'" "heap_bounds g" "same_frame h g" "keeps_data bs' h g" "unat (used_mem g) = used_sum bs'" "used_mem g \<le> max_mem g"
    "lfree g = lfree h"
proof -
  let ?b = "hbytes h" and ?ptr = "of_nat p :: u32"
  have c: "chain h (xs @ (n, True) # ys)" and bd: "heap_bounds h" and u: "unat (used_mem h) = used_sum xs + 12 + n + used_sum ys"
    "used_mem h \<le> max_mem h" using inv by (auto simp: heap_inv_def)
  have r: "rep ?b 0 0 (xs @ (n, True) # ys)" and e: "heap_end h = p + 12 + n + span ys" and hu: "hused ?b (heap_end h) = 1"
    and d4: "4 dvd n" using c p by (auto simp: chain_def)
  have sm: "p + 12 + n + 12 < 2 ^ 32" using bd e by (simp add: heap_bounds_def)
  then have up: "unat ?ptr = p" and un: "unat (of_nat n :: u32) = n" by simp_all
  have pp: "span xs = unat ?ptr" using p up by simp
  have f: "unat sz + 12 \<le> n" using sz by simp
  have sm2: "unat ?ptr + 12 + n < 2 ^ 32" using sm up by simp
  have "unat (mem_size_aligned h + 12) = heap_end h" using bd by (simp add: heap_bounds_def)
  then have l: "ys = [] \<longleftrightarrow> unat ?ptr + 12 + n = unat (mem_size_aligned h + 12)" using e up by auto
  note sp = split_block_rep [OF r pp f sm2 l, unfolded up]
  have "4 dvd n - 12 - unat sz" using d4 sz by presburger
  then show "chain g bs'" using c sp(1,3) e hu sz p by (auto simp: chain_def g_def bs'_def shrink_mark_def algebra_simps)
  show "heap_bounds g" using bd by (simp add: heap_bounds_def g_def shrink_mark_def)
  show "same_frame h g" "lfree g = lfree h" by (simp_all add: same_frame_def g_def shrink_mark_def)
  show "keeps_data bs' h g" using sp(2) by (auto simp: keeps_data_def g_def bs'_def shrink_mark_def)
  have "unat (of_nat n - sz) = n - unat sz" using sz un by (subst unat_sub) (auto simp: word_le_nat_alt)
  moreover from this have "unat (used_mem h - (of_nat n - sz)) = unat (used_mem h) - (n - unat sz)"
    using u by (subst unat_sub) (auto simp: word_le_nat_alt)
  ultimately show "unat (used_mem g) = used_sum bs'" "used_mem g \<le> max_mem g"
    using u sz by (auto simp: g_def bs'_def shrink_mark_def word_le_nat_alt)
qed

lemma realloc_section_cases:
  assumes inv: "heap_inv h (xs @ (n, True) # ys)" and p: "p = span xs" and sz: "unat sz \<le> unat (mem_size_aligned h)"
  shows "realloc_section (of_nat p) sz h = (if n = unat sz then Some (of_nat n, True, h)
    else if unat sz + 24 < n then do { h \<leftarrow> plug_holes (p + 12 + unat sz) (shrink_mark p n sz h); Some (of_nat n, True, h) }
    else Some (of_nat n, False, h))"
proof -
  let ?b = "hbytes h" and ?ptr = "of_nat p :: u32"
  have c: "chain h (xs @ (n, True) # ys)" and bd: "heap_bounds h" using inv by (auto simp: heap_inv_def)
  have r: "unat (hnext ?b p) = p + 12 + n" and e: "heap_end h = p + 12 + n + span ys" using c p by (auto simp: chain_def)
  have sm: "p + 12 + n + 12 < 2 ^ 32" using bd e by (simp add: heap_bounds_def)
  then have up: "unat ?ptr = p" and un: "unat (of_nat n :: u32) = n" by simp_all
  have "unat (hnext ?b p - ?ptr) = 12 + n" using r up by (subst unat_sub) (auto simp: word_le_nat_alt)
  then have "unat (hnext ?b p - ?ptr - 12) = n" by (subst unat_sub) (auto simp: word_le_nat_alt)
  then have room: "hnext ?b p - ?ptr - 12 = of_nat n" by (metis of_nat_unat ucast_id)
  have need: "sz + 12 + 12 < of_nat n \<longleftrightarrow> unat sz + 24 < n"
    using un sz bd by (auto simp: word_less_nat_alt unat_add_fit heap_bounds_def)
  have eq: "of_nat n = sz \<longleftrightarrow> n = unat sz" using un by auto
  have "unat (?ptr + 12 + sz) = p + 12 + unat sz" if "unat sz + 24 < n" using sm that up by (simp add: unat_add_fit)
  then show ?thesis using room up need eq by (simp add: realloc_section_def shrink_mark_def Let_def)
qed

lemma realloc_section_spec:
  assumes inv: "heap_inv h (xs @ (n, True) # ys)" and p: "p = span xs"
    and sz: "unat sz \<le> unat (mem_size_aligned h)" "4 dvd unat sz"
  obtains (same) "realloc_section (of_nat p) sz h = Some (of_nat n, True, h)" "n = unat sz"
    | (shrunk) h' bs' where "realloc_section (of_nat p) sz h = Some (of_nat n, True, h')" "heap_inv h' bs'" "same_frame h h'"
      "live_from 0 bs' = live_from 0 xs @ (p + 12, unat sz) # live_from (p + 12 + n) ys" "keeps_data bs' h h'" "unat sz + 24 < n"
    | (moves) "realloc_section (of_nat p) sz h = Some (of_nat n, False, h)" "n \<noteq> unat sz"
proof -
  note rc = realloc_section_cases [OF inv p sz(1)]
  consider "n = unat sz" | "n \<noteq> unat sz" "\<not> unat sz + 24 < n" | "unat sz + 24 < n" by linarith
  then show thesis
  proof cases
    case 1 then show ?thesis using same rc by simp
  next
    case 2 then show ?thesis using moves rc by simp
  next
    case 3
    let ?xs = "xs @ [(unat sz, True)]" and ?n = "n - 12 - unat sz"
    define g where "g = shrink_mark p n sz h"
    note sh = shrink_mark_spec [OF inv p sz(2) 3, folded g_def]
    have cg: "chain g (?xs @ (?n, False) # ys)" using sh(1) by simp
    have nag: "no_adjacent ?xs" "no_adjacent ys" using inv by (auto simp: heap_inv_def no_adjacent_append no_adjacent_Cons)
    have pg: "p + 12 + unat sz = span ?xs" using p by simp
    obtain h' bs' where h': "plug_holes (p + 12 + unat sz) g = Some h'" "merged g (?xs @ (?n, False) # ys) h' bs'" "no_adjacent bs'"
      by (rule plug_holes_spec [OF cg sh(2) pg nag])
    have eq: "realloc_section (of_nat p) sz h = Some (of_nat n, True, h')" using rc h'(1) 3 by (simp add: g_def)
    have "heap_inv h' bs'" using h'(2,3) sh same_frame_bounds [of g h'] by (simp add: heap_inv_def merged_def)
    moreover have "live_from 0 bs' = live_from 0 xs @ (p + 12, unat sz) # live_from (p + 12 + n) ys"
      using h'(2) 3 p by (simp add: merged_def algebra_simps)
    moreover have "keeps_data bs' h h'" "same_frame h h'"
      using h'(2) sh(3,4) by (auto simp: merged_def keeps_data_def same_frame_def)
    ultimately show ?thesis using shrunk eq 3 by blast
  qed
qed

text \<open>A shrunk block in front of a used one: the rest becomes a free block, and \<open>lfree\<close> stays where it is.\<close>

lemma realloc_section_leaves_lfree:
  assumes inv: "heap_inv h (xs @ (n, True) # (m, True) # ys)" and p: "p = span xs"
    and sz: "unat sz \<le> unat (mem_size_aligned h)" "4 dvd unat sz" "unat sz + 24 < n"
  obtains h' where "realloc_section (of_nat p) sz h = Some (of_nat n, True, h')" "lfree h' = lfree h" "same_frame h h'"
    "heap_inv h' (xs @ (unat sz, True) # (n - 12 - unat sz, False) # (m, True) # ys)"
proof -
  let ?xs = "xs @ [(unat sz, True)]" and ?n = "n - 12 - unat sz"
  define g where "g = shrink_mark p n sz h"
  note sh = shrink_mark_spec [OF inv p sz(2,3), folded g_def]
  have r: "rep (hbytes g) 0 0 (?xs @ (?n, False) # (m, True) # ys)" and e: "heap_end g = span ?xs + 12 + ?n + span ((m, True) # ys)"
    using sh(1) by (auto simp: chain_def)
  have "plug_forward (span ?xs) g = g" by (rule plug_forward_keep [OF r refl e]) simp
  moreover have "plug_backward (span ?xs) g = g" by (rule plug_backward_keep [OF r refl]) simp
  moreover have "span ?xs < heap_end g" "hused (hbytes g) (span ?xs) = 0" using r e by (auto simp: add.assoc)
  ultimately have "plug_holes (p + 12 + unat sz) g = Some g" using p by (simp add: plug_holes_def add.assoc)
  then have "realloc_section (of_nat p) sz h = Some (of_nat n, True, g)"
    using realloc_section_cases [OF inv p sz(1)] sz(3) by (simp add: g_def)
  moreover have "heap_inv g (xs @ (unat sz, True) # (?n, False) # (m, True) # ys)"
    using sh inv by (auto simp: heap_inv_def no_adjacent_append no_adjacent_Cons)
  ultimately show thesis using sh(3,7) by (intro that)
qed

section \<open>The blocks of a heap\<close>

text \<open>Walking the chain as the memory has it.\<close>

function walk :: "bytes \<Rightarrow> nat \<Rightarrow> nat \<Rightarrow> block list" where
  "walk b e off = (if off < e \<and> off < unat (hnext b off)
     then (unat (hnext b off) - off - 12, hused b off \<noteq> 0) # walk b e (unat (hnext b off)) else [])"
  by pat_completeness auto
termination by (relation "measure (\<lambda>(b, e, off). e - off)") auto

declare walk.simps [simp del]

lemma walk_rep: "rep b pv off bs \<Longrightarrow> walk b (off + span bs) off = bs"
proof (induction b pv off bs rule: rep.induct)
  case (1 b pv off) then show ?case by (simp add: walk.simps)
next
  case (2 b pv off n u bs)
  then show ?case by (subst walk.simps) (auto simp: add.assoc)
qed

definition blocks :: "heap \<Rightarrow> block list" where
  "blocks h = walk (hbytes h) (heap_end h) 0"

definition heap_wf :: "heap \<Rightarrow> bool" where
  "heap_wf h \<longleftrightarrow> heap_inv h (blocks h)"

lemma heap_inv_blocks: "heap_inv h bs \<Longrightarrow> blocks h = bs"
  using walk_rep [of "hbytes h" 0 0 bs] by (simp add: blocks_def heap_inv_def chain_def)

lemma heap_inv_wf: "heap_inv h bs \<Longrightarrow> heap_wf h"
  using heap_inv_blocks by (simp add: heap_wf_def)

text \<open>The blocks in use, as the program sees them: address and usable length; and a byte at an address.\<close>

definition allocated :: "heap \<Rightarrow> (nat \<times> nat) set" where
  "allocated h = (\<lambda>(p, n). (unat (heap_ptr h) + p, n)) ` set (live_from 0 (blocks h))"

definition byte_at :: "heap \<Rightarrow> nat \<Rightarrow> u8" where
  "byte_at h a = hbytes h (a - unat (heap_ptr h))"

lemma live_from_bounds: "(q, m) \<in> set (live_from off bs) \<Longrightarrow> off + 12 \<le> q \<and> q + m \<le> off + span bs"
  by (induction off bs rule: live_from.induct) (auto split: if_splits)

lemma live_from_disjoint:
  "(p, n) \<in> set (live_from off bs) \<Longrightarrow> (q, m) \<in> set (live_from off bs) \<Longrightarrow> (p, n) \<noteq> (q, m) \<Longrightarrow> p + n + 12 \<le> q \<or> q + m + 12 \<le> p"
proof (induction off bs rule: live_from.induct)
  case (2 off k u bs)
  then show ?case using live_from_bounds [of _ _ "off + 12 + k" bs] by (auto split: if_splits)
qed simp

lemma live_from_byte: "live_byte off bs i \<longleftrightarrow> (\<exists>(p, n) \<in> set (live_from off bs). p \<le> i \<and> i < p + n)"
  by (induction off bs i rule: live_byte.induct) auto

lemma used_sum_live: "used_sum bs = (\<Sum>(p, n) \<leftarrow> live_from off bs. 12 + n)"
  by (induction off bs rule: live_from.induct) auto

lemma live_from_aligned:
  "\<forall>x \<in> set bs. 4 dvd fst x \<Longrightarrow> 4 dvd off \<Longrightarrow> (p, n) \<in> set (live_from off bs) \<Longrightarrow> 4 dvd p \<and> 4 dvd n"
  by (induction off bs rule: live_from.induct) (auto split: if_splits)

lemma live_from_split:
  "(q, n) \<in> set (live_from off bs) \<Longrightarrow> \<exists>xs ys. bs = xs @ (n, True) # ys \<and> q = off + span xs + 12"
proof (induction off bs rule: live_from.induct)
  case (2 off k u bs)
  show ?case
  proof (cases "u \<and> (q, n) = (off + 12, k)")
    case True then show ?thesis by (intro exI [of _ "[]"] exI [of _ bs]) simp
  next
    case False
    then obtain xs ys where "bs = xs @ (n, True) # ys" "q = off + 12 + k + span xs + 12" using 2 by (auto split: if_splits)
    then show ?thesis by (intro exI [of _ "(k, u) # xs"] exI [of _ ys]) simp
  qed
qed simp

lemma live_split:
  assumes "heap_inv h bs" "(a, n) \<in> allocated h"
  obtains xs ys where "bs = xs @ (n, True) # ys" "a = unat (heap_ptr h) + span xs + 12"
proof -
  have "(a - unat (heap_ptr h), n) \<in> set (live_from 0 bs)" "unat (heap_ptr h) \<le> a"
    using assms heap_inv_blocks by (auto simp: allocated_def)
  then show thesis using live_from_split [of "a - unat (heap_ptr h)" n 0 bs] that by auto
qed

text \<open>The blocks in use are aligned, inside the heap and apart from each other and from every header.\<close>

lemma live_layout:
  assumes "heap_wf h" "(p, n) \<in> allocated h"
  shows "4 dvd p" "unat (heap_ptr h) + 12 \<le> p" "p + n \<le> unat (heap_ptr h) + heap_end h"
proof -
  obtain q where q: "p = unat (heap_ptr h) + q" "(q, n) \<in> set (live_from 0 (blocks h))" using assms(2) by (auto simp: allocated_def)
  have i: "heap_inv h (blocks h)" using assms(1) by (simp add: heap_wf_def)
  then have "4 dvd q" using live_from_aligned [OF _ _ q(2)] by (auto simp: heap_inv_def chain_def)
  moreover have "4 dvd unat (heap_ptr h)" using i by (simp add: heap_inv_def heap_bounds_def)
  ultimately show "4 dvd p" using q(1) by (simp add: dvd_add)
  show "unat (heap_ptr h) + 12 \<le> p" "p + n \<le> unat (heap_ptr h) + heap_end h"
    using live_from_bounds [OF q(2)] i q(1) by (auto simp: heap_inv_def chain_def)
qed

lemma live_disjoint:
  assumes "(p, n) \<in> allocated h" "(q, m) \<in> allocated h" "(p, n) \<noteq> (q, m)"
  shows "p + n + 12 \<le> q \<or> q + m + 12 \<le> p"
  using assms live_from_disjoint [of _ _ 0 "blocks h"] by (fastforce simp: allocated_def)

lemma live_byte_at:
  assumes "keeps_data (blocks h') h h'" "same_frame h h'" "(p, n) \<in> allocated h'" "i < n"
  shows "byte_at h' (p + i) = byte_at h (p + i)"
proof -
  obtain q where q: "p = unat (heap_ptr h') + q" "(q, n) \<in> set (live_from 0 (blocks h'))" using assms(3) by (auto simp: allocated_def)
  then have "live_byte 0 (blocks h') (q + i)" 
    unfolding live_from_byte using assms(4) by (intro bexI [of _ "(q, n)"]) simp_all
  then show ?thesis using assms(1,2) q(1) by (simp add: byte_at_def keeps_data_def same_frame_def)
qed

text \<open>Writing inside the blocks in use damages no header.\<close>

lemma rep_write:
  "rep b pv off bs \<Longrightarrow> (\<And>i. off \<le> i \<Longrightarrow> i < off + span bs \<Longrightarrow> \<not> live_byte off bs i \<Longrightarrow> b' i = b i) \<Longrightarrow> rep b' pv off bs"
proof (induction b pv off bs rule: rep.induct)
  case (2 b pv off n u bs)
  have same: "b' i = b i" if "off \<le> i" "i < off + 12" for i
    using 2(3) [of i] that live_byte_bounds [of off "(n, u) # bs" i] by fastforce
  have hd: "hmagic b' off = hmagic b off" "hused b' off = hused b off" "hnext b' off = hnext b off" "hprev b' off = hprev b off"
    by (rule hfields_cong; use same in auto)+
  have "rep b' off (off + 12 + n) bs" using 2 by simp
  then show ?case using 2(2) hd by simp
qed simp

lemma write_inv:
  assumes inv: "heap_inv h bs" and b: "\<And>i. \<not> live_byte 0 bs i \<Longrightarrow> b' i = hbytes h i"
  shows "heap_inv (h\<lparr>hbytes := b'\<rparr>) bs"
proof -
  have "rep b' 0 0 bs" using rep_write [of "hbytes h" 0 0 bs b'] inv b by (simp add: heap_inv_def chain_def)
  moreover have "hused b' (span bs) = hused (hbytes h) (span bs)"
    by (rule hfields_cong) (use b live_byte_bounds [of 0 bs] in fastforce)
  ultimately show ?thesis using inv by (auto simp: heap_inv_def heap_bounds_def chain_def)
qed

section \<open>Building a heap\<close>

text \<open>A memory that holds a given chain.\<close>

fun lay_out :: "nat \<Rightarrow> nat \<Rightarrow> block list \<Rightarrow> bytes \<Rightarrow> bytes" where
  "lay_out pv off [] b = b"
| "lay_out pv off ((n, u) # bs) b = set_magic off HEAP_MAGIC (set_used off (of_bool u) (set_next off (of_nat (off + 12 + n))
     (set_prev off (of_nat pv) (lay_out off (off + 12 + n) bs b))))"

lemma lay_out_rep: "off + span bs < 2 ^ 32 \<Longrightarrow> pv < 2 ^ 32 \<Longrightarrow> rep (lay_out pv off bs b) pv off bs"
proof (induction pv off bs b rule: lay_out.induct)
  case (2 pv off n u bs b)
  define w where "w = off + 12 + n"
  have "w < 2 ^ 32" "off < 2 ^ 32" using 2(2) by (simp_all add: w_def)
  then have "unat (of_nat w :: u32) = w" "unat (of_nat pv :: u32) = pv" using 2 by simp_all
  moreover have "rep (lay_out off w bs b) off w bs" using 2 by (simp add: w_def)
  moreover have "off + 12 \<le> w" by (simp add: w_def)
  ultimately show ?case unfolding lay_out.simps rep.simps w_def [symmetric] by (simp add: rep_outside)
qed simp

lemma lay_out_behind: "off + span bs \<le> e \<Longrightarrow> hused (lay_out pv off bs b) e = hused b e"
  by (induction pv off bs b rule: lay_out.induct) (simp_all add: hfields_other)

definition make_heap :: "u32 \<Rightarrow> nat \<Rightarrow> block list \<Rightarrow> heap" where
  "make_heap base sem bs = \<lparr>heap_ptr = base, heap_end = span bs, lfree = span (takeWhile snd bs), heap_sem = sem,
     mem_size_aligned = of_nat (span bs - 12), used_mem = of_nat (used_sum bs), max_mem = of_nat (used_sum bs),
     hbytes = lay_out 0 0 bs (set_used (span bs) 1 (\<lambda>_. 0))\<rparr>"

lemma make_heap_inv:
  assumes "24 \<le> span bs" "unat base + span bs + 12 < 2 ^ 32" "4 dvd unat base" "\<forall>x \<in> set bs. 4 dvd fst x" "no_adjacent bs"
  shows "heap_inv (make_heap base sem bs) bs" "lowest (make_heap base sem bs) bs"
proof -
  have "span bs - 12 < 2 ^ 32" "used_sum bs < 2 ^ 32" using assms(2) used_sum_le [of bs] by simp_all
  then have "unat (of_nat (span bs - 12) :: u32) = span bs - 12" "unat (of_nat (used_sum bs) :: u32) = used_sum bs" by simp_all
  moreover have "rep (lay_out 0 0 bs (set_used (span bs) 1 (\<lambda>_. 0))) 0 0 bs" by (rule lay_out_rep) (use assms in simp_all)
  moreover have "is_free 0 bs (span (takeWhile snd bs)) \<or> span (takeWhile snd bs) = span bs" using is_free_takeWhile [of 0 bs] by simp
  ultimately show "heap_inv (make_heap base sem bs) bs"
    using assms by (auto simp: heap_inv_def heap_bounds_def chain_def make_heap_def lay_out_behind)
  show "lowest (make_heap base sem bs) bs" by (simp add: lowest_def make_heap_def)
qed

section \<open>The sections, seen from outside\<close>

abbreviation heap_keeps :: "(nat \<times> nat) set \<Rightarrow> heap \<Rightarrow> heap \<Rightarrow> bool" where
  "heap_keeps \<equiv> same_bytes byte_at"

lemma keeps_data_bytes: "keeps_data (blocks h') h h' \<Longrightarrow> same_frame h h' \<Longrightarrow> B \<subseteq> allocated h' \<Longrightarrow> heap_keeps B h h'"
  using live_byte_at unfolding same_bytes_def by blast

lemma live_of:
  assumes "heap_inv h bs" "same_frame g h"
  shows "allocated h = (\<lambda>(p, n). (unat (heap_ptr g) + p, n)) ` set (live_from 0 bs)"
  using heap_inv_blocks [OF assms(1)] assms(2) by (simp add: allocated_def same_frame_def)

lemma same_frame_refl [simp]: "same_frame h h"
  by (simp add: same_frame_def)

lemma malloc_section_live:
  assumes wf: "heap_wf h" and sz: "unat sz \<le> unat (mem_size_aligned h)" "4 dvd unat sz"
  obtains (none) "malloc_section sz h = Some (None, h)"
      "\<forall>xs x ys. blocks h = xs @ x # ys \<and> lfree h \<le> span xs \<longrightarrow> \<not> fits sz h (span xs) x"
    | (some) p n h' where "malloc_section sz h = Some (Some (of_nat p), h')" "heap_wf h'" "same_frame h h'"
      "unat sz \<le> n" "n < unat sz + 24" "(unat (heap_ptr h) + p + 12, n) \<notin> allocated h"
      "allocated h' = insert (unat (heap_ptr h) + p + 12, n) (allocated h)" "heap_keeps (allocated h') h h'"
      "lowest h (blocks h) \<longrightarrow> lowest h' (blocks h')" "p + unat sz < unat (mem_size_aligned h)"
proof -
  let ?f = "\<lambda>(p, n). (unat (heap_ptr h) + p, n)"
  have inv: "heap_inv h (blocks h)" using wf by (simp add: heap_wf_def)
  from malloc_section_spec [OF inv sz] show thesis
  proof
    assume "\<exists>xs n ys h'. blocks h = xs @ (n, False) # ys \<and> malloc_section sz h = Some (Some (of_nat (span xs)), h') \<and>
       fits sz h (span xs) (n, False) \<and> heap_inv h' (xs @ carve (unat sz) n ys) \<and> same_frame h h' \<and>
       keeps_data (xs @ carve (unat sz) n ys) h h' \<and> (lowest h (blocks h) \<longrightarrow> lowest h' (xs @ carve (unat sz) n ys)) \<and>
       lfree h \<le> span xs"
    then obtain xs n ys h' where r: "blocks h = xs @ (n, False) # ys" "malloc_section sz h = Some (Some (of_nat (span xs)), h')"
      "fits sz h (span xs) (n, False)" "heap_inv h' (xs @ carve (unat sz) n ys)" "same_frame h h'"
      "keeps_data (xs @ carve (unat sz) n ys) h h'" "lowest h (blocks h) \<longrightarrow> lowest h' (xs @ carve (unat sz) n ys)" by blast
    define m where "m = (if unat sz + 24 \<le> n then unat sz else n)"
    have lf: "live_from 0 (xs @ carve (unat sz) n ys) = live_from 0 xs @ (span xs + 12, m) # live_from (span xs + 12 + n) ys"
      by (auto simp: carve_def m_def algebra_simps)
    have lo: "live_from 0 (blocks h) = live_from 0 xs @ live_from (span xs + 12 + n) ys" using r(1) by (simp add: algebra_simps)
    have "(span xs + 12, m) \<notin> set (live_from 0 (blocks h))"
      unfolding lo using live_from_bounds [of "span xs + 12" m 0 xs] live_from_bounds [of "span xs + 12" m "span xs + 12 + n" ys]
      by auto
    then have new: "(unat (heap_ptr h) + span xs + 12, m) \<notin> allocated h" by (auto simp: allocated_def add.assoc)
    have eq: "allocated h' = insert (unat (heap_ptr h) + span xs + 12, m) (allocated h)"
      unfolding live_of [OF r(4,5)] live_of [OF inv same_frame_refl] lf lo by (auto simp: add.assoc)
    have b': "blocks h' = xs @ carve (unat sz) n ys" by (rule heap_inv_blocks [OF r(4)])
    have k: "heap_keeps (allocated h') h h'" using keeps_data_bytes [of h' h "allocated h'"] r(5,6) b' by simp
    have "unat sz \<le> m" "m < unat sz + 24" "span xs + unat sz < unat (mem_size_aligned h)" using r(3) by (auto simp: m_def fits_def)
    then show thesis using some [OF r(2) heap_inv_wf [OF r(4)] r(5) _ _ new eq k] r(7) b' by simp
  qed (use none in blast)
qed

lemma free_section_live:
  assumes wf: "heap_wf h" and a: "(a, n) \<in> allocated h"
  obtains h' where "free_section (a - unat (heap_ptr h) - 12) h = Some h'" "heap_wf h'" "same_frame h h'"
    "allocated h' = allocated h - {(a, n)}" "heap_keeps (allocated h') h h'" "lowest h (blocks h) \<longrightarrow> lowest h' (blocks h')"
    "unat (used_mem h') + 12 + n = unat (used_mem h)"
proof -
  have inv: "heap_inv h (blocks h)" using wf by (simp add: heap_wf_def)
  obtain xs ys where s: "blocks h = xs @ (n, True) # ys" "a = unat (heap_ptr h) + span xs + 12" by (rule live_split [OF inv a])
  obtain h' bs' where r: "free_section (span xs) h = Some h'" "heap_inv h' bs'" "same_frame h h'" "keeps_data bs' h h'"
    "live_from 0 bs' = live_from 0 xs @ live_from (span xs + 12 + n) ys" "lowest h (blocks h) \<longrightarrow> lowest h' bs'"
    using free_section_spec [OF inv [unfolded s(1)] refl] s(1) by metis
  have lo: "live_from 0 (blocks h) = live_from 0 xs @ (span xs + 12, n) # live_from (span xs + 12 + n) ys" using s(1) by (simp add: algebra_simps)
  have ne: "(span xs + 12, n) \<notin> set (live_from 0 xs) \<union> set (live_from (span xs + 12 + n) ys)"
    using live_from_bounds [of "span xs + 12" n 0 xs] live_from_bounds [of "span xs + 12" n "span xs + 12 + n" ys] by auto
  have eq: "allocated h' = allocated h - {(a, n)}"
    unfolding live_of [OF r(2,3)] live_of [OF inv same_frame_refl] r(5) lo s(2) using ne by (auto simp: add.assoc)
  have b': "blocks h' = bs'" by (rule heap_inv_blocks [OF r(2)])
  have k: "heap_keeps (allocated h') h h'" using keeps_data_bytes [of h' h "allocated h'"] r(3,4) b' by simp
  have "unat (used_mem h') + 12 + n = unat (used_mem h)"
    using r(2) inv r(5) lo by (simp add: heap_inv_def used_sum_live [of _ 0])
  then show thesis using that [OF _ heap_inv_wf [OF r(2)] r(3) eq k] r(1,6) s(2) b' by simp
qed

lemma realloc_section_live:
  assumes wf: "heap_wf h" and a: "(a, n) \<in> allocated h" and sz: "unat sz \<le> unat (mem_size_aligned h)" "4 dvd unat sz"
  obtains (stays) h' where "realloc_section (of_nat (a - unat (heap_ptr h) - 12)) sz h = Some (of_nat n, True, h')" "heap_wf h'"
      "same_frame h h'" "allocated h' = insert (a, unat sz) (allocated h - {(a, n)})" "heap_keeps (allocated h') h h'"
    | (moves) "realloc_section (of_nat (a - unat (heap_ptr h) - 12)) sz h = Some (of_nat n, False, h)" "n \<noteq> unat sz"
proof -
  have inv: "heap_inv h (blocks h)" using wf by (simp add: heap_wf_def)
  obtain xs ys where s: "blocks h = xs @ (n, True) # ys" "a = unat (heap_ptr h) + span xs + 12" by (rule live_split [OF inv a])
  have p: "a - unat (heap_ptr h) - 12 = span xs" using s(2) by simp
  from realloc_section_spec [OF inv [unfolded s(1)] refl sz] show thesis
  proof cases
    case 1
    have "heap_keeps (allocated h) h h" by (simp add: same_bytes_def)
    then show ?thesis using 1 a wf p by (intro stays [of h]) auto
  next
    case (2 h' bs')
    have lo: "live_from 0 (blocks h) = live_from 0 xs @ (span xs + 12, n) # live_from (span xs + 12 + n) ys" using s(1) by (simp add: algebra_simps)
    have ne: "(span xs + 12, n) \<notin> set (live_from 0 xs) \<union> set (live_from (span xs + 12 + n) ys)"
      using live_from_bounds [of "span xs + 12" n 0 xs] live_from_bounds [of "span xs + 12" n "span xs + 12 + n" ys] by auto
    have eq: "allocated h' = insert (a, unat sz) (allocated h - {(a, n)})"
      unfolding live_of [OF 2(2,3)] live_of [OF inv same_frame_refl] 2(4) lo s(2) using ne by (auto simp: add.assoc)
    have b': "blocks h' = bs'" by (rule heap_inv_blocks [OF 2(2)])
    have k: "heap_keeps (allocated h') h h'" using keeps_data_bytes [of h' h "allocated h'"] 2(3,5) b' by simp
    show ?thesis using stays [OF _ heap_inv_wf [OF 2(2)] 2(3) eq k] 2(1) p by simp
  next
    case 3 then show ?thesis using moves p by simp
  qed
qed

text \<open>A write of any length inside one block in use.\<close>

lemma write_live:
  assumes wf: "heap_wf h" and a: "(p, n) \<in> allocated h"
    and b: "\<And>i. \<not> (p \<le> unat (heap_ptr h) + i \<and> unat (heap_ptr h) + i < p + n) \<Longrightarrow> b' i = hbytes h i"
    and h': "h' = h\<lparr>hbytes := b'\<rparr>"
  shows "heap_wf h'" "same_frame h h'" "allocated h' = allocated h" "blocks h' = blocks h" "heap_keeps (allocated h - {(p, n)}) h h'"
proof -
  have inv: "heap_inv h (blocks h)" using wf by (simp add: heap_wf_def)
  obtain q where q: "p = unat (heap_ptr h) + q" "(q, n) \<in> set (live_from 0 (blocks h))" using a by (auto simp: allocated_def)
  have "b' i = hbytes h i" if "\<not> live_byte 0 (blocks h) i" for i
    using that b [of i] q unfolding live_from_byte by fastforce
  then have i': "heap_inv h' (blocks h)" unfolding h' by (rule write_inv [OF inv])
  then show "heap_wf h'" by (rule heap_inv_wf)
  show sf: "same_frame h h'" by (simp add: same_frame_def h')
  show "allocated h' = allocated h" using live_of [OF i' sf] live_of [OF inv same_frame_refl] by simp
  show "blocks h' = blocks h" by (rule heap_inv_blocks [OF i'])
  show "heap_keeps (allocated h - {(p, n)}) h h'"
    unfolding same_bytes_def
  proof (intro allI impI)
    fix r m i assume r: "(r, m) \<in> allocated h - {(p, n)} \<and> i < m"
    then have "p + n + 12 \<le> r \<or> r + m + 12 \<le> p" using live_disjoint [OF a, of r m] by auto
    moreover have "unat (heap_ptr h) \<le> r" using live_layout(2) [OF wf, of r m] r by auto
    ultimately show "byte_at h' (r + i) = byte_at h (r + i)" using b [of "r + i - unat (heap_ptr h)"] r by (auto simp: byte_at_def h')
  qed
qed

end
