(* ===== verification/Heap_Calls.thy ===== *)
theory Heap_Calls
  imports Semaphore Heap
begin

text \<open>
  The calls of \<^verbatim>\<open>rt-thread/src/mem.c\<close>: the sections of \<^verbatim>\<open>Heap\<close> between taking and releasing the semaphore
  \<open>heap_sem\<close> of the kernel model. A call that has to wait for the semaphore is resumed at the definition with the
  suffix \<open>_locked\<close>.
\<close>

section \<open>The calls\<close>

text \<open>A call returns a pointer (0 is \<open>RT_NULL\<close>), or waits for the semaphore.\<close>

datatype heap_result = Ptr u32 | Waits_for_heap

type_synonym heap_state = "kernel \<times> heap"

definition rt_system_heap_init :: "u32 \<Rightarrow> u32 \<Rightarrow> heap_state \<Rightarrow> heap_state option" where
  "rt_system_heap_init begin_addr end_addr = (\<lambda>(k, h). do {
     let begin_align = rt_align_up begin_addr 4;
     let end_align = rt_align_down end_addr 4;
     RT_DEBUG_NOT_IN_INTERRUPT k;
     if end_align > 2 * SIZEOF_STRUCT_MEM \<and> end_align - 2 * SIZEOF_STRUCT_MEM \<ge> begin_align then do {
       let h = h\<lparr>mem_size_aligned := end_align - begin_align - 2 * SIZEOF_STRUCT_MEM, heap_ptr := begin_align\<rparr>;
       let b = set_magic 0 HEAP_MAGIC (hbytes h);
       let b = set_next 0 (mem_size_aligned h + SIZEOF_STRUCT_MEM) b;
       let b = set_prev 0 0 b;
       let b = set_used 0 0 b;
       let e = unat (hnext b 0);
       let b = set_magic e HEAP_MAGIC b;
       let b = set_used e 1 b;
       let b = set_next e (mem_size_aligned h + SIZEOF_STRUCT_MEM) b;
       let b = set_prev e (mem_size_aligned h + SIZEOF_STRUCT_MEM) b;
       (_, k) \<leftarrow> rt_sem_init (heap_sem h) ''heap'' 1 RT_IPC_FLAG_FIFO k;
       Some (k, h\<lparr>hbytes := b, heap_end := e, lfree := 0\<rparr>) }
     else Some (k, h) })"

text \<open>The rest of \<open>rt_malloc\<close> once the semaphore is taken.\<close>

definition malloc_locked :: "u32 \<Rightarrow> heap_state \<Rightarrow> (heap_result \<times> heap_state) option" where
  "malloc_locked sz = (\<lambda>(k, h). do {
     (r, h) \<leftarrow> malloc_section sz h;
     (_, k) \<leftarrow> rt_sem_release (heap_sem h) k;
     case r of
       None \<Rightarrow> Some (Ptr 0, k, h)
     | Some ptr \<Rightarrow> do {
         let mem = heap_ptr h + ptr;
         rt_assert (unat mem + 12 + unat sz \<le> unat (heap_ptr h) + heap_end h);
         rt_assert ((mem + SIZEOF_STRUCT_MEM) mod 4 = 0);
         rt_assert (mem AND 3 = 0);
         Some (Ptr (mem + SIZEOF_STRUCT_MEM), k, h) } })"

definition rt_malloc :: "u32 \<Rightarrow> heap_state \<Rightarrow> (heap_result \<times> heap_state) option" where
  "rt_malloc sz0 = (\<lambda>(k, h).
     if sz0 = 0 then Some (Ptr 0, k, h)
     else do {
       RT_DEBUG_NOT_IN_INTERRUPT k;
       let sz = rt_align_up sz0 4;
       if sz > mem_size_aligned h then Some (Ptr 0, k, h)
       else do {
         let sz = (if sz < MIN_SIZE_ALIGNED then MIN_SIZE_ALIGNED else sz);
         (r, k) \<leftarrow> rt_sem_take (heap_sem h) (- 1) k;
         case r of
           Return _ \<Rightarrow> malloc_locked sz (k, h)
         | Blocked \<Rightarrow> Some (Waits_for_heap, k, h) } })"

text \<open>The rest of \<open>rt_free\<close> once the semaphore is taken.\<close>

definition free_locked :: "nat \<Rightarrow> heap_state \<Rightarrow> (heap_result \<times> heap_state) option" where
  "free_locked mem = (\<lambda>(k, h). do {
     h \<leftarrow> free_section mem h;
     (_, k) \<leftarrow> rt_sem_release (heap_sem h) k;
     Some (Ptr 0, k, h) })"

text \<open>A pointer into the first 12 bytes has no header in front of it; reading it is undefined.\<close>

definition rt_free :: "u32 \<Rightarrow> heap_state \<Rightarrow> (heap_result \<times> heap_state) option" where
  "rt_free rmem = (\<lambda>(k, h).
     if rmem = 0 then Some (Ptr 0, k, h)
     else do {
       RT_DEBUG_NOT_IN_INTERRUPT k;
       rt_assert (rmem AND 3 = 0);
       rt_assert (rmem \<ge> heap_ptr h \<and> unat rmem < unat (heap_ptr h) + heap_end h);
       rt_assert (unat (heap_ptr h) + 12 \<le> unat rmem);
       let mem = unat rmem - unat (heap_ptr h) - 12;
       (r, k) \<leftarrow> rt_sem_take (heap_sem h) (- 1) k;
       case r of
         Return _ \<Rightarrow> free_locked mem (k, h)
       | Blocked \<Rightarrow> Some (Waits_for_heap, k, h) })"

text \<open>What \<open>rt_realloc\<close> does with the new block: copy, then release the old one.\<close>

definition realloc_copy :: "u32 \<Rightarrow> u32 \<Rightarrow> u32 \<Rightarrow> u32 \<Rightarrow> heap_state \<Rightarrow> (heap_result \<times> heap_state) option" where
  "realloc_copy rmem sz newsize nmem = (\<lambda>(k, h).
     if nmem \<noteq> 0 then do {
       let h = h\<lparr>hbytes := rt_memcpy (unat nmem - unat (heap_ptr h)) (unat rmem - unat (heap_ptr h))
                 (unat (if sz < newsize then sz else newsize)) (hbytes h)\<rparr>;
       (r, s) \<leftarrow> rt_free rmem (k, h);
       Some (case r of Ptr _ \<Rightarrow> Ptr nmem | Waits_for_heap \<Rightarrow> Waits_for_heap, s) }
     else Some (Ptr nmem, k, h))"

definition realloc_move :: "u32 \<Rightarrow> u32 \<Rightarrow> u32 \<Rightarrow> heap_state \<Rightarrow> (heap_result \<times> heap_state) option" where
  "realloc_move rmem sz newsize s = do {
     (r, s) \<leftarrow> rt_malloc newsize s;
     case r of Ptr nmem \<Rightarrow> realloc_copy rmem sz newsize nmem s | Waits_for_heap \<Rightarrow> Some (Waits_for_heap, s) }"

definition realloc_locked :: "u32 \<Rightarrow> u32 \<Rightarrow> heap_state \<Rightarrow> (heap_result \<times> heap_state) option" where
  "realloc_locked rmem newsize = (\<lambda>(k, h).
     if rmem < heap_ptr h \<or> unat rmem \<ge> unat (heap_ptr h) + heap_end h then do {
       (_, k) \<leftarrow> rt_sem_release (heap_sem h) k;
       Some (Ptr rmem, k, h) }
     else do {
       rt_assert (unat (heap_ptr h) + 12 \<le> unat rmem);
       (sz, stays, h) \<leftarrow> realloc_section (rmem - SIZEOF_STRUCT_MEM - heap_ptr h) newsize h;
       (_, k) \<leftarrow> rt_sem_release (heap_sem h) k;
       if stays then Some (Ptr rmem, k, h) else realloc_move rmem sz newsize (k, h) })"

definition rt_realloc :: "u32 \<Rightarrow> u32 \<Rightarrow> heap_state \<Rightarrow> (heap_result \<times> heap_state) option" where
  "rt_realloc rmem newsize0 = (\<lambda>(k, h). do {
     RT_DEBUG_NOT_IN_INTERRUPT k;
     let newsize = rt_align_up newsize0 4;
     if newsize > mem_size_aligned h then Some (Ptr 0, k, h)
     else if newsize = 0 then do {
       (r, s) \<leftarrow> rt_free rmem (k, h);
       Some (r, s) }
     else if rmem = 0 then rt_malloc newsize (k, h)
     else do {
       (r, k) \<leftarrow> rt_sem_take (heap_sem h) (- 1) k;
       case r of
         Return _ \<Rightarrow> realloc_locked rmem newsize (k, h)
       | Blocked \<Rightarrow> Some (Waits_for_heap, k, h) } })"

text \<open>What \<open>rt_calloc\<close> does with the block it got.\<close>

definition calloc_clear :: "u32 \<Rightarrow> u32 \<Rightarrow> heap \<Rightarrow> heap" where
  "calloc_clear n p h =
     (if p \<noteq> 0 then h\<lparr>hbytes := rt_memset (unat p - unat (heap_ptr h)) 0 (unat n) (hbytes h)\<rparr> else h)"

definition rt_calloc :: "u32 \<Rightarrow> u32 \<Rightarrow> heap_state \<Rightarrow> (heap_result \<times> heap_state) option" where
  "rt_calloc count sz s = do {
     (r, (k, h)) \<leftarrow> rt_malloc (count * sz) s;
     case r of
       Ptr p \<Rightarrow> Some (Ptr p, k, calloc_clear (count * sz) p h)
     | Waits_for_heap \<Rightarrow> Some (Waits_for_heap, k, h) }"

definition rt_memory_info :: "heap \<Rightarrow> u32 \<times> u32 \<times> u32" where
  "rt_memory_info h = (mem_size_aligned h, used_mem h, max_mem h)"

section \<open>What a call that returns has done\<close>

lemma unat_align_up: "unat (rt_align_up (x :: u32) 4) = unat (x + 3) - unat (x + 3) mod 4"
proof -
  have "rt_align_up x 4 = rt_align_down (x + 3) (of_nat RT_ALIGN_SIZE)"
    by (simp add: rt_align_up_def rt_align_down_def RT_ALIGN_SIZE_def algebra_simps)
  then show ?thesis by (simp only: unat_align_down)
qed

lemma align_up_dvd: "4 dvd unat (rt_align_up (x :: u32) 4)"
  unfolding unat_align_up by (simp add: dvd_minus_mod)

text \<open>The rounding does not overflow up to \<open>2\<^sup>3\<^sup>2 - 4\<close>; above that it gives 0.\<close>

lemma align_up_ge:
  assumes "unat (x :: u32) \<le> 2 ^ 32 - 4"
  shows "unat x \<le> unat (rt_align_up x 4)" "unat (rt_align_up x 4) < unat x + 4"
proof -
  have "unat (x + 3) = unat x + 3" using assms by (simp add: unat_add_fit)
  then show "unat x \<le> unat (rt_align_up x 4)" "unat (rt_align_up x 4) < unat x + 4" unfolding unat_align_up by presburger+
qed

lemma align_up_overflow:
  assumes "unat (x :: u32) > 2 ^ 32 - 4"
  shows "rt_align_up x 4 = 0"
proof -
  have "unat x < 2 ^ 32" using unsigned_less [of x, where 'a = nat] by simp
  then have "unat x + 3 - 2 ^ 32 < 3" "unat x + 3 \<ge> 2 ^ 32" "unat x + 3 < 2 * 2 ^ 32" using assms by simp_all
  then have "unat (x + 3) < 3" by (simp add: unat_word_ariths mod_if)
  then have "unat (rt_align_up x 4) = 0" unfolding unat_align_up by simp
  then show ?thesis by (simp add: unat_eq_zero)
qed

definition allocates :: "heap \<Rightarrow> nat \<Rightarrow> nat \<Rightarrow> heap \<Rightarrow> bool" where
  "allocates h a n h' \<longleftrightarrow> heap_wf h' \<and> same_frame h h' \<and> (a, n) \<notin> allocated h \<and> allocated h' = insert (a, n) (allocated h) \<and> heap_keeps (allocated h) h h'"

definition good_size :: "u32 \<Rightarrow> heap \<Rightarrow> bool" where
  "good_size sz h \<longleftrightarrow> 4 dvd unat sz \<and> unat sz \<le> unat (mem_size_aligned h) \<and> 12 \<le> unat sz"

lemma good_size_round:
  assumes "heap_wf h" "\<not> rt_align_up sz 4 > mem_size_aligned h"
  shows "good_size (if rt_align_up sz 4 < MIN_SIZE_ALIGNED then MIN_SIZE_ALIGNED else rt_align_up sz 4) h"
proof -
  have "12 \<le> unat (mem_size_aligned h)" using assms(1) by (simp add: heap_wf_def heap_inv_def heap_bounds_def)
  then show ?thesis using assms(2) align_up_dvd [of sz] by (auto simp: good_size_def word_less_nat_alt word_le_nat_alt)
qed

lemma heap_bounds_wf: "heap_wf h \<Longrightarrow> heap_bounds h"
  by (simp add: heap_wf_def heap_inv_def)

text \<open>The section of \<open>rt_malloc\<close> with the assertions behind it, which always hold.\<close>

lemma malloc_locked_eq:
  assumes wf: "heap_wf h" and sz: "good_size sz h"
  obtains (none) "malloc_section sz h = Some (None, h)"
      "\<forall>xs x ys. blocks h = xs @ x # ys \<and> lfree h \<le> span xs \<longrightarrow> \<not> fits sz h (span xs) x"
      "\<And>k. malloc_locked sz (k, h) = do { (_, k) \<leftarrow> rt_sem_release (heap_sem h) k; Some (Ptr 0, k, h) }"
    | (some) a n h' where "\<And>k. malloc_locked sz (k, h) = do { (_, k) \<leftarrow> rt_sem_release (heap_sem h) k; Some (Ptr a, k, h') }"
      "a \<noteq> 0" "allocates h (unat a) n h'" "unat sz \<le> n" "n < unat sz + 24" "heap_keeps (allocated h') h h'"
      "lowest h (blocks h) \<longrightarrow> lowest h' (blocks h')"
proof -
  have sz': "unat sz \<le> unat (mem_size_aligned h)" "4 dvd unat sz" using sz by (simp_all add: good_size_def)
  show thesis
  proof (rule malloc_section_live [OF wf sz'])
    assume "malloc_section sz h = Some (None, h)"
      "\<forall>xs x ys. blocks h = xs @ x # ys \<and> lfree h \<le> span xs \<longrightarrow> \<not> fits sz h (span xs) x"
    then show thesis by (intro none) (simp_all add: malloc_locked_def)
  next
    fix p n h'
    assume m: "malloc_section sz h = Some (Some (of_nat p), h')" "heap_wf h'" "same_frame h h'" "unat sz \<le> n" "n < unat sz + 24"
      "(unat (heap_ptr h) + p + 12, n) \<notin> allocated h" "allocated h' = insert (unat (heap_ptr h) + p + 12, n) (allocated h)" "heap_keeps (allocated h') h h'"
      "lowest h (blocks h) \<longrightarrow> lowest h' (blocks h')" "p + unat sz < unat (mem_size_aligned h)"
    have bd: "unat (mem_size_aligned h) + 12 = heap_end h" "unat (heap_ptr h) + heap_end h + 12 < 2 ^ 32" "4 dvd unat (heap_ptr h)"
      using heap_bounds_wf [OF wf] by (simp_all add: heap_bounds_def)
    have "4 dvd unat (heap_ptr h) + p + 12" using live_layout(1) [OF m(2), of "unat (heap_ptr h) + p + 12" n] m(7) by simp
    then have d4: "4 dvd unat (heap_ptr h) + p" by presburger
    have fr: "heap_ptr h' = heap_ptr h" "heap_end h' = heap_end h" "heap_sem h' = heap_sem h" using m(3) by (simp_all add: same_frame_def)
    let ?mem = "heap_ptr h + of_nat p"
    have "p < 2 ^ 32" using m(10) bd by simp
    then have "unat (of_nat p :: u32) = p" by simp
    then have um: "unat ?mem = unat (heap_ptr h) + p" using m(10) bd by (simp add: unat_add_fit)
    then have ua: "unat (?mem + 12) = unat (heap_ptr h) + p + 12" using m(10) bd by simp
    have and3: "?mem AND 3 = 0"
    proof -
      have "?mem AND 3 = take_bit 2 ?mem" by (simp add: take_bit_eq_mask mask_eq_exp_minus_1 numeral_eq_Suc)
      also have "unat \<dots> = unat ?mem mod 4" unfolding unsigned_take_bit_eq by (simp add: take_bit_eq_mod)
      finally show ?thesis using d4 um by (auto simp: unat_eq_zero [symmetric] intro: word_unat_eq_iff [THEN iffD2])
    qed
    have mod4: "(?mem + 12) mod 4 = 0"
    proof -
      have "unat ((?mem + 12) mod 4) = unat (?mem + 12) mod 4" by (simp add: unat_mod_distrib)
      then show ?thesis using ua d4 by (simp add: unat_eq_zero [symmetric] mod_eq_0_iff_dvd)
    qed
    have "unat ?mem + 12 + unat sz \<le> unat (heap_ptr h) + heap_end h" using um m(10) bd by simp
    then have eq: "malloc_locked sz (k, h) = do { (_, k) \<leftarrow> rt_sem_release (heap_sem h) k; Some (Ptr (?mem + 12), k, h') }" for k
      using m(1) fr and3 mod4 by (simp add: malloc_locked_def)
    have "heap_keeps (allocated h) h h'" using m(7,8) by (auto simp: same_bytes_def)
    then have "allocates h (unat (?mem + 12)) n h'" using m ua by (simp add: allocates_def)
    moreover have "?mem + 12 \<noteq> 0" using ua by auto
    ultimately show thesis using some [OF eq] m by blast
  qed
qed

lemma malloc_locked_returns:
  assumes wf: "heap_wf h" and sz: "good_size sz h" and r: "malloc_locked sz (k, h) = Some (r, k', h')"
  shows "r = Ptr 0 \<and> h' = h \<or> (\<exists>a n. r = Ptr a \<and> a \<noteq> 0 \<and> allocates h (unat a) n h' \<and> unat sz \<le> n)"
proof (rule malloc_locked_eq [OF wf sz])
  assume "\<And>k. malloc_locked sz (k, h) = do { (_, k) \<leftarrow> rt_sem_release (heap_sem h) k; Some (Ptr 0, k, h) }"
  then show ?thesis using r by (auto split: bind_splits)
next
  fix a n g
  assume "\<And>k. malloc_locked sz (k, h) = do { (_, k) \<leftarrow> rt_sem_release (heap_sem h) k; Some (Ptr a, k, g) }"
    "a \<noteq> 0" "allocates h (unat a) n g" "unat sz \<le> n"
  then show ?thesis using r by (auto split: bind_splits)
qed

lemma rt_malloc_returns:
  assumes wf: "heap_wf h" and r: "rt_malloc sz (k, h) = Some (r, k', h')"
  shows "(r = Ptr 0 \<or> r = Waits_for_heap) \<and> h' = h \<or>
    (\<exists>a n. r = Ptr a \<and> a \<noteq> 0 \<and> allocates h (unat a) n h' \<and> unat (rt_align_up sz 4) \<le> n)"
proof -
  let ?al = "rt_align_up sz 4"
  define sz' where "sz' = (if ?al < MIN_SIZE_ALIGNED then MIN_SIZE_ALIGNED else ?al)"
  consider "(r = Ptr 0 \<or> r = Waits_for_heap) \<and> h' = h" | k1 where "\<not> ?al > mem_size_aligned h" "malloc_locked sz' (k1, h) = Some (r, k', h')"
    using r unfolding rt_malloc_def sz'_def
    by (auto simp: Let_def split: if_splits bind_splits ipc_result.splits)
  then show ?thesis
  proof cases
    case 2
    have g: "good_size sz' h" using good_size_round [OF wf 2(1)] by (simp add: sz'_def)
    have "unat ?al \<le> unat sz'" by (auto simp: sz'_def word_less_nat_alt)
    then show ?thesis using malloc_locked_returns [OF wf g 2(2)] by fastforce
  qed simp
qed

lemma free_locked_eq:
  assumes wf: "heap_wf h" and a: "(a, n) \<in> allocated h"
  obtains h' where "\<And>k. free_locked (a - unat (heap_ptr h) - 12) (k, h) = do { (_, k) \<leftarrow> rt_sem_release (heap_sem h) k; Some (Ptr 0, k, h') }"
    "heap_wf h'" "same_frame h h'" "allocated h' = allocated h - {(a, n)}" "heap_keeps (allocated h') h h'"
    "lowest h (blocks h) \<longrightarrow> lowest h' (blocks h')"
proof -
  obtain h' where h': "free_section (a - unat (heap_ptr h) - 12) h = Some h'" "heap_wf h'" "same_frame h h'"
    "allocated h' = allocated h - {(a, n)}" "heap_keeps (allocated h') h h'" "lowest h (blocks h) \<longrightarrow> lowest h' (blocks h')"
    by (rule free_section_live [OF wf a]) blast
  have "heap_sem h' = heap_sem h" using h'(3) by (simp add: same_frame_def)
  then show thesis using h' by (intro that [of h']) (simp_all add: free_locked_def)
qed

definition releases :: "heap \<Rightarrow> nat \<Rightarrow> nat \<Rightarrow> heap \<Rightarrow> bool" where
  "releases h a n h' \<longleftrightarrow> heap_wf h' \<and> same_frame h h' \<and> allocated h' = allocated h - {(a, n)} \<and> heap_keeps (allocated h') h h'"

lemma free_locked_returns:
  assumes wf: "heap_wf h" and a: "(a, n) \<in> allocated h" and r: "free_locked (a - unat (heap_ptr h) - 12) (k, h) = Some (r, k', h')"
  shows "r = Ptr 0 \<and> releases h a n h'"
proof -
  obtain g where g: "\<And>k. free_locked (a - unat (heap_ptr h) - 12) (k, h) = do { (_, k) \<leftarrow> rt_sem_release (heap_sem h) k; Some (Ptr 0, k, g) }"
    "heap_wf g" "same_frame h g" "allocated g = allocated h - {(a, n)}" "heap_keeps (allocated g) h g"
    by (rule free_locked_eq [OF wf a]) blast
  then show ?thesis using r by (auto simp: releases_def split: bind_splits)
qed

lemma live_nonzero: "heap_wf h \<Longrightarrow> (unat a, n) \<in> allocated h \<Longrightarrow> a \<noteq> 0"
  using live_layout(2) [of h "unat a" n] by auto

lemma rt_free_returns:
  assumes wf: "heap_wf h" and a: "(unat a, n) \<in> allocated h" and r: "rt_free a (k, h) = Some (r, k', h')"
  shows "r = Waits_for_heap \<and> h' = h \<or> r = Ptr 0 \<and> releases h (unat a) n h'"
proof -
  have "r = Waits_for_heap \<and> h' = h \<or> (\<exists>k1. free_locked (unat a - unat (heap_ptr h) - 12) (k1, h) = Some (r, k', h'))"
    using r live_nonzero [OF wf a] by (auto simp: rt_free_def Let_def split: if_splits bind_splits ipc_result.splits)
  then show ?thesis using free_locked_returns [OF wf a] by blast
qed

text \<open>Clearing a block for \<open>rt_calloc\<close>, and copying into one for \<open>rt_realloc\<close>.\<close>

lemma clear_live:
  assumes wf: "heap_wf h" and a: "(unat p, n) \<in> allocated h" and n: "unat sz \<le> n"
  shows "heap_wf (calloc_clear sz p h)" "same_frame h (calloc_clear sz p h)" "allocated (calloc_clear sz p h) = allocated h"
    "heap_keeps (allocated h - {(unat p, n)}) h (calloc_clear sz p h)" "\<forall>i < unat sz. byte_at (calloc_clear sz p h) (unat p + i) = 0"
proof -
  have nz: "p \<noteq> 0" by (rule live_nonzero [OF wf a])
  have B: "unat (heap_ptr h) \<le> unat p" using live_layout(2) [OF wf a] by simp
  define b where "b = rt_memset (unat p - unat (heap_ptr h)) 0 (unat sz) (hbytes h)"
  have b: "b i = hbytes h i" if "\<not> (unat p \<le> unat (heap_ptr h) + i \<and> unat (heap_ptr h) + i < unat p + n)" for i
    using that B n by (auto simp: b_def rt_memset_fill fill_def)
  have eq: "calloc_clear sz p h = h\<lparr>hbytes := b\<rparr>" using nz by (simp add: calloc_clear_def b_def)
  note w = write_live [OF wf a b eq]
  show "heap_wf (calloc_clear sz p h)" "same_frame h (calloc_clear sz p h)" "allocated (calloc_clear sz p h) = allocated h"
    "heap_keeps (allocated h - {(unat p, n)}) h (calloc_clear sz p h)" using w(1-3,5) by simp_all
  show "\<forall>i < unat sz. byte_at (calloc_clear sz p h) (unat p + i) = 0"
    unfolding eq using B by (auto simp: byte_at_def b_def rt_memset_fill fill_def)
qed

lemma copy_live:
  assumes wf: "heap_wf h" and q: "(unat q, m) \<in> allocated h" and p: "(unat p, n) \<in> allocated h" and l: "l \<le> m" "l \<le> n" and ne: "(unat q, m) \<noteq> (unat p, n)"
    and h': "h' = h\<lparr>hbytes := rt_memcpy (unat q - unat (heap_ptr h)) (unat p - unat (heap_ptr h)) l (hbytes h)\<rparr>"
  shows "heap_wf h'" "same_frame h h'" "allocated h' = allocated h" "heap_keeps (allocated h - {(unat q, m)}) h h'"
    "\<forall>i < l. byte_at h' (unat q + i) = byte_at h (unat p + i)"
proof -
  have B: "unat (heap_ptr h) \<le> unat q" "unat (heap_ptr h) \<le> unat p" using live_layout(2) [OF wf q] live_layout(2) [OF wf p] by simp_all
  have "unat q + m + 12 \<le> unat p \<or> unat p + n + 12 \<le> unat q" using live_disjoint [OF q p ne] .
  then have "upward (unat q - unat (heap_ptr h)) (unat p - unat (heap_ptr h)) l" using B l by (auto simp: upward_def)
  note cp = rt_memcpy_copied [OF this]
  have c: "rt_memcpy (unat q - unat (heap_ptr h)) (unat p - unat (heap_ptr h)) l (hbytes h) i = hbytes h i"
    if "\<not> (unat q \<le> unat (heap_ptr h) + i \<and> unat (heap_ptr h) + i < unat q + m)" for i
    using that B l unfolding cp by (auto simp: copied_def)
  note w = write_live [OF wf q c h']
  show "heap_wf h'" "same_frame h h'" "allocated h' = allocated h" "heap_keeps (allocated h - {(unat q, m)}) h h'"
    using w(1-3,5) by simp_all
  show "\<forall>i < l. byte_at h' (unat q + i) = byte_at h (unat p + i)"
    unfolding h' cp using B by (auto simp: byte_at_def copied_def algebra_simps)
qed

lemma rt_calloc_returns:
  assumes wf: "heap_wf h" and r: "rt_calloc count sz (k, h) = Some (r, k', h')" and sm: "unat (count * sz) \<le> 2 ^ 32 - 4"
  shows "(r = Ptr 0 \<or> r = Waits_for_heap) \<and> h' = h \<or> (\<exists>a n. r = Ptr a \<and> a \<noteq> 0 \<and> allocates h (unat a) n h' \<and>
      unat (count * sz) \<le> n \<and> (\<forall>i < unat (count * sz). byte_at h' (unat a + i) = 0))"
proof -
  obtain r1 g where g: "rt_malloc (count * sz) (k, h) = Some (r1, k', g)"
    "r1 = Ptr p \<Longrightarrow> r = Ptr p \<and> h' = calloc_clear (count * sz) p g" "r1 = Waits_for_heap \<Longrightarrow> r = Waits_for_heap \<and> h' = g" for p
    using r by (auto simp: rt_calloc_def split: bind_splits heap_result.splits)
  from rt_malloc_returns [OF wf g(1)] show ?thesis
  proof
    assume "(r1 = Ptr 0 \<or> r1 = Waits_for_heap) \<and> g = h"
    then show ?thesis using g(2) [of 0] g(3) by (auto simp: calloc_clear_def)
  next
    assume "\<exists>a n. r1 = Ptr a \<and> a \<noteq> 0 \<and> allocates h (unat a) n g \<and> unat (rt_align_up (count * sz) 4) \<le> n"
    then obtain a n where a: "r1 = Ptr a" "a \<noteq> 0" "allocates h (unat a) n g" "unat (rt_align_up (count * sz) 4) \<le> n" by blast
    have n: "unat (count * sz) \<le> n" using align_up_ge(1) [OF sm] a(4) by simp
    have w: "heap_wf g" "(unat a, n) \<in> allocated g" using a(3) by (auto simp: allocates_def)
    note c = clear_live [OF w n]
    have sub: "allocated h \<subseteq> allocated g - {(unat a, n)}" using a(3) by (auto simp: allocates_def)
    have "heap_keeps (allocated h) g (calloc_clear (count * sz) a g)" using c(4) sub by (auto simp: same_bytes_def)
    then have "allocates h (unat a) n (calloc_clear (count * sz) a g)"
      using a(3) c by (auto simp: allocates_def same_bytes_def same_frame_def)
    then show ?thesis using g(2) [OF a(1)] a n c(5) by blast
  qed
qed

definition resizes :: "heap \<Rightarrow> nat \<Rightarrow> nat \<Rightarrow> nat \<Rightarrow> heap \<Rightarrow> bool" where
  "resizes h p q r h' \<longleftrightarrow> heap_wf h' \<and> same_frame h h' \<and> (\<exists>n m. (p, n) \<in> allocated h \<and> r \<le> m \<and>
     allocated h' = insert (q, m) (allocated h - {(p, n)}) \<and> heap_keeps (allocated h - {(p, n)}) h h' \<and>
     (\<forall>i < min n r. byte_at h' (q + i) = byte_at h (p + i)))"

lemma realloc_copy_returns:
  assumes wf: "heap_wf h" and p: "(unat p, n) \<in> allocated h" and al: "allocates h (unat a) m g" and m: "unat r \<le> m" and a: "a \<noteq> 0"
    and n: "unat sz = n" and res: "realloc_copy p sz r a (k, g) = Some (Ptr q, k', h')"
  shows "q = a \<and> resizes h (unat p) (unat a) (unat r) h'"
proof -
  define l where "l = unat (if sz < r then sz else r)"
  have l: "l = min n (unat r)" using n by (auto simp: l_def word_less_nat_alt)
  define g2 where "g2 = g\<lparr>hbytes := rt_memcpy (unat a - unat (heap_ptr g)) (unat p - unat (heap_ptr g)) l (hbytes g)\<rparr>"
  have wg: "heap_wf g" "(unat a, m) \<in> allocated g" "(unat p, n) \<in> allocated g" "(unat a, m) \<noteq> (unat p, n)"
    using al p by (auto simp: allocates_def)
  have lm: "l \<le> m" "l \<le> n" using l m by auto
  note c = copy_live [OF wg(1-3) lm wg(4) g2_def]
  have p2: "(unat p, n) \<in> allocated g2" using c(3) wg by simp
  obtain r1 where f: "rt_free p (k, g2) = Some (r1, k', h')" "r1 \<noteq> Waits_for_heap" "q = a"
    using res a unfolding realloc_copy_def Let_def
    by (auto simp: g2_def l_def split: bind_splits heap_result.splits)
  have rel: "releases g2 (unat p) n h'" using rt_free_returns [OF c(1) p2 f(1)] f(2) by blast
  have alloc: "allocated h' = insert (unat a, m) (allocated h - {(unat p, n)})"
    using rel al c(3) wg(4) by (auto simp: releases_def allocates_def)
  let ?R = "allocated h - {(unat p, n)}"
  have k1: "heap_keeps ?R h g" by (rule same_bytes_mono [where B = "allocated h"]) (use al in \<open>auto simp: allocates_def\<close>)
  have k2: "heap_keeps ?R g g2" by (rule same_bytes_mono [OF c(4)]) (use al in \<open>auto simp: allocates_def\<close>)
  have kh: "heap_keeps (allocated h') g2 h'" using rel unfolding releases_def by blast
  have k3: "heap_keeps ?R g2 h'" by (rule same_bytes_mono [OF kh]) (unfold alloc, blast)
  have k: "heap_keeps ?R h h'" by (rule same_bytes_trans [OF same_bytes_trans [OF k1 k2] k3])
  have "byte_at h' (unat a + i) = byte_at h (unat p + i)" if "i < min n (unat r)" for i
  proof -
    have "byte_at h' (unat a + i) = byte_at g2 (unat a + i)"
      by (rule same_bytesD [OF kh, of _ m]) (use that m in \<open>auto simp: alloc\<close>)
    also have "\<dots> = byte_at g (unat p + i)" using c(5) that l by simp
    also have "\<dots> = byte_at h (unat p + i)" using al p that by (auto simp: allocates_def same_bytes_def)
    finally show ?thesis .
  qed
  moreover have "heap_wf h'" "same_frame h h'" using rel al c(2) by (auto simp: releases_def allocates_def same_frame_def)
  ultimately show ?thesis using f(3) alloc k p m unfolding resizes_def by blast
qed

lemma realloc_offset:
  assumes wf: "heap_wf h" and p: "(unat p, n) \<in> allocated h"
  shows "p - SIZEOF_STRUCT_MEM - heap_ptr h = of_nat (unat p - unat (heap_ptr h) - 12)" "\<not> p < heap_ptr h"
    "\<not> unat p \<ge> unat (heap_ptr h) + heap_end h \<or> n = 0" "unat (heap_ptr h) + 12 \<le> unat p"
proof -
  have b: "unat (heap_ptr h) + 12 \<le> unat p" "unat p + n \<le> unat (heap_ptr h) + heap_end h" using live_layout [OF wf p] by auto
  then show "\<not> p < heap_ptr h" "\<not> unat p \<ge> unat (heap_ptr h) + heap_end h \<or> n = 0" "unat (heap_ptr h) + 12 \<le> unat p"
    by (auto simp: word_less_nat_alt)
  have u1: "unat (p - 12) = unat p - 12" using b by (subst unat_sub) (auto simp: word_le_nat_alt)
  then have "unat (p - 12 - heap_ptr h) = unat p - unat (heap_ptr h) - 12" using b by (subst unat_sub) (auto simp: word_le_nat_alt)
  then show "p - 12 - heap_ptr h = of_nat (unat p - unat (heap_ptr h) - 12)" by (metis of_nat_unat ucast_id)
qed

lemma realloc_move_returns:
  assumes wf: "heap_wf h" and p: "(unat p, n) \<in> allocated h" and n: "unat sz = n" and r: "unat r \<le> 2 ^ 32 - 4"
    and res: "realloc_move p sz r (k, h) = Some (Ptr q, k', h')"
  shows "q = 0 \<and> h' = h \<or> resizes h (unat p) (unat q) (unat r) h'"
proof -
  obtain r1 k1 g where m: "rt_malloc r (k, h) = Some (r1, k1, g)"
    "(case r1 of Ptr nmem \<Rightarrow> realloc_copy p sz r nmem (k1, g) | Waits_for_heap \<Rightarrow> Some (Waits_for_heap, k1, g)) = Some (Ptr q, k', h')"
    using res by (auto simp: realloc_move_def split: bind_splits)
  then obtain a where a: "r1 = Ptr a" "realloc_copy p sz r a (k1, g) = Some (Ptr q, k', h')" by (auto split: heap_result.splits)
  from rt_malloc_returns [OF wf m(1)] show ?thesis
  proof
    assume "(r1 = Ptr 0 \<or> r1 = Waits_for_heap) \<and> g = h"
    then show ?thesis using a by (simp add: realloc_copy_def)
  next
    assume "\<exists>b m. r1 = Ptr b \<and> b \<noteq> 0 \<and> allocates h (unat b) m g \<and> unat (rt_align_up r 4) \<le> m"
    then obtain m where b: "a \<noteq> 0" "allocates h (unat a) m g" "unat r \<le> m" using a(1) align_up_ge(1) [OF r] by fastforce
    then show ?thesis using realloc_copy_returns [OF wf p b(2,3,1) n a(2)] by simp
  qed
qed

lemma rt_realloc_returns:
  assumes wf: "heap_wf h" and p: "(unat p, n) \<in> allocated h" and n: "0 < n" and res: "rt_realloc p sz (k, h) = Some (Ptr q, k', h')"
  shows "q = 0 \<and> h' = h \<or> rt_align_up sz 4 = 0 \<and> releases h (unat p) n h' \<or>
    rt_align_up sz 4 \<noteq> 0 \<and> resizes h (unat p) (unat q) (unat (rt_align_up sz 4)) h'"
proof -
  let ?r = "rt_align_up sz 4"
  have nz: "p \<noteq> 0" by (rule live_nonzero [OF wf p])
  consider "q = 0 \<and> h' = h" | "?r = 0" "rt_free p (k, h) = Some (Ptr q, k', h')"
    | k1 where "?r \<noteq> 0" "\<not> ?r > mem_size_aligned h" "realloc_locked p ?r (k1, h) = Some (Ptr q, k', h')"
    using res nz unfolding rt_realloc_def by (auto simp: Let_def split: if_splits bind_splits ipc_result.splits)
  then show ?thesis
  proof cases
    case 1 then show ?thesis by simp
  next
    case 2 then show ?thesis using rt_free_returns [OF wf p 2(2)] by simp
  next
    case 3
    have r: "unat ?r \<le> unat (mem_size_aligned h)" "4 dvd unat ?r" using 3(2) align_up_dvd by (simp_all add: word_less_nat_alt)
    have r2: "unat ?r \<le> 2 ^ 32 - 4" using r heap_bounds_wf [OF wf] by (simp add: heap_bounds_def)
    have un: "unat (of_nat n :: u32) = n"
    proof -
      have "n < 2 ^ 32" using live_layout(3) [OF wf p] heap_bounds_wf [OF wf] by (simp add: heap_bounds_def)
      then show ?thesis by simp
    qed
    note o = realloc_offset [OF wf p]
    obtain szx st g k2 where s: "realloc_section (p - SIZEOF_STRUCT_MEM - heap_ptr h) ?r h = Some (szx, st, g)"
      "(if st then Some (Ptr p, k2, g) else realloc_move p szx ?r (k2, g)) = Some (Ptr q, k', h')"
      using 3(3) o(2-4) n unfolding realloc_locked_def by (auto simp del: diff_diff_eq split: if_splits bind_splits)
    note s = s [unfolded o(1)]
    show ?thesis
    proof (rule realloc_section_live [OF wf p r])
      fix g2 assume g2: "realloc_section (of_nat (unat p - unat (heap_ptr h) - 12)) ?r h = Some (of_nat n, True, g2)" "heap_wf g2"
        "same_frame h g2" "allocated g2 = insert (unat p, unat ?r) (allocated h - {(unat p, n)})" "heap_keeps (allocated g2) h g2"
      have "heap_keeps (allocated h - {(unat p, n)}) h g2" by (rule same_bytes_mono [OF g2(5)]) (use g2(4) in auto)
      moreover have "\<forall>i < min n (unat ?r). byte_at g2 (unat p + i) = byte_at h (unat p + i)" using g2(4,5) by (auto simp: same_bytes_def)
      ultimately have "resizes h (unat p) (unat p) (unat ?r) g2" using g2 p unfolding resizes_def by blast
      then show ?thesis using s g2(1) 3(1) by auto
    next
      assume "realloc_section (of_nat (unat p - unat (heap_ptr h) - 12)) ?r h = Some (of_nat n, False, h)"
      then show ?thesis using s realloc_move_returns [OF wf p un r2] 3(1) by auto
    qed
  qed
qed

text \<open>The initial heap: one free block.\<close>

lemma rt_system_heap_init_wf:
  assumes r: "rt_system_heap_init b e (k, h) = Some (k', h')" and sm: "unat (rt_align_up b 4) + 36 \<le> unat (rt_align_down e 4)"
    and z: "used_mem h = 0"
  shows "heap_inv h' [(unat (rt_align_down e 4) - unat (rt_align_up b 4) - 24, False)]" "heap_ptr h' = rt_align_up b 4" "lfree h' = 0"
proof -
  let ?b = "rt_align_up b 4" and ?e = "rt_align_down e 4"
  have d4: "4 dvd unat ?b" "4 dvd unat ?e"
    using align_up_dvd [of b] unat_align_down [of e] by (simp_all add: RT_ALIGN_SIZE_def dvd_minus_mod)
  define n where "n = unat ?e - unat ?b - 24"
  have e24: "unat (?e - 24) = unat ?e - 24" using sm by (subst unat_sub) (auto simp: word_le_nat_alt)
  have c: "?e > 24" "?e - 24 \<ge> ?b" using sm e24 by (auto simp: word_less_nat_alt word_le_nat_alt)
  have eb: "unat (?e - ?b) = unat ?e - unat ?b" using sm by (subst unat_sub) (auto simp: word_le_nat_alt)
  then have msa: "unat (?e - ?b - 24) = n" using sm by (subst unat_sub) (auto simp: word_le_nat_alt n_def)
  have lt: "unat ?e < 2 ^ 32" using unsigned_less [of ?e, where 'a = nat] by simp
  have nb: "n + 24 + unat ?b = unat ?e" "12 \<le> n" using sm by (simp_all add: n_def)
  have "unat (?e - ?b - 24) + 12 < 2 ^ 32" using msa nb lt by simp
  then have uE: "unat (?e - ?b - 24 + 12) = n + 12" unfolding msa [symmetric] by (rule unat_plus12)
  have dn: "4 dvd n" using d4 nb by presburger
  define w where "w = set_used 0 0 (set_prev 0 0 (set_next 0 (?e - ?b - 24 + 12) (set_magic 0 HEAP_MAGIC (hbytes h))))"
  define v where "v = set_prev (n + 12) (?e - ?b - 24 + 12) (set_next (n + 12) (?e - ?b - 24 + 12) (set_used (n + 12) 1 (set_magic (n + 12) HEAP_MAGIC w)))"
  have hw: "unat (hnext w 0) = n + 12" using uE by (simp add: w_def)
  have h': "h' = h\<lparr>mem_size_aligned := ?e - ?b - 24, heap_ptr := ?b, hbytes := v, heap_end := n + 12, lfree := 0\<rparr>"
    using r c uE unfolding rt_system_heap_init_def Let_def
    by (auto simp: w_def v_def RT_DEBUG_NOT_IN_INTERRUPT_def split: bind_splits if_splits)
  have "hmagic v 0 = HEAP_MAGIC" "hused v 0 = 0" "unat (hnext v 0) = n + 12" "hprev v 0 = 0" "hused v (n + 12) = 1"
    using hw by (simp_all add: v_def hfields_other) (simp_all add: w_def)
  then show "heap_inv h' [(unat ?e - unat ?b - 24, False)]"
    using msa nb lt d4 dn z unfolding h' n_def [symmetric]
    by (auto simp: heap_inv_def heap_bounds_def chain_def no_adjacent_Cons)
  show "heap_ptr h' = ?b" "lfree h' = 0" by (simp_all add: h')
qed

section \<open>The interface\<close>

text \<open>
  Steps of a program that uses the heap: calls that return, calls that start to wait, the section of a call that waited,
  stores inside a block in use, and whatever else the kernel does. A resize that has to wait in the middle is its parts: an
  allocation, stores, and a release.
\<close>

inductive heap_step :: "heap_state \<Rightarrow> alloc_label \<Rightarrow> heap_state \<Rightarrow> bool" where
  malloc: "rt_malloc sz s = Some (Ptr p, s') \<Longrightarrow> p \<noteq> 0 \<Longrightarrow> heap_step s (Alloc (unat p) (unat (rt_align_up sz 4))) s'"
| malloc_none: "rt_malloc sz s = Some (r, s') \<Longrightarrow> r = Ptr 0 \<or> r = Waits_for_heap \<Longrightarrow> heap_step s Quiet s'"
| malloc_resumed: "good_size sz (snd s) \<Longrightarrow> malloc_locked sz s = Some (Ptr p, s') \<Longrightarrow> p \<noteq> 0 \<Longrightarrow> heap_step s (Alloc (unat p) (unat sz)) s'"
| malloc_resumed_none: "good_size sz (snd s) \<Longrightarrow> malloc_locked sz s = Some (Ptr 0, s') \<Longrightarrow> heap_step s Quiet s'"
| calloc: "rt_calloc count sz s = Some (Ptr p, s') \<Longrightarrow> p \<noteq> 0 \<Longrightarrow> unat (count * sz) \<le> 2 ^ 32 - 4 \<Longrightarrow>
    heap_step s (Alloc (unat p) (unat (count * sz))) s'"
| free: "(unat p, n) \<in> allocated (snd s) \<Longrightarrow> rt_free p s = Some (Ptr r, s') \<Longrightarrow> heap_step s (Freed (unat p)) s'"
| free_waits: "(unat p, n) \<in> allocated (snd s) \<Longrightarrow> rt_free p s = Some (Waits_for_heap, s') \<Longrightarrow> heap_step s Quiet s'"
| free_resumed: "(p, n) \<in> allocated (snd s) \<Longrightarrow> free_locked (p - unat (heap_ptr (snd s)) - 12) s = Some (r, s') \<Longrightarrow>
    heap_step s (Freed p) s'"
| realloc: "(unat p, n) \<in> allocated (snd s) \<Longrightarrow> 0 < n \<Longrightarrow> rt_realloc p sz s = Some (Ptr q, s') \<Longrightarrow> q \<noteq> 0 \<Longrightarrow> rt_align_up sz 4 \<noteq> 0 \<Longrightarrow>
    heap_step s (Resized (unat p) (unat q) (unat (rt_align_up sz 4))) s'"
| store: "(p, n) \<in> allocated h \<Longrightarrow> p \<le> a \<Longrightarrow> a < p + n \<Longrightarrow>
    heap_step (k, h) (Stored a v) (k, h\<lparr>hbytes := (hbytes h)(a - unat (heap_ptr h) := v)\<rparr>)"
| environment: "heap_step (k, h) Quiet (k', h)"

abbreviation heap_ok :: "heap_state \<Rightarrow> bool" where
  "heap_ok s \<equiv> heap_wf (snd s)"

abbreviation state_byte :: "heap_state \<Rightarrow> nat \<Rightarrow> u8" where
  "state_byte s \<equiv> byte_at (snd s)"

lemma store_step:
  assumes wf: "heap_wf h" and a: "(p, n) \<in> allocated h" "p \<le> a" "a < p + n"
    and h': "h' = h\<lparr>hbytes := (hbytes h)(a - unat (heap_ptr h) := v)\<rparr>"
  shows "heap_wf h'" "allocated h' = allocated h"
    "(q, m) \<in> allocated h \<Longrightarrow> i < m \<Longrightarrow> byte_at h' (q + i) = (if q + i = a then v else byte_at h (q + i))"
proof -
  have B: "unat (heap_ptr h) \<le> p" using live_layout(2) [OF wf a(1)] by simp
  have "((hbytes h)(a - unat (heap_ptr h) := v)) j = hbytes h j"
    if "\<not> (p \<le> unat (heap_ptr h) + j \<and> unat (heap_ptr h) + j < p + n)" for j
    using that a B by auto
  from write_live [OF wf a(1) this h'] show "heap_wf h'" "allocated h' = allocated h" by simp_all
  assume "(q, m) \<in> allocated h"
  then have "unat (heap_ptr h) \<le> q" using live_layout(2) [OF wf] by fastforce
  then show "byte_at h' (q + i) = (if q + i = a then v else byte_at h (q + i))" using a B by (auto simp: byte_at_def h')
qed

lemma heap_step_spec:
  assumes "heap_step s l s'" and inv: "heap_ok s"
  shows "heap_ok s' \<and> (case l of
      Alloc p r \<Rightarrow> \<exists>n \<ge> r. allocates (snd s) p n (snd s')
    | Freed p \<Rightarrow> \<exists>n. (p, n) \<in> allocated (snd s) \<and> releases (snd s) p n (snd s')
    | Resized p q r \<Rightarrow> resizes (snd s) p q r (snd s')
    | Stored a v \<Rightarrow> allocated (snd s') = allocated (snd s) \<and> (\<forall>p n i. (p, n) \<in> allocated (snd s) \<and> i < n \<longrightarrow>
        state_byte s' (p + i) = (if p + i = a then v else state_byte s (p + i)))
    | Quiet \<Rightarrow> snd s' = snd s)"
proof -
  obtain k h k' h' where s: "s = (k, h)" "s' = (k', h')" by (cases s, cases s')
  have wf: "heap_wf h" using inv s by simp
  from assms(1) show ?thesis
  proof (cases rule: heap_step.cases)
    case (malloc sz p)
    then have "rt_malloc sz (k, h) = Some (Ptr p, k', h')" using s by simp
    from rt_malloc_returns [OF wf this] malloc(3) obtain n where "allocates h (unat p) n h'" "unat (rt_align_up sz 4) \<le> n" by auto
    then show ?thesis using malloc(1) s by (auto simp: allocates_def)
  next
    case (malloc_none sz r)
    then have "rt_malloc sz (k, h) = Some (r, k', h')" using s by simp
    from rt_malloc_returns [OF wf this] malloc_none(3) have "h' = h" by auto
    then show ?thesis using malloc_none(1) s wf by simp
  next
    case (malloc_resumed sz p)
    then have "malloc_locked sz (k, h) = Some (Ptr p, k', h')" "good_size sz h" using s by simp_all
    from malloc_locked_returns [OF wf this(2,1)] malloc_resumed(4) obtain n where "allocates h (unat p) n h'" "unat sz \<le> n" by auto
    then show ?thesis using malloc_resumed(1) s by (auto simp: allocates_def)
  next
    case (malloc_resumed_none sz)
    then have "malloc_locked sz (k, h) = Some (Ptr 0, k', h')" "good_size sz h" using s by simp_all
    from malloc_locked_returns [OF wf this(2,1)] have "h' = h" by auto
    then show ?thesis using malloc_resumed_none(1) s wf by simp
  next
    case (calloc count sz p)
    then have "rt_calloc count sz (k, h) = Some (Ptr p, k', h')" using s by simp
    from rt_calloc_returns [OF wf this calloc(4)] calloc(3) obtain n where "allocates h (unat p) n h'" "unat (count * sz) \<le> n" by auto
    then show ?thesis using calloc(1) s by (auto simp: allocates_def)
  next
    case (free p n r)
    then have "rt_free p (k, h) = Some (Ptr r, k', h')" "(unat p, n) \<in> allocated h" using s by simp_all
    from rt_free_returns [OF wf this(2,1)] this(2) show ?thesis using free(1) s by (auto simp: releases_def)
  next
    case (free_waits p n)
    then have "rt_free p (k, h) = Some (Waits_for_heap, k', h')" "(unat p, n) \<in> allocated h" using s by simp_all
    from rt_free_returns [OF wf this(2,1)] have "h' = h" by simp
    then show ?thesis using free_waits(1) s wf by simp
  next
    case (free_resumed p n r)
    then have "free_locked (p - unat (heap_ptr h) - 12) (k, h) = Some (r, k', h')" "(p, n) \<in> allocated h" using s by simp_all
    from free_locked_returns [OF wf this(2,1)] this(2) show ?thesis using free_resumed(1) s by (auto simp: releases_def)
  next
    case (realloc p n sz q)
    then have "rt_realloc p sz (k, h) = Some (Ptr q, k', h')" "(unat p, n) \<in> allocated h" using s by simp_all
    from rt_realloc_returns [OF wf this(2) realloc(3) this(1)] have "resizes h (unat p) (unat q) (unat (rt_align_up sz 4)) h'"
      using realloc by auto
    then show ?thesis using realloc(1) s by (auto simp: resizes_def)
  next
    case (store p n g a k v)
    then show ?thesis using store_step [of g p n a _ v] inv by auto
  next
    case environment then show ?thesis using inv by simp
  qed
qed

interpretation heap: allocator heap_step heap_ok "\<lambda>s. allocated (snd s)" state_byte
proof (unfold_locales, goal_cases)
  case (1 s l s') then show ?case using heap_step_spec by blast
next
  case (2 s p n q m) then show ?case using live_disjoint [of p n "snd s" q m] by auto
next
  case (3 s p r s')
  then show ?case using heap_step_spec [OF 3(2,1)] by (auto simp: allocates_def same_bytes_def)
next
  case (4 s p s')
  then show ?case using heap_step_spec [OF 4(2,1)] by (auto simp: releases_def same_bytes_def)
next
  case (5 s p q r s')
  then have "resizes (snd s) p q r (snd s')" using heap_step_spec [OF 5(2,1)] by simp
  then show ?case unfolding resizes_def same_bytes_def by blast
next
  case (6 s a v s') then show ?case using heap_step_spec [OF 6(2,1)] by simp
next
  case (7 s s') then show ?case using heap_step_spec [OF 7(2,1)] by (simp add: same_bytes_def)
qed

section \<open>Calls that find the semaphore free\<close>

definition heap_idle :: "heap_state \<Rightarrow> bool" where
  "heap_idle = (\<lambda>(k, h). sem_ok (heap_sem h) k \<and> sem_value (sems k (heap_sem h)) = 1 \<and> interrupt_nest k = 0)"

lemma heap_idle_lock:
  assumes "heap_idle (k, h)"
  shows "rt_sem_take (heap_sem h) (- 1) k = Some (Return RT_EOK, upd_sem (heap_sem h) 0 k)"
    "rt_sem_release (heap_sem h) (upd_sem (heap_sem h) 0 k) = Some (RT_EOK, k)" "RT_DEBUG_NOT_IN_INTERRUPT k = Some ()"
proof -
  let ?s = "heap_sem h"
  have s: "sem_ok ?s k" "sem_value (sems k ?s) = 1" "queues k (QSem ?s) = []" using assms by (auto simp: heap_idle_def sem_ok_def)
  show "rt_sem_take ?s (- 1) k = Some (Return RT_EOK, upd_sem ?s 0 k)"
    using rt_sem_take_now(1) [OF s(1), of "- 1"] s(2) by simp
  have "sem_ok ?s (upd_sem ?s 0 k)" using rt_sem_take_now(2) [OF s(1)] s(2) by simp
  moreover have "(sems k)(?s := (sems k ?s)\<lparr>sem_value := 1\<rparr>) = sems k" using s(2) by (intro ext) simp
  ultimately show "rt_sem_release ?s (upd_sem ?s 0 k) = Some (RT_EOK, k)"
    using rt_sem_release_free(1) [of ?s "upd_sem ?s 0 k"] s(3) by simp
  show "RT_DEBUG_NOT_IN_INTERRUPT k = Some ()"
    using assms by (simp add: heap_idle_def RT_DEBUG_NOT_IN_INTERRUPT_def rt_interrupt_get_nest_def)
qed

lemma rt_malloc_idle:
  assumes "heap_idle (k, h)" "sz \<noteq> 0" "\<not> rt_align_up sz 4 > mem_size_aligned h"
  shows "rt_malloc sz (k, h) = malloc_locked (if rt_align_up sz 4 < MIN_SIZE_ALIGNED then MIN_SIZE_ALIGNED else rt_align_up sz 4)
    (upd_sem (heap_sem h) 0 k, h)"
  using assms heap_idle_lock [OF assms(1)] by (simp add: rt_malloc_def Let_def)

text \<open>A heap of 2000 bytes at the start of the RAM with two blocks in use, and the semaphore of the sample kernel.\<close>

definition sample_blocks :: "block list" where
  "sample_blocks = [(400, True), (100, True), (1000, False), (440, True)]"

definition sample_heap :: heap where
  "sample_heap = make_heap 0x20000000 3 sample_blocks"

lemma sample_heap_inv: "heap_inv sample_heap sample_blocks"
  unfolding sample_heap_def by (rule make_heap_inv) (simp_all add: sample_blocks_def no_adjacent_Cons)

lemma sample_heap_facts:
  "heap_wf sample_heap" "blocks sample_heap = sample_blocks"
  "allocated sample_heap = {(0x20000000 + 12, 400), (0x20000000 + 424, 100), (0x20000000 + 1548, 440)}"
  "heap_idle (sample_sem 1, sample_heap)" "unat (mem_size_aligned sample_heap) = 1976" "lfree sample_heap = 524"
proof -
  show "heap_wf sample_heap" by (rule heap_inv_wf [OF sample_heap_inv])
  show b: "blocks sample_heap = sample_blocks" by (rule heap_inv_blocks [OF sample_heap_inv])
  show "allocated sample_heap = {(0x20000000 + 12, 400), (0x20000000 + 424, 100), (0x20000000 + 1548, 440)}"
    unfolding allocated_def b by (simp add: sample_blocks_def) (simp add: sample_heap_def make_heap_def)
  have "interrupt_nest (sample_sem 1) = 0" using sample_sem_caller by (simp add: caller_def)
  then show "heap_idle (sample_sem 1, sample_heap)"
    using sample_sem_ok by (simp add: heap_idle_def sample_heap_def make_heap_def)
  show "unat (mem_size_aligned sample_heap) = 1976" "lfree sample_heap = 524"
    by (simp_all add: sample_heap_def make_heap_def sample_blocks_def)
qed

section \<open>Properties\<close>





text \<open>
  \<open>rt_free\<close> of a block in use returns, takes exactly that block out of the set of blocks in use, gives its bytes and its header back
  to the statistics, keeps the contents of every other block, and leaves no two free blocks side by side.
\<close>

theorem free_outcome:
  assumes idle: "heap_idle (k, h)" and wf: "heap_wf h" and a: "(unat a, n) \<in> allocated h" and n: "0 < n"
  shows "\<exists>h'. rt_free a (k, h) = Some (Ptr 0, k, h') \<and> heap_wf h' \<and> allocated h' = allocated h - {(unat a, n)} \<and>
    heap_keeps (allocated h') h h' \<and> unat (used_mem h') + 12 + n = unat (used_mem h) \<and> no_adjacent (blocks h')"
proof -
  have l: "4 dvd unat a" "unat (heap_ptr h) + 12 \<le> unat a" "unat a + n \<le> unat (heap_ptr h) + heap_end h" using live_layout [OF wf a] by auto
  obtain h' where h': "free_section (unat a - unat (heap_ptr h) - 12) h = Some h'" "heap_wf h'" "same_frame h h'"
    "allocated h' = allocated h - {(unat a, n)}" "heap_keeps (allocated h') h h'" "unat (used_mem h') + 12 + n = unat (used_mem h)"
    by (rule free_section_live [OF wf a]) blast
  have "a AND 3 = take_bit 2 a" by (simp add: take_bit_eq_mask mask_eq_exp_minus_1 numeral_eq_Suc)
  moreover have "unat (take_bit 2 a) = unat a mod 4" unfolding unsigned_take_bit_eq by (simp add: take_bit_eq_mod)
  ultimately have "a AND 3 = 0" using l(1) by (auto simp: unat_eq_zero)
  moreover have "heap_sem h' = heap_sem h" using h'(3) by (simp add: same_frame_def)
  moreover have "a \<noteq> 0" by (rule live_nonzero [OF wf a])
  moreover have "heap_ptr h \<le> a" "unat a < unat (heap_ptr h) + heap_end h" using l n by (auto simp: word_le_nat_alt)
  ultimately have "rt_free a (k, h) = Some (Ptr 0, k, h')"
    using h'(1) heap_idle_lock [OF idle] l by (simp add: rt_free_def free_locked_def)
  moreover have "no_adjacent (blocks h')" using h'(2) by (simp add: heap_wf_def heap_inv_def)
  ultimately show ?thesis using h' by blast
qed

theorem free_outcome_witness:
  "\<exists>h'. rt_free 0x200001A8 (sample_sem 1, sample_heap) = Some (Ptr 0, sample_sem 1, h') \<and> heap_wf h' \<and>
     allocated h' = {(0x20000000 + 12, 400), (0x20000000 + 1548, 440)}"
proof -
  have "(unat (0x200001A8 :: u32), 100) \<in> allocated sample_heap" using sample_heap_facts(3) by simp
  from free_outcome [OF sample_heap_facts(4,1) this] show ?thesis using sample_heap_facts(3) by auto
qed

text \<open>
  Memory that a shrinking \<open>rt_realloc\<close> gives back can be out of reach. When the block behind the shrunk one is in use and
  \<open>lfree\<close> lies further up, the rest becomes a free block below \<open>lfree\<close>, but \<open>lfree\<close> is not moved down: \<open>rt_malloc\<close>
  searches from \<open>lfree\<close> and returns the null pointer for a request that the new free block could hold.
\<close>

theorem realloc_hides_memory:
  assumes idle: "heap_idle (k, h)" and wf: "heap_wf h" and b: "blocks h = xs @ (n, True) # (m, True) # ys"
    and a: "unat a = unat (heap_ptr h) + span xs + 12" and low: "span xs < lfree h"
    and sz: "0 < unat sz" "4 dvd unat sz" "unat sz + 24 < n" "unat sz \<le> unat (mem_size_aligned h)"
    and r: "12 \<le> unat r" "4 dvd unat r" "unat r \<le> n - 12 - unat sz"
    and none: "\<And>zs x ws. blocks h = zs @ x # ws \<Longrightarrow> lfree h \<le> span zs \<Longrightarrow> \<not> fits r h (span zs) x"
  shows "\<exists>h'. rt_realloc a sz (k, h) = Some (Ptr a, k, h') \<and> (n - 12 - unat sz, False) \<in> set (blocks h') \<and>
    rt_malloc r (k, h') = Some (Ptr 0, k, h')"
proof -
  have inv: "heap_inv h (xs @ (n, True) # (m, True) # ys)" using wf b by (simp add: heap_wf_def)
  have al: "rt_align_up x 4 = x" if x: "unat x \<le> unat (mem_size_aligned h)" "4 dvd unat x" for x :: u32
  proof -
    have "unat x \<le> 2 ^ 32 - 4" using x heap_bounds_wf [OF wf] by (simp add: heap_bounds_def)
    from align_up_ge [OF this] align_up_dvd [of x] x(2) have "unat (rt_align_up x 4) = unat x" by presburger
    then show ?thesis by (simp add: word_unat_eq_iff)
  qed
  have p: "(unat a, n) \<in> allocated h" unfolding allocated_def b using a by (force simp: add.assoc)
  note off = realloc_offset [OF wf p]
  have po: "unat a - unat (heap_ptr h) - 12 = span xs" using a by simp
  obtain h' where h': "realloc_section (of_nat (span xs)) sz h = Some (of_nat n, True, h')" "lfree h' = lfree h" "same_frame h h'"
    "heap_inv h' (xs @ (unat sz, True) # (n - 12 - unat sz, False) # (m, True) # ys)"
    by (rule realloc_section_leaves_lfree [OF inv refl sz(4,2,3)])
  have fr: "heap_sem h' = heap_sem h" "mem_size_aligned h' = mem_size_aligned h" using h'(3) by (simp_all add: same_frame_def)
  have "a \<noteq> 0" by (rule live_nonzero [OF wf p])
  moreover have "realloc_section (a - SIZEOF_STRUCT_MEM - heap_ptr h) sz h = Some (of_nat n, True, h')"
    unfolding off(1) po by (rule h'(1))
  ultimately have c1: "rt_realloc a sz (k, h) = Some (Ptr a, k, h')"
    using off(2-4) sz al [OF sz(4,2)] fr heap_idle_lock [OF idle]
    by (auto simp: rt_realloc_def realloc_locked_def word_less_nat_alt simp del: diff_diff_eq)
  have idle': "heap_idle (k, h')" using idle fr by (simp add: heap_idle_def)
  have wf': "heap_wf h'" by (rule heap_inv_wf [OF h'(4)])
  have b': "blocks h' = (xs @ [(unat sz, True), (n - 12 - unat sz, False)]) @ (m, True) # ys" using heap_inv_blocks [OF h'(4)] by simp
  have "n \<le> unat (mem_size_aligned h)" using inv by (auto simp: heap_inv_def heap_bounds_def chain_def)
  then have r2: "unat r \<le> unat (mem_size_aligned h)" using r(3) by simp
  have up: "span xs + 12 + n \<le> lfree h"
  proof -
    have "is_free 0 (xs @ (n, True) # (m, True) # ys) (lfree h) \<or> lfree h = span (xs @ (n, True) # (m, True) # ys)"
      using inv by (auto simp: heap_inv_def chain_def)
    then show ?thesis using low is_free_bounds [of 0 xs "lfree h"] is_free_bounds [of "24 + (span xs + n) + m" ys "lfree h"] by auto
  qed
  have no: "\<not> fits r h' (span zs) x" if z: "blocks h' = zs @ x # ws" "lfree h' \<le> span zs" for zs x ws
  proof -
    have "(xs @ [(unat sz, True), (n - 12 - unat sz, False)]) @ (m, True) # ys = zs @ x # ws"
      "span (xs @ [(unat sz, True), (n - 12 - unat sz, False)]) \<le> span zs"
      using z b' h'(2) up sz by auto
    then obtain us where us: "zs = (xs @ [(unat sz, True), (n - 12 - unat sz, False)]) @ us" "(m, True) # ys = us @ x # ws"
      by (rule split_behind)
    have "blocks h = (xs @ [(n, True)] @ us) @ x # ws" using b us by simp
    moreover have "span (xs @ [(n, True)] @ us) = span zs" using us sz by simp
    ultimately show ?thesis using none [of "xs @ [(n, True)] @ us" x ws] z(2) h'(2) fr by (simp add: fits_def)
  qed
  have g: "good_size r h'" using r r2 fr by (simp add: good_size_def)
  have "r \<noteq> 0" using r(1) by auto
  then have "rt_malloc r (k, h') = malloc_locked r (upd_sem (heap_sem h') 0 k, h')"
    using rt_malloc_idle [OF idle', of r] al [OF r2 r(2)] r r2 fr by (auto simp: word_less_nat_alt)
  moreover have "malloc_section r h' = Some (None, h')"
    using malloc_section_spec [of h' "blocks h'" r] wf' r2 r(2) fr no unfolding heap_wf_def by metis
  ultimately have "rt_malloc r (k, h') = Some (Ptr 0, k, h')" using heap_idle_lock(2) [OF idle'] by (simp add: malloc_locked_def)
  then show ?thesis using c1 b' by auto
qed

theorem realloc_hides_memory_witness:
  "\<exists>h'. rt_realloc 0x2000000C 100 (sample_sem 1, make_heap 0x20000000 3 [(400, True), (100, True), (40, False)]) =
      Some (Ptr 0x2000000C, sample_sem 1, h') \<and> (288, False) \<in> set (blocks h') \<and>
    rt_malloc 200 (sample_sem 1, h') = Some (Ptr 0, sample_sem 1, h')"
proof -
  let ?bs = "[(400, True), (100, True), (40, False)]" and ?h = "make_heap 0x20000000 3 [(400, True), (100, True), (40, False)]"
  have inv: "heap_inv ?h ?bs" by (rule make_heap_inv) (simp_all add: no_adjacent_Cons)
  have wf: "heap_wf ?h" by (rule heap_inv_wf [OF inv])
  have b: "blocks ?h = [] @ (400, True) # (100, True) # [(40, False)]" using heap_inv_blocks [OF inv] by simp
  have f: "unat (mem_size_aligned ?h) = 564" "lfree ?h = 524" "heap_ptr ?h = 0x20000000" "heap_sem ?h = 3" by (simp_all add: make_heap_def)
  have "interrupt_nest (sample_sem 1) = 0" using sample_sem_caller by (simp add: caller_def)
  then have idle: "heap_idle (sample_sem 1, ?h)" using sample_sem_ok f by (simp add: heap_idle_def)
  have none: "\<not> fits 200 ?h (span zs) x" if "blocks ?h = zs @ x # ws" "lfree ?h \<le> span zs" for zs x ws
  proof -
    have "[(400, True), (100, True)] @ [(40, False)] = zs @ x # ws" "span [(400, True), (100, True)] \<le> span zs"
      using that b f by simp_all
    then obtain us where "[(40, False)] = us @ x # ws" by (rule split_behind)
    then have "x = (40, False)" by (cases us) auto
    then show ?thesis by (simp add: fits_def)
  qed
  show ?thesis
    using realloc_hides_memory [OF idle wf b, where a = "0x2000000C" and sz = 100 and r = 200] none f by simp
qed

end
