(* ===== verification/Device.thy ===== *)
theory Device
  imports Object
begin

text \<open>
  The device interface of \<^verbatim>\<open>rt-thread/src/device.c\<close>. The members of \<^verbatim>\<open>struct rt_device\<close> that change are a record,
  its object header is the \<open>ODevice\<close> object of the kernel, and its function pointers are the argument \<open>drv\<close> of the
  operations: registration sets them once. A callback works on the whole system state, whose part \<open>hw\<close> is the
  state behind the drivers; \<open>None\<close> is a callback that does not return. A buffer is a value of any type, passed on.
\<close>

section \<open>Structures\<close>

record rt_device =
  dflag :: u16
  open_flag :: u16
  ref_count :: u8
  rx_indicate :: "nat option"
  tx_complete :: "nat option"
  dev_data :: "nat option"    \<comment> \<open>the member \<open>user_data\<close>\<close>

record 's io =
  kern :: kernel
  rt_errno :: rt_err_t
  devs :: "oid \<Rightarrow> rt_device"
  hw :: 's

abbreviation upd_dev :: "oid \<Rightarrow> (rt_device \<Rightarrow> rt_device) \<Rightarrow> 's io \<Rightarrow> 's io" where
  "upd_dev d f io \<equiv> io\<lparr>devs := (devs io)(d := f (devs io d))\<rparr>"

record ('b, 's) driver =
  d_init :: "(oid \<Rightarrow> 's io \<Rightarrow> (rt_err_t \<times> 's io) option) option"
  d_open :: "(oid \<Rightarrow> u16 \<Rightarrow> 's io \<Rightarrow> (rt_err_t \<times> 's io) option) option"
  d_close :: "(oid \<Rightarrow> 's io \<Rightarrow> (rt_err_t \<times> 's io) option) option"
  d_read :: "(oid \<Rightarrow> int \<Rightarrow> 'b \<Rightarrow> u32 \<Rightarrow> 's io \<Rightarrow> (u32 \<times> 's io) option) option"
  d_write :: "(oid \<Rightarrow> int \<Rightarrow> 'b \<Rightarrow> u32 \<Rightarrow> 's io \<Rightarrow> (u32 \<times> 's io) option) option"
  d_control :: "(oid \<Rightarrow> int \<Rightarrow> 'b \<Rightarrow> 's io \<Rightarrow> (rt_err_t \<times> 's io) option) option"

definition RT_DEVICE_FLAG_RDWR :: u16 where "RT_DEVICE_FLAG_RDWR = 0x003"
definition RT_DEVICE_FLAG_STANDALONE :: u16 where "RT_DEVICE_FLAG_STANDALONE = 0x008"
definition RT_DEVICE_FLAG_ACTIVATED :: u16 where "RT_DEVICE_FLAG_ACTIVATED = 0x010"
definition RT_DEVICE_OFLAG_CLOSE :: u16 where "RT_DEVICE_OFLAG_CLOSE = 0x000"
definition RT_DEVICE_OFLAG_RDWR :: u16 where "RT_DEVICE_OFLAG_RDWR = 0x003"
definition RT_DEVICE_OFLAG_OPEN :: u16 where "RT_DEVICE_OFLAG_OPEN = 0x008"
definition RT_DEVICE_OFLAG_MASK :: u16 where "RT_DEVICE_OFLAG_MASK = 0xf0f"

lemmas device_flag_defs = RT_DEVICE_FLAG_RDWR_def RT_DEVICE_FLAG_STANDALONE_def RT_DEVICE_FLAG_ACTIVATED_def
  RT_DEVICE_OFLAG_CLOSE_def RT_DEVICE_OFLAG_RDWR_def RT_DEVICE_OFLAG_OPEN_def RT_DEVICE_OFLAG_MASK_def

section \<open>Error numbers (kservice.c)\<close>

definition rt_set_errno :: "rt_err_t \<Rightarrow> 's io \<Rightarrow> 's io" where
  "rt_set_errno e io =
     (if rt_interrupt_get_nest (kern io) \<noteq> 0 then io\<lparr>rt_errno := e\<rparr>
      else case current (kern io) of
          None \<Rightarrow> io\<lparr>rt_errno := e\<rparr>
        | Some t \<Rightarrow> io\<lparr>kern := upd_thr t (terror_update (\<lambda>_. e)) (kern io)\<rparr>)"

definition rt_get_errno :: "'s io \<Rightarrow> rt_err_t" where
  "rt_get_errno io =
     (if rt_interrupt_get_nest (kern io) \<noteq> 0 then rt_errno io
      else case current (kern io) of None \<Rightarrow> rt_errno io | Some t \<Rightarrow> terror (thr (kern io) t))"

section \<open>Registration\<close>

text \<open>The cast of an object found in the list of devices.\<close>

definition dev_of :: "objref option \<Rightarrow> oid option option" where
  "dev_of r = (case r of None \<Rightarrow> Some None | Some (ODevice d) \<Rightarrow> Some (Some d) | _ \<Rightarrow> None)"

definition rt_device_find :: "string \<Rightarrow> 's io \<Rightarrow> (oid option \<times> 's io) option" where
  "rt_device_find name io = do {
     let k = kern io;
     let k = (if current k \<noteq> None then rt_enter_critical k else k);
     c \<leftarrow> rt_object_get_information RT_Object_Class_Device;
     d \<leftarrow> dev_of (find (\<lambda>r. rt_strncmp (oname (objs k r)) name RT_NAME_MAX = 0) (object_list k c));
     k \<leftarrow> (if current k \<noteq> None then rt_exit_critical k else Some k);
     Some (d, io\<lparr>kern := k\<rparr>) }"

definition rt_device_register :: "oid option \<Rightarrow> string \<Rightarrow> u16 \<Rightarrow> 's io \<Rightarrow> (rt_err_t \<times> 's io) option" where
  "rt_device_register dev name flags io =
     (case dev of
        None \<Rightarrow> Some (- RT_ERROR, io)
      | Some d \<Rightarrow> do {
          (r, io) \<leftarrow> rt_device_find name io;
          if r \<noteq> None then Some (- RT_ERROR, io)
          else do {
            k \<leftarrow> rt_object_init (ODevice d) RT_Object_Class_Device name (kern io);
            Some (RT_EOK, upd_dev d (\<lambda>v. v\<lparr>dflag := flags, ref_count := 0, open_flag := 0\<rparr>) (io\<lparr>kern := k\<rparr>)) } })"

text \<open>\<open>RT_ASSERT(dev != RT_NULL)\<close> and the assertion on the type of its object.\<close>

definition device_assert :: "oid option \<Rightarrow> 's io \<Rightarrow> oid option" where
  "device_assert dev io = do {
     d \<leftarrow> dev;
     rt_assert (rt_object_get_type (ODevice d) (kern io) = RT_Object_Class_Device);
     Some d }"

definition rt_device_unregister :: "oid option \<Rightarrow> 's io \<Rightarrow> (rt_err_t \<times> 's io) option" where
  "rt_device_unregister dev io = do {
     d \<leftarrow> device_assert dev io;
     rt_assert (rt_object_is_systemobject (ODevice d) (kern io));
     Some (RT_EOK, io\<lparr>kern := rt_object_detach (ODevice d) (kern io)\<rparr>) }"

text \<open>\<open>mem\<close> is the result of \<open>rt_malloc\<close>; \<open>rt_memset\<close> clears the structure with its object header.\<close>

definition zero_device :: rt_device where
  "zero_device = \<lparr>dflag = 0, open_flag = 0, ref_count = 0, rx_indicate = None, tx_complete = None, dev_data = None\<rparr>"

definition rt_device_create :: "oid option \<Rightarrow> 's io \<Rightarrow> oid option \<times> 's io" where
  "rt_device_create mem io =
     (case mem of
        None \<Rightarrow> (None, io)
      | Some d \<Rightarrow> (Some d, upd_dev d (\<lambda>_. zero_device) (io\<lparr>kern := upd_obj (ODevice d) (\<lambda>_. zero_object) (kern io)\<rparr>)))"

definition rt_device_destroy :: "oid option \<Rightarrow> 's io \<Rightarrow> 's io option" where
  "rt_device_destroy dev io = do {
     d \<leftarrow> device_assert dev io;
     rt_assert (\<not> rt_object_is_systemobject (ODevice d) (kern io));
     Some (io\<lparr>kern := rt_object_detach (ODevice d) (kern io)\<rparr>) }"

section \<open>Use\<close>

definition rt_device_init :: "(oid \<Rightarrow> ('b, 's) driver) \<Rightarrow> oid option \<Rightarrow> 's io \<Rightarrow> (rt_err_t \<times> 's io) option" where
  "rt_device_init drv dev io = do {
     d \<leftarrow> dev;
     case d_init (drv d) of
       None \<Rightarrow> Some (RT_EOK, io)
     | Some init \<Rightarrow>
         if dflag (devs io d) AND RT_DEVICE_FLAG_ACTIVATED = 0 then do {
           (result, io) \<leftarrow> init d io;
           Some (result, if result \<noteq> RT_EOK then io
                         else upd_dev d (\<lambda>v. v\<lparr>dflag := dflag v OR RT_DEVICE_FLAG_ACTIVATED\<rparr>) io) }
         else Some (RT_EOK, io) }"

text \<open>The initialisation at the start of \<open>rt_device_open\<close>; an error ends the call.\<close>

definition open_activate :: "(oid \<Rightarrow> ('b, 's) driver) \<Rightarrow> oid \<Rightarrow> 's io \<Rightarrow> (rt_err_t \<times> 's io) option" where
  "open_activate drv d io =
     (if dflag (devs io d) AND RT_DEVICE_FLAG_ACTIVATED = 0 then do {
        (result, io) \<leftarrow> (case d_init (drv d) of None \<Rightarrow> Some (RT_EOK, io) | Some init \<Rightarrow> init d io);
        Some (result, if result \<noteq> RT_EOK then io
                      else upd_dev d (\<lambda>v. v\<lparr>dflag := dflag v OR RT_DEVICE_FLAG_ACTIVATED\<rparr>) io) }
      else Some (RT_EOK, io))"

definition rt_device_open :: "(oid \<Rightarrow> ('b, 's) driver) \<Rightarrow> oid option \<Rightarrow> u16 \<Rightarrow> 's io \<Rightarrow> (rt_err_t \<times> 's io) option" where
  "rt_device_open drv dev oflg io = do {
     d \<leftarrow> device_assert dev io;
     (result, io) \<leftarrow> open_activate drv d io;
     if result \<noteq> RT_EOK then Some (result, io)
     else if dflag (devs io d) AND RT_DEVICE_FLAG_STANDALONE \<noteq> 0 \<and> open_flag (devs io d) AND RT_DEVICE_OFLAG_OPEN \<noteq> 0
     then Some (- RT_EBUSY, io)
     else do {
       (result, io) \<leftarrow> (case d_open (drv d) of
            Some opn \<Rightarrow> opn d oflg io
          | None \<Rightarrow> Some (RT_EOK, upd_dev d (\<lambda>v. v\<lparr>open_flag := oflg AND RT_DEVICE_OFLAG_MASK\<rparr>) io));
       if result = RT_EOK \<or> result = - RT_ENOSYS then do {
         let io = upd_dev d (\<lambda>v. v\<lparr>open_flag := open_flag v OR RT_DEVICE_OFLAG_OPEN, ref_count := ref_count v + 1\<rparr>) io;
         rt_assert (ref_count (devs io d) \<noteq> 0);
         Some (result, io) }
       else Some (result, io) } }"

definition rt_device_close :: "(oid \<Rightarrow> ('b, 's) driver) \<Rightarrow> oid option \<Rightarrow> 's io \<Rightarrow> (rt_err_t \<times> 's io) option" where
  "rt_device_close drv dev io = do {
     d \<leftarrow> device_assert dev io;
     if ref_count (devs io d) = 0 then Some (- RT_ERROR, io)
     else do {
       let io = upd_dev d (\<lambda>v. v\<lparr>ref_count := ref_count v - 1\<rparr>) io;
       if ref_count (devs io d) \<noteq> 0 then Some (RT_EOK, io)
       else do {
         (result, io) \<leftarrow> (case d_close (drv d) of None \<Rightarrow> Some (RT_EOK, io) | Some cls \<Rightarrow> cls d io);
         Some (result, if result = RT_EOK \<or> result = - RT_ENOSYS
                       then upd_dev d (\<lambda>v. v\<lparr>open_flag := RT_DEVICE_OFLAG_CLOSE\<rparr>) io else io) } } }"

definition rt_device_read ::
    "(oid \<Rightarrow> ('b, 's) driver) \<Rightarrow> oid option \<Rightarrow> int \<Rightarrow> 'b \<Rightarrow> u32 \<Rightarrow> 's io \<Rightarrow> (u32 \<times> 's io) option" where
  "rt_device_read drv dev pos buffer sz io = do {
     d \<leftarrow> device_assert dev io;
     if ref_count (devs io d) = 0 then Some (0, rt_set_errno (- RT_ERROR) io)
     else case d_read (drv d) of
         Some rd \<Rightarrow> rd d pos buffer sz io
       | None \<Rightarrow> Some (0, rt_set_errno (- RT_ENOSYS) io) }"

definition rt_device_write ::
    "(oid \<Rightarrow> ('b, 's) driver) \<Rightarrow> oid option \<Rightarrow> int \<Rightarrow> 'b \<Rightarrow> u32 \<Rightarrow> 's io \<Rightarrow> (u32 \<times> 's io) option" where
  "rt_device_write drv dev pos buffer sz io = do {
     d \<leftarrow> device_assert dev io;
     if ref_count (devs io d) = 0 then Some (0, rt_set_errno (- RT_ERROR) io)
     else case d_write (drv d) of
         Some wr \<Rightarrow> wr d pos buffer sz io
       | None \<Rightarrow> Some (0, rt_set_errno (- RT_ENOSYS) io) }"

definition rt_device_control ::
    "(oid \<Rightarrow> ('b, 's) driver) \<Rightarrow> oid option \<Rightarrow> int \<Rightarrow> 'b \<Rightarrow> 's io \<Rightarrow> (rt_err_t \<times> 's io) option" where
  "rt_device_control drv dev cmd arg io = do {
     d \<leftarrow> device_assert dev io;
     case d_control (drv d) of
       Some ctl \<Rightarrow> ctl d cmd arg io
     | None \<Rightarrow> Some (- RT_ENOSYS, io) }"

definition rt_device_set_rx_indicate :: "oid option \<Rightarrow> nat option \<Rightarrow> 's io \<Rightarrow> (rt_err_t \<times> 's io) option" where
  "rt_device_set_rx_indicate dev rx_ind io = do {
     d \<leftarrow> device_assert dev io;
     Some (RT_EOK, upd_dev d (\<lambda>v. v\<lparr>rx_indicate := rx_ind\<rparr>) io) }"

definition rt_device_set_tx_complete :: "oid option \<Rightarrow> nat option \<Rightarrow> 's io \<Rightarrow> (rt_err_t \<times> 's io) option" where
  "rt_device_set_tx_complete dev tx_done io = do {
     d \<leftarrow> device_assert dev io;
     Some (RT_EOK, upd_dev d (\<lambda>v. v\<lparr>tx_complete := tx_done\<rparr>) io) }"

section \<open>What a driver promises\<close>

text \<open>
  A callback leaves the reference counts, the open bits and the stand-alone bits of all devices and their object
  headers alone; only \<open>open\<close> may overwrite the open flags of its own device, and only when it succeeds. \<open>init\<close> does
  not return \<^verbatim>\<open>-RT_ENOSYS\<close>: \<open>rt_device_open\<close> would pass it on without opening the device, and its caller would take it
  for the success with which an \<open>open\<close> callback that is not implemented ends.
\<close>

definition same_use :: "rt_device \<Rightarrow> rt_device \<Rightarrow> bool" where
  "same_use v v' \<longleftrightarrow> ref_count v' = ref_count v \<and> dflag v' AND RT_DEVICE_FLAG_STANDALONE = dflag v AND RT_DEVICE_FLAG_STANDALONE
     \<and> open_flag v' AND RT_DEVICE_OFLAG_OPEN = open_flag v AND RT_DEVICE_OFLAG_OPEN"

definition keeps :: "'s io \<Rightarrow> 's io \<Rightarrow> bool" where
  "keeps io io' \<longleftrightarrow> (\<forall>d. same_use (devs io d) (devs io' d) \<and> objs (kern io') (ODevice d) = objs (kern io) (ODevice d))"

definition keeps_open :: "oid \<Rightarrow> rt_err_t \<Rightarrow> 's io \<Rightarrow> 's io \<Rightarrow> bool" where
  "keeps_open d r io io' \<longleftrightarrow>
     (if r = RT_EOK \<or> r = - RT_ENOSYS
      then \<exists>f. keeps io (upd_dev d (open_flag_update (\<lambda>_. f)) io')
      else keeps io io')"

lemma keeps_refl [simp, intro]: "keeps io io"
  by (simp add: keeps_def same_use_def)

lemma keeps_trans: "keeps a b \<Longrightarrow> keeps b c \<Longrightarrow> keeps a c"
  by (simp add: keeps_def same_use_def)

lemma keeps_errno [simp]: "keeps io (rt_set_errno e io)"
  by (simp add: rt_set_errno_def keeps_def same_use_def split: option.split)

lemma keepsD: "keeps io io' \<Longrightarrow> same_use (devs io d) (devs io' d)"
  by (simp add: keeps_def)

lemma keeps_activate: "keeps io (upd_dev d (\<lambda>v. v\<lparr>dflag := dflag v OR RT_DEVICE_FLAG_ACTIVATED\<rparr>) io)"
proof -
  have "(x OR RT_DEVICE_FLAG_ACTIVATED) AND RT_DEVICE_FLAG_STANDALONE = x AND RT_DEVICE_FLAG_STANDALONE" for x
    by (simp add: device_flag_defs bit.conj_disj_distrib2)
  then show ?thesis by (simp add: keeps_def same_use_def)
qed

locale device_driver =
  fixes drv :: "oid \<Rightarrow> ('b, 's) driver"
  assumes init_keeps: "d_init (drv d) = Some ini \<Longrightarrow> ini d io = Some (r, io') \<Longrightarrow> keeps io io'"
    and init_result: "d_init (drv d) = Some ini \<Longrightarrow> ini d io = Some (r, io') \<Longrightarrow> r \<noteq> - RT_ENOSYS"
    and open_keeps: "d_open (drv d) = Some opn \<Longrightarrow> opn d oflg io = Some (r, io') \<Longrightarrow> keeps_open d r io io'"
    and close_keeps: "d_close (drv d) = Some cls \<Longrightarrow> cls d io = Some (r, io') \<Longrightarrow> keeps io io'"
    and read_keeps: "d_read (drv d) = Some rd \<Longrightarrow> rd d pos b sz io = Some (n, io') \<Longrightarrow> keeps io io'"
    and write_keeps: "d_write (drv d) = Some wr \<Longrightarrow> wr d pos b sz io = Some (n, io') \<Longrightarrow> keeps io io'"
    and control_keeps: "d_control (drv d) = Some ctl \<Longrightarrow> ctl d cmd b io = Some (r, io') \<Longrightarrow> keeps io io'"

section \<open>Runs\<close>

datatype dev_label = Opened oid | Closed oid | Registered oid | Used

inductive dev_step :: "(oid \<Rightarrow> ('b, 's) driver) \<Rightarrow> 's io \<Rightarrow> dev_label \<Rightarrow> 's io \<Rightarrow> bool" for drv where
  open_ok: "rt_device_open drv dev oflg io = Some (r, io') \<Longrightarrow> r = RT_EOK \<or> r = - RT_ENOSYS \<Longrightarrow> dev = Some d \<Longrightarrow>
      dev_step drv io (Opened d) io'"
| open_failed: "rt_device_open drv dev oflg io = Some (r, io') \<Longrightarrow> r \<noteq> RT_EOK \<Longrightarrow> r \<noteq> - RT_ENOSYS \<Longrightarrow> dev_step drv io Used io'"
| close_ok: "rt_device_close drv dev io = Some (r, io') \<Longrightarrow> dev = Some d \<Longrightarrow> ref_count (devs io d) \<noteq> 0 \<Longrightarrow>
      dev_step drv io (Closed d) io'"
| close_failed: "rt_device_close drv dev io = Some (r, io') \<Longrightarrow> dev = Some d \<Longrightarrow> ref_count (devs io d) = 0 \<Longrightarrow>
      dev_step drv io Used io'"
| init_step: "rt_device_init drv dev io = Some (r, io') \<Longrightarrow> dev_step drv io Used io'"
| read_step: "rt_device_read drv dev pos b sz io = Some (n, io') \<Longrightarrow> dev_step drv io Used io'"
| write_step: "rt_device_write drv dev pos b sz io = Some (n, io') \<Longrightarrow> dev_step drv io Used io'"
| control_step: "rt_device_control drv dev cmd b io = Some (r, io') \<Longrightarrow> dev_step drv io Used io'"
| rx_step: "rt_device_set_rx_indicate dev f io = Some (r, io') \<Longrightarrow> dev_step drv io Used io'"
| tx_step: "rt_device_set_tx_complete dev f io = Some (r, io') \<Longrightarrow> dev_step drv io Used io'"
| register_step: "rt_device_register (Some d) name flags io = Some (RT_EOK, io') \<Longrightarrow> dev_step drv io (Registered d) io'"
| other_step: "devs io' = devs io \<Longrightarrow> dev_step drv io Used io'"

inductive dev_run :: "(oid \<Rightarrow> ('b, 's) driver) \<Rightarrow> 's io \<Rightarrow> dev_label list \<Rightarrow> 's io \<Rightarrow> bool" for drv where
  start: "dev_run drv io [] io"
| more: "dev_run drv io ls io' \<Longrightarrow> dev_step drv io' l io'' \<Longrightarrow> dev_run drv io (ls @ [l]) io''"

text \<open>How often a device was opened and not closed since it was registered, and the invariant of its counters.\<close>

definition users :: "oid \<Rightarrow> int \<Rightarrow> dev_label \<Rightarrow> int" where
  "users d n l = (if l = Opened d then n + 1 else if l = Closed d then n - 1 else if l = Registered d then 0 else n)"

definition dev_ok :: "rt_device \<Rightarrow> bool" where
  "dev_ok v \<longleftrightarrow> (ref_count v \<noteq> 0 \<longrightarrow> open_flag v AND RT_DEVICE_OFLAG_OPEN \<noteq> 0)
     \<and> (dflag v AND RT_DEVICE_FLAG_STANDALONE \<noteq> 0 \<longrightarrow> unat (ref_count v) \<le> 1)"

lemma same_use_ok: "same_use v v' \<Longrightarrow> dev_ok v \<Longrightarrow> dev_ok v'"
  by (simp add: same_use_def dev_ok_def)

lemma device_assert_Some: "device_assert dev io = Some d \<longleftrightarrow> dev = Some d \<and> rt_object_get_type (ODevice d) (kern io) = RT_Object_Class_Device"
  by (cases dev) (auto simp: device_assert_def)

context device_driver
begin

lemma activate_keeps: "open_activate drv d io = Some (r, io') \<Longrightarrow> keeps io io'"
  by (auto simp: open_activate_def split: if_splits option.splits bind_splits
      intro: keeps_activate init_keeps keeps_trans [OF init_keeps keeps_activate])

lemma open_spec:
  assumes "rt_device_open drv (Some d) oflg io = Some (r, io')" "r = RT_EOK \<or> r = - RT_ENOSYS"
  shows "\<forall>e. e \<noteq> d \<longrightarrow> same_use (devs io e) (devs io' e)"
    "ref_count (devs io' d) = ref_count (devs io d) + 1" "ref_count (devs io' d) \<noteq> 0"
    "open_flag (devs io' d) AND RT_DEVICE_OFLAG_OPEN \<noteq> 0"
    "dflag (devs io' d) AND RT_DEVICE_FLAG_STANDALONE = dflag (devs io d) AND RT_DEVICE_FLAG_STANDALONE"
    "dflag (devs io d) AND RT_DEVICE_FLAG_STANDALONE = 0 \<or> open_flag (devs io d) AND RT_DEVICE_OFLAG_OPEN = 0"
proof -
  obtain r1 io1 where 1: "open_activate drv d io = Some (r1, io1)"
    using assms by (auto simp: rt_device_open_def device_assert_def split: bind_splits)
  note k1 = activate_keeps [OF 1]
  have "r1 \<noteq> - RT_ENOSYS"
    using 1 by (auto simp: open_activate_def rt_err_defs split: if_splits option.splits bind_splits
        dest: init_result [unfolded rt_err_defs])
  with assms 1 have r1: "r1 = RT_EOK" by (auto simp: rt_device_open_def device_assert_def split: if_splits bind_splits)
  have nb: "- RT_EBUSY \<noteq> RT_EOK" "RT_EBUSY \<noteq> RT_ENOSYS" by (simp_all add: rt_err_defs)
  with assms 1 r1 have busy: "dflag (devs io1 d) AND RT_DEVICE_FLAG_STANDALONE = 0 \<or> open_flag (devs io1 d) AND RT_DEVICE_OFLAG_OPEN = 0"
    by (auto simp: rt_device_open_def device_assert_def split: if_splits)
  obtain io2 where 2: "(case d_open (drv d) of Some opn \<Rightarrow> opn d oflg io1
      | None \<Rightarrow> Some (RT_EOK, upd_dev d (\<lambda>v. v\<lparr>open_flag := oflg AND RT_DEVICE_OFLAG_MASK\<rparr>) io1)) = Some (r, io2)"
    and io': "io' = upd_dev d (\<lambda>v. v\<lparr>open_flag := open_flag v OR RT_DEVICE_OFLAG_OPEN, ref_count := ref_count v + 1\<rparr>) io2"
    and nz: "ref_count (devs io' d) \<noteq> 0"
    using assms 1 r1 busy by (auto simp: rt_device_open_def device_assert_def Let_def split: bind_splits if_splits)
  obtain f where "keeps io1 (upd_dev d (open_flag_update (\<lambda>_. f)) io2)"
  proof (cases "d_open (drv d)")
    case None
    then have "keeps io1 (upd_dev d (open_flag_update (\<lambda>_. open_flag (devs io1 d))) io2)" using 2 by (auto simp: keeps_def same_use_def)
    then show thesis by (rule that)
  next
    case (Some opn)
    then have "keeps_open d r io1 io2" using open_keeps [of d opn oflg io1 r io2] 2 by simp
    then show thesis using assms(2) that by (auto simp: keeps_open_def)
  qed
  with k1 have k: "keeps io (upd_dev d (open_flag_update (\<lambda>_. f)) io2)" by (rule keeps_trans)
  have u: "ref_count (devs io2 d) = ref_count (devs io d)"
    "dflag (devs io2 d) AND RT_DEVICE_FLAG_STANDALONE = dflag (devs io d) AND RT_DEVICE_FLAG_STANDALONE"
    using keepsD [OF k, of d] by (simp_all add: same_use_def)
  have "same_use (devs io e) (devs io' e)" if "e \<noteq> d" for e using keepsD [OF k, of e] that io' by simp
  then show "\<forall>e. e \<noteq> d \<longrightarrow> same_use (devs io e) (devs io' e)" by blast
  have "(x OR RT_DEVICE_OFLAG_OPEN) AND RT_DEVICE_OFLAG_OPEN \<noteq> 0" for x by (simp add: device_flag_defs bit.conj_disj_distrib2)
  then show "open_flag (devs io' d) AND RT_DEVICE_OFLAG_OPEN \<noteq> 0" using io' by simp
  show "ref_count (devs io' d) = ref_count (devs io d) + 1" 
    "dflag (devs io' d) AND RT_DEVICE_FLAG_STANDALONE = dflag (devs io d) AND RT_DEVICE_FLAG_STANDALONE"
    using u io' by simp_all
  show "dflag (devs io d) AND RT_DEVICE_FLAG_STANDALONE = 0 \<or> open_flag (devs io d) AND RT_DEVICE_OFLAG_OPEN = 0"
    using keepsD [OF k1, of d] busy by (simp add: same_use_def)
  show "ref_count (devs io' d) \<noteq> 0" by (rule nz)
qed

lemma open_failed_keeps:
  assumes "rt_device_open drv dev oflg io = Some (r, io')" "r \<noteq> RT_EOK" "r \<noteq> - RT_ENOSYS"
  shows "keeps io io'"
proof -
  obtain d where d: "dev = Some d" using assms by (cases dev) (simp_all add: rt_device_open_def device_assert_def)
  obtain r1 io1 where 1: "open_activate drv d io = Some (r1, io1)"
    using assms d by (auto simp: rt_device_open_def device_assert_def split: bind_splits)
  have "keeps io1 io'"
    using assms 1 d open_keeps [of d "the (d_open (drv d))" oflg io1 r io']
    by (auto simp: rt_device_open_def device_assert_def keeps_open_def Let_def split: if_splits bind_splits option.splits)
  with activate_keeps [OF 1] show ?thesis by (rule keeps_trans)
qed

lemma close_spec:
  assumes "rt_device_close drv (Some d) io = Some (r, io')" "ref_count (devs io d) \<noteq> 0"
  shows "\<forall>e. e \<noteq> d \<longrightarrow> same_use (devs io e) (devs io' e)"
    "ref_count (devs io' d) = ref_count (devs io d) - 1"
    "dflag (devs io' d) AND RT_DEVICE_FLAG_STANDALONE = dflag (devs io d) AND RT_DEVICE_FLAG_STANDALONE"
    "ref_count (devs io' d) \<noteq> 0 \<longrightarrow> open_flag (devs io' d) = open_flag (devs io d)"
proof -
  let ?io1 = "upd_dev d (\<lambda>v. v\<lparr>ref_count := ref_count v - 1\<rparr>) io"
  have "\<exists>io2. keeps ?io1 io2 \<and> (io' = ?io1 \<and> io2 = ?io1 \<or> ref_count (devs ?io1 d) = 0 \<and>
      (io' = io2 \<or> io' = upd_dev d (\<lambda>v. v\<lparr>open_flag := RT_DEVICE_OFLAG_CLOSE\<rparr>) io2))"
    using assms close_keeps [of d "the (d_close (drv d))" ?io1 r]
    by (auto simp: rt_device_close_def device_assert_def Let_def split: if_splits bind_splits option.splits)
  then obtain io2 where k: "keeps ?io1 io2" and c: "io' = ?io1 \<and> io2 = ?io1 \<or> ref_count (devs ?io1 d) = 0 \<and>
      (io' = io2 \<or> io' = upd_dev d (\<lambda>v. v\<lparr>open_flag := RT_DEVICE_OFLAG_CLOSE\<rparr>) io2)" by blast
  have same: "same_use (devs ?io1 e) (devs io2 e)" for e using keepsD [OF k] .
  show "\<forall>e. e \<noteq> d \<longrightarrow> same_use (devs io e) (devs io' e)"
  proof (intro allI impI)
    fix e assume "e \<noteq> d"
    then show "same_use (devs io e) (devs io' e)" using same [of e] c by auto
  qed
  show "ref_count (devs io' d) = ref_count (devs io d) - 1"
    "dflag (devs io' d) AND RT_DEVICE_FLAG_STANDALONE = dflag (devs io d) AND RT_DEVICE_FLAG_STANDALONE"
    "ref_count (devs io' d) \<noteq> 0 \<longrightarrow> open_flag (devs io' d) = open_flag (devs io d)"
    using same [of d] c by (auto simp: same_use_def)
qed

lemma close_failed_keeps:
  "rt_device_close drv (Some d) io = Some (r, io') \<Longrightarrow> ref_count (devs io d) = 0 \<Longrightarrow> io' = io"
  by (auto simp: rt_device_close_def device_assert_def split: bind_splits)

lemma init_keeps_all: "rt_device_init drv dev io = Some (r, io') \<Longrightarrow> keeps io io'"
  by (auto simp: rt_device_init_def split: if_splits option.splits bind_splits
      intro: init_keeps keeps_trans [OF init_keeps keeps_activate])

lemma read_keeps_all: "rt_device_read drv dev pos b sz io = Some (n, io') \<Longrightarrow> keeps io io'"
  by (auto simp: rt_device_read_def split: if_splits option.splits bind_splits intro: read_keeps)

lemma write_keeps_all: "rt_device_write drv dev pos b sz io = Some (n, io') \<Longrightarrow> keeps io io'"
  by (auto simp: rt_device_write_def split: if_splits option.splits bind_splits intro: write_keeps)

lemma control_keeps_all: "rt_device_control drv dev cmd b io = Some (r, io') \<Longrightarrow> keeps io io'"
  by (auto simp: rt_device_control_def split: if_splits option.splits bind_splits intro: control_keeps)

text \<open>Every step keeps the invariant of all devices and moves the reference counts by what its label says.\<close>

lemma step_ok:
  assumes "dev_step drv io l io'" "\<forall>d. dev_ok (devs io d)"
  shows "dev_ok (devs io' d) \<and> int (unat (ref_count (devs io' d))) = users d (int (unat (ref_count (devs io d)))) l"
proof -
  have same: ?thesis if "same_use (devs io d) (devs io' d)" "users d 1 l = 1"
    using that assms(2) same_use_ok [of "devs io d" "devs io' d"] by (simp add: same_use_def users_def split: if_splits)
  have used: ?thesis if "keeps io io'" "l = Used" using same [OF keepsD [OF that(1)]] that(2) by (simp add: users_def)
  from assms(1) show ?thesis
  proof cases
    case (open_ok dev oflg r e)
    note o = open_spec [OF open_ok(2) [unfolded open_ok(4)] open_ok(3)]
    show ?thesis
    proof (cases "d = e")
      case True
      have "unat (ref_count (devs io e) + 1) = Suc (unat (ref_count (devs io e)))"
        using o(2,3) unatSuc [of "ref_count (devs io e)"] by (simp add: add.commute)
      moreover have "dflag (devs io e) AND RT_DEVICE_FLAG_STANDALONE = 0 \<or> ref_count (devs io e) = 0"
        using o(6) assms(2) by (auto simp: dev_ok_def)
      ultimately show ?thesis using o True open_ok(1) by (auto simp: dev_ok_def users_def)
    qed (use same o(1) open_ok(1) in \<open>auto simp: users_def\<close>)
  next
    case (close_ok dev r e)
    note c = close_spec [OF close_ok(2) [unfolded close_ok(3)] close_ok(4)]
    show ?thesis
    proof (cases "d = e")
      case True
      have "unat (ref_count (devs io e) - 1) = unat (ref_count (devs io e)) - 1" using close_ok(4) by (rule unat_minus_one)
      moreover have "unat (ref_count (devs io e)) \<noteq> 0" using close_ok(4) by (simp add: unat_eq_0)
      ultimately show ?thesis using c True close_ok(1,4) assms(2) by (auto simp: dev_ok_def users_def)
    qed (use same c(1) close_ok(1) in \<open>auto simp: users_def\<close>)
  next
    case (register_step e name flags)
    then have "devs io' = (devs io)(e := (devs io e)\<lparr>dflag := flags, ref_count := 0, open_flag := 0\<rparr>)"
      by (auto simp: rt_device_register_def rt_device_find_def Let_def rt_err_defs split: bind_splits if_splits)
    then show ?thesis using assms(2) register_step(1) by (auto simp: dev_ok_def users_def)
  next
    case (rx_step dev f r)
    then show ?thesis using assms(2)
      by (intro used) (auto simp: rt_device_set_rx_indicate_def keeps_def same_use_def split: bind_splits)
  next
    case (tx_step dev f r)
    then show ?thesis using assms(2)
      by (intro used) (auto simp: rt_device_set_tx_complete_def keeps_def same_use_def split: bind_splits)
  next
    case other_step
    then show ?thesis using assms(2) by (simp add: users_def)
  next
    case (close_failed dev r e)
    then have "io' = io" by (auto intro: close_failed_keeps)
    then show ?thesis using used close_failed(1) by simp
  qed (use used open_failed_keeps init_keeps_all read_keeps_all write_keeps_all control_keeps_all in \<open>auto simp: users_def\<close>)
qed

lemma run_ok:
  assumes "dev_run drv io ls io'" "\<forall>d. dev_ok (devs io d)"
  shows "\<forall>d. dev_ok (devs io' d) \<and> int (unat (ref_count (devs io' d))) = fold (\<lambda>l n. users d n l) ls (int (unat (ref_count (devs io d))))"
  using assms
proof induction
  case (more io ls io' l io'')
  then show ?case using step_ok [OF more(2)] by simp
qed simp

end

section \<open>Devices cannot be destroyed\<close>

text \<open>
  The object header of a device is cleared or it is the static one that registration makes, so the assertions of
  \<open>rt_device_destroy\<close> cannot both hold.
\<close>

definition header_ok :: "oid \<Rightarrow> 's io \<Rightarrow> bool" where
  "header_ok d io \<longleftrightarrow> otype (objs (kern io) (ODevice d)) \<in> {0, RT_Object_Class_Device OR RT_Object_Class_Static}"

lemma exit_critical_objs: "rt_exit_critical k = Some k' \<Longrightarrow> objs k' = objs k"
  by (auto simp: rt_exit_critical_def rt_schedule_def rt_schedule_insert_thread_def rt_schedule_remove_thread_def
      Let_def split: if_splits bind_splits prod.splits)

lemma device_find_objs: "rt_device_find name io = Some (d, io') \<Longrightarrow> objs (kern io') = objs (kern io)"
  by (auto simp: rt_device_find_def Let_def rt_enter_critical_def split: if_splits bind_splits dest!: exit_critical_objs)

lemma object_init_types:
  "rt_object_init r type name k = Some k' \<Longrightarrow>
   otype (objs k' e) = (if e = r then type OR RT_Object_Class_Static else otype (objs k e))"
  by (auto simp: rt_object_init_def Let_def rt_enter_critical_def list_insert_object_def split: bind_splits dest!: exit_critical_objs)

lemma device_register_objs:
  assumes "rt_device_register dev name flags io = Some (r, io')"
  shows "objs (kern io') = objs (kern io) \<or>
    (\<exists>d. dev = Some d \<and> (\<forall>e. otype (objs (kern io') e) =
       (if e = ODevice d then RT_Object_Class_Device OR RT_Object_Class_Static else otype (objs (kern io) e))))"
proof (cases dev)
  case (Some d)
  then obtain f io1 where 1: "rt_device_find name io = Some (f, io1)"
    using assms by (auto simp: rt_device_register_def split: bind_splits)
  show ?thesis
  proof (cases "f = None")
    case True
    with assms Some 1 obtain k where k: "rt_object_init (ODevice d) RT_Object_Class_Device name (kern io1) = Some k" "kern io' = k"
      by (auto simp: rt_device_register_def split: bind_splits)
    then show ?thesis using Some device_find_objs [OF 1] object_init_types [OF k(1)] by simp
  qed (use assms Some 1 device_find_objs [OF 1] in \<open>auto simp: rt_device_register_def\<close>)
qed (use assms in \<open>simp add: rt_device_register_def\<close>)

inductive device_life :: "'s io \<Rightarrow> 's io \<Rightarrow> bool" where
  life_start: "device_life io io"
| life_create: "device_life io io1 \<Longrightarrow> device_life io (snd (rt_device_create mem io1))"
| life_register: "device_life io io1 \<Longrightarrow> rt_device_register dev name flags io1 = Some (r, io2) \<Longrightarrow> device_life io io2"
| life_unregister: "device_life io io1 \<Longrightarrow> rt_device_unregister dev io1 = Some (r, io2) \<Longrightarrow> device_life io io2"
| life_other: "device_life io io1 \<Longrightarrow> objs (kern io2) = objs (kern io1) \<Longrightarrow> device_life io io2"

lemma header_kept: "device_life io io' \<Longrightarrow> header_ok d io \<Longrightarrow> header_ok d io'"
proof (induction rule: device_life.induct)
  case (life_create io io1 mem)
  then show ?case by (auto simp: rt_device_create_def header_ok_def zero_object_def split: option.split)
next
  case (life_register io io1 dev name flags r io2)
  then have "otype (objs (kern io2) (ODevice d)) \<in> {otype (objs (kern io1) (ODevice d)), RT_Object_Class_Device OR RT_Object_Class_Static}"
    using device_register_objs [OF life_register(2)] by auto
  then show ?case using life_register by (auto simp: header_ok_def)
next
  case (life_unregister io io1 dev r io2)
  then show ?case
    by (auto simp: rt_device_unregister_def rt_object_detach_def list_remove_object_def header_ok_def split: bind_splits)
qed (simp_all add: header_ok_def)

lemma device_destroy_never_returns:
  "device_life io io' \<Longrightarrow> (\<And>d. header_ok d io) \<Longrightarrow> rt_device_destroy dev io' = None"
  using header_kept [of io io' "the dev"]
  by (cases dev) (auto simp: rt_device_destroy_def device_assert_def header_ok_def rt_object_get_type_def
      rt_object_is_systemobject_def class_defs)

end
