(* ===== verification/Mempool.thy ===== *)
theory Mempool
  imports Device Semaphore Memory
begin

text \<open>
  Memory pools, \<^verbatim>\<open>rt-thread/src/mempool.c\<close>: blocks of one size, each with a word in front of it that links the free
  blocks and names the pool of a block in use. The memory is a store of bytes; a pool is named by the address of its control
  block, which is what the word in front of a block in use holds. The pool is shown to be an \<open>allocator\<close>, the contract
  that the heap has as well: it never touches a block in use, and never gives the same block out twice.
\<close>

section \<open>State\<close>

record rt_mempool =
  start_address :: u32
  mp_size :: u32
  block_size :: u32
  block_list :: u32
  block_total_count :: u32
  block_free_count :: u32

record pool_mem =
  pools :: "oid \<Rightarrow> rt_mempool"
  mem :: bytes

type_synonym pool_io = "pool_mem io"

abbreviation upd_pool :: "oid \<Rightarrow> (rt_mempool \<Rightarrow> rt_mempool) \<Rightarrow> pool_io \<Rightarrow> pool_io" where
  "upd_pool m f s \<equiv> s\<lparr>hw := (hw s)\<lparr>pools := (pools (hw s))(m := f (pools (hw s) m))\<rparr>\<rparr>"

abbreviation put_mem :: "bytes \<Rightarrow> pool_io \<Rightarrow> pool_io" where
  "put_mem b s \<equiv> s\<lparr>hw := (hw s)\<lparr>mem := b\<rparr>\<rparr>"

abbreviation the_pool :: "pool_io \<Rightarrow> oid \<Rightarrow> rt_mempool" where
  "the_pool s m \<equiv> pools (hw s) m"

abbreviation the_mem :: "pool_io \<Rightarrow> bytes" where
  "the_mem s \<equiv> mem (hw s)"

text \<open>A pointer to a block, \<open>RT_NULL\<close> included, or a caller that waits for one.\<close>

datatype mp_result = Got u32 | Waits_for_block

section \<open>Operations\<close>

text \<open>The loop that links the blocks, and the word of the last one, which the code addresses as number \<open>offset - 1\<close>.\<close>

fun link_blocks :: "u32 \<Rightarrow> u32 \<Rightarrow> nat \<Rightarrow> bytes \<Rightarrow> bytes" where
  "link_blocks start u 0 b = b"
| "link_blocks start u (Suc n) b = (let b = link_blocks start u n b in
     wr32 b (unat (start + of_nat n * u)) (start + (of_nat n + 1) * u))"

definition free_list :: "u32 \<Rightarrow> u32 \<Rightarrow> u32 \<Rightarrow> bytes \<Rightarrow> bytes" where
  "free_list start u cnt b = wr32 (link_blocks start u (unat cnt) b) (unat (start + (cnt - 1) * u)) 0"

definition rt_mp_init :: "oid \<Rightarrow> string \<Rightarrow> u32 \<Rightarrow> u32 \<Rightarrow> u32 \<Rightarrow> pool_io \<Rightarrow> (rt_err_t \<times> pool_io) option" where
  "rt_mp_init m name start sz bsize s = do {
     rt_assert (start \<noteq> 0);
     rt_assert (sz > 0 \<and> bsize > 0);
     k \<leftarrow> rt_object_init (OMp m) RT_Object_Class_MemPool name (kern s);
     let sz = rt_align_down sz 4;
     let bsize = rt_align_up bsize 4;
     let cnt = sz div (bsize + 4);
     let k = k\<lparr>queues := (queues k)(QMp m := [])\<rparr>;
     let s = upd_pool m (\<lambda>p. \<lparr>start_address = start, mp_size = sz, block_size = bsize, block_list = start,
       block_total_count = cnt, block_free_count = cnt\<rparr>) (s\<lparr>kern := k\<rparr>);
     Some (RT_EOK, put_mem (free_list start (bsize + 4) cnt (the_mem s)) s) }"

definition rt_mp_detach :: "oid \<Rightarrow> pool_io \<Rightarrow> (rt_err_t \<times> pool_io) option" where
  "rt_mp_detach m s = do {
     rt_assert (rt_object_get_type (OMp m) (kern s) = RT_Object_Class_MemPool);
     rt_assert (rt_object_is_systemobject (OMp m) (kern s));
     k \<leftarrow> rt_ipc_list_resume_all (QMp m) (kern s);
     Some (RT_EOK, s\<lparr>kern := rt_object_detach (OMp m) k\<rparr>) }"

text \<open>\<open>obj_mem\<close> and \<open>start\<close> are what the allocator returns for the control block and for the blocks.\<close>

definition rt_mp_create :: "oid option \<Rightarrow> u32 \<Rightarrow> string \<Rightarrow> u32 \<Rightarrow> u32 \<Rightarrow> pool_io \<Rightarrow> (oid option \<times> pool_io) option" where
  "rt_mp_create obj_mem start name block_count bsize s = do {
     RT_DEBUG_NOT_IN_INTERRUPT (kern s);
     rt_assert (block_count > 0 \<and> bsize > 0);
     (_, k) \<leftarrow> rt_object_allocate (map_option OMp obj_mem) RT_Object_Class_MemPool name (kern s);
     case obj_mem of
       None \<Rightarrow> Some (None, s\<lparr>kern := k\<rparr>)
     | Some m \<Rightarrow> do {
         let bsize = rt_align_up bsize 4;
         let s = upd_pool m (\<lambda>p. p\<lparr>block_size := bsize, mp_size := (bsize + 4) * block_count, start_address := start\<rparr>) (s\<lparr>kern := k\<rparr>);
         if start = 0 then do { k \<leftarrow> rt_object_delete (OMp m) (kern s); Some (None, s\<lparr>kern := k\<rparr>) }
         else do {
           let s = upd_pool m (\<lambda>p. p\<lparr>block_total_count := block_count, block_free_count := block_count, block_list := start\<rparr>)
             (s\<lparr>kern := (kern s)\<lparr>queues := (queues (kern s))(QMp m := [])\<rparr>\<rparr>);
           Some (Some m, put_mem (free_list start (bsize + 4) block_count (the_mem s)) s) } } }"

text \<open>\<open>rt_free\<close> of the blocks is left to the heap.\<close>

definition rt_mp_delete :: "oid \<Rightarrow> pool_io \<Rightarrow> (rt_err_t \<times> pool_io) option" where
  "rt_mp_delete m s = do {
     RT_DEBUG_NOT_IN_INTERRUPT (kern s);
     rt_assert (rt_object_get_type (OMp m) (kern s) = RT_Object_Class_MemPool);
     rt_assert (\<not> rt_object_is_systemobject (OMp m) (kern s));
     k \<leftarrow> rt_ipc_list_resume_all (QMp m) (kern s);
     k \<leftarrow> rt_object_delete (OMp m) k;
     Some (RT_EOK, s\<lparr>kern := k\<rparr>) }"

text \<open>The part of \<open>rt_mp_alloc\<close> behind the loop.\<close>

definition mp_take :: "oid \<Rightarrow> pool_io \<Rightarrow> (mp_result \<times> pool_io) option" where
  "mp_take m s = do {
     let s = upd_pool m (\<lambda>p. p\<lparr>block_free_count := block_free_count p - 1\<rparr>) s;
     let block_ptr = block_list (the_pool s m);
     rt_assert (block_ptr \<noteq> 0);
     let s = upd_pool m (\<lambda>p. p\<lparr>block_list := rd32 (the_mem s) (unat block_ptr)\<rparr>) s;
     Some (Got (block_ptr + 4), put_mem (wr32 (the_mem s) (unat block_ptr) (of_nat m)) s) }"

text \<open>The loop, entered at its test; \<open>self\<close> is the thread that the call found at its start. The caller goes to the front of the list.\<close>

definition mp_alloc_loop :: "oid \<Rightarrow> int \<Rightarrow> tid option \<Rightarrow> pool_io \<Rightarrow> (mp_result \<times> pool_io) option" where
  "mp_alloc_loop m time self s =
     (if block_free_count (the_pool s m) = 0 then
        if time = 0 then Some (Got 0, rt_set_errno (- RT_ETIMEOUT) s)
        else do {
          RT_DEBUG_NOT_IN_INTERRUPT (kern s);
          t \<leftarrow> self;
          k \<leftarrow> block_with (QMp m) t (\<lambda>k. t # queues k (QMp m)) time (upd_thr t (\<lambda>th. th\<lparr>terror := RT_EOK\<rparr>) (kern s));
          Some (Waits_for_block, s\<lparr>kern := k\<rparr>) }
      else mp_take m s)"

definition rt_mp_alloc :: "oid \<Rightarrow> int \<Rightarrow> pool_io \<Rightarrow> (mp_result \<times> pool_io) option" where
  "rt_mp_alloc m time s = mp_alloc_loop m time (rt_thread_self (kern s)) s"

text \<open>The call of \<open>t\<close> that began to wait at tick \<open>start\<close>, when \<open>t\<close> runs again.\<close>

definition rt_mp_alloc_return :: "oid \<Rightarrow> int \<Rightarrow> u32 \<Rightarrow> tid \<Rightarrow> pool_io \<Rightarrow> (mp_result \<times> pool_io) option" where
  "rt_mp_alloc_return m time start t s =
     (if terror (thr (kern s) t) \<noteq> RT_EOK then Some (Got 0, s)
      else let time = (if time > 0 then max 0 (sint (word_of_int time - (rt_tick_get (kern s) - start))) else time)
           in mp_alloc_loop m time (Some t) s)"

definition rt_mp_free :: "u32 \<Rightarrow> pool_io \<Rightarrow> pool_io option" where
  "rt_mp_free block s =
     (if block = 0 then Some s
      else do {
        let block_ptr = block - 4;
        let m = unat (rd32 (the_mem s) (unat block_ptr));
        let s = upd_pool m (\<lambda>p. p\<lparr>block_free_count := block_free_count p + 1\<rparr>) s;
        let s = put_mem (wr32 (the_mem s) (unat block_ptr) (block_list (the_pool s m))) s;
        let s = upd_pool m (\<lambda>p. p\<lparr>block_list := block_ptr\<rparr>) s;
        case queues (kern s) (QMp m) of
          [] \<Rightarrow> Some s
        | t # _ \<Rightarrow> do {
            k \<leftarrow> ipc_wake (QMp m) (upd_thr t (\<lambda>th. th\<lparr>terror := RT_EOK\<rparr>) (kern s));
            Some (s\<lparr>kern := k\<rparr>) } })"

section \<open>Well-formed pools\<close>

primrec walk :: "bytes \<Rightarrow> nat \<Rightarrow> nat \<Rightarrow> nat list" where
  "walk b a 0 = []"
| "walk b a (Suc n) = a # walk b (unat (rd32 b a)) n"

definition free_blocks :: "rt_mempool \<Rightarrow> bytes \<Rightarrow> nat list" where
  "free_blocks p b = walk b (unat (block_list p)) (unat (block_free_count p))"

definition unit_size :: "rt_mempool \<Rightarrow> nat" where
  "unit_size p = unat (block_size p) + 4"

definition all_blocks :: "rt_mempool \<Rightarrow> nat set" where
  "all_blocks p = (\<lambda>i. unat (start_address p) + i * unit_size p) ` {..<unat (block_total_count p)}"

definition area :: "rt_mempool \<Rightarrow> nat set" where
  "area p = {unat (start_address p) ..< unat (start_address p) + unat (block_total_count p) * unit_size p}"

definition in_use :: "rt_mempool \<Rightarrow> bytes \<Rightarrow> nat set" where
  "in_use p b = all_blocks p - set (free_blocks p b)"

definition pool_ok :: "oid \<Rightarrow> rt_mempool \<Rightarrow> bytes \<Rightarrow> bool" where
  "pool_ok m p b \<longleftrightarrow> m < 2 ^ 32 \<and> 0 < unat (start_address p) \<and> 0 < unat (block_size p) \<and>
     unat (start_address p) + unat (block_total_count p) * unit_size p \<le> 2 ^ 32 \<and>
     distinct (free_blocks p b) \<and> set (free_blocks p b) \<subseteq> all_blocks p \<and> (\<forall>a\<in>in_use p b. unat (rd32 b a) = m)"

definition pool_live :: "oid \<Rightarrow> pool_io \<Rightarrow> (nat \<times> nat) set" where
  "pool_live m s = (\<lambda>a. (a + 4, unat (block_size (the_pool s m)))) ` in_use (the_pool s m) (the_mem s)"

lemma length_walk [simp]: "length (walk b a n) = n"
  by (induction n arbitrary: a) simp_all

lemma walk_cong: "(\<And>x. x \<in> set (walk b a n) \<Longrightarrow> rd32 b' x = rd32 b x) \<Longrightarrow> walk b' a n = walk b a n"
  by (induction n arbitrary: a) simp_all

lemma rd32_other: "i + 4 \<le> j \<or> j + 4 \<le> i \<Longrightarrow> rd32 (wr32 b i v) j = rd32 b j"
  by (rule rd32_cong) (auto simp: wr32_bytes)

lemma block_bounds: "a \<in> all_blocks p \<Longrightarrow> unat (start_address p) \<le> a \<and>
    a + unit_size p \<le> unat (start_address p) + unat (block_total_count p) * unit_size p"
proof -
  assume "a \<in> all_blocks p"
  then obtain i where i: "i < unat (block_total_count p)" "a = unat (start_address p) + i * unit_size p" by (auto simp: all_blocks_def)
  then have "Suc i * unit_size p \<le> unat (block_total_count p) * unit_size p" by (intro mult_le_mono1) simp
  then show ?thesis using i(2) by simp
qed

lemma blocks_apart:
  assumes "a \<in> all_blocks p" "a' \<in> all_blocks p" "a \<noteq> a'"
  shows "a + unit_size p \<le> a' \<or> a' + unit_size p \<le> a"
proof -
  obtain i j where "a = unat (start_address p) + i * unit_size p" "a' = unat (start_address p) + j * unit_size p"
    using assms(1,2) by (auto simp: all_blocks_def)
  moreover have "Suc i * unit_size p \<le> j * unit_size p \<or> Suc j * unit_size p \<le> i * unit_size p"
    using mult_le_mono1 [of "Suc i" j "unit_size p"] mult_le_mono1 [of "Suc j" i "unit_size p"] assms(3) calculation
    by (metis Suc_leI linorder_neqE_nat)
  ultimately show ?thesis by auto
qed

lemma header_other:
  assumes "a \<in> all_blocks p" "a' \<in> all_blocks p" "a \<noteq> a'"
  shows "rd32 (wr32 b a v) a' = rd32 b a'"
  using blocks_apart [OF assms] by (intro rd32_other) (auto simp: unit_size_def)

lemma data_kept:
  assumes "a \<in> all_blocks p" "a' \<in> all_blocks p" "i < unat (block_size p)"
  shows "wr32 b a v (a' + 4 + i) = b (a' + 4 + i)"
  using blocks_apart [OF assms(1,2)] assms(3) by (cases "a = a'") (auto simp: unit_size_def intro!: wr32_bytes)

lemma pool_ok_cong:
  assumes ok: "pool_ok m p b" and same: "\<And>a. a \<in> all_blocks p \<Longrightarrow> rd32 b' a = rd32 b a"
  shows "pool_ok m p b'" "free_blocks p b' = free_blocks p b" "in_use p b' = in_use p b"
proof -
  have "set (free_blocks p b) \<subseteq> all_blocks p" using ok by (simp add: pool_ok_def)
  then show f: "free_blocks p b' = free_blocks p b" unfolding free_blocks_def by (intro walk_cong same) auto
  then show u: "in_use p b' = in_use p b" by (simp add: in_use_def)
  show "pool_ok m p b'" using ok same unfolding pool_ok_def f u by (auto simp: in_use_def)
qed

section \<open>Taking and returning a block\<close>

lemma take_block:
  assumes ok: "pool_ok m p b" and n: "block_free_count p \<noteq> 0"
    and p': "p' = p\<lparr>block_free_count := block_free_count p - 1, block_list := rd32 b (unat (block_list p))\<rparr>"
    and b': "b' = wr32 b (unat (block_list p)) (of_nat m)"
  shows "pool_ok m p' b'" "unat (block_list p) \<in> set (free_blocks p b)" "in_use p' b' = insert (unat (block_list p)) (in_use p b)"
proof -
  let ?a = "unat (block_list p)" and ?rest = "walk b (unat (rd32 b (unat (block_list p)))) (unat (block_free_count p) - 1)"
  have "unat (block_free_count p) = Suc (unat (block_free_count p) - 1)" using n by (simp add: unat_gt_0)
  then have fs: "free_blocks p b = ?a # ?rest" unfolding free_blocks_def by (metis walk.simps(2))
  have d: "?a \<in> all_blocks p" "set ?rest \<subseteq> all_blocks p" "?a \<notin> set ?rest" "distinct ?rest" using ok fs by (auto simp: pool_ok_def)
  have same: "all_blocks p' = all_blocks p" "unit_size p' = unit_size p" by (simp_all add: p' all_blocks_def unit_size_def)
  have "unat (block_free_count p - 1) = unat (block_free_count p) - 1" using n by (simp add: unat_minus_one)
  moreover have "walk b' (unat (rd32 b ?a)) (unat (block_free_count p) - 1) = ?rest"
    unfolding b' using d by (intro walk_cong header_other) auto
  ultimately have fs': "free_blocks p' b' = ?rest" by (simp add: free_blocks_def p')
  show "?a \<in> set (free_blocks p b)" using fs by simp
  show u: "in_use p' b' = insert ?a (in_use p b)" using d fs fs' same by (auto simp: in_use_def)
  have "unat (rd32 b' x) = m" if "x \<in> insert ?a (in_use p b)" for x
  proof (cases "x = ?a")
    case True
    then show ?thesis using ok by (simp add: b' pool_ok_def unat_of_nat)
  next
    case False
    then have "x \<in> in_use p b" using that by simp
    then show ?thesis using ok False d header_other [of ?a p x b] by (simp add: b' pool_ok_def in_use_def)
  qed
  then show "pool_ok m p' b'" using ok d same unfolding pool_ok_def u fs' by (simp add: p')
qed

lemma give_block:
  assumes ok: "pool_ok m p b" and a: "a \<in> in_use p b"
    and p': "p' = p\<lparr>block_free_count := block_free_count p + 1, block_list := of_nat a\<rparr>"
    and b': "b' = wr32 b a (block_list p)"
  shows "pool_ok m p' b'" "in_use p' b' = in_use p b - {a}" "free_blocks p' b' = a # free_blocks p b"
proof -
  have d: "a \<in> all_blocks p" "a \<notin> set (free_blocks p b)" "set (free_blocks p b) \<subseteq> all_blocks p" "distinct (free_blocks p b)"
    using ok a by (auto simp: pool_ok_def in_use_def)
  have lt: "a < 2 ^ 32" using block_bounds [OF d(1)] ok by (simp add: pool_ok_def unit_size_def)
  have "card (set (free_blocks p b)) < card (all_blocks p)"
    using d by (intro psubset_card_mono) (auto simp: all_blocks_def)
  also have "card (all_blocks p) \<le> unat (block_total_count p)"
    unfolding all_blocks_def by (metis card_image_le card_lessThan finite_lessThan)
  finally have "unat (block_free_count p) < unat (block_total_count p)"
    using d(4) by (simp add: distinct_card free_blocks_def)
  then have cnt: "unat (block_free_count p + 1) = Suc (unat (block_free_count p))"
    using unat_add_fit [of "block_free_count p" 1] unsigned_less [of "block_total_count p", where 'a = nat] by simp
  have "walk b' (unat (block_list p)) (unat (block_free_count p)) = walk b (unat (block_list p)) (unat (block_free_count p))"
    unfolding b' using d by (intro walk_cong header_other) (auto simp: free_blocks_def)
  then show fs': "free_blocks p' b' = a # free_blocks p b"
    using lt cnt by (simp add: free_blocks_def p' b' unat_of_nat)
  have same: "all_blocks p' = all_blocks p" "unit_size p' = unit_size p" by (simp_all add: p' all_blocks_def unit_size_def)
  show u: "in_use p' b' = in_use p b - {a}" using fs' same by (auto simp: in_use_def)
  have "unat (rd32 b' x) = m" if "x \<in> in_use p b - {a}" for x
    using that ok d header_other [of a p x b] by (simp add: b' pool_ok_def in_use_def)
  then show "pool_ok m p' b'" using ok d same unfolding pool_ok_def u fs' by (simp add: p')
qed

abbreviation pool_wf :: "oid \<Rightarrow> pool_io \<Rightarrow> bool" where
  "pool_wf m s \<equiv> pool_ok m (the_pool s m) (the_mem s)"

text \<open>What an operation of another pool, or any other code, leaves of a pool: its control block and its area.\<close>

definition untouched :: "oid \<Rightarrow> pool_io \<Rightarrow> pool_io \<Rightarrow> bool" where
  "untouched m s s' \<longleftrightarrow> the_pool s' m = the_pool s m \<and> (\<forall>i\<in>area (the_pool s m). the_mem s' i = the_mem s i)"

lemma mp_take_spec:
  assumes wf: "pool_wf m s" and n: "block_free_count (the_pool s m) \<noteq> 0"
  obtains a s' where "mp_take m s = Some (Got (of_nat (a + 4)), s')" "a + 4 < 2 ^ 32" "a \<in> set (free_blocks (the_pool s m) (the_mem s))"
    "pool_wf m s'" "in_use (the_pool s' m) (the_mem s') = insert a (in_use (the_pool s m) (the_mem s))"
    "block_size (the_pool s' m) = block_size (the_pool s m)" "kern s' = kern s" "the_mem s' = wr32 (the_mem s) a (of_nat m)"
proof -
  define p b where pb: "p = the_pool s m" "b = the_mem s"
  let ?a = "unat (block_list p)"
  let ?p' = "p\<lparr>block_free_count := block_free_count p - 1, block_list := rd32 b ?a\<rparr>" and ?b' = "wr32 b ?a (of_nat m)"
  let ?s' = "put_mem ?b' (upd_pool m (\<lambda>_. ?p') s)"
  note t = take_block [OF wf [folded pb] n [folded pb] refl refl]
  have "?a \<in> all_blocks p" using wf t(2) by (auto simp: pool_ok_def pb)
  then have bd: "unat (start_address p) \<le> ?a" "?a + unit_size p \<le> 2 ^ 32" "0 < unat (start_address p)" "0 < unat (block_size p)"
    using block_bounds [of ?a p] wf by (auto simp: pool_ok_def pb)
  then have "block_list p \<noteq> 0" by auto
  then have "mp_take m s = Some (Got (block_list p + 4), ?s')"
    by (simp add: mp_take_def pb Let_def)
  moreover have "block_list p + 4 = of_nat (?a + 4)" by simp
  ultimately show thesis
    using t bd by (intro that [of ?a ?s']) (auto simp: pb unit_size_def)
qed

lemma rt_mp_free_spec:
  assumes wf: "pool_wf m s" and a: "a \<in> in_use (the_pool s m) (the_mem s)"
  obtains s1 where "rt_mp_free (of_nat (a + 4)) s = (case queues (kern s) (QMp m) of [] \<Rightarrow> Some s1
      | t # _ \<Rightarrow> do { k \<leftarrow> ipc_wake (QMp m) (upd_thr t (\<lambda>th. th\<lparr>terror := RT_EOK\<rparr>) (kern s)); Some (s1\<lparr>kern := k\<rparr>) })"
    "a + 4 < 2 ^ 32" "pool_wf m s1" "in_use (the_pool s1 m) (the_mem s1) = in_use (the_pool s m) (the_mem s) - {a}"
    "block_size (the_pool s1 m) = block_size (the_pool s m)" "kern s1 = kern s" "the_mem s1 = wr32 (the_mem s) a (block_list (the_pool s m))"
proof -
  define p b where pb: "p = the_pool s m" "b = the_mem s"
  let ?p' = "p\<lparr>block_free_count := block_free_count p + 1, block_list := of_nat a\<rparr>" and ?b' = "wr32 b a (block_list p)"
  let ?s1 = "upd_pool m (\<lambda>_. ?p') (put_mem ?b' s)"
  note g = give_block [OF wf [folded pb] a [folded pb] refl refl]
  have al: "a \<in> all_blocks p" "unat (rd32 b a) = m" using wf a by (auto simp: pool_ok_def in_use_def pb)
  then have bd: "a + 4 < 2 ^ 32" "a + 4 \<noteq> 0" using block_bounds [of a p] wf by (auto simp: pool_ok_def pb unit_size_def)
  have "unat (of_nat (a + 4) :: u32) = a + 4" using bd(1) unat_of_nat_small [of "a + 4", where 'a = 32] by simp
  then have ne: "of_nat (a + 4) \<noteq> (0 :: u32)" by auto
  have bp: "of_nat (a + 4) - 4 = (of_nat a :: u32)" "unat (of_nat a :: u32) = a" using bd by (simp_all add: unat_of_nat)
  have "rt_mp_free (of_nat (a + 4)) s = (case queues (kern s) (QMp m) of [] \<Rightarrow> Some ?s1
      | t # _ \<Rightarrow> do { k \<leftarrow> ipc_wake (QMp m) (upd_thr t (\<lambda>th. th\<lparr>terror := RT_EOK\<rparr>) (kern s)); Some (?s1\<lparr>kern := k\<rparr>) })"
    using ne al(2) bp by (simp add: rt_mp_free_def Let_def pb split: list.split)
  then show thesis using g bd by (intro that [of ?s1]) (simp_all add: pb)
qed

section \<open>A new pool\<close>

lemma walk_links:
  assumes "\<And>i. Suc i < N \<Longrightarrow> unat (rd32 b (S + i * U)) = S + Suc i * U" "j + n \<le> N"
  shows "walk b (S + j * U) n = map (\<lambda>i. S + i * U) [j..<j + n]"
  using assms(2)
proof (induction n arbitrary: j)
  case (Suc n)
  have "walk b (unat (rd32 b (S + j * U))) n = map (\<lambda>i. S + i * U) [Suc j..<Suc j + n]"
  proof (cases n)
    case (Suc n')
    then show ?thesis using assms(1) [of j] Suc.prems Suc.IH [of "Suc j"] by simp
  qed simp
  then show ?case by (simp add: upt_conv_Cons del: upt_Suc)
qed simp

lemma block_address:
  fixes start u :: u32
  assumes "unat start + n * unat u < 2 ^ 32"
  shows "unat (start + of_nat n * u) = unat start + n * unat u"
proof -
  have "start + of_nat n * u = of_nat (unat start + n * unat u)" by simp
  then show ?thesis using assms unat_of_nat_small [of "unat start + n * unat u", where 'a = 32] by simp
qed

lemma link_blocks_read:
  assumes "unat start + n * unat u \<le> 2 ^ 32" "4 \<le> unat u" "i < n"
  shows "rd32 (link_blocks start u n b) (unat start + i * unat u) = start + (of_nat i + 1) * u"
  using assms(1,3)
proof (induction n)
  case (Suc n)
  have lt: "unat start + n * unat u < 2 ^ 32" using Suc.prems(1) assms(2) by simp
  show ?case
  proof (cases "i = n")
    case True
    then show ?thesis using block_address [OF lt] by simp
  next
    case False
    then have "i < n" using Suc.prems(2) by simp
    then have "Suc i * unat u \<le> n * unat u" by (intro mult_le_mono1) simp
    then have "unat start + i * unat u + 4 \<le> unat start + n * unat u" using assms(2) by simp
    then show ?thesis using Suc.IH Suc.prems(1) \<open>i < n\<close> block_address [OF lt] by (simp add: Let_def rd32_other)
  qed
qed simp

lemma free_list_walk:
  assumes fit: "unat start + unat n * unat u \<le> 2 ^ 32" and u: "4 \<le> unat u" and n: "0 < unat n"
  shows "walk (free_list start u n b) (unat start) (unat n) = map (\<lambda>i. unat start + i * unat u) [0..<unat n]"
proof -
  let ?N = "unat n" and ?b = "free_list start u n b"
  have "unat (rd32 ?b (unat start + i * unat u)) = unat start + Suc i * unat u" if i: "Suc i < ?N" for i
  proof -
    have le: "Suc i * unat u + unat u \<le> ?N * unat u" using i mult_le_mono1 [of "Suc (Suc i)" ?N "unat u"] by simp
    have one: "unat (n - 1) = ?N - 1" using n by (simp add: unat_minus_one unat_gt_0)
    have "(?N - 1) * unat u + unat u = ?N * unat u" using n by (simp add: algebra_simps mult_eq_if)
    then have last: "unat start + (?N - 1) * unat u < 2 ^ 32" "unat start + i * unat u + 4 \<le> unat start + (?N - 1) * unat u"
      using fit u le by simp_all
    have "n - 1 = of_nat (?N - 1)" using one by (metis of_nat_unat ucast_id)
    then have "unat (start + (n - 1) * u) = unat start + (?N - 1) * unat u" using block_address [OF last(1)] by simp
    then have "rd32 ?b (unat start + i * unat u) = start + (of_nat i + 1) * u"
      using link_blocks_read [OF fit u, of i b] i last(2) by (simp add: free_list_def rd32_other)
    also have "\<dots> = start + of_nat (Suc i) * u" by (simp add: add.commute)
    finally show ?thesis using block_address [of start "Suc i" u] le fit u by simp
  qed
  then show ?thesis using walk_links [of ?N ?b "unat start" "unat u" 0 ?N] by simp
qed

lemma rt_mp_init_ok:
  assumes k: "rt_object_init (OMp m) RT_Object_Class_MemPool name (kern s) = Some k" and m: "m < 2 ^ 32"
    and mem: "start \<noteq> 0" "unat start + unat sz \<le> 2 ^ 32" and b: "bsize > 0" "rt_align_up bsize 4 > 0"
    and one: "unat (rt_align_up bsize 4) + 4 \<le> unat (rt_align_down sz 4)"
  obtains s' where "rt_mp_init m name start sz bsize s = Some (RT_EOK, s')" "pool_wf m s'" "in_use (the_pool s' m) (the_mem s') = {}"
    "unat (block_free_count (the_pool s' m)) = unat (rt_align_down sz 4) div (unat (rt_align_up bsize 4) + 4)"
    "block_size (the_pool s' m) = rt_align_up bsize 4" "kern s' = k\<lparr>queues := (queues k)(QMp m := [])\<rparr>"
    "start_address (the_pool s' m) = start"
proof -
  define bs sd where d: "bs = rt_align_up bsize 4" "sd = rt_align_down sz 4"
  let ?n = "sd div (bs + 4)"
  let ?p = "\<lparr>start_address = start, mp_size = sd, block_size = bs, block_list = start, block_total_count = ?n, block_free_count = ?n\<rparr>"
  let ?b = "free_list start (bs + 4) ?n (the_mem s)"
  let ?s' = "put_mem ?b (upd_pool m (\<lambda>_. ?p) (s\<lparr>kern := k\<lparr>queues := (queues k)(QMp m := [])\<rparr>\<rparr>))"
  have u: "unat (bs + 4) = unat bs + 4"
    using unat_add_fit [of bs 4] one unsigned_less [of sd, where 'a = nat] by (simp add: d)
  have n: "unat ?n = unat sd div (unat bs + 4)" by (simp add: unat_div_distrib u)
  have pos: "0 < unat ?n" using one n by (simp add: d div_greater_zero_iff)
  have le: "unat sd \<le> unat sz" using unat_align_down_pow [of sz 2] by (simp add: d)
  have "unat ?n * (unat bs + 4) \<le> unat sd" unfolding n by simp
  then have fit: "unat start + unat ?n * unat (bs + 4) \<le> 2 ^ 32" using le mem(2) u by simp
  have "0 < sz" using le one by (cases "sz = 0") (auto simp: d word_neq_0_conv)
  then have init: "rt_mp_init m name start sz bsize s = Some (RT_EOK, ?s')"
    using k mem(1) b(1) by (simp add: rt_mp_init_def Let_def d)
  have fs: "free_blocks ?p ?b = map (\<lambda>i. unat start + i * (unat bs + 4)) [0..<unat ?n]"
    using free_list_walk [OF fit _ pos, of "the_mem s"] u by (simp add: free_blocks_def)
  have all: "all_blocks ?p = set (free_blocks ?p ?b)"
    unfolding fs by (auto simp: all_blocks_def unit_size_def lessThan_atLeast0)
  then have use: "in_use ?p ?b = {}" by (simp add: in_use_def)
  have "distinct (free_blocks ?p ?b)" unfolding fs by (simp add: distinct_map inj_on_def)
  moreover have "0 < unat bs" "0 < unat start" using b(2) mem(1) by (simp_all add: d unat_gt_0 word_neq_0_conv)
  ultimately have "pool_ok m ?p ?b"
    using m fit [unfolded u] use all unfolding pool_ok_def by (simp add: unit_size_def)
  then show thesis using init use n by (intro that [of ?s']) (simp_all add: d)
qed

text \<open>
  When not even one block fits, there is no last block: the code stores the end of the list in front of the memory of the pool.
\<close>

lemma rt_mp_init_underflow:
  assumes "rt_object_init (OMp m) RT_Object_Class_MemPool name (kern s) = Some k" "start \<noteq> 0" "sz > 0" "bsize > 0"
    and "rt_align_down sz 4 div (rt_align_up bsize 4 + 4) = 0"
  shows "\<exists>s'. rt_mp_init m name start sz bsize s = Some (RT_EOK, s') \<and>
    the_mem s' = wr32 (the_mem s) (unat (start - (rt_align_up bsize 4 + 4))) 0"
  using assms by (simp add: rt_mp_init_def Let_def free_list_def algebra_simps)

section \<open>Runs of a pool\<close>

text \<open>
  The calls on a pool in any order, from any threads, with stores of the program inside blocks in use and any activity
  that leaves the pool alone: other pools, other memory, the kernel.
\<close>

inductive pool_step :: "oid \<Rightarrow> pool_io \<Rightarrow> alloc_label \<Rightarrow> pool_io \<Rightarrow> bool" for m where
  alloc: "rt_mp_alloc m time s = Some (Got p, s') \<Longrightarrow> p \<noteq> 0 \<Longrightarrow>
    pool_step m s (Alloc (unat p) (unat (block_size (the_pool s m)))) s'"
| alloc_none: "rt_mp_alloc m time s = Some (r, s') \<Longrightarrow> r = Got 0 \<or> r = Waits_for_block \<Longrightarrow> pool_step m s Quiet s'"
| resumed: "rt_mp_alloc_return m time start t s = Some (Got p, s') \<Longrightarrow> p \<noteq> 0 \<Longrightarrow>
    pool_step m s (Alloc (unat p) (unat (block_size (the_pool s m)))) s'"
| resumed_none: "rt_mp_alloc_return m time start t s = Some (r, s') \<Longrightarrow> r = Got 0 \<or> r = Waits_for_block \<Longrightarrow> pool_step m s Quiet s'"
| free: "(unat p, n) \<in> pool_live m s \<Longrightarrow> rt_mp_free p s = Some s' \<Longrightarrow> pool_step m s (Freed (unat p)) s'"
| store: "(p, n) \<in> pool_live m s \<Longrightarrow> p \<le> a \<Longrightarrow> a < p + n \<Longrightarrow>
    pool_step m s (Stored a v) (put_mem ((the_mem s)(a := v)) s)"
| environment: "untouched m s s' \<Longrightarrow> pool_step m s Quiet s'"

lemma hw_set_errno [simp]: "hw (rt_set_errno e s) = hw s"
  by (simp add: rt_set_errno_def split: option.split)

lemma mp_alloc_cases:
  "mp_alloc_loop m time self s = Some (r, s') \<Longrightarrow>
   (r = Got 0 \<or> r = Waits_for_block) \<and> hw s' = hw s \<or> block_free_count (the_pool s m) \<noteq> 0 \<and> mp_take m s = Some (r, s')"
  by (auto simp: mp_alloc_loop_def split: if_splits bind_splits)

lemma pool_live_iff: "(p, n) \<in> pool_live m s \<longleftrightarrow>
    n = unat (block_size (the_pool s m)) \<and> (\<exists>a. p = a + 4 \<and> a \<in> in_use (the_pool s m) (the_mem s))"
  by (auto simp: pool_live_def)

lemma live_hw: "hw s' = hw s \<Longrightarrow> pool_live m s' = pool_live m s"
  by (simp add: pool_live_def)

lemma take_step:
  assumes wf: "pool_wf m s" and t: "mp_take m s = Some (Got p, s')" "block_free_count (the_pool s m) \<noteq> 0"
  shows "pool_wf m s' \<and> (unat p, unat (block_size (the_pool s m))) \<notin> pool_live m s \<and>
    pool_live m s' = insert (unat p, unat (block_size (the_pool s m))) (pool_live m s) \<and> same_bytes the_mem (pool_live m s) s s' \<and> p \<noteq> 0"
proof -
  obtain a s1 where s1: "mp_take m s = Some (Got (of_nat (a + 4)), s1)" "a + 4 < 2 ^ 32" "a \<in> set (free_blocks (the_pool s m) (the_mem s))"
    "pool_wf m s1" "in_use (the_pool s1 m) (the_mem s1) = insert a (in_use (the_pool s m) (the_mem s))"
    "block_size (the_pool s1 m) = block_size (the_pool s m)" "kern s1 = kern s" "the_mem s1 = wr32 (the_mem s) a (of_nat m)"
    using mp_take_spec [OF wf t(2)] .
  then have a: "p = of_nat (a + 4)" "s' = s1" using t(1) by simp_all
  have p: "unat p = a + 4" using a(1) s1(2) unat_of_nat_small [of "a + 4", where 'a = 32] by simp
  have "a \<notin> in_use (the_pool s m) (the_mem s)" "a \<in> all_blocks (the_pool s m)" using s1(3) wf by (auto simp: in_use_def pool_ok_def)
  moreover from this have "same_bytes the_mem (pool_live m s) s s'"
    using s1(8) data_kept [of a "the_pool s m" _ _ "the_mem s" "of_nat m"] by (auto simp: pool_live_def same_bytes_def in_use_def a)
  moreover have "p \<noteq> 0" using p by auto
  ultimately show ?thesis using s1(4-6) p by (auto simp: pool_live_def a(2))
qed

lemma free_step:
  assumes wf: "pool_wf m s" and l: "(unat p, n) \<in> pool_live m s" and f: "rt_mp_free p s = Some s'"
  shows "pool_wf m s' \<and> pool_live m s' = pool_live m s - {(unat p, n)} \<and> same_bytes the_mem (pool_live m s) s s'"
proof -
  obtain a where a: "unat p = a + 4" "a \<in> in_use (the_pool s m) (the_mem s)" "n = unat (block_size (the_pool s m))"
    using l by (auto simp: pool_live_iff)
  have p: "p = of_nat (a + 4)" using a(1) by (metis of_nat_unat ucast_id)
  obtain s1 where s1: "rt_mp_free (of_nat (a + 4)) s = (case queues (kern s) (QMp m) of [] \<Rightarrow> Some s1
      | t # _ \<Rightarrow> do { k \<leftarrow> ipc_wake (QMp m) (upd_thr t (\<lambda>th. th\<lparr>terror := RT_EOK\<rparr>) (kern s)); Some (s1\<lparr>kern := k\<rparr>) })"
    "a + 4 < 2 ^ 32" "pool_wf m s1" "in_use (the_pool s1 m) (the_mem s1) = in_use (the_pool s m) (the_mem s) - {a}"
    "block_size (the_pool s1 m) = block_size (the_pool s m)" "kern s1 = kern s" "the_mem s1 = wr32 (the_mem s) a (block_list (the_pool s m))"
    using rt_mp_free_spec [OF wf a(2)] .
  have h: "hw s' = hw s1" using f s1(1) unfolding p by (auto split: list.splits bind_splits)
  have "a \<in> all_blocks (the_pool s m)" using a(2) by (simp add: in_use_def)
  then have "same_bytes the_mem (pool_live m s) s s'"
    using s1(7) data_kept [of a "the_pool s m" _ _ "the_mem s" "block_list (the_pool s m)"] by (auto simp: pool_live_def same_bytes_def in_use_def h)
  moreover have "pool_live m s' = (\<lambda>x. (x + 4, n)) ` (in_use (the_pool s m) (the_mem s) - {a})"
    unfolding pool_live_def h s1(4,5) a(3) ..
  then have "pool_live m s' = pool_live m s - {(unat p, n)}" unfolding pool_live_def a(1,3) by auto
  ultimately show ?thesis using s1(3) h by simp
qed

lemma live_header:
  assumes "a \<in> all_blocks p" "a' \<in> all_blocks p" "a + 4 \<le> x" "x < a + 4 + unat (block_size p)"
  shows "rd32 (b(x := v)) a' = rd32 b a'"
  using blocks_apart [OF assms(1,2)] assms(3,4) by (intro rd32_cong) (cases "a = a'", auto simp: unit_size_def)

lemma store_pool:
  assumes wf: "pool_wf m s" and l: "(p, n) \<in> pool_live m s" "p \<le> x" "x < p + n"
  shows "pool_wf m (put_mem ((the_mem s)(x := v)) s)" "pool_live m (put_mem ((the_mem s)(x := v)) s) = pool_live m s"
proof -
  obtain a where a: "p = a + 4" "a \<in> all_blocks (the_pool s m)" "n = unat (block_size (the_pool s m))"
    using l(1) by (auto simp: pool_live_iff in_use_def)
  note c = pool_ok_cong [OF wf, of "(the_mem s)(x := v)"] live_header [OF a(2), of _ x "the_mem s" v]
  show "pool_wf m (put_mem ((the_mem s)(x := v)) s)" "pool_live m (put_mem ((the_mem s)(x := v)) s) = pool_live m s"
    using c a l(2,3) by (simp_all add: pool_live_def)
qed

lemma untouched_pool:
  assumes wf: "pool_wf m s" and u: "untouched m s s'"
  shows "pool_wf m s'" "pool_live m s' = pool_live m s" "same_bytes the_mem (pool_live m s) s s'"
proof -
  have in_area: "i \<in> area (the_pool s m)" if "a \<in> all_blocks (the_pool s m)" "a \<le> i" "i < a + unit_size (the_pool s m)" for a i
    using block_bounds [OF that(1)] that by (simp add: area_def)
  have "rd32 (the_mem s') a = rd32 (the_mem s) a" if "a \<in> all_blocks (the_pool s m)" for a
    using u in_area [OF that] by (intro rd32_cong) (auto simp: untouched_def unit_size_def)
  then show "pool_wf m s'" "pool_live m s' = pool_live m s"
    using pool_ok_cong [OF wf, of "the_mem s'"] u by (simp_all add: pool_live_def untouched_def)
  show "same_bytes the_mem (pool_live m s) s s'"
    using u in_area by (auto simp: same_bytes_def pool_live_iff in_use_def untouched_def unit_size_def)
qed

lemma alloc_step:
  assumes wf: "pool_wf m s" and a: "mp_alloc_loop m time self s = Some (r, s')"
  shows "r = Got p \<Longrightarrow> p \<noteq> 0 \<Longrightarrow> pool_wf m s' \<and> (unat p, unat (block_size (the_pool s m))) \<notin> pool_live m s \<and>
      pool_live m s' = insert (unat p, unat (block_size (the_pool s m))) (pool_live m s) \<and> same_bytes the_mem (pool_live m s) s s'"
    "r = Got 0 \<or> r = Waits_for_block \<Longrightarrow> hw s' = hw s"
proof -
  show "r = Got p \<Longrightarrow> p \<noteq> 0 \<Longrightarrow> pool_wf m s' \<and> (unat p, unat (block_size (the_pool s m))) \<notin> pool_live m s \<and>
      pool_live m s' = insert (unat p, unat (block_size (the_pool s m))) (pool_live m s) \<and> same_bytes the_mem (pool_live m s) s s'"
    using mp_alloc_cases [OF a] take_step [OF wf] by auto
  show "hw s' = hw s" if r: "r = Got 0 \<or> r = Waits_for_block"
  proof (rule ccontr)
    assume "hw s' \<noteq> hw s"
    then have t: "mp_take m s = Some (r, s')" "block_free_count (the_pool s m) \<noteq> 0" using mp_alloc_cases [OF a] by auto
    then have "r = Got 0" using r by (auto simp: mp_take_def Let_def)
    then show False using take_step [OF wf, of 0 s'] t by simp
  qed
qed

lemma pool_step_spec:
  assumes "pool_step m s l s'" "pool_wf m s"
  shows "pool_wf m s' \<and> (case l of
      Alloc p r \<Rightarrow> (p, r) \<notin> pool_live m s \<and> pool_live m s' = insert (p, r) (pool_live m s) \<and> same_bytes the_mem (pool_live m s) s s'
    | Freed p \<Rightarrow> \<exists>n. (p, n) \<in> pool_live m s \<and> pool_live m s' = pool_live m s - {(p, n)} \<and> same_bytes the_mem (pool_live m s) s s'
    | Resized p q r \<Rightarrow> False
    | Stored a v \<Rightarrow> pool_live m s' = pool_live m s \<and> the_mem s' = (the_mem s)(a := v)
    | Quiet \<Rightarrow> pool_live m s' = pool_live m s \<and> same_bytes the_mem (pool_live m s) s s')"
  using assms
proof cases
  case (alloc time p)
  then show ?thesis using alloc_step(1) [OF assms(2)] by (simp add: rt_mp_alloc_def)
next
  case (alloc_none time r)
  then show ?thesis using alloc_step(2) [OF assms(2)] assms(2) live_hw [of s' s m] by (simp add: rt_mp_alloc_def same_bytes_def)
next
  case (resumed time start t p)
  then show ?thesis using alloc_step(1) [OF assms(2)] by (simp add: rt_mp_alloc_return_def Let_def split: if_splits)
next
  case (resumed_none time start t r)
  then have "hw s' = hw s" using alloc_step(2) [OF assms(2)] by (auto simp: rt_mp_alloc_return_def Let_def split: if_splits)
  then show ?thesis using resumed_none(1) assms(2) live_hw [of s' s m] by (simp add: same_bytes_def)
next
  case (free p n)
  then show ?thesis using free_step [OF assms(2)] by auto
next
  case (store p n a v)
  then show ?thesis using store_pool [OF assms(2)] by simp
next
  case environment
  then show ?thesis using untouched_pool [OF assms(2)] by simp
qed

interpretation pool: allocator "pool_step m" "pool_wf m" "pool_live m" the_mem for m
proof (unfold_locales, goal_cases)
  case (1 s l s') then show ?case using pool_step_spec by blast
next
  case (2 s p n q r)
  then obtain a a' where "p = a + 4" "q = a' + 4" "a \<in> all_blocks (the_pool s m)" "a' \<in> all_blocks (the_pool s m)" "a \<noteq> a'"
    "n = unat (block_size (the_pool s m))" "r = n" by (auto simp: pool_live_iff in_use_def)
  then show ?case using blocks_apart [of a "the_pool s m" a'] by (auto simp: unit_size_def)
next
  case (3 s p r s') then show ?case using pool_step_spec [OF 3(2,1)] by auto
next
  case (4 s p s') then show ?case using pool_step_spec [OF 4(2,1)] by (auto intro: same_bytes_mono)
next
  case (5 s p q r s') then show ?case using pool_step_spec [OF 5(2,1)] by auto
next
  case (6 s a v s') then show ?case using pool_step_spec [OF 6(2,1)] by auto
next
  case (7 s s') then show ?case using pool_step_spec [OF 7(2,1)] by auto
qed

section \<open>Outcomes of the calls\<close>

lemma alloc_waits:
  assumes c: "caller c (kern s)" and time: "time \<noteq> 0" "ok_time time" and n: "block_free_count (the_pool s m) = 0"
  obtains k where "rt_mp_alloc m time s = Some (Waits_for_block, s\<lparr>kern := k\<rparr>)" "kernel_wf k" "st k c = RT_THREAD_SUSPEND"
    "queues k (QMp m) = c # queues (kern s) (QMp m)"
    "time > 0 \<longrightarrow> TThread c \<in> set (timer_list k) \<and> deadline k (TThread c) = tick (kern s) + word_of_int time"
proof -
  let ?y = "no_error c (kern s)"
  note cy = callerD [OF no_error_caller [OF c]]
  have w: "is_wait (QMp m)" by simp
  obtain k where k: "block_with (QMp m) c (\<lambda>k. c # queues k (QMp m)) time ?y = Some k" "kernel_wf k" "st k c = RT_THREAD_SUSPEND"
    "\<forall>r. \<not> is_ready_q r \<longrightarrow> queues k r = (if r = QMp m then c # queues ?y (QMp m) else queues ?y r)"
    "time > 0 \<longrightarrow> TThread c \<in> set (timer_list k) \<and> deadline k (TThread c) = tick ?y + word_of_int time"
    by (rule block_with_spec [where f = "\<lambda>k. c # queues k (QMp m)" and ys = "c # queues ?y (QMp m)", OF cy(1,2,3) w time(2)]) auto
  have "RT_DEBUG_NOT_IN_INTERRUPT (kern s) = Some ()" using c by (simp add: caller_def RT_DEBUG_NOT_IN_INTERRUPT_def rt_interrupt_get_nest_def)
  then have "rt_mp_alloc m time s = Some (Waits_for_block, s\<lparr>kern := k\<rparr>)"
    using k(1) n time(1) callerD(5) [OF c] by (simp add: rt_mp_alloc_def mp_alloc_loop_def)
  then show thesis using k(2-5) by (intro that [of k]) (simp_all add: is_ready_q_def)
qed

lemma free_wakes:
  assumes wf: "kernel_wf k" "current k \<noteq> None" and q: "queues k (QMp m) = t # ts"
  obtains k' where "ipc_wake (QMp m) (upd_thr t (\<lambda>th. th\<lparr>terror := RT_EOK\<rparr>) k) = Some k'" "kernel_wf k'" "runnable (st k' t)"
    "queues k' (QMp m) = ts" "terror (thr k' t) = RT_EOK"
proof -
  let ?y = "no_error t k"
  have "kernel_wf ?y" using wf(1) by (auto intro!: kernel_wf_field_change)
  moreover have "current ?y \<noteq> None" "is_wait (QMp m)" "queues ?y (QMp m) = t # ts" using wf(2) q by simp_all
  ultimately obtain k' where k': "ipc_wake (QMp m) ?y = Some k'" "kernel_wf k'" "runnable (st k' t)"
    "\<forall>u. but_stat (thr k' u) = but_stat (thr ?y u)" "\<forall>r. \<not> is_ready_q r \<longrightarrow> queues k' r = (if r = QMp m then ts else queues ?y r)"
    by (rule ipc_wake_spec) blast
  moreover have "terror (thr k' t) = RT_EOK" using but_stat_fields(2) [OF spec [OF k'(4), of t]] by simp
  ultimately show thesis by (intro that [of k']) (simp_all add: is_ready_q_def)
qed

section \<open>Properties\<close>

text \<open>
  C38: a pool is an allocator. Over any run of its calls by any threads, of stores inside blocks in use and of activity that leaves
  the pool alone, the pool stays well formed; a block that is not freed stays in use and every byte of it holds the last value
  stored there; and two blocks in use never overlap.
\<close>

theorem pool_contents_kept:
  assumes "runs (pool_step m) s ls s'" "pool_wf m s" "(p, n) \<in> pool_live m s" "\<forall>l\<in>set ls. \<not> ends p l" "j < n"
  shows "pool_wf m s' \<and> (p, n) \<in> pool_live m s' \<and> the_mem s' (p + j) = last_stored (p + j) (the_mem s (p + j)) ls \<and>
    (\<forall>q r. (q, r) \<in> pool_live m s' \<and> (q, r) \<noteq> (p, n) \<longrightarrow> p + n < q \<or> q + r < p)"
  using pool.inv_runs [OF assms(1,2)] pool.runs_keep [OF assms(1-5)] pool.apart [of m s' p n] by auto

text \<open>
  C39: every outcome of \<open>rt_mp_alloc\<close> when a thread calls it. With a free block it returns a block that was not in use; without one
  and with time 0 it returns the null pointer and sets the error number; otherwise the caller is suspended, with its timer
  armed for a positive time, in front of all threads that wait already.
\<close>

theorem mp_alloc_outcome:
  assumes c: "caller c (kern s)" and wf: "pool_wf m s" and time: "ok_time time"
  shows "if block_free_count (the_pool s m) \<noteq> 0 then
      \<exists>p s'. rt_mp_alloc m time s = Some (Got p, s') \<and> pool_wf m s' \<and> kern s' = kern s \<and>
        (unat p, unat (block_size (the_pool s m))) \<notin> pool_live m s \<and>
        pool_live m s' = insert (unat p, unat (block_size (the_pool s m))) (pool_live m s)
    else if time = 0 then \<exists>s'. rt_mp_alloc m time s = Some (Got 0, s') \<and> hw s' = hw s \<and> terror (thr (kern s') c) = - RT_ETIMEOUT
    else \<exists>k. rt_mp_alloc m time s = Some (Waits_for_block, s\<lparr>kern := k\<rparr>) \<and> kernel_wf k \<and> st k c = RT_THREAD_SUSPEND \<and>
      queues k (QMp m) = c # queues (kern s) (QMp m) \<and>
      (time > 0 \<longrightarrow> TThread c \<in> set (timer_list k) \<and> deadline k (TThread c) = tick (kern s) + word_of_int time)"
proof (cases "block_free_count (the_pool s m) = 0")
  case False
  obtain a s' where t: "mp_take m s = Some (Got (of_nat (a + 4)), s')" "kern s' = kern s" by (rule mp_take_spec [OF wf False]) blast
  then show ?thesis using False take_step [OF wf t(1) False] by (simp add: rt_mp_alloc_def mp_alloc_loop_def)
next
  case n: True
  show ?thesis
  proof (cases "time = 0")
    case True
    have "current (kern s) = Some c" "interrupt_nest (kern s) = 0" using c by (simp_all add: caller_def)
    then show ?thesis using n True by (simp add: rt_mp_alloc_def mp_alloc_loop_def rt_set_errno_def rt_interrupt_get_nest_def)
  next
    case False
    obtain k where "rt_mp_alloc m time s = Some (Waits_for_block, s\<lparr>kern := k\<rparr>)" "kernel_wf k" "st k c = RT_THREAD_SUSPEND"
      "queues k (QMp m) = c # queues (kern s) (QMp m)"
      "time > 0 \<longrightarrow> TThread c \<in> set (timer_list k) \<and> deadline k (TThread c) = tick (kern s) + word_of_int time"
      using alloc_waits [OF c False time n] .
    then show ?thesis using n False by auto
  qed
qed

text \<open>
  C40: \<open>rt_mp_free\<close> of a block in use returns and makes exactly that block free. When threads wait, the one that began to wait last,
  which is the first of the list, becomes runnable and its call goes on; the others wait on.
\<close>

theorem mp_free_outcome:
  assumes wf: "pool_wf m s" "kernel_wf (kern s)" "current (kern s) \<noteq> None" and l: "(unat p, n) \<in> pool_live m s"
  shows "\<exists>s'. rt_mp_free p s = Some s' \<and> pool_wf m s' \<and> pool_live m s' = pool_live m s - {(unat p, n)} \<and> kernel_wf (kern s') \<and>
    (case queues (kern s) (QMp m) of
       [] \<Rightarrow> kern s' = kern s
     | t # ts \<Rightarrow> runnable (st (kern s') t) \<and> terror (thr (kern s') t) = RT_EOK \<and> queues (kern s') (QMp m) = ts)"
proof -
  obtain a where a: "unat p = a + 4" "a \<in> in_use (the_pool s m) (the_mem s)" using l by (auto simp: pool_live_iff)
  have p: "p = of_nat (a + 4)" using a(1) by (metis of_nat_unat ucast_id)
  obtain s1 where s1: "rt_mp_free p s = (case queues (kern s) (QMp m) of [] \<Rightarrow> Some s1
      | t # _ \<Rightarrow> do { k \<leftarrow> ipc_wake (QMp m) (upd_thr t (\<lambda>th. th\<lparr>terror := RT_EOK\<rparr>) (kern s)); Some (s1\<lparr>kern := k\<rparr>) })" "kern s1 = kern s"
    unfolding p by (rule rt_mp_free_spec [OF wf(1) a(2)]) blast
  have step: "pool_wf m s' \<and> pool_live m s' = pool_live m s - {(unat p, n)}" if "rt_mp_free p s = Some s'" for s'
    using free_step [OF wf(1) l that] by simp
  show ?thesis
  proof (cases "queues (kern s) (QMp m)")
    case Nil
    then have r: "rt_mp_free p s = Some s1" using s1(1) by simp
    then show ?thesis using step [OF r] Nil s1(2) wf(2) by simp
  next
    case (Cons t ts)
    obtain k where k: "ipc_wake (QMp m) (upd_thr t (\<lambda>th. th\<lparr>terror := RT_EOK\<rparr>) (kern s)) = Some k" "kernel_wf k" "runnable (st k t)"
      "queues k (QMp m) = ts" "terror (thr k t) = RT_EOK" using free_wakes [OF wf(2,3) Cons] .
    then have r: "rt_mp_free p s = Some (s1\<lparr>kern := k\<rparr>)" using s1(1) Cons by simp
    then show ?thesis using step [OF r] Cons k(2-5) by simp
  qed
qed

section \<open>A pool of two blocks\<close>

definition test_pool :: pool_io where
  "test_pool = \<lparr>kern = sample, rt_errno = 0, devs = (\<lambda>_. zero_device),
     hw = \<lparr>pools = (\<lambda>_. \<lparr>start_address = 0x20001000, mp_size = 24, block_size = 8, block_list = 0x20001000,
                           block_total_count = 2, block_free_count = 2\<rparr>),
           mem = free_list 0x20001000 12 2 (\<lambda>_. 0)\<rparr>\<rparr>"

lemma test_pool_wf: "pool_wf 7 test_pool" "pool_live 7 test_pool = {}" "block_free_count (the_pool test_pool 7) \<noteq> 0" "caller 5 (kern test_pool)"
proof -
  let ?p = "the_pool test_pool 7" and ?b = "the_mem test_pool"
  have fs: "free_blocks ?p ?b = [0x20001000, 0x2000100C]"
    using free_list_walk [of "0x20001000" 2 12 "\<lambda>_. 0"] by (simp add: free_blocks_def test_pool_def upt_rec)
  have all: "all_blocks ?p = {0x20001000, 0x2000100C}"
    by (auto simp: all_blocks_def test_pool_def unit_size_def less_2_cases_iff)
  show "pool_wf 7 test_pool" "pool_live 7 test_pool = {}"
    using fs all by (simp_all add: pool_ok_def pool_live_def in_use_def) (simp_all add: test_pool_def unit_size_def)
  show "block_free_count ?p \<noteq> 0" "caller 5 (kern test_pool)" using sample_caller by (simp_all add: test_pool_def)
qed

lemma test_pool_taken:
  obtains p :: u32 and s where "pool_wf 7 s" "pool_live 7 s = {(unat p, 8)}" "kern s = sample"
proof -
  have f: "block_size (the_pool test_pool 7) = 8" "kern test_pool = sample" by (simp_all add: test_pool_def)
  obtain a s where t: "mp_take 7 test_pool = Some (Got (of_nat (a + 4)), s)" "kern s = kern test_pool" by (rule mp_take_spec [OF test_pool_wf(1,3)]) blast
  then show thesis using take_step [OF test_pool_wf(1) t(1) test_pool_wf(3)] that [of s "of_nat (a + 4)"] test_pool_wf(2) f by simp
qed

theorem pool_contents_kept_witness:
  "\<exists>s s' p. runs (pool_step 7) s [Stored p 5] s' \<and> pool_live 7 s' = {(p, 8)} \<and> the_mem s' p = 5"
proof -
  obtain p :: u32 and s where s: "pool_wf 7 s" "pool_live 7 s = {(unat p, 8)}" by (rule test_pool_taken) blast
  let ?s' = "put_mem ((the_mem s)(unat p := 5)) s"
  have r: "runs (pool_step 7) s [Stored (unat p) 5] ?s'"
    by (rule runs_one, rule pool_step.store [where p = "unat p" and n = 8]) (simp_all add: s)
  have "the_mem ?s' (unat p + 0) = last_stored (unat p + 0) (the_mem s (unat p + 0)) [Stored (unat p) 5]"
    using pool_contents_kept [OF r s(1), of "unat p" 8 0] s(2) by simp
  then show ?thesis using r store_pool(2) [OF s(1), of "unat p" 8 "unat p" 5] s(2) by (intro exI [of _ s] exI [of _ ?s'] exI [of _ "unat p"]) simp
qed

theorem mp_alloc_outcome_witness:
  "\<exists>p s'. rt_mp_alloc 7 0 test_pool = Some (Got p, s') \<and> pool_wf 7 s' \<and> pool_live 7 s' = {(unat p, 8)}"
proof -
  have "ok_time 0" "block_size (the_pool test_pool 7) = 8" by (simp_all add: ok_time_def half_def test_pool_def)
  then show ?thesis using mp_alloc_outcome [OF test_pool_wf(4,1), of 0] test_pool_wf(2,3) by auto
qed

theorem mp_free_outcome_witness:
  "\<exists>p s s'. pool_live 7 s = {(unat p, 8)} \<and> rt_mp_free p s = Some s' \<and> pool_live 7 s' = {}"
proof -
  obtain p :: u32 and s where s: "pool_wf 7 s" "pool_live 7 s = {(unat p, 8)}" "kern s = sample" by (rule test_pool_taken)
  have "kernel_wf (kern s)" "current (kern s) \<noteq> None" using callerD(1,2) [OF test_pool_wf(4)] s(3) by (simp_all add: test_pool_def)
  then obtain s' where "rt_mp_free p s = Some s'" "pool_live 7 s' = pool_live 7 s - {(unat p, 8)}"
    using mp_free_outcome [OF s(1), of p 8] s(2) by auto
  then show ?thesis using s(2) by auto
qed

end
