(* ===== verification/Kprintf.thy ===== *)
theory Kprintf
  imports Memory "HOL-Library.Char_ord"
begin

text \<open>
  The formatted output of \<^verbatim>\<open>rt-thread/src/kservice.c\<close>, with \<open>RT_PRINTF_PRECISION\<close> and without \<open>RT_PRINTF_SPECIAL\<close> and
  \<open>RT_PRINTF_LONGLONG\<close>, as that file configures it. The formatter writes through \<open>str\<close> into a buffer that ends at
  \<open>end\<close>; \<open>str\<close> runs on behind the end, so that the length of the whole text is returned. The variable arguments are a
  list of values; a conversion that finds no argument, or one of the wrong kind, is undefined.
\<close>

section \<open>Output\<close>

text \<open>The position \<open>str\<close> and the buffer, both relative to \<open>buf\<close>; \<open>stop\<close> is \<open>end\<close>.\<close>

type_synonym outbuf = "nat \<times> (nat \<Rightarrow> char)"

definition emit :: "nat \<Rightarrow> char \<Rightarrow> outbuf \<Rightarrow> outbuf" where
  "emit stop c = (\<lambda>(str, b). (Suc str, if str < stop then b(str := c) else b))"

definition emits :: "nat \<Rightarrow> string \<Rightarrow> outbuf \<Rightarrow> outbuf" where
  "emits stop cs out = fold (emit stop) cs out"

text \<open>\<^verbatim>\<open>while (size-- > 0) { if (buf < end) *buf = c; ++buf; }\<close> with the value of \<open>size\<close> afterwards.\<close>

definition pad :: "nat \<Rightarrow> char \<Rightarrow> int \<Rightarrow> outbuf \<Rightarrow> int \<times> outbuf" where
  "pad stop c n out = (if n > 0 then - 1 else n - 1, emits stop (replicate (nat n) c) out)"

section \<open>Numbers\<close>

abbreviation ZEROPAD :: u8 where "ZEROPAD \<equiv> 1"
abbreviation SIGN :: u8 where "SIGN \<equiv> 2"
abbreviation PLUS :: u8 where "PLUS \<equiv> 4"
abbreviation SPACE :: u8 where "SPACE \<equiv> 8"
abbreviation LEFT :: u8 where "LEFT \<equiv> 16"
abbreviation SPECIAL :: u8 where "SPECIAL \<equiv> 32"
abbreviation LARGE :: u8 where "LARGE \<equiv> 64"

text \<open>\<open>divide\<close> returns the digit and the quotient; every base but 10 is treated as 16.\<close>

definition divide :: "u32 \<Rightarrow> nat \<Rightarrow> nat \<times> u32" where
  "divide n base = (if base = 10 then (unat (n mod 10), n div 10) else (unat (n mod 16), n div 16))"

definition digit_char :: "bool \<Rightarrow> nat \<Rightarrow> char" where
  "digit_char large d = (if large then ''0123456789ABCDEF'' else ''0123456789abcdef'') ! d"

lemma divide_less: "n \<noteq> 0 \<Longrightarrow> unat (snd (divide n base)) < unat n"
  by (auto simp: divide_def unat_div_distrib word_neq_0_conv [symmetric] unat_gt_0 intro!: div_less_dividend)

text \<open>The loop that fills \<open>tmp\<close>, lowest digit first.\<close>

function tmp_digits :: "bool \<Rightarrow> nat \<Rightarrow> u32 \<Rightarrow> string" where
  "tmp_digits large base num =
     (if num \<noteq> 0 then let (d, q) = divide num base in digit_char large d # tmp_digits large base q else [])"
  by pat_completeness auto
termination
proof (relation "measure (\<lambda>(l, b, n). unat n)")
  fix large :: bool and base :: nat and num :: u32 and x d q
  assume "num \<noteq> 0" "x = divide num base" "(d, q) = x"
  then show "((large, base, q), large, base, num) \<in> measure (\<lambda>(l, b, n). unat n)"
    using divide_less [of num base] by (metis case_prod_conv in_measure snd_conv)
qed simp

declare tmp_digits.simps [simp del]

text \<open>The sign and the magnitude. The negation of the smallest number wraps to itself, which \<open>divide\<close> reads unsigned.\<close>

definition sign_of :: "u8 \<Rightarrow> u32 \<Rightarrow> char option \<times> u32" where
  "sign_of type num =
     (if type AND SIGN \<noteq> 0 then
        if sint num < 0 then (Some (CHR ''-''), - num)
        else if type AND PLUS \<noteq> 0 then (Some (CHR ''+''), num)
        else if type AND SPACE \<noteq> 0 then (Some (CHR '' ''), num)
        else (None, num)
      else (None, num))"

definition tmp_of :: "bool \<Rightarrow> nat \<Rightarrow> u32 \<Rightarrow> string" where
  "tmp_of large base num = (if num = 0 then ''0'' else tmp_digits large base num)"

text \<open>The second half of \<open>print_number\<close>: the digits with their sign and padding.\<close>

definition print_field :: "nat \<Rightarrow> char option \<Rightarrow> string \<Rightarrow> int \<Rightarrow> int \<Rightarrow> u8 \<Rightarrow> outbuf \<Rightarrow> outbuf" where
  "print_field stop sign tmp s precision type out =
     (let c = (if type AND ZEROPAD \<noteq> 0 then CHR ''0'' else CHR '' '');
          i = int (length tmp);
          precision_bak = precision;
          precision = (if i > precision then i else precision);
          sz = s - precision;
          (sz, out) =
            (if type AND (ZEROPAD OR LEFT) = 0
             then pad stop CHR '' '' (if sign \<noteq> None \<and> sz > 0 then sz - 1 else sz) out
             else (sz, out));
          (sz, out) = (case sign of None \<Rightarrow> (sz, out) | Some ch \<Rightarrow> (sz - 1, emit stop ch out));
          (sz, out) = (if type AND LEFT = 0 then pad stop c sz out else (sz, out));
          out = emits stop (replicate (nat (precision - i)) CHR ''0'') out;
          out = (if precision_bak \<noteq> 0 then emits stop (rev tmp) out else out)
      in snd (pad stop CHR '' '' sz out))"

definition print_number :: "nat \<Rightarrow> u32 \<Rightarrow> nat \<Rightarrow> int \<Rightarrow> int \<Rightarrow> u8 \<Rightarrow> outbuf \<Rightarrow> outbuf" where
  "print_number stop num base s precision type out =
     (let large = type AND LARGE \<noteq> 0;
          type = (if type AND LEFT \<noteq> 0 then type AND NOT ZEROPAD else type);
          (sign, num) = sign_of type num
      in print_field stop sign (tmp_of large base num) s precision type out)"

section \<open>Formats\<close>

datatype arg = IntArg u32 | StrArg string | NullArg

definition is_digit :: "char \<Rightarrow> bool" where
  "is_digit c \<longleftrightarrow> CHR ''0'' \<le> c \<and> c \<le> CHR ''9''"

text \<open>The sum \<^verbatim>\<open>i * 10 + *((*s)++)\<close> must fit into an \<open>int\<close>; the value is undefined otherwise.\<close>

fun skip_atoi :: "int \<Rightarrow> string \<Rightarrow> (int \<times> string) option" where
  "skip_atoi i [] = Some (i, [])"
| "skip_atoi i (c # fmt) =
     (if is_digit c then if i * 10 + of_char c < 2 ^ 31 then skip_atoi (i * 10 + of_char c - 48) fmt else None
      else Some (i, c # fmt))"

text \<open>The flags behind a percent sign.\<close>

fun flags_of :: "u8 \<Rightarrow> string \<Rightarrow> u8 \<times> string" where
  "flags_of flags [] = (flags, [])"
| "flags_of flags (c # fmt) =
     (if c = CHR ''-'' then flags_of (flags OR LEFT) fmt
      else if c = CHR ''+'' then flags_of (flags OR PLUS) fmt
      else if c = CHR '' '' then flags_of (flags OR SPACE) fmt
      else if c = CHR ''#'' then flags_of (flags OR SPECIAL) fmt
      else if c = CHR ''0'' then flags_of (flags OR ZEROPAD) fmt
      else (flags, c # fmt))"

definition next_int :: "arg list \<Rightarrow> (u32 \<times> arg list) option" where
  "next_int args = (case args of IntArg w # rest \<Rightarrow> Some (w, rest) | _ \<Rightarrow> None)"

text \<open>The field width, with the flags it may change.\<close>

definition width_of :: "u8 \<Rightarrow> string \<Rightarrow> arg list \<Rightarrow> (int \<times> u8 \<times> string \<times> arg list) option" where
  "width_of flags fmt args = (case fmt of
       c # rest \<Rightarrow>
         if is_digit c then do { (w, fmt) \<leftarrow> skip_atoi 0 fmt; Some (w, flags, fmt, args) }
         else if c = CHR ''*'' then do {
           (w, args) \<leftarrow> next_int args;
           if sint w = - (2 ^ 31) then None
           else Some (if sint w < 0 then (- sint w, flags OR LEFT, rest, args) else (sint w, flags, rest, args)) }
         else Some (- 1, flags, fmt, args)
     | [] \<Rightarrow> Some (- 1, flags, [], args))"

definition precision_of :: "string \<Rightarrow> arg list \<Rightarrow> (int \<times> string \<times> arg list) option" where
  "precision_of fmt args = (case fmt of
       c # rest \<Rightarrow>
         if c = CHR ''.'' then
           (case rest of
              d # rest2 \<Rightarrow>
                if is_digit d then do { (p, fmt) \<leftarrow> skip_atoi 0 rest; Some (if p < 0 then 0 else p, fmt, args) }
                else if d = CHR ''*'' then do {
                  (w, args) \<leftarrow> next_int args;
                  Some (if sint w < 0 then 0 else sint w, rest2, args) }
                else Some (0, rest, args)
            | [] \<Rightarrow> Some (0, [], args))
         else Some (- 1, fmt, args)
     | [] \<Rightarrow> Some (- 1, [], args))"

definition qualifier_of :: "string \<Rightarrow> char option \<times> string" where
  "qualifier_of fmt = (case fmt of
       c # rest \<Rightarrow> if c = CHR ''h'' \<or> c = CHR ''l'' then (Some c, rest) else (None, fmt)
     | [] \<Rightarrow> (None, []))"

text \<open>The number an integer conversion prints.\<close>

definition int_arg :: "char option \<Rightarrow> u8 \<Rightarrow> u32 \<Rightarrow> u32" where
  "int_arg qualifier flags w =
     (if qualifier = Some CHR ''h'' then
        let num = (ucast w :: u16) in if flags AND SIGN \<noteq> 0 then scast num else ucast num
      else w)"

definition print_string :: "nat \<Rightarrow> u8 \<Rightarrow> int \<Rightarrow> int \<Rightarrow> string \<Rightarrow> outbuf \<Rightarrow> outbuf" where
  "print_string stop flags field_width precision s out =
     (let len = int (length s);
          len = (if precision > 0 \<and> len > precision then precision else len);
          (rest, out) =
            (if flags AND LEFT = 0 then pad stop CHR '' '' (field_width - len) out else (field_width - len, out));
          out = emits stop (take (nat len) s) out
      in snd (pad stop CHR '' '' rest out))"

definition print_char :: "nat \<Rightarrow> u8 \<Rightarrow> int \<Rightarrow> char \<Rightarrow> outbuf \<Rightarrow> outbuf" where
  "print_char stop flags field_width c out =
     (let (rest, out) = (if flags AND LEFT = 0 then pad stop CHR '' '' (field_width - 1) out else (field_width - 1, out))
      in snd (pad stop CHR '' '' rest (emit stop c out)))"

text \<open>The base and the flags that the integer conversions set before they break out of the switch.\<close>

definition base_of :: "char \<Rightarrow> nat" where
  "base_of c = (if c = CHR ''o'' then 8 else if c = CHR ''X'' \<or> c = CHR ''x'' then 16 else 10)"

definition int_flags :: "char \<Rightarrow> u8 \<Rightarrow> u8" where
  "int_flags c flags =
     (if c = CHR ''X'' then flags OR LARGE else if c = CHR ''d'' \<or> c = CHR ''i'' then flags OR SIGN else flags)"

text \<open>One conversion: the format behind the flags, width, precision and qualifier.\<close>

definition convert :: "nat \<Rightarrow> u8 \<Rightarrow> int \<Rightarrow> int \<Rightarrow> char option \<Rightarrow> string \<Rightarrow> arg list \<Rightarrow> outbuf \<Rightarrow> (string \<times> arg list \<times> outbuf) option" where
  "convert stop flags field_width precision qualifier fmt args out = (case fmt of
       [] \<Rightarrow> Some ([], args, emit stop CHR ''%'' out)
     | c # rest \<Rightarrow>
         if c = CHR ''c'' then do {
           (w, args) \<leftarrow> next_int args;
           Some (rest, args, print_char stop flags field_width (char_of (unat w mod 256)) out) }
         else if c = CHR ''s'' then
           (case args of
              StrArg s # args \<Rightarrow> Some (rest, args, print_string stop flags field_width precision s out)
            | NullArg # args \<Rightarrow> Some (rest, args, print_string stop flags field_width precision ''(NULL)'' out)
            | _ \<Rightarrow> None)
         else if c = CHR ''p'' then do {
           (w, args) \<leftarrow> next_int args;
           let (field_width, flags) = (if field_width = - 1 then (8, flags OR ZEROPAD) else (field_width, flags));
           Some (rest, args, print_number stop w 16 field_width precision flags out) }
         else if c = CHR ''%'' then Some (rest, args, emit stop CHR ''%'' out)
         else if c \<in> {CHR ''o'', CHR ''X'', CHR ''x'', CHR ''d'', CHR ''i'', CHR ''u''} then do {
           (w, args) \<leftarrow> next_int args;
           let flags = int_flags c flags;
           Some (rest, args, print_number stop (int_arg qualifier flags w) (base_of c) field_width precision flags out) }
         else Some (rest, args, emit stop c (emit stop CHR ''%'' out)))"

definition conversion :: "nat \<Rightarrow> string \<Rightarrow> arg list \<Rightarrow> outbuf \<Rightarrow> (string \<times> arg list \<times> outbuf) option" where
  "conversion stop fmt args out = do {
     let (flags, fmt) = flags_of 0 fmt;
     (field_width, flags, fmt, args) \<leftarrow> width_of flags fmt args;
     (precision, fmt, args) \<leftarrow> precision_of fmt args;
     let (qualifier, fmt) = qualifier_of fmt;
     convert stop flags field_width precision qualifier fmt args out }"

section \<open>The text of a format\<close>

text \<open>Whatever is printed is a text that depends neither on the position in the buffer nor on its end.\<close>

lemma emits_Nil [simp]: "emits stop [] out = out"
  by (simp add: emits_def)

lemma emits_append [simp]: "emits stop (xs @ ys) out = emits stop ys (emits stop xs out)"
  by (simp add: emits_def)

lemma emits_Cons: "emits stop (c # cs) out = emits stop cs (emit stop c out)"
  by (simp add: emits_def)

lemma emit_emits: "emit stop c out = emits stop [c] out"
  by (simp add: emits_def)

lemma emits_eq:
  "emits stop cs (n, b) = (n + length cs, \<lambda>i. if n \<le> i \<and> i < n + length cs \<and> i < stop then cs ! (i - n) else b i)"
proof (induction cs arbitrary: n b)
  case Nil
  then show ?case by (auto simp: fun_eq_iff)
next
  case (Cons c cs)
  have "emits stop (c # cs) (n, b) = emits stop cs (Suc n, if n < stop then b(n := c) else b)" by (simp add: emits_def emit_def)
  then show ?case unfolding Cons.IH by (auto simp: fun_eq_iff nth_Cons')
qed

definition field_text :: "char option \<Rightarrow> string \<Rightarrow> int \<Rightarrow> int \<Rightarrow> bool \<Rightarrow> bool \<Rightarrow> string" where
  "field_text sign tmp s precision zero left =
     (let sg = (case sign of None \<Rightarrow> [] | Some ch \<Rightarrow> [ch]);
          body = replicate (nat precision - length tmp) CHR ''0'' @ (if precision \<noteq> 0 then rev tmp else []);
          fill = nat (s - max (int (length tmp)) precision) - length sg
      in if left then sg @ body @ replicate fill CHR '' ''
         else if zero then sg @ replicate fill CHR ''0'' @ body
         else replicate fill CHR '' '' @ sg @ body)"

lemma snd_pad: "snd (pad stop c n out) = emits stop (replicate (nat n) c) out"
  by (simp add: pad_def)

lemma fst_pad: "nat (fst (pad stop c n out)) = 0" "nat (fst (pad stop c n out) - 1) = 0"
  by (simp_all add: pad_def)

lemma print_field_text:
  "print_field stop sign tmp s precision type out =
     emits stop (field_text sign tmp s precision (type AND ZEROPAD \<noteq> 0) (type AND LEFT \<noteq> 0)) out"
  if "type AND LEFT \<noteq> 0 \<longrightarrow> type AND ZEROPAD = 0"
proof -
  have "type AND (ZEROPAD OR LEFT) = 0 \<longleftrightarrow> type AND ZEROPAD = 0 \<and> type AND LEFT = 0"
    by (metis (no_types, opaque_lifting) bit.conj_disj_distrib bit.disj_zero_right or_eq_0_iff)
  then have both: "type AND 17 = 0 \<longleftrightarrow> type AND ZEROPAD = 0 \<and> type AND LEFT = 0" by simp
  have m: "(if int (length tmp) > precision then int (length tmp) else precision) = max (int (length tmp)) precision"
    and m0: "(if tmp \<noteq> [] then int (length tmp) else 0) = int (length tmp)"
    and z: "nat (max (int (length tmp)) precision - int (length tmp)) = nat precision - length tmp" by simp_all
  have f: "nat (x - 1) = nat x - Suc 0" "nat (if 0 < x then x - 1 else x) = nat x - Suc 0" for x :: int by auto
  show ?thesis
    using that
    by (cases "type AND LEFT = 0"; cases "type AND ZEROPAD = 0"; cases sign; cases "precision = 0")
      (simp_all add: print_field_def field_text_def both Let_def split_beta snd_pad fst_pad emits_Cons m m0 z f split del: if_split)
qed

lemma print_number_text:
  "print_number stop num base s precision type out =
     emits stop (field_text (fst (sign_of type num)) (tmp_of (type AND LARGE \<noteq> 0) base (snd (sign_of type num))) s precision
       (type AND LEFT = 0 \<and> type AND ZEROPAD \<noteq> 0) (type AND LEFT \<noteq> 0)) out"
proof -
  define ty where "ty = type AND NOT ZEROPAD"
  have keep: "ty AND SIGN = type AND SIGN" "ty AND PLUS = type AND PLUS" "ty AND SPACE = type AND SPACE"
    "ty AND LEFT = type AND LEFT" "ty AND ZEROPAD = 0"
    by (simp_all add: ty_def and.assoc)
  then have "sign_of ty num = sign_of type num" by (simp add: sign_of_def)
  with keep show ?thesis
    unfolding print_number_def ty_def [symmetric] by (simp add: print_field_text split_beta Let_def)
qed

definition string_text :: "u8 \<Rightarrow> int \<Rightarrow> int \<Rightarrow> string \<Rightarrow> string" where
  "string_text flags w precision s =
     (let body = (if precision > 0 then take (nat precision) s else s);
          fill = replicate (nat (w - int (length body))) CHR '' ''
      in if flags AND LEFT = 0 then fill @ body else body @ fill)"

lemma print_string_text: "print_string stop flags w precision s out = emits stop (string_text flags w precision s) out"
  by (auto simp: print_string_def string_text_def Let_def pad_def min_def)

lemma print_char_text: "print_char stop flags w c out = emits stop (string_text flags w (- 1) [c]) out"
  by (auto simp: print_char_def string_text_def Let_def pad_def emit_emits simp flip: emits_append)

definition prints :: "nat \<Rightarrow> (nat \<Rightarrow> outbuf \<Rightarrow> (string \<times> arg list \<times> outbuf) option) \<Rightarrow> bool" where
  "prints n f \<longleftrightarrow> (\<forall>stop out. f stop out = None) \<or>
     (\<exists>fmt args t. length fmt \<le> n \<and> (\<forall>stop out. f stop out = Some (fmt, args, emits stop t out)))"

lemma prints_None [intro, simp]: "prints n (\<lambda>stop out. None)"
  by (simp add: prints_def)

lemma prints_Some: "length fmt \<le> n \<Longrightarrow> (\<And>stop out. g stop out = emits stop t out) \<Longrightarrow> prints n (\<lambda>stop out. Some (fmt, args, g stop out))"
  by (auto simp: prints_def)

lemma skip_atoi_length: "skip_atoi i fmt = Some (n, fmt') \<Longrightarrow> length fmt' \<le> length fmt"
  by (induction i fmt rule: skip_atoi.induct) (auto split: if_splits)

lemma flags_of_length: "length (snd (flags_of f fmt)) \<le> length fmt"
  by (induction f fmt rule: flags_of.induct) auto

lemma width_of_length: "width_of f fmt args = Some (w, f', fmt', args') \<Longrightarrow> length fmt' \<le> length fmt"
  by (auto simp: width_of_def split: list.splits if_splits bind_splits dest!: skip_atoi_length)

lemma precision_of_length: "precision_of fmt args = Some (p, fmt', args') \<Longrightarrow> length fmt' \<le> length fmt"
  by (auto simp: precision_of_def split: list.splits if_splits bind_splits dest!: skip_atoi_length)

lemma qualifier_of_length: "length (snd (qualifier_of fmt)) \<le> length fmt"
  by (auto simp: qualifier_of_def split: list.splits)

lemma args_cases:
  obtains "args = []" | w rest where "args = IntArg w # rest" | t rest where "args = StrArg t # rest" | rest where "args = NullArg # rest"
proof (cases args)
  case (Cons a rest)
  then show thesis using that by (cases a) simp_all
qed (rule that)

lemma convert_prints: "prints (length fmt) (\<lambda>stop out. convert stop f w p q fmt args out)"
proof (cases fmt)
  case Nil
  then show ?thesis unfolding convert_def by (simp add: prints_Some emit_emits)
next
  case (Cons c rest)
  define ints where "ints = {CHR ''o'', CHR ''X'', CHR ''x'', CHR ''d'', CHR ''i'', CHR ''u''}"
  consider "c = CHR ''c''" | "c = CHR ''s''" | "c = CHR ''p''" | "c = CHR ''%''" | "c \<in> ints"
    | "c \<notin> ints" "c \<noteq> CHR ''c''" "c \<noteq> CHR ''s''" "c \<noteq> CHR ''p''" "c \<noteq> CHR ''%''"
    by argo
  then show ?thesis
  proof cases
    case 1
    with Cons show ?thesis
      by (cases "next_int args") (auto simp: convert_def print_char_text intro!: prints_Some)
  next
    case 2
    with Cons show ?thesis
    by (cases args rule: args_cases) (simp_all add: convert_def print_string_text prints_Some)
  next
    case 3
    with Cons show ?thesis
      by (cases "next_int args") (auto simp: convert_def Let_def print_number_text intro!: prints_Some)
  next
    case 4
    with Cons show ?thesis by (simp add: convert_def prints_Some emit_emits)
  next
    case 5
    then have "c \<notin> {CHR ''c'', CHR ''s'', CHR ''p'', CHR ''%''}" by (auto simp: ints_def)
    with 5 [unfolded ints_def] Cons show ?thesis
      by (cases "next_int args") (simp_all add: convert_def Let_def split_beta print_number_text prints_Some)
  next
    case 6
    with Cons show ?thesis by (simp add: convert_def ints_def prints_Some emit_emits flip: emits_append)
  qed
qed

lemma conversion_prints: "prints (length fmt) (\<lambda>stop out. conversion stop fmt args out)"
proof -
  obtain f fmt1 where 1: "flags_of 0 fmt = (f, fmt1)" by (cases "flags_of 0 fmt")
  show ?thesis
  proof (cases "width_of f fmt1 args \<bind> (\<lambda>(w, f, fmt, args). precision_of fmt args)")
    case None
    with 1 show ?thesis by (cases "width_of f fmt1 args") (auto simp: conversion_def)
  next
    case (Some r)
    then obtain w f2 fmt2 args2 p fmt3 args3
      where 2: "width_of f fmt1 args = Some (w, f2, fmt2, args2)" and 3: "precision_of fmt2 args2 = Some (p, fmt3, args3)"
      by (cases "width_of f fmt1 args"; cases r) auto
    obtain q fmt4 where 4: "qualifier_of fmt3 = (q, fmt4)" by (cases "qualifier_of fmt3")
    have "conversion stop fmt args out = convert stop f2 w p q fmt4 args3 out" for stop out
      using 1 2 3 4 by (simp add: conversion_def)
    moreover have "length fmt4 \<le> length fmt"
      using flags_of_length [of 0 fmt] width_of_length [OF 2] precision_of_length [OF 3] qualifier_of_length [of fmt3] 1 4 by simp
    ultimately show ?thesis using convert_prints [of fmt4 f2 w p q args3] by (fastforce simp: prints_def)
  qed
qed

lemma conversion_length: "conversion stop fmt args out = Some (fmt', args', out') \<Longrightarrow> length fmt' \<le> length fmt"
  using conversion_prints [of fmt args] by (cases out) (fastforce simp: prints_def)

section \<open>The formatter\<close>

function (sequential) vformat :: "nat \<Rightarrow> string \<Rightarrow> arg list \<Rightarrow> outbuf \<Rightarrow> outbuf option" where
  "vformat stop [] args out = Some out"
| "vformat stop (c # fmt) args out =
     (if c \<noteq> CHR ''%'' then vformat stop fmt args (emit stop c out)
      else case conversion stop fmt args out of
          None \<Rightarrow> None
        | Some (fmt', args', out') \<Rightarrow> vformat stop fmt' args' out')"
  by pat_completeness auto
termination by (relation "measure (\<lambda>(stop, fmt, args, out). length fmt)") (auto dest: conversion_length)

text \<open>The end of the buffer, relative to its start, with the guard against an address overflow.\<close>

definition end_of :: "u32 \<Rightarrow> u32 \<Rightarrow> nat" where
  "end_of buf sz = (if buf + sz < buf then unat (- 1 - buf) else unat sz)"

definition rt_vsnprintf :: "u32 \<Rightarrow> u32 \<Rightarrow> string \<Rightarrow> arg list \<Rightarrow> (nat \<Rightarrow> char) \<Rightarrow> (nat \<times> (nat \<Rightarrow> char)) option" where
  "rt_vsnprintf buf sz fmt args b = do {
     let stop = end_of buf sz;
     (str, b) \<leftarrow> vformat stop fmt args (0, b);
     Some (str, if stop > 0 then if str < stop then b(str := CHR 0x00) else b(stop - 1 := CHR 0x00) else b) }"

definition rt_snprintf :: "u32 \<Rightarrow> u32 \<Rightarrow> string \<Rightarrow> arg list \<Rightarrow> (nat \<Rightarrow> char) \<Rightarrow> (nat \<times> (nat \<Rightarrow> char)) option" where
  "rt_snprintf buf sz fmt args b = rt_vsnprintf buf sz fmt args b"

definition rt_vsprintf :: "u32 \<Rightarrow> string \<Rightarrow> arg list \<Rightarrow> (nat \<Rightarrow> char) \<Rightarrow> (nat \<times> (nat \<Rightarrow> char)) option" where
  "rt_vsprintf buf fmt args b = rt_vsnprintf buf (- 1) fmt args b"

definition rt_sprintf :: "u32 \<Rightarrow> string \<Rightarrow> arg list \<Rightarrow> (nat \<Rightarrow> char) \<Rightarrow> (nat \<times> (nat \<Rightarrow> char)) option" where
  "rt_sprintf buf fmt args b = rt_vsprintf buf fmt args b"


lemma vformat_text:
  "(\<forall>stop out. vformat stop fmt args out = None) \<or> (\<exists>t. \<forall>stop out. vformat stop fmt args out = Some (emits stop t out))"
proof (induction fmt arbitrary: args rule: length_induct)
  case (1 fmt)
  show ?case
  proof (cases fmt)
    case Nil
    then show ?thesis by (intro disjI2 exI [of _ "[]"]) simp
  next
    case (Cons c rest)
    note IH = 1 [rule_format, unfolded Cons, simplified]
    show ?thesis
    proof (cases "c = CHR ''%''")
      case False
      from IH [OF lessI, of args] show ?thesis
      proof
        assume "\<exists>t. \<forall>stop a b. vformat stop rest args (a, b) = Some (emits stop t (a, b))"
        then obtain t where "\<And>stop out. vformat stop rest args out = Some (emits stop t out)" by auto
        then have "\<forall>stop out. vformat stop fmt args out = Some (emits stop (c # t) out)"
          using Cons False by (simp add: emits_Cons del: split_paired_All)
        then show ?thesis by blast
      next
        assume "\<forall>stop a b. vformat stop rest args (a, b) = None"
        then have "vformat stop rest args out = None" for stop out by (cases out) simp
        then show ?thesis using Cons False by simp
      qed
    next
      case True
      from conversion_prints [of rest args] consider "\<And>stop out. conversion stop rest args out = None"
        | fmt' args' t where "length fmt' \<le> length rest" "\<And>stop out. conversion stop rest args out = Some (fmt', args', emits stop t out)"
        unfolding prints_def by blast
      then show ?thesis
      proof cases
        case 1
        with Cons True show ?thesis by simp
      next
        case 2
        from IH [of fmt' args'] 2(1) consider "\<And>stop out. vformat stop fmt' args' out = None"
          | u where "\<And>stop out. vformat stop fmt' args' out = Some (emits stop u out)" by fastforce
        then show ?thesis
        proof cases
          case 1
          with 2 Cons True show ?thesis by (simp del: split_paired_All)
        next
          case (2 u)
          then have "\<forall>stop out. vformat stop fmt args out = Some (emits stop (t @ u) out)"
            using \<open>\<And>stop out. conversion stop rest args out = _\<close> Cons True by (simp del: split_paired_All)
          then show ?thesis by blast
        qed
      qed
    qed
  qed
qed

text \<open>What a buffer of \<open>stop\<close> characters holds after the text \<open>t\<close>: as much of it as fits, a terminator, and what it held before.\<close>

definition stored :: "nat \<Rightarrow> string \<Rightarrow> (nat \<Rightarrow> char) \<Rightarrow> nat \<Rightarrow> char" where
  "stored stop t b i =
     (if stop \<le> i then b i
      else if i = min (length t) (stop - 1) then CHR 0x00
      else if i < length t then t ! i else b i)"

lemma rt_vsnprintf_stored:
  "vformat (end_of buf sz) fmt args (0, b) = Some (emits (end_of buf sz) t (0, b)) \<Longrightarrow>
   rt_vsnprintf buf sz fmt args b = Some (length t, stored (end_of buf sz) t b)"
  by (auto simp: rt_vsnprintf_def emits_eq stored_def fun_eq_iff Let_def)

lemma end_of_le: "end_of buf sz \<le> unat sz" "unat buf + end_of buf sz < 2 ^ 32"
proof -
  have "unat (- 1 - buf) = 2 ^ 32 - 1 - unat buf" by (simp add: unat_sub unsigned_minus_1_eq_mask mask_eq_exp_minus_1)
  moreover have "buf + sz < buf \<longleftrightarrow> 2 ^ 32 \<le> unat buf + unat sz"
    using no_olen_add_nat [of buf sz] by (auto simp: not_less)
  moreover have "unat buf < 2 ^ LENGTH(32)" by (rule unsigned_less)
  ultimately show "end_of buf sz \<le> unat sz" "unat buf + end_of buf sz < 2 ^ 32"
    by (auto simp: end_of_def)
qed


section \<open>Decimal numbers\<close>

text \<open>The number that a text denotes.\<close>

definition digits_value :: "string \<Rightarrow> nat" where
  "digits_value = foldl (\<lambda>n c. n * 10 + (of_char c - 48)) 0"

fun decimal :: "string \<Rightarrow> int" where
  "decimal [] = 0"
| "decimal (c # cs) = (if c = CHR ''-'' then - int (digits_value cs) else int (digits_value (c # cs)))"

lemma digit_char_value: "d < 10 \<Longrightarrow> of_char (digit_char l d) = (48 + d :: nat) \<and> is_digit (digit_char l d)"
proof -
  have "\<forall>l. \<forall>d\<in>set [0..<10]. of_char (digit_char l d) = (48 + d :: nat) \<and> is_digit (digit_char l d)" by code_simp
  then show "d < 10 \<Longrightarrow> ?thesis" by simp
qed

lemma tmp_digits_0 [simp]: "tmp_digits l base 0 = []"
  by (simp add: tmp_digits.simps)

lemma digits_value_snoc: "digits_value (cs @ [c]) = digits_value cs * 10 + (of_char c - 48)"
  by (simp add: digits_value_def)

lemma digits_value_tmp: "digits_value (rev (tmp_digits l 10 n)) = unat n"
proof (induction "unat n" arbitrary: n rule: less_induct)
  case less
  show ?case
  proof (cases "n = 0")
    case True
    then show ?thesis by (simp add: digits_value_def)
  next
    case False
    have "unat (n div 10) < unat n" using divide_less [of n 10] False by (simp add: divide_def)
    then have "digits_value (rev (tmp_digits l 10 (n div 10))) = unat n div 10" using less by (simp add: unat_div)
    then show ?thesis
      using False digit_char_value [of "unat n mod 10" l]
      by (simp add: tmp_digits.simps [of _ _ n] divide_def digits_value_snoc unat_mod)
  qed
qed

lemma tmp_digits_all: "set (tmp_digits l 10 n) \<subseteq> {c. is_digit c}"
proof (induction "unat n" arbitrary: n rule: less_induct)
  case less
  then show ?case
    using divide_less [of n 10] digit_char_value [of "unat n mod 10" l]
    by (subst tmp_digits.simps) (auto simp: divide_def unat_mod)
qed

text \<open>The array \<open>tmp\<close> of \<open>print_number\<close> has 16 elements.\<close>

lemma tmp_digits_length: "unat n < 10 ^ k \<Longrightarrow> length (tmp_digits l base n) \<le> k"
proof (induction k arbitrary: n)
  case 0
  then show ?case by (simp add: unat_eq_0)
next
  case (Suc k)
  have "unat (snd (divide n base)) < 10 ^ k"
    using Suc.prems by (auto simp: divide_def unat_div less_mult_imp_div_less)
  from Suc.IH [OF this] show ?case by (subst tmp_digits.simps) (simp add: split_beta)
qed

lemma tmp_digits_lead: "n \<noteq> 0 \<Longrightarrow> last (tmp_digits l 10 n) \<noteq> CHR ''0''"
proof (induction "unat n" arbitrary: n rule: less_induct)
  case less
  show ?case
  proof (cases "n div 10 = 0")
    case True
    moreover have "unat n div 10 = unat (n div 10)" by (simp add: unat_div)
    ultimately have "unat n < 10" by simp
    then show ?thesis
      using less.prems digit_char_value [of "unat n" l] True
      by (auto simp: tmp_digits.simps [of _ _ n] divide_def unat_mod unat_eq_0)
  next
    case False
    then have "last (tmp_digits l 10 (n div 10)) \<noteq> CHR ''0''"
      using less divide_less [of n 10] by (simp add: divide_def)
    moreover have "tmp_digits l 10 (n div 10) \<noteq> []" using False by (subst tmp_digits.simps) (simp add: split_beta)
    ultimately show ?thesis using less.prems by (simp add: tmp_digits.simps [of _ _ n] divide_def)
  qed
qed

lemma sign_magnitude:
  "sint (w :: u32) < 0 \<Longrightarrow> uint (- w) = - sint w" "\<not> sint w < 0 \<Longrightarrow> uint w = sint w"
proof -
  have b: "- (2 ^ 31) \<le> sint w" "sint w < 2 ^ 31" using sint_ge [of w] sint_lt [of w] by simp_all
  have "uint (- w) = (- sint w) mod 2 ^ 32" using uint_word_of_int [of "- sint w", where 'a = 32] by simp
  with b show "sint w < 0 \<Longrightarrow> uint (- w) = - sint w" by simp
  from b show "\<not> sint w < 0 \<Longrightarrow> uint w = sint w" by (simp add: uint_sint take_bit_eq_mod)
qed

text \<open>The text of a number in decimal, as \<^verbatim>\<open>%d\<close> prints it.\<close>

definition decimal_text :: "u32 \<Rightarrow> string" where
  "decimal_text w = (if sint w < 0 then ''-'' else []) @ rev (tmp_of False 10 (if sint w < 0 then - w else w))"

lemma tmp_of_digits: "set (tmp_of l 10 n) \<subseteq> {c. is_digit c}" "tmp_of l 10 n \<noteq> []" "length (tmp_of l base n) \<le> 10"
proof -
  have "unat n < 2 ^ LENGTH(32)" by (rule unsigned_less)
  then show "length (tmp_of l base n) \<le> 10" using tmp_digits_length [of n 10] by (simp add: tmp_of_def)
  show "set (tmp_of l 10 n) \<subseteq> {c. is_digit c}"
    using tmp_digits_all [of l n] by (simp add: tmp_of_def is_digit_def)
  show "tmp_of l 10 n \<noteq> []" using tmp_digits.simps [of l 10 n] by (simp add: tmp_of_def split_beta)
qed

lemma digits_value_tmp_of: "digits_value (rev (tmp_of l 10 n)) = unat n"
  by (simp add: tmp_of_def digits_value_tmp) (simp add: digits_value_def)

lemma decimal_text_value: "decimal (decimal_text w) = sint w"
proof (cases "sint w < 0")
  case True
  then show ?thesis by (simp add: decimal_text_def digits_value_tmp_of sign_magnitude(1))
next
  case False
  obtain c cs where c: "rev (tmp_of False 10 w) = c # cs" using tmp_of_digits(2) [of False w] by (cases "rev (tmp_of False 10 w)") auto
  then have "is_digit c" using tmp_of_digits(1) [of False w] by (metis list.set_intros(1) mem_Collect_eq set_rev subsetD)
  then have "c \<noteq> CHR ''-''" by (auto simp: is_digit_def)
  with c have "decimal (c # cs) = uint w" using digits_value_tmp_of [of False w] by simp
  then show ?thesis using False c by (simp add: decimal_text_def sign_magnitude(2))
qed

lemmas conversion_defs = conversion_def width_of_def precision_of_def qualifier_of_def convert_def next_int_def int_flags_def base_of_def
  int_arg_def is_digit_def

lemma vformat_d_more: "vformat stop (''%d'' @ fmt) (IntArg w # args) out = vformat stop fmt args (emits stop (decimal_text w) out)"
  by (simp add: conversion_defs print_number_text sign_of_def field_text_def decimal_text_def)

lemma vformat_s_more: "vformat stop (''%s'' @ fmt) (StrArg t # args) out = vformat stop fmt args (emits stop t out)"
  by (simp add: conversion_defs print_string_text string_text_def)

lemma vformat_d: "vformat stop ''%d'' [IntArg w] out = Some (emits stop (decimal_text w) out)"
  using vformat_d_more [of stop "[]" w "[]" out] by simp

lemma decimal_text_digit: "d < 10 \<Longrightarrow> decimal_text (of_nat d) = [digit_char False d]"
proof -
  have "\<forall>d\<in>set [0..<10]. decimal_text (of_nat d) = [digit_char False d]" by code_simp
  then show "d < 10 \<Longrightarrow> ?thesis" by simp
qed

text \<open>
  C28: \<^verbatim>\<open>%d\<close> prints the decimal representation of its argument: the text reads back as the signed number, has no
  leading zero and at most 11 characters, for every argument, the smallest negative number included.
\<close>

theorem snprintf_decimal:
  "rt_snprintf buf sz ''%d'' [IntArg w] b = Some (length (decimal_text w), stored (end_of buf sz) (decimal_text w) b) \<and>
   decimal (decimal_text w) = sint w \<and>
   (\<exists>ds. decimal_text w = (if sint w < 0 then ''-'' else []) @ ds \<and> ds \<noteq> [] \<and> set ds \<subseteq> {c. is_digit c} \<and>
      (ds = ''0'' \<or> hd ds \<noteq> CHR ''0'')) \<and>
   length (decimal_text w) \<le> 11"
proof (intro conjI)
  let ?m = "if sint w < 0 then - w else w"
  show "rt_snprintf buf sz ''%d'' [IntArg w] b = Some (length (decimal_text w), stored (end_of buf sz) (decimal_text w) b)"
    unfolding rt_snprintf_def by (rule rt_vsnprintf_stored) (rule vformat_d)
  have "tmp_of False 10 ?m = ''0'' \<or> last (tmp_of False 10 ?m) \<noteq> CHR ''0''"
    using tmp_digits_lead [of ?m False] by (simp add: tmp_of_def)
  then have "rev (tmp_of False 10 ?m) = ''0'' \<or> hd (rev (tmp_of False 10 ?m)) \<noteq> CHR ''0''"
    by (metis hd_rev rev_singleton_conv)
  then show "\<exists>ds. decimal_text w = (if sint w < 0 then ''-'' else []) @ ds \<and> ds \<noteq> [] \<and> set ds \<subseteq> {c. is_digit c} \<and>
      (ds = ''0'' \<or> hd ds \<noteq> CHR ''0'')"
    using tmp_of_digits(1,2) [of False ?m] unfolding decimal_text_def by (metis rev_is_Nil_conv set_rev)
  show "length (decimal_text w) \<le> 11" using tmp_of_digits(3) [of False 10 w] tmp_of_digits(3) [of False 10 "- w"]
    by (simp add: decimal_text_def)
qed (rule decimal_text_value)

text \<open>The smallest negative number in a buffer of 16 bytes.\<close>

theorem snprintf_decimal_witness:
  "rt_snprintf 0x20000000 16 ''%d'' [IntArg 0x80000000] (\<lambda>_. CHR 0x00) =
     Some (11, stored 16 ''-2147483648'' (\<lambda>_. CHR 0x00)) \<and> decimal ''-2147483648'' = - 2147483648"
proof -
  have dtext: "decimal_text 0x80000000 = ''-2147483648''" by code_simp
  have "sint (0x80000000 :: 32 word) = - 2147483648" "end_of 0x20000000 16 = 16" by (code_simp, code_simp)
  then show ?thesis using snprintf_decimal [of "0x20000000" 16 "0x80000000" "\<lambda>_. CHR 0x00"] by (simp add: dtext)
qed

text \<open>\<^verbatim>\<open>%o\<close> prints hexadecimal digits, because \<open>divide\<close> knows only the bases 10 and 16.\<close>

lemma tmp_digits_octal: "tmp_digits l 8 n = tmp_digits l 16 n"
proof (induction "unat n" arbitrary: n rule: less_induct)
  case less
  have "tmp_digits l 8 (n div 16) = tmp_digits l 16 (n div 16)" if "n \<noteq> 0"
    using less [of "n div 16"] divide_less [of n 16] that by (simp add: divide_def)
  then show ?case by (simp add: tmp_digits.simps [of _ _ n] divide_def)
qed

lemma octal_prints_hex: "vformat stop ''%o'' [IntArg w] out = vformat stop ''%x'' [IntArg w] out"
  by (simp add: conversion_def width_of_def precision_of_def qualifier_of_def convert_def next_int_def int_flags_def base_of_def
      int_arg_def print_number_text is_digit_def tmp_of_def tmp_digits_octal)

text \<open>With a precision of 0 only the sign of a number is printed, although the number is not 0.\<close>

lemma zero_precision_drops_digits:
  "vformat stop ''%.0d'' [IntArg w] out = Some (emits stop (if sint w < 0 then ''-'' else []) out)"
  by (simp add: conversion_def width_of_def precision_of_def qualifier_of_def convert_def next_int_def int_flags_def base_of_def
      int_arg_def print_number_text sign_of_def field_text_def is_digit_def)

end
