(* ===== verification/Nca9555.thy ===== *)
theory Nca9555
  imports Device Kprintf
begin

text \<open>
  The driver of the NCA9555 port expanders, \<^verbatim>\<open>drivers/drv_i2c_nca9555.c\<close>. An expander has 16 pins, in two ports of eight,
  and four pairs of registers: the levels of the pins, the levels of the outputs, the polarity of the inputs and the
  directions. The driver is a device whose buffer argument is the name of a pin, such as \<^verbatim>\<open>IO1_3\<close>.

  What the chips on a bus answer is not program text: the transfer of messages over a bus is the argument \<open>xfer\<close>
  (\<open>rt_i2c_transfer\<close>), a function of the state of the hardware to the number of transferred messages, the message
  buffers afterwards and the new state. A transfer over a null pointer is undefined.
\<close>

section \<open>Messages and devices\<close>

record i2c_msg =
  msg_addr :: u16
  msg_flags :: u16
  msg_buf :: "u8 list"

definition RT_I2C_WR :: u16 where "RT_I2C_WR = 0x0000"
definition RT_I2C_RD :: u16 where "RT_I2C_RD = 1"
definition RT_I2C_NO_START :: u16 where "RT_I2C_NO_START = 0x10"

type_synonym 'h xfer = "nat \<Rightarrow> i2c_msg list \<Rightarrow> 'h \<Rightarrow> int \<times> u8 list list \<times> 'h"

record nca9555_device =
  i2c_bus :: "nat option"
  nca_addr :: u8

record 'h nca_hw =
  ncas :: "nat \<Rightarrow> nca9555_device"
  chips :: 'h

type_synonym 'h nca_io = "'h nca_hw io"

definition REGISTER_0_INPUT_PORT :: u8 where "REGISTER_0_INPUT_PORT = 0"
definition REGISTER_0_OUTPUT_PORT :: u8 where "REGISTER_0_OUTPUT_PORT = 2"
definition REGISTER_0_POLARITY_INVERSION_PORT :: u8 where "REGISTER_0_POLARITY_INVERSION_PORT = 4"
definition REGISTER_0_CONFIGURATION_PORT :: u8 where "REGISTER_0_CONFIGURATION_PORT = 6"

lemmas register_defs = REGISTER_0_INPUT_PORT_def REGISTER_0_OUTPUT_PORT_def REGISTER_0_POLARITY_INVERSION_PORT_def
  REGISTER_0_CONFIGURATION_PORT_def

definition OUTPUT :: int where "OUTPUT = 0"
definition INPUT :: int where "INPUT = 1"
definition INVERT :: int where "INVERT = 2"

text \<open>The two messages of a read and of a write, and the result of both.\<close>

definition nca9555_read_data ::
    "'h xfer \<Rightarrow> nca9555_device \<Rightarrow> u8 \<Rightarrow> nat \<Rightarrow> u8 list \<Rightarrow> 'h \<Rightarrow> (rt_err_t \<times> u8 list \<times> 'h) option" where
  "nca9555_read_data xfer dev reg len buf h = do {
     bus \<leftarrow> i2c_bus dev;
     let (n, bufs, h) = xfer bus
       [\<lparr>msg_addr = ucast (nca_addr dev), msg_flags = RT_I2C_WR, msg_buf = [reg]\<rparr>,
        \<lparr>msg_addr = ucast (nca_addr dev), msg_flags = RT_I2C_RD, msg_buf = take len buf\<rparr>] h;
     Some (if n = 2 then RT_EOK else - RT_ERROR, bufs ! 1 @ drop len buf, h) }"

definition nca9555_write_data ::
    "'h xfer \<Rightarrow> nca9555_device \<Rightarrow> u8 \<Rightarrow> nat \<Rightarrow> u8 list \<Rightarrow> 'h \<Rightarrow> (rt_err_t \<times> 'h) option" where
  "nca9555_write_data xfer dev reg len buf h = do {
     bus \<leftarrow> i2c_bus dev;
     let (n, bufs, h) = xfer bus
       [\<lparr>msg_addr = ucast (nca_addr dev), msg_flags = RT_I2C_WR, msg_buf = [reg]\<rparr>,
        \<lparr>msg_addr = ucast (nca_addr dev), msg_flags = RT_I2C_WR OR RT_I2C_NO_START, msg_buf = take len buf\<rparr>] h;
     Some (if n = 2 then RT_EOK else - RT_ERROR, h) }"

section \<open>Pins\<close>

definition pin_list :: "(string \<times> nat) list" where
  "pin_list =
     [(''IO0_0'', 0), (''IO0_1'', 1), (''IO0_2'', 2), (''IO0_3'', 3), (''IO0_4'', 4), (''IO0_5'', 5), (''IO0_6'', 6), (''IO0_7'', 7),
      (''IO1_0'', 8), (''IO1_1'', 9), (''IO1_2'', 10), (''IO1_3'', 11), (''IO1_4'', 12), (''IO1_5'', 13), (''IO1_6'', 14), (''IO1_7'', 15)]"

text \<open>\<^verbatim>\<open>sizeof(list[i].name) + 1\<close> is the size of a pointer and 1: five characters are compared.\<close>

definition get_list :: "string \<Rightarrow> (string \<times> nat) option" where
  "get_list pin = find (\<lambda>p. rt_strncmp (fst p) pin 5 = 0) pin_list"

definition bit_low :: "nat \<Rightarrow> u8 list \<Rightarrow> u8 list" where
  "bit_low offset temp =
     (if offset < 8 then temp[0 := temp ! 0 AND NOT (push_bit offset 1)]
      else temp[1 := temp ! 1 AND NOT (push_bit (offset - 8) 1)])"

definition bit_high :: "nat \<Rightarrow> u8 list \<Rightarrow> u8 list" where
  "bit_high offset temp =
     (if offset < 8 then temp[0 := temp ! 0 OR push_bit offset 1]
      else temp[1 := temp ! 1 OR push_bit (offset - 8) 1])"

text \<open>The user data of the device points to its \<^verbatim>\<open>struct nca9555_device\<close>; the null pointer is undefined here.\<close>

definition nca_of :: "oid \<Rightarrow> 'h nca_io \<Rightarrow> nca9555_device option" where
  "nca_of d io = map_option (ncas (hw io)) (dev_data (devs io d))"

abbreviation put_chips :: "'h \<Rightarrow> 'h nca_io \<Rightarrow> 'h nca_io" where
  "put_chips h io \<equiv> io\<lparr>hw := (hw io)\<lparr>chips := h\<rparr>\<rparr>"

definition rt_nca9555_write_pin ::
    "'h xfer \<Rightarrow> oid \<Rightarrow> int \<Rightarrow> string \<Rightarrow> u32 \<Rightarrow> 'h nca_io \<Rightarrow> (u32 \<times> 'h nca_io) option" where
  "rt_nca9555_write_pin xfer d pos buffer sz io = do {
     nca9555 \<leftarrow> nca_of d io;
     (_, offset) \<leftarrow> get_list buffer;
     (_, temp, h) \<leftarrow> nca9555_read_data xfer nca9555 REGISTER_0_OUTPUT_PORT 2 [0, 0] (chips (hw io));
     let temp = (if pos = 0 then bit_low offset temp else bit_high offset temp);
     (_, h) \<leftarrow> nca9555_write_data xfer nca9555 REGISTER_0_OUTPUT_PORT 2 temp h;
     Some (sz, put_chips h io) }"

definition rt_nca9555_read_pin ::
    "'h xfer \<Rightarrow> oid \<Rightarrow> int \<Rightarrow> string \<Rightarrow> u32 \<Rightarrow> 'h nca_io \<Rightarrow> (u32 \<times> 'h nca_io) option" where
  "rt_nca9555_read_pin xfer d pos buffer sz io = do {
     nca9555 \<leftarrow> nca_of d io;
     (_, offset) \<leftarrow> get_list buffer;
     (_, temp, h) \<leftarrow> nca9555_read_data xfer nca9555 REGISTER_0_INPUT_PORT 2 [0, 0] (chips (hw io));
     let pin_status = (if offset < 8 then drop_bit offset (temp ! 0) AND 1 else drop_bit (offset - 8) (temp ! 1) AND 1);
     Some (ucast pin_status, put_chips h io) }"

definition rt_nca9555_control_pin ::
    "'h xfer \<Rightarrow> oid \<Rightarrow> int \<Rightarrow> string \<Rightarrow> 'h nca_io \<Rightarrow> (rt_err_t \<times> 'h nca_io) option" where
  "rt_nca9555_control_pin xfer d cmd args io = do {
     nca9555 \<leftarrow> nca_of d io;
     (_, pos) \<leftarrow> get_list args;
     (_, buf, h) \<leftarrow> nca9555_read_data xfer nca9555 REGISTER_0_CONFIGURATION_PORT 2 [0, 0] (chips (hw io));
     h \<leftarrow> (if cmd = OUTPUT then map_option snd (nca9555_write_data xfer nca9555 REGISTER_0_CONFIGURATION_PORT 2 (bit_low pos buf) h)
          else if cmd = INPUT then map_option snd (nca9555_write_data xfer nca9555 REGISTER_0_CONFIGURATION_PORT 2 (bit_high pos buf) h)
          else if cmd = INVERT then map_option snd (nca9555_write_data xfer nca9555 REGISTER_0_POLARITY_INVERSION_PORT 2 (bit_high pos buf) h)
          else Some h);
     Some (RT_EOK, put_chips h io) }"

definition nca_driver :: "'h xfer \<Rightarrow> (string, 'h nca_hw) driver" where
  "nca_driver xfer = \<lparr>d_init = None, d_open = None, d_close = None,
     d_read = Some (rt_nca9555_read_pin xfer), d_write = Some (rt_nca9555_write_pin xfer),
     d_control = Some (rt_nca9555_control_pin xfer)\<rparr>"

section \<open>Initialisation\<close>

definition set_pin :: "u8 list" where
  "set_pin = [0x00, 0x00, 0xff, 0xff]"

text \<open>
  \<open>mem\<close> is the block that \<open>rt_calloc\<close> returns and \<open>bus\<close> the bus that \<open>rt_i2c_bus_device_find\<close> finds. The second test of the code
  looks at \<open>dev\<close> again, so a bus that was not found is used.
\<close>

definition nca9555_init ::
    "'h xfer \<Rightarrow> nat option \<Rightarrow> nat option \<Rightarrow> u8 \<Rightarrow> 'h nca_io \<Rightarrow> (nat option \<times> 'h nca_io) option" where
  "nca9555_init xfer mem bus addr io =
     (case mem of
        None \<Rightarrow> Some (None, io)
      | Some n \<Rightarrow> do {
          let dev = \<lparr>i2c_bus = bus, nca_addr = addr\<rparr>;
          (_, h) \<leftarrow> nca9555_write_data xfer dev REGISTER_0_CONFIGURATION_PORT 2 (drop 2 set_pin) (chips (hw io));
          (_, h) \<leftarrow> nca9555_write_data xfer dev REGISTER_0_OUTPUT_PORT 2 set_pin h;
          Some (Some n, io\<lparr>hw := \<lparr>ncas = (ncas (hw io))(n := dev), chips = h\<rparr>\<rparr>) })"

definition rt_device_nca9555_register ::
    "nat option \<Rightarrow> oid option \<Rightarrow> string \<Rightarrow> 'h nca_io \<Rightarrow> (rt_err_t \<times> 'h nca_io) option" where
  "rt_device_nca9555_register dev mem name io = do {
     d \<leftarrow> mem;
     let io = snd (rt_device_create (Some d) io);
     rt_device_register (Some d) name RT_DEVICE_FLAG_RDWR (upd_dev d (\<lambda>v. v\<lparr>dev_data := dev\<rparr>) io) }"

record rt_nca9555 =
  obj_addr :: u8
  obj_bus_name :: string
  obj_name :: string

definition nca9555_obj :: "rt_nca9555 list" where
  "nca9555_obj =
     [\<lparr>obj_addr = 0x20, obj_bus_name = ''i2c1'', obj_name = ''STAT0''\<rparr>,
      \<lparr>obj_addr = 0x21, obj_bus_name = ''i2c1'', obj_name = ''LED0''\<rparr>,
      \<lparr>obj_addr = 0x22, obj_bus_name = ''i2c1'', obj_name = ''ELEC0''\<rparr>]"

text \<open>The loop over the expanders; \<open>alloc\<close> lists the two blocks that each round allocates, \<open>find_bus\<close> looks up a bus.\<close>

fun nca_port_loop ::
    "'h xfer \<Rightarrow> (string \<Rightarrow> nat option) \<Rightarrow> rt_nca9555 list \<Rightarrow> (nat option \<times> oid option) list \<Rightarrow> 'h nca_io \<Rightarrow> (rt_err_t \<times> 'h nca_io) option" where
  "nca_port_loop xfer find_bus [] alloc io = Some (RT_EOK, io)"
| "nca_port_loop xfer find_bus (ob # obs) [] io = None"
| "nca_port_loop xfer find_bus (ob # obs) ((mem, mem2) # alloc) io = do {
     (dev, io) \<leftarrow> nca9555_init xfer mem (find_bus (obj_bus_name ob)) (obj_addr ob) io;
     (r, io) \<leftarrow> rt_device_nca9555_register dev mem2 (obj_name ob) io;
     if r \<noteq> RT_EOK then Some (- RT_ERROR, io) else nca_port_loop xfer find_bus obs alloc io }"

definition rt_hw_nca9555_port ::
    "'h xfer \<Rightarrow> (string \<Rightarrow> nat option) \<Rightarrow> (nat option \<times> oid option) list \<Rightarrow> 'h nca_io \<Rightarrow> (rt_err_t \<times> 'h nca_io) option" where
  "rt_hw_nca9555_port xfer find_bus alloc io = nca_port_loop xfer find_bus nca9555_obj alloc io"

section \<open>The driver keeps its contract\<close>

interpretation nca: device_driver "\<lambda>d. nca_driver xfer"
  by unfold_locales (auto simp: nca_driver_def rt_nca9555_read_pin_def rt_nca9555_write_pin_def rt_nca9555_control_pin_def
      keeps_def same_use_def split: bind_splits)

section \<open>Expanders\<close>

text \<open>
  What the driver relies on: the data sheet of the chip. An expander that is on the bus answers a read of a register pair with
  the two registers, and a write sets them; the pair of the input levels cannot be written. Neither touches another
  register, except that the input levels follow the world outside.
\<close>

definition expander :: "'h xfer \<Rightarrow> (nat \<Rightarrow> u16 \<Rightarrow> bool) \<Rightarrow> ('h \<Rightarrow> nat \<Rightarrow> u16 \<Rightarrow> u8 \<Rightarrow> u8) \<Rightarrow> bool" where
  "expander xfer on_bus regs \<longleftrightarrow>
     (\<forall>bus a h reg. on_bus bus a \<and> reg \<in> {0, 2, 4, 6} \<longrightarrow>
        (\<exists>h'. xfer bus [\<lparr>msg_addr = a, msg_flags = RT_I2C_WR, msg_buf = [reg]\<rparr>,
                        \<lparr>msg_addr = a, msg_flags = RT_I2C_RD, msg_buf = [0, 0]\<rparr>] h =
                (2, [[reg], [regs h bus a reg, regs h bus a (reg + 1)]], h')
            \<and> (\<forall>bus' a' r. 2 \<le> r \<longrightarrow> regs h' bus' a' r = regs h bus' a' r))) \<and>
     (\<forall>bus a h reg x y. on_bus bus a \<and> reg \<in> {2, 4, 6} \<longrightarrow>
        (\<exists>h' bufs. xfer bus [\<lparr>msg_addr = a, msg_flags = RT_I2C_WR, msg_buf = [reg]\<rparr>,
                        \<lparr>msg_addr = a, msg_flags = RT_I2C_WR OR RT_I2C_NO_START, msg_buf = [x, y]\<rparr>] h = (2, bufs, h')
            \<and> (\<forall>bus' a' r. 2 \<le> r \<longrightarrow> regs h' bus' a' r =
                 (if bus' = bus \<and> a' = a then ((regs h bus a)(reg := x, reg + 1 := y)) r else regs h bus' a' r))))"

definition pin_bit :: "('h \<Rightarrow> nat \<Rightarrow> u16 \<Rightarrow> u8 \<Rightarrow> u8) \<Rightarrow> 'h \<Rightarrow> nat \<Rightarrow> u16 \<Rightarrow> u8 \<Rightarrow> nat \<Rightarrow> bool" where
  "pin_bit regs h bus a reg off = bit (regs h bus a (if off < 8 then reg else reg + 1)) (off mod 8)"

lemma get_list_names: "off < 16 \<Longrightarrow> get_list (fst (pin_list ! off)) = Some (pin_list ! off) \<and> snd (pin_list ! off) = off"
proof -
  have "\<forall>off\<in>set [0..<16]. get_list (fst (pin_list ! off)) = Some (pin_list ! off) \<and> snd (pin_list ! off) = off" by code_simp
  then show "off < 16 \<Longrightarrow> ?thesis" by simp
qed

lemma nth_bit_low:
  "off < 16 \<Longrightarrow> i < 16 \<Longrightarrow>
   bit (bit_low off [x, y] ! (if i < 8 then 0 else 1)) (i mod 8) \<longleftrightarrow> i \<noteq> off \<and> bit (if i < 8 then x else y) (i mod 8)"
  by (auto simp: bit_low_def bit_simps le_mod_geq)

lemma nth_bit_high:
  "off < 16 \<Longrightarrow> i < 16 \<Longrightarrow>
   bit (bit_high off [x, y] ! (if i < 8 then 0 else 1)) (i mod 8) \<longleftrightarrow> i = off \<or> bit (if i < 8 then x else y) (i mod 8)"
  by (auto simp: bit_high_def bit_simps le_mod_geq)

lemma read_spec:
  assumes "expander xfer on_bus regs" "on_bus bus (ucast a)" "reg \<in> {0, 2, 4, 6}"
  obtains h' where
    "nca9555_read_data xfer \<lparr>i2c_bus = Some bus, nca_addr = a\<rparr> reg 2 [0, 0] h =
       Some (RT_EOK, [regs h bus (ucast a) reg, regs h bus (ucast a) (reg + 1)], h')"
    "\<And>bus' a' r. 2 \<le> r \<Longrightarrow> regs h' bus' a' r = regs h bus' a' r"
proof -
  from assms obtain h' where
    "xfer bus [\<lparr>msg_addr = ucast a, msg_flags = RT_I2C_WR, msg_buf = [reg]\<rparr>, \<lparr>msg_addr = ucast a, msg_flags = RT_I2C_RD, msg_buf = [0, 0]\<rparr>] h =
       (2, [[reg], [regs h bus (ucast a) reg, regs h bus (ucast a) (reg + 1)]], h')"
    "\<forall>bus' a' r. 2 \<le> r \<longrightarrow> regs h' bus' a' r = regs h bus' a' r"
    unfolding expander_def by meson
  then show thesis by (intro that [of h']) (simp_all add: nca9555_read_data_def)
qed

lemma write_spec:
  assumes "expander xfer on_bus regs" "on_bus bus (ucast a)" "reg \<in> {2, 4, 6}"
  obtains h' where
    "nca9555_write_data xfer \<lparr>i2c_bus = Some bus, nca_addr = a\<rparr> reg 2 [x, y] h = Some (RT_EOK, h')"
    "\<And>bus' a' r. 2 \<le> r \<Longrightarrow> regs h' bus' a' r =
       (if bus' = bus \<and> a' = ucast a then ((regs h bus (ucast a))(reg := x, reg + 1 := y)) r else regs h bus' a' r)"
proof -
  from assms obtain h' bufs where
    "xfer bus [\<lparr>msg_addr = ucast a, msg_flags = RT_I2C_WR, msg_buf = [reg]\<rparr>,
       \<lparr>msg_addr = ucast a, msg_flags = RT_I2C_WR OR RT_I2C_NO_START, msg_buf = [x, y]\<rparr>] h = (2, bufs, h')"
    "\<forall>bus' a' r. 2 \<le> r \<longrightarrow> regs h' bus' a' r =
       (if bus' = bus \<and> a' = ucast a then ((regs h bus (ucast a))(reg := x, reg + 1 := y)) r else regs h bus' a' r)"
    unfolding expander_def by meson
  then show thesis by (intro that [of h']) (simp_all add: nca9555_write_data_def)
qed

text \<open>One pin of one register pair gets a value; every other pin of every expander keeps its own.\<close>

definition pin_changed ::
    "('h \<Rightarrow> nat \<Rightarrow> u16 \<Rightarrow> u8 \<Rightarrow> u8) \<Rightarrow> nat \<Rightarrow> u16 \<Rightarrow> u8 \<Rightarrow> nat \<Rightarrow> bool \<Rightarrow> 'h \<Rightarrow> 'h \<Rightarrow> bool" where
  "pin_changed regs bus a reg off v h h' \<longleftrightarrow>
     (\<forall>bus' a' r i. r \<in> {2, 4, 6} \<and> i < 16 \<longrightarrow> pin_bit regs h' bus' a' r i =
        (if bus' = bus \<and> a' = a \<and> r = reg \<and> i = off then v else pin_bit regs h bus' a' r i))"

lemma pair_written:
  assumes w: "\<And>bus' a' r. 2 \<le> r \<Longrightarrow> regs h' bus' a' r =
       (if bus' = bus \<and> a' = a then ((regs h bus a)(reg := t ! 0, reg + 1 := t ! 1)) r else regs h bus' a' r)"
    and t: "\<And>i. i < 16 \<Longrightarrow> bit (t ! (if i < 8 then 0 else 1)) (i mod 8) \<longleftrightarrow> (if i = off then v else pin_bit regs h bus a reg i)"
    and reg: "reg \<in> {2, 4, 6}"
  shows "pin_changed regs bus a reg off v h h'"
  unfolding pin_changed_def
proof (intro allI impI)
  fix bus' a' and r :: u8 and i :: nat
  assume r: "r \<in> {2, 4, 6} \<and> i < 16"
  then have le: "2 \<le> r" "2 \<le> r + 1" by (auto simp: word_le_nat_alt)
  have "(2 :: u8) \<noteq> 4 + 1" "(2 :: u8) \<noteq> 6 + 1" "(4 :: u8) \<noteq> 6 + 1" by simp_all
  then show "pin_bit regs h' bus' a' r i = (if bus' = bus \<and> a' = a \<and> r = reg \<and> i = off then v else pin_bit regs h bus' a' r i)"
    using w [OF le(1), of bus' a'] w [OF le(2), of bus' a'] t [of i] r reg unfolding pin_bit_def
    by (cases "i < 8") (auto split: if_splits)
qed

lemma bit_low_list: "off < 16 \<Longrightarrow> bit_low off [x, y] = [bit_low off [x, y] ! 0, bit_low off [x, y] ! 1]"
  by (simp add: bit_low_def)

lemma bit_high_list: "off < 16 \<Longrightarrow> bit_high off [x, y] = [bit_high off [x, y] ! 0, bit_high off [x, y] ! 1]"
  by (simp add: bit_high_def)

text \<open>The read, modify and write of \<open>rt_nca9555_write_pin\<close> and \<open>rt_nca9555_control_pin\<close>.\<close>

lemma modify_spec:
  assumes e: "expander xfer on_bus regs" "on_bus bus (ucast a)" "reg \<in> {2, 4, 6}" and off: "off < 16"
  obtains t h1 h' where
    "nca9555_read_data xfer \<lparr>i2c_bus = Some bus, nca_addr = a\<rparr> reg 2 [0, 0] h = Some (RT_EOK, t, h1)"
    "nca9555_write_data xfer \<lparr>i2c_bus = Some bus, nca_addr = a\<rparr> reg 2 (if v then bit_high off t else bit_low off t) h1 = Some (RT_EOK, h')"
    "pin_changed regs bus (ucast a) reg off v h h'"
proof -
  let ?x = "regs h bus (ucast a) reg" and ?y = "regs h bus (ucast a) (reg + 1)"
  obtain h1 where 1: "nca9555_read_data xfer \<lparr>i2c_bus = Some bus, nca_addr = a\<rparr> reg 2 [0, 0] h = Some (RT_EOK, [?x, ?y], h1)"
    "\<And>bus' a' r. 2 \<le> r \<Longrightarrow> regs h1 bus' a' r = regs h bus' a' r"
    using read_spec [OF e(1,2), of reg h] e(3) by blast
  let ?t = "if v then bit_high off [?x, ?y] else bit_low off [?x, ?y]"
  obtain h' where 2: "nca9555_write_data xfer \<lparr>i2c_bus = Some bus, nca_addr = a\<rparr> reg 2 [?t ! 0, ?t ! 1] h1 = Some (RT_EOK, h')"
    "\<And>bus' a' r. 2 \<le> r \<Longrightarrow> regs h' bus' a' r =
       (if bus' = bus \<and> a' = ucast a then ((regs h1 bus (ucast a))(reg := ?t ! 0, reg + 1 := ?t ! 1)) r else regs h1 bus' a' r)"
    using write_spec [OF e, of "?t ! 0" "?t ! 1" h1] by blast
  have t: "?t = [?t ! 0, ?t ! 1]" using off bit_low_list bit_high_list by auto
  have "pin_changed regs bus (ucast a) reg off v h h'"
  proof (rule pair_written [where t = ?t])
    fix i :: nat assume "i < 16"
    then show "bit (?t ! (if i < 8 then 0 else 1)) (i mod 8) \<longleftrightarrow> (if i = off then v else pin_bit regs h bus (ucast a) reg i)"
      using nth_bit_low [OF off, of i ?x ?y] nth_bit_high [OF off, of i ?x ?y] by (cases v) (auto simp: pin_bit_def)
  qed (use 1 2 e(3) in auto)
  moreover have "nca9555_write_data xfer \<lparr>i2c_bus = Some bus, nca_addr = a\<rparr> reg 2 ?t h1 = Some (RT_EOK, h')" using 2(1) by (simp only: t [symmetric])
  ultimately show thesis using 1(1) that by blast
qed

lemma get_list_off: "off < 16 \<Longrightarrow> get_list (fst (pin_list ! off)) = Some (fst (pin_list ! off), off)"
  using get_list_names [of off] by (metis prod.collapse)

lemma write_pin_spec:
  assumes e: "expander xfer on_bus regs" "on_bus bus (ucast a)" and off: "off < 16"
    and dev: "nca_of d io = Some \<lparr>i2c_bus = Some bus, nca_addr = a\<rparr>"
  obtains h where "rt_nca9555_write_pin xfer d pos (fst (pin_list ! off)) sz io = Some (sz, put_chips h io)"
    "pin_changed regs bus (ucast a) REGISTER_0_OUTPUT_PORT off (pos \<noteq> 0) (chips (hw io)) h"
proof -
  obtain t h1 h' where
    "nca9555_read_data xfer \<lparr>i2c_bus = Some bus, nca_addr = a\<rparr> 2 2 [0, 0] (chips (hw io)) = Some (RT_EOK, t, h1)"
    "nca9555_write_data xfer \<lparr>i2c_bus = Some bus, nca_addr = a\<rparr> 2 2 (if pos \<noteq> 0 then bit_high off t else bit_low off t) h1 = Some (RT_EOK, h')"
    "pin_changed regs bus (ucast a) 2 off (pos \<noteq> 0) (chips (hw io)) h'"
    by (rule modify_spec [OF e _ off, where reg = 2]) simp_all
  then show thesis
    by (intro that [of h'], cases "pos = 0") (simp_all add: rt_nca9555_write_pin_def register_defs dev get_list_off off)
qed

lemma control_pin_spec:
  assumes e: "expander xfer on_bus regs" "on_bus bus (ucast a)" and off: "off < 16"
    and dev: "nca_of d io = Some \<lparr>i2c_bus = Some bus, nca_addr = a\<rparr>"
  obtains h where "rt_nca9555_control_pin xfer d (if v then INPUT else OUTPUT) (fst (pin_list ! off)) io = Some (RT_EOK, put_chips h io)"
    "pin_changed regs bus (ucast a) REGISTER_0_CONFIGURATION_PORT off v (chips (hw io)) h"
proof -
  obtain t h1 h' where
    "nca9555_read_data xfer \<lparr>i2c_bus = Some bus, nca_addr = a\<rparr> 6 2 [0, 0] (chips (hw io)) = Some (RT_EOK, t, h1)"
    "nca9555_write_data xfer \<lparr>i2c_bus = Some bus, nca_addr = a\<rparr> 6 2 (if v then bit_high off t else bit_low off t) h1 = Some (RT_EOK, h')"
    "pin_changed regs bus (ucast a) 6 off v (chips (hw io)) h'"
    by (rule modify_spec [OF e _ off, where reg = 6]) simp_all
  then show thesis
    by (intro that [of h'], cases v)
      (simp_all add: rt_nca9555_control_pin_def register_defs OUTPUT_def INPUT_def dev get_list_off off)
qed

lemma bit_of_bool_and: "drop_bit i (x :: u8) AND 1 = of_bool (bit x i)"
  by (simp add: and_one_eq bit_iff_odd_drop_bit mod_2_eq_odd)

lemma read_pin_spec:
  assumes e: "expander xfer on_bus regs" "on_bus bus (ucast a)" and off: "off < 16"
    and dev: "nca_of d io = Some \<lparr>i2c_bus = Some bus, nca_addr = a\<rparr>"
  obtains h where "rt_nca9555_read_pin xfer d pos (fst (pin_list ! off)) sz io =
      Some (of_bool (pin_bit regs (chips (hw io)) bus (ucast a) REGISTER_0_INPUT_PORT off), put_chips h io)"
    "\<And>bus' a' r. 2 \<le> r \<Longrightarrow> regs h bus' a' r = regs (chips (hw io)) bus' a' r"
proof -
  obtain h' where h': "nca9555_read_data xfer \<lparr>i2c_bus = Some bus, nca_addr = a\<rparr> 0 2 [0, 0] (chips (hw io)) =
      Some (RT_EOK, [regs (chips (hw io)) bus (ucast a) 0, regs (chips (hw io)) bus (ucast a) (0 + 1)], h')"
    "\<And>bus' a' r. 2 \<le> r \<Longrightarrow> regs h' bus' a' r = regs (chips (hw io)) bus' a' r"
    by (rule read_spec [OF e, of 0 "chips (hw io)"]) simp_all
  have m: "off mod 8 = (if off < 8 then off else off - 8)" using off by (simp add: le_mod_geq)
  show thesis
    by (rule that [OF _ h'(2)])
      (use h'(1) in \<open>simp_all add: rt_nca9555_read_pin_def register_defs dev get_list_off off pin_bit_def m bit_of_bool_and\<close>)
qed

section \<open>Properties\<close>

text \<open>
  C30: the driver operates single pins. With expanders that answer as their data sheet says, writing a pin by its name returns
  and sets exactly that bit of the output registers; choosing a direction sets exactly that bit of the direction
  registers; every other pin of every expander keeps its output, polarity and direction. Reading a pin returns the level of
  the pin and changes none of these registers.
\<close>

theorem nca_pin_operations:
  assumes e: "expander xfer on_bus regs" "on_bus bus (ucast a)" and off: "off < 16"
    and dev: "nca_of d io = Some \<lparr>i2c_bus = Some bus, nca_addr = a\<rparr>"
  shows "(\<exists>h. rt_nca9555_write_pin xfer d pos (fst (pin_list ! off)) sz io = Some (sz, put_chips h io) \<and>
             pin_changed regs bus (ucast a) REGISTER_0_OUTPUT_PORT off (pos \<noteq> 0) (chips (hw io)) h) \<and>
         (\<exists>h. rt_nca9555_control_pin xfer d (if v then INPUT else OUTPUT) (fst (pin_list ! off)) io = Some (RT_EOK, put_chips h io) \<and>
             pin_changed regs bus (ucast a) REGISTER_0_CONFIGURATION_PORT off v (chips (hw io)) h) \<and>
         (\<exists>h. rt_nca9555_read_pin xfer d pos (fst (pin_list ! off)) sz io =
               Some (of_bool (pin_bit regs (chips (hw io)) bus (ucast a) REGISTER_0_INPUT_PORT off), put_chips h io) \<and>
             (\<forall>bus' a' r. 2 \<le> r \<longrightarrow> regs h bus' a' r = regs (chips (hw io)) bus' a' r))"
  by (intro conjI) (metis write_pin_spec [OF assms], metis control_pin_spec [OF assms], metis read_pin_spec [OF assms])

text \<open>A bus of expanders, each a file of eight registers.\<close>

definition register_file :: "(nat \<Rightarrow> u16 \<Rightarrow> u8 \<Rightarrow> u8) xfer" where
  "register_file bus msgs h =
     (case msgs of
        [m, n] \<Rightarrow>
          let a = msg_addr m; reg = hd (msg_buf m) in
          if msg_flags n = RT_I2C_RD then (2, [msg_buf m, [h bus a reg, h bus a (reg + 1)]], h)
          else (2, map msg_buf msgs, h(bus := (h bus)(a := (h bus a)(reg := msg_buf n ! 0, reg + 1 := msg_buf n ! 1))))
      | _ \<Rightarrow> (0, map msg_buf msgs, h))"

lemma register_file_expander: "expander register_file (\<lambda>_ _. True) (\<lambda>h. h)"
  by (auto simp: expander_def register_file_def RT_I2C_RD_def RT_I2C_WR_def RT_I2C_NO_START_def)

definition one_expander :: "(nat \<Rightarrow> u16 \<Rightarrow> u8 \<Rightarrow> u8) nca_io" where
  "one_expander = \<lparr>kern = three, rt_errno = 0, devs = (\<lambda>_. zero_device\<lparr>dev_data := Some 0\<rparr>),
     hw = \<lparr>ncas = (\<lambda>_. \<lparr>i2c_bus = Some 1, nca_addr = 0x21\<rparr>), chips = (\<lambda>_ _ _. 0)\<rparr>\<rparr>"

theorem nca_pin_operations_witness:
  "(\<exists>h. rt_nca9555_write_pin register_file 4 1 (fst (pin_list ! 11)) 0 one_expander = Some (0, put_chips h one_expander) \<and>
      pin_changed (\<lambda>h. h) 1 (ucast (0x21 :: u8)) REGISTER_0_OUTPUT_PORT 11 ((1 :: int) \<noteq> 0) (chips (hw one_expander)) h) \<and>
   (\<exists>h. rt_nca9555_control_pin register_file 4 (if False then INPUT else OUTPUT) (fst (pin_list ! 11)) one_expander = Some (RT_EOK, put_chips h one_expander) \<and>
      pin_changed (\<lambda>h. h) 1 (ucast (0x21 :: u8)) REGISTER_0_CONFIGURATION_PORT 11 False (chips (hw one_expander)) h) \<and>
   (\<exists>h. rt_nca9555_read_pin register_file 4 1 (fst (pin_list ! 11)) 0 one_expander =
        Some (of_bool (pin_bit (\<lambda>h. h) (chips (hw one_expander)) 1 (ucast (0x21 :: u8)) REGISTER_0_INPUT_PORT 11), put_chips h one_expander) \<and>
      (\<forall>bus' a' r. 2 \<le> r \<longrightarrow> h bus' a' r = chips (hw one_expander) bus' a' r))"
  by (rule nca_pin_operations [OF register_file_expander]) (simp_all add: one_expander_def nca_of_def zero_device_def)

text \<open>
  A read that fails is not noticed: \<open>rt_nca9555_write_pin\<close> goes on with the zeros in its buffer, and when the following
  write succeeds, all other outputs of the expander are switched off.
\<close>

lemma write_pin_after_failed_read:
  assumes "nca_of d io = Some nca" "nca9555_read_data xfer nca REGISTER_0_OUTPUT_PORT 2 [0, 0] (chips (hw io)) = Some (- RT_ERROR, [0, 0], h)"
    and "nca9555_write_data xfer nca REGISTER_0_OUTPUT_PORT 2 (bit_high off [0, 0]) h = Some (RT_EOK, h')" "off < 16"
  shows "rt_nca9555_write_pin xfer d 1 (fst (pin_list ! off)) sz io = Some (sz, put_chips h' io)"
  using assms by (simp add: rt_nca9555_write_pin_def get_list_off)

text \<open>\<open>INVERT\<close> copies the direction registers into the polarity registers: every pin that is an input is inverted with the chosen one.\<close>

lemma invert_copies_directions:
  assumes e: "expander xfer on_bus regs" "on_bus bus (ucast a)" and off: "off < 16"
    and dev: "nca_of d io = Some \<lparr>i2c_bus = Some bus, nca_addr = a\<rparr>"
  shows "\<exists>h. rt_nca9555_control_pin xfer d INVERT (fst (pin_list ! off)) io = Some (RT_EOK, put_chips h io) \<and>
    (\<forall>i<16. pin_bit regs h bus (ucast a) REGISTER_0_POLARITY_INVERSION_PORT i \<longleftrightarrow>
       i = off \<or> pin_bit regs (chips (hw io)) bus (ucast a) REGISTER_0_CONFIGURATION_PORT i)"
proof -
  let ?h = "chips (hw io)"
  define x y where xy: "x = regs ?h bus (ucast a) 6" "y = regs ?h bus (ucast a) (6 + 1)"
  obtain h1 where 1: "nca9555_read_data xfer \<lparr>i2c_bus = Some bus, nca_addr = a\<rparr> 6 2 [0, 0] ?h = Some (RT_EOK, [x, y], h1)"
    unfolding xy by (rule read_spec [OF e, of 6 ?h]) simp_all
  define t where "t = bit_high off [x, y]"
  then have t: "t = [t ! 0, t ! 1]" using bit_high_list [OF off] by simp
  obtain h2 where 2: "nca9555_write_data xfer \<lparr>i2c_bus = Some bus, nca_addr = a\<rparr> 4 2 [t ! 0, t ! 1] h1 = Some (RT_EOK, h2)"
    "\<And>bus' a' r. 2 \<le> r \<Longrightarrow> regs h2 bus' a' r =
       (if bus' = bus \<and> a' = ucast a then ((regs h1 bus (ucast a))(4 := t ! 0, 4 + 1 := t ! 1)) r else regs h1 bus' a' r)"
    by (rule write_spec [OF e, of 4 "t ! 0" "t ! 1" h1]) simp_all
  have "rt_nca9555_control_pin xfer d INVERT (fst (pin_list ! off)) io = Some (RT_EOK, put_chips h2 io)"
    using 1 2(1) [folded t] by (simp add: rt_nca9555_control_pin_def register_defs INVERT_def OUTPUT_def INPUT_def dev get_list_off off
        t_def [symmetric])
  moreover have "\<forall>i<16. pin_bit regs h2 bus (ucast a) 4 i \<longleftrightarrow> i = off \<or> pin_bit regs ?h bus (ucast a) 6 i"
  proof (intro allI impI)
    fix i :: nat assume i: "i < 16"
    have "regs h2 bus (ucast a) 4 = t ! 0" "regs h2 bus (ucast a) (4 + 1) = t ! 1"
      using 2(2) [of 4 bus "ucast a"] 2(2) [of "4 + 1" bus "ucast a"] by simp_all
    then have "pin_bit regs h2 bus (ucast a) 4 i = bit (t ! (if i < 8 then 0 else 1)) (i mod 8)" by (simp add: pin_bit_def)
    moreover have "bit (if i < 8 then x else y) (i mod 8) = pin_bit regs ?h bus (ucast a) 6 i" by (simp add: pin_bit_def xy)
    ultimately show "pin_bit regs h2 bus (ucast a) 4 i \<longleftrightarrow> i = off \<or> pin_bit regs ?h bus (ucast a) 6 i"
      using nth_bit_high [OF off i, of x y] by (simp add: t_def)
  qed
  ultimately show ?thesis by (auto simp: register_defs)
qed

text \<open>
  C29: reference counting of devices. In any run of the device interface over this driver, with any other activity in
  between, the reference count of a device is the number of times it was opened and not closed since it was
  registered; the count is never negative, and a stand-alone device has at most one user. An open device has its open flag.
\<close>

theorem device_users_counted:
  assumes "dev_run (\<lambda>_. nca_driver xfer) io ls io'" "\<And>e. ref_count (devs io e) = 0"
  shows "int (unat (ref_count (devs io' d))) = fold (\<lambda>l n. users d n l) ls 0 \<and>
    0 \<le> fold (\<lambda>l n. users d n l) ls 0 \<and>
    (dflag (devs io' d) AND RT_DEVICE_FLAG_STANDALONE \<noteq> 0 \<longrightarrow> fold (\<lambda>l n. users d n l) ls 0 \<le> 1) \<and>
    (ref_count (devs io' d) \<noteq> 0 \<longrightarrow> open_flag (devs io' d) AND RT_DEVICE_OFLAG_OPEN \<noteq> 0)"
proof -
  have "dev_ok (devs io' d) \<and> int (unat (ref_count (devs io' d))) = fold (\<lambda>l n. users d n l) ls (int (unat (ref_count (devs io d))))"
    using nca.run_ok [OF assms(1)] assms(2) by (simp add: dev_ok_def)
  then have *: "dev_ok (devs io' d)" "int (unat (ref_count (devs io' d))) = fold (\<lambda>l n. users d n l) ls 0"
    using assms(2) by simp_all
  then show ?thesis unfolding *(2) [symmetric] by (auto simp: dev_ok_def simp del: of_nat_unat)
qed

definition registered_expander :: "(nat \<Rightarrow> u16 \<Rightarrow> u8 \<Rightarrow> u8) nca_io" where
  "registered_expander = one_expander\<lparr>kern := upd_obj (ODevice 4) (\<lambda>ob. ob\<lparr>otype := RT_Object_Class_Device OR RT_Object_Class_Static\<rparr>) three\<rparr>"

definition opened_expander :: "(nat \<Rightarrow> u16 \<Rightarrow> u8 \<Rightarrow> u8) nca_io" where
  "opened_expander = upd_dev 4 (\<lambda>v. v\<lparr>dflag := 16, open_flag := 11, ref_count := 1\<rparr>) registered_expander"

lemma open_registered_expander:
  "rt_device_open (\<lambda>_. nca_driver register_file) (Some 4) RT_DEVICE_OFLAG_RDWR registered_expander = Some (RT_EOK, opened_expander)"
  by (simp add: rt_device_open_def device_assert_def open_activate_def registered_expander_def opened_expander_def one_expander_def
      nca_driver_def rt_object_get_type_def class_defs device_flag_defs zero_device_def rt_err_defs)

theorem device_users_counted_witness:
  "dev_run (\<lambda>_. nca_driver register_file) registered_expander [Opened 4] opened_expander \<and>
    int (unat (ref_count (devs opened_expander 4))) = 1 \<and> open_flag (devs opened_expander 4) AND RT_DEVICE_OFLAG_OPEN \<noteq> 0"
proof -
  have run: "dev_run (\<lambda>_. nca_driver register_file) registered_expander [Opened 4] opened_expander"
    using dev_run.more [OF dev_run.start dev_step.open_ok [OF open_registered_expander]] by simp
  moreover have "ref_count (devs registered_expander d) = 0" for d
    by (simp add: registered_expander_def one_expander_def zero_device_def)
  ultimately show ?thesis using device_users_counted [OF run, of 4] by (auto simp: users_def)
qed

end
