(* ===== verification/Cabinet.thy ===== *)
theory Cabinet
  imports Nca9555 Thread_Life
begin

text \<open>
  The firmware of the key cabinet, \<^verbatim>\<open>applications\<close>: six key slots (\<open>APP_NUM\<close>, no slave board), each with a presence sensor
  and a lock sensor on the \<^verbatim>\<open>STAT\<close> expander, a red and a green lamp on the \<^verbatim>\<open>LED\<close> expander, and a bistable magnet on the
  \<^verbatim>\<open>ELEC\<close> expander, and a reader \<^verbatim>\<open>M606\<close> that reports the codes of all keys in one line of text. One thread samples the sensors,
  one drives the lamps, one reads codes; the shell command \<^verbatim>\<open>operate_lock\<close> moves a magnet.

  The static variables of the application are one record, with the system state under the device drivers in \<open>sys\<close>. All three
  devices are expanders. The program is compiled for the bare-metal ARM interface, where an enumeration is one byte.
\<close>

section \<open>Data (tool.h)\<close>

definition APP_NUM_MAIN :: nat where "APP_NUM_MAIN = 6"
definition APP_NUM :: nat where "APP_NUM = 6"

definition key_out :: u8 where "key_out = 1"
definition key_in :: u8 where "key_in = 2"
definition unlock :: u8 where "unlock = 0"
definition lock :: u8 where "lock = 1"

lemmas status_defs = key_out_def key_in_def unlock_def lock_def

record key_info =
  cur_rfid_code :: "u8 list"
  last_rfid_code :: "u8 list"
  user_ch :: string
  user_code :: "u8 list"
  key_status :: u8
  last_key_status :: u8
  lock_status :: u8

record board =
  led :: "oid option"
  stat_dev :: "oid option"
  elec :: "oid option"
  board_pos :: nat

record 'h cabinet =
  sys :: "'h nca_io"
  key :: "nat \<Rightarrow> key_info"
  check_amr :: "nat \<Rightarrow> u8 list"
  check_elec :: "nat \<Rightarrow> u8 list"
  check_id :: "nat \<Rightarrow> u8"
  rx_buffer :: string
  printed :: "(nat \<times> u8 list) list"    \<comment> \<open>the slots and codes that \<open>rfid_printf\<close> has printed\<close>

abbreviation upd_key :: "nat \<Rightarrow> (key_info \<Rightarrow> key_info) \<Rightarrow> 'h cabinet \<Rightarrow> 'h cabinet" where
  "upd_key i f c \<equiv> c\<lparr>key := (key c)(i := f (key c i))\<rparr>"

definition PIN_LOW :: int where "PIN_LOW = 0"
definition PIN_HIGH :: int where "PIN_HIGH = 1"

text \<open>A \<open>for\<close> loop over a range, and an array access that must be inside the array.\<close>

fun for_each :: "nat list \<Rightarrow> (nat \<Rightarrow> 's \<Rightarrow> 's option) \<Rightarrow> 's \<Rightarrow> 's option" where
  "for_each [] f s = Some s"
| "for_each (i # is) f s = f i s \<bind> for_each is f"

definition slots :: "board \<Rightarrow> nat list" where
  "slots b = [board_pos b ..< APP_NUM_MAIN + board_pos b]"

section \<open>Pin names\<close>

text \<open>
  \<^verbatim>\<open>rt_sprintf(str, "%s%d%s%d", "IO", j, "_", off)\<close> into an array of six characters on the stack; a longer text would overrun it.
  The array is somewhere in the memory that starts at \<open>0x20000000\<close>; the text does not depend on the place.
\<close>

definition pin_name :: "nat \<Rightarrow> int \<Rightarrow> string option" where
  "pin_name j off = do {
     (n, b) \<leftarrow> rt_sprintf 0x20000000 ''%s%d%s%d'' [StrArg ''IO'', IntArg (of_nat j), StrArg ''_'', IntArg (word_of_int off)] (\<lambda>_. CHR 0x00);
     if n < 6 then Some (map b [0..<n]) else None }"

lemma pin_name_text: "j < 10 \<Longrightarrow> off < 10 \<Longrightarrow> pin_name j (int off) = Some (''IO'' @ [digit_char False j] @ ''_'' @ [digit_char False off])"
proof -
  assume j: "j < 10" "off < 10"
  let ?t = "''IO'' @ [digit_char False j] @ ''_'' @ [digit_char False off]"
  have "vformat stop ''%s%d%s%d'' [StrArg ''IO'', IntArg (of_nat j), StrArg ''_'', IntArg (of_nat off)] out = Some (emits stop ?t out)" for stop out
    using vformat_s_more [of stop "''%d%s%d''" "''IO''"] vformat_d_more [of stop "''%s%d''" "of_nat j"]
      vformat_s_more [of stop "''%d''" "''_''"] vformat_d [of stop "of_nat off"] decimal_text_digit j
    by (simp flip: emits_append)
  then have "rt_sprintf 0x20000000 ''%s%d%s%d'' [StrArg ''IO'', IntArg (of_nat j), StrArg ''_'', IntArg (of_nat off)] b =
      Some (length ?t, stored (end_of 0x20000000 (- 1)) ?t b)" for b
    unfolding rt_sprintf_def rt_vsprintf_def by (rule rt_vsnprintf_stored)
  moreover have "end_of 0x20000000 (- 1) = 3758096383" by (simp add: end_of_def)
  ultimately show ?thesis by (simp add: pin_name_def stored_def)
qed

lemma pin_name_list: "j < 2 \<Longrightarrow> off < 8 \<Longrightarrow> pin_name j (int off) = Some (fst (pin_list ! (8 * j + off)))"
proof -
  have "\<forall>j\<in>set [0..<2]. \<forall>off\<in>set [0..<8]. ''IO'' @ [digit_char False j] @ ''_'' @ [digit_char False off] = fst (pin_list ! (8 * j + off))"
    by code_simp
  then show "j < 2 \<Longrightarrow> off < 8 \<Longrightarrow> ?thesis" by (simp add: pin_name_text)
qed

section \<open>Lamps and magnets (hw_module)\<close>

abbreviation nca_drv :: "'h xfer \<Rightarrow> oid \<Rightarrow> (string, 'h nca_hw) driver" where
  "nca_drv xfer \<equiv> (\<lambda>_. nca_driver xfer)"

abbreviation put_sys :: "'h nca_io \<Rightarrow> 'h cabinet \<Rightarrow> 'h cabinet" where
  "put_sys io c \<equiv> c\<lparr>sys := io\<rparr>"

text \<open>\<open>rt_device_write\<close> and \<open>rt_device_control\<close> on a named pin; the callers ignore the results.\<close>

definition pin_write :: "'h xfer \<Rightarrow> oid option \<Rightarrow> int \<Rightarrow> string \<Rightarrow> 'h nca_io \<Rightarrow> 'h nca_io option" where
  "pin_write xfer dev level name io = map_option snd (rt_device_write (nca_drv xfer) dev level name 0 io)"

definition pin_mode :: "'h xfer \<Rightarrow> oid option \<Rightarrow> int \<Rightarrow> string \<Rightarrow> 'h nca_io \<Rightarrow> 'h nca_io option" where
  "pin_mode xfer dev mode name io = map_option snd (rt_device_control (nca_drv xfer) dev mode name io)"

definition led_init :: "'h xfer \<Rightarrow> oid option \<Rightarrow> 'h nca_io \<Rightarrow> (rt_err_t \<times> 'h nca_io) option" where
  "led_init xfer dev io =
     (if dev = None then Some (- RT_ERROR, io)
      else do {
        (_, io) \<leftarrow> rt_device_open (nca_drv xfer) dev RT_DEVICE_OFLAG_RDWR io;
        io \<leftarrow> for_each [0..<2] (\<lambda>j. for_each [0..<APP_NUM_MAIN] (\<lambda>i io. do {
          str \<leftarrow> pin_name j (int i);
          pin_mode xfer dev OUTPUT str io })) io;
        Some (RT_EOK, io) })"

definition led_only_red :: "'h xfer \<Rightarrow> nat \<Rightarrow> board \<Rightarrow> 'h nca_io \<Rightarrow> (rt_err_t \<times> 'h nca_io) option" where
  "led_only_red xfer i b io =
     (if i \<ge> APP_NUM then Some (- RT_ERROR, io)
      else do {
        let off = int i - int (board_pos b);
        red \<leftarrow> pin_name 0 off;
        green \<leftarrow> pin_name 1 off;
        io \<leftarrow> pin_write xfer (led b) PIN_HIGH red io;
        io \<leftarrow> pin_write xfer (led b) PIN_LOW green io;
        Some (RT_EOK, io) })"

definition led_only_green :: "'h xfer \<Rightarrow> nat \<Rightarrow> board \<Rightarrow> 'h nca_io \<Rightarrow> (rt_err_t \<times> 'h nca_io) option" where
  "led_only_green xfer i b io =
     (if i \<ge> APP_NUM then Some (- RT_ERROR, io)
      else do {
        let off = int i - int (board_pos b);
        red \<leftarrow> pin_name 0 off;
        green \<leftarrow> pin_name 1 off;
        io \<leftarrow> pin_write xfer (led b) PIN_LOW red io;
        io \<leftarrow> pin_write xfer (led b) PIN_HIGH green io;
        Some (RT_EOK, io) })"

definition M606_OK :: int where "M606_OK = 0"
definition M606_SAME :: int where "M606_SAME = 2"

definition rfid_printf :: "nat \<Rightarrow> 'h cabinet \<Rightarrow> int \<times> 'h cabinet" where
  "rfid_printf i c =
     (if last_rfid_code (key c i) = cur_rfid_code (key c i) then (M606_SAME, c)
      else let c = upd_key i (\<lambda>k. k\<lparr>last_rfid_code := cur_rfid_code k\<rparr>) c
           in (M606_OK, c\<lparr>printed := printed c @ [(i, cur_rfid_code (key c i))]\<rparr>))"

text \<open>The body of the loop of \<open>key_status_led\<close>; \<open>key[i]\<close> must be inside the array.\<close>

definition show_key :: "'h xfer \<Rightarrow> board \<Rightarrow> nat \<Rightarrow> 'h cabinet \<Rightarrow> 'h cabinet option" where
  "show_key xfer b i c = do {
     rt_assert (i < APP_NUM);
     c \<leftarrow> (if key_status (key c i) = key_in \<and> last_key_status (key c i) \<noteq> key_in then do {
            (_, io) \<leftarrow> led_only_red xfer i b (sys c);
            let c = upd_key i (\<lambda>k. k\<lparr>last_key_status := key_status k\<rparr>) (put_sys io c);
            Some (snd (rfid_printf i c)) }
          else Some c);
     if key_status (key c i) = key_out \<and> last_key_status (key c i) \<noteq> key_out then do {
       (_, io) \<leftarrow> led_only_green xfer i b (sys c);
       Some (upd_key i (\<lambda>k. k\<lparr>last_key_status := key_status k\<rparr>) (put_sys io c)) }
     else Some c }"

definition key_status_led :: "'h xfer \<Rightarrow> board \<Rightarrow> 'h cabinet \<Rightarrow> 'h cabinet option" where
  "key_status_led xfer b c = for_each (slots b) (show_key xfer b) c"

text \<open>
  A pulse of a magnet. \<open>others\<close> stands for what the rest of the system does until the delayed thread runs again.
\<close>

definition mdelay :: "('h nca_io \<Rightarrow> 'h nca_io) \<Rightarrow> int \<Rightarrow> 'h nca_io \<Rightarrow> 'h nca_io option" where
  "mdelay others ms io = do { k \<leftarrow> rt_thread_mdelay ms (kern io); Some (others (io\<lparr>kern := k\<rparr>)) }"

definition elec_toggle :: "'h xfer \<Rightarrow> ('h nca_io \<Rightarrow> 'h nca_io) \<Rightarrow> board \<Rightarrow> u8 \<Rightarrow> nat \<Rightarrow> 'h nca_io \<Rightarrow> 'h nca_io option" where
  "elec_toggle xfer others b act i io = do {
     let off = int i - int (board_pos b);
     a_point \<leftarrow> (if act = unlock then pin_name 0 off else if act = lock then pin_name 1 off else None);
     b_point \<leftarrow> (if act = unlock then pin_name 1 off else if act = lock then pin_name 0 off else None);
     io \<leftarrow> pin_mode xfer (elec b) OUTPUT b_point io;
     io \<leftarrow> pin_write xfer (elec b) PIN_LOW b_point io;
     io \<leftarrow> pin_mode xfer (elec b) OUTPUT a_point io;
     io \<leftarrow> pin_write xfer (elec b) PIN_HIGH a_point io;
     io \<leftarrow> mdelay others 50 io;
     pin_write xfer (elec b) PIN_LOW a_point io }"

text \<open>The last board takes the slots from its position on, the board in front of it the others; there is one board.\<close>

definition elec_action :: "'h xfer \<Rightarrow> ('h nca_io \<Rightarrow> 'h nca_io) \<Rightarrow> board list \<Rightarrow> int \<Rightarrow> u8 \<Rightarrow> 'h nca_io \<Rightarrow> (rt_err_t \<times> 'h nca_io) option" where
  "elec_action xfer others boards i act io =
     (if i > int APP_NUM - 1 then Some (- RT_ERROR, io)
      else do {
        rt_assert (boards \<noteq> []);
        io \<leftarrow> (if i \<ge> int (board_pos (last boards)) then elec_toggle xfer others (last boards) act (nat i) io
              else if length boards \<ge> 2 then elec_toggle xfer others (boards ! (length boards - 2)) act (nat i) io
              else None);
        Some (RT_EOK, io) })"

definition elec_init :: "'h xfer \<Rightarrow> oid option \<Rightarrow> 'h nca_io \<Rightarrow> (rt_err_t \<times> 'h nca_io) option" where
  "elec_init xfer dev io =
     (if dev = None then Some (- RT_ERROR, io)
      else do {
        (_, io) \<leftarrow> rt_device_open (nca_drv xfer) dev RT_DEVICE_OFLAG_RDWR io;
        Some (RT_EOK, io) })"

section \<open>Sensors (stat.c)\<close>

definition stat_init :: "'h xfer \<Rightarrow> oid option \<Rightarrow> 'h cabinet \<Rightarrow> (rt_err_t \<times> 'h cabinet) option" where
  "stat_init xfer dev c =
     (if dev = None then Some (- RT_ERROR, c)
      else do {
        (_, io) \<leftarrow> rt_device_open (nca_drv xfer) dev RT_DEVICE_OFLAG_RDWR (sys c);
        c \<leftarrow> for_each [0..<2] (\<lambda>j. for_each [0..<APP_NUM_MAIN] (\<lambda>i c. do {
          str \<leftarrow> pin_name j (int i);
          io \<leftarrow> pin_mode xfer dev INPUT str (sys c);
          Some (upd_key i (\<lambda>k. k\<lparr>key_status := key_in, last_key_status := key_out\<rparr>) (put_sys io c)) })) (put_sys io c);
        Some (RT_EOK, c) })"

text \<open>\<open>get_amr\<close> and \<open>get_lock\<close> read the two ports; the error number is cut to a byte.\<close>

definition get_level :: "'h xfer \<Rightarrow> nat \<Rightarrow> nat \<Rightarrow> board \<Rightarrow> 'h nca_io \<Rightarrow> (u8 \<times> 'h nca_io) option" where
  "get_level xfer j i b io =
     (if i \<ge> APP_NUM then Some (word_of_int (- RT_ERROR), io)
      else do {
        str \<leftarrow> pin_name j (int i - int (board_pos b));
        (v, io) \<leftarrow> rt_device_read (nca_drv xfer) (stat_dev b) 0 str 0 io;
        Some (ucast v, io) })"

definition get_amr :: "'h xfer \<Rightarrow> nat \<Rightarrow> board \<Rightarrow> 'h nca_io \<Rightarrow> (u8 \<times> 'h nca_io) option" where
  "get_amr xfer i b io = get_level xfer 1 i b io"

definition get_lock :: "'h xfer \<Rightarrow> nat \<Rightarrow> board \<Rightarrow> 'h nca_io \<Rightarrow> (u8 \<times> 'h nca_io) option" where
  "get_lock xfer i b io = get_level xfer 0 i b io"

text \<open>
  The window of seven samples: the inner loop moves the samples down by one place and adds up the six that stay; the
  new sample comes last.
\<close>

fun shift_sum :: "nat \<Rightarrow> u8 list \<Rightarrow> int \<Rightarrow> u8 list \<times> int" where
  "shift_sum 0 w s = (w, s)"
| "shift_sum (Suc n) w s =
     (let i = 6 - Suc n; w = w[i := w ! (i + 1)] in shift_sum n w (s + uint (w ! i)))"

definition sample_key :: "'h xfer \<Rightarrow> board \<Rightarrow> nat \<Rightarrow> 'h cabinet \<Rightarrow> 'h cabinet option" where
  "sample_key xfer b index c = do {
     (amr_status, io) \<leftarrow> get_amr xfer index b (sys c);
     rt_assert (index < APP_NUM);
     let (w, sum) = shift_sum 6 (check_amr c index) (uint amr_status);
     let c = (put_sys io c)\<lparr>check_amr := (check_amr c)(index := w[6 := amr_status])\<rparr>;
     Some (upd_key index (\<lambda>k. k\<lparr>key_status := if sum > 4 then key_out else key_in\<rparr>) c) }"

definition check_key :: "'h xfer \<Rightarrow> board \<Rightarrow> 'h cabinet \<Rightarrow> 'h cabinet option" where
  "check_key xfer b c = for_each (slots b) (sample_key xfer b) c"

definition sample_lock :: "'h xfer \<Rightarrow> board \<Rightarrow> nat \<Rightarrow> 'h cabinet \<Rightarrow> 'h cabinet option" where
  "sample_lock xfer b index c = do {
     (lock_stat, io) \<leftarrow> get_lock xfer index b (sys c);
     rt_assert (index < APP_NUM);
     let (w, sum) = shift_sum 6 (check_elec c index) (uint lock_stat);
     let c = (put_sys io c)\<lparr>check_elec := (check_elec c)(index := w[6 := lock_stat])\<rparr>;
     Some (upd_key index (\<lambda>k. k\<lparr>lock_status := if sum > 4 then lock else unlock\<rparr>) c) }"

definition check_lock :: "'h xfer \<Rightarrow> board \<Rightarrow> 'h cabinet \<Rightarrow> 'h cabinet option" where
  "check_lock xfer b c = for_each (slots b) (sample_lock xfer b) c"

section \<open>Devices that are ready for use\<close>

text \<open>\<open>dev\<close> is registered and open, and its driver data name the expander at address \<open>a\<close> of the bus.\<close>

definition wired :: "'h nca_io \<Rightarrow> oid option \<Rightarrow> nat \<Rightarrow> u8 \<Rightarrow> bool" where
  "wired io dev bus a \<longleftrightarrow> (\<exists>d. dev = Some d \<and> rt_object_get_type (ODevice d) (kern io) = RT_Object_Class_Device \<and>
     ref_count (devs io d) \<noteq> 0 \<and> nca_of d io = Some \<lparr>i2c_bus = Some bus, nca_addr = a\<rparr>)"

lemma wired_put_chips [simp]: "wired (put_chips h io) dev bus a = wired io dev bus a"
  by (simp add: wired_def nca_of_def)

lemma pin_write_spec:
  assumes e: "expander xfer on_bus regs" "on_bus bus (ucast a)" and w: "wired io dev bus a" and off: "off < 16"
  obtains h where "pin_write xfer dev level (fst (pin_list ! off)) io = Some (put_chips h io)"
    "pin_changed regs bus (ucast a) REGISTER_0_OUTPUT_PORT off (level \<noteq> 0) (chips (hw io)) h"
proof -
  obtain d where d: "dev = Some d" "rt_object_get_type (ODevice d) (kern io) = RT_Object_Class_Device" "ref_count (devs io d) \<noteq> 0"
    "nca_of d io = Some \<lparr>i2c_bus = Some bus, nca_addr = a\<rparr>" using w by (auto simp: wired_def)
  obtain h where "rt_nca9555_write_pin xfer d level (fst (pin_list ! off)) 0 io = Some (0, put_chips h io)"
    "pin_changed regs bus (ucast a) REGISTER_0_OUTPUT_PORT off (level \<noteq> 0) (chips (hw io)) h"
    using write_pin_spec [OF e off d(4)] .
  then show thesis using d by (intro that [of h]) (simp_all add: pin_write_def rt_device_write_def device_assert_def nca_driver_def)
qed

lemma pin_mode_spec:
  assumes e: "expander xfer on_bus regs" "on_bus bus (ucast a)" and w: "wired io dev bus a" and off: "off < 16"
  obtains h where "pin_mode xfer dev OUTPUT (fst (pin_list ! off)) io = Some (put_chips h io)"
    "pin_changed regs bus (ucast a) REGISTER_0_CONFIGURATION_PORT off False (chips (hw io)) h"
proof -
  obtain d where d: "dev = Some d" "rt_object_get_type (ODevice d) (kern io) = RT_Object_Class_Device"
    "nca_of d io = Some \<lparr>i2c_bus = Some bus, nca_addr = a\<rparr>" using w by (auto simp: wired_def)
  obtain h where "rt_nca9555_control_pin xfer d (if False then INPUT else OUTPUT) (fst (pin_list ! off)) io = Some (RT_EOK, put_chips h io)"
    "pin_changed regs bus (ucast a) REGISTER_0_CONFIGURATION_PORT off False (chips (hw io)) h"
    using control_pin_spec [OF e off d(3), of False] .
  then show thesis using d by (intro that [of h]) (simp_all add: pin_mode_def rt_device_control_def device_assert_def nca_driver_def)
qed

text \<open>A transfer that reads changes no register, the input levels included: the sensors hold still while one slot after the other is read.\<close>

definition reads_quiet :: "'h xfer \<Rightarrow> ('h \<Rightarrow> nat \<Rightarrow> u16 \<Rightarrow> u8 \<Rightarrow> u8) \<Rightarrow> bool" where
  "reads_quiet xfer regs \<longleftrightarrow>
     (\<forall>bus m n h k bufs h'. xfer bus [m, n] h = (k, bufs, h') \<longrightarrow> msg_flags n = RT_I2C_RD \<longrightarrow> regs h' = regs h)"

lemma read_data_quiet:
  "reads_quiet xfer regs \<Longrightarrow> nca9555_read_data xfer dev reg len buf h = Some (r, b, h') \<Longrightarrow> regs h' = regs h"
  unfolding reads_quiet_def nca9555_read_data_def by (fastforce split: bind_splits prod.splits)

lemma put_chips_eq: "put_chips h io = put_chips h' io \<Longrightarrow> h = h'"
  by (drule arg_cong [where f = "\<lambda>io. chips (hw io)"]) simp

lemma get_level_spec:
  assumes e: "expander xfer on_bus regs" "on_bus bus (ucast a)" and q: "reads_quiet xfer regs"
    and w: "wired io (stat_dev b) bus a" and p: "board_pos b = 0" and i: "i < 6" "j < 2"
  obtains h where "get_level xfer j i b io = Some (of_bool (pin_bit regs (chips (hw io)) bus (ucast a) REGISTER_0_INPUT_PORT (8 * j + i)), put_chips h io)"
    "regs h = regs (chips (hw io))"
proof -
  obtain d where d: "stat_dev b = Some d" "rt_object_get_type (ODevice d) (kern io) = RT_Object_Class_Device" "ref_count (devs io d) \<noteq> 0"
    "nca_of d io = Some \<lparr>i2c_bus = Some bus, nca_addr = a\<rparr>" using w by (auto simp: wired_def)
  have off: "8 * j + i < 16" using i by simp
  obtain h where h: "rt_nca9555_read_pin xfer d 0 (fst (pin_list ! (8 * j + i))) 0 io =
      Some (of_bool (pin_bit regs (chips (hw io)) bus (ucast a) REGISTER_0_INPUT_PORT (8 * j + i)), put_chips h io)"
    using read_pin_spec [OF e off d(4)] by metis
  moreover have "regs h = regs (chips (hw io))"
    using h d(4) by (auto simp: rt_nca9555_read_pin_def get_list_off off split: bind_splits dest!: put_chips_eq read_data_quiet [OF q])
  ultimately show thesis using d i p
    by (intro that [of h]) (simp_all add: get_level_def rt_device_read_def device_assert_def nca_driver_def APP_NUM_def pin_name_list of_bool_def)
qed

section \<open>Debouncing\<close>

lemma length_7: "length w = 7 \<Longrightarrow> \<exists>a b c d e f g. w = [a, b, c, d, e, f, g]"
  by (auto simp: numeral_eq_Suc length_Suc_conv)

lemma shift_sum_window:
  "length w = 7 \<Longrightarrow> shift_sum 6 w s = (tl w @ [last w], s + (\<Sum>x\<leftarrow>tl w. uint x))"
  using length_7 [of w] by (auto simp: numeral_eq_Suc Let_def)

text \<open>The verdict on a window of samples.\<close>

definition mostly :: "bool list \<Rightarrow> bool" where
  "mostly w \<longleftrightarrow> 5 \<le> length (filter (\<lambda>b. b) w)"

lemma sum_of_bools: "(\<Sum>x\<leftarrow>map of_bool w. uint (x :: u8)) = int (length (filter (\<lambda>b. b) w))"
  by (induction w) auto

lemma for_each_rule:
  assumes "\<And>xs i ys s. is = xs @ i # ys \<Longrightarrow> I xs s \<Longrightarrow> \<exists>s'. f i s = Some s' \<and> I (xs @ [i]) s'" and "I [] s"
  shows "\<exists>s'. for_each is f s = Some s' \<and> I is s'"
proof -
  have "\<exists>s'. for_each ys f s = Some s' \<and> I is s'" if "is = xs @ ys" "I xs s" for xs ys s
    using that
  proof (induction ys arbitrary: xs s)
    case (Cons i ys)
    then obtain s' where "f i s = Some s'" "I (xs @ [i]) s'" using assms(1) by blast
    with Cons show ?case by simp
  qed simp
  from this [of "[]" "is"] assms(2) show ?thesis by simp
qed

text \<open>
  \<open>windows\<close>: slot \<open>i\<close> has the samples \<open>w i\<close>, oldest first; \<open>seen\<close>: one round has read all slots of the list \<open>xs\<close>.
\<close>

definition seen_keys :: "('h \<Rightarrow> nat \<Rightarrow> u16 \<Rightarrow> u8 \<Rightarrow> u8) \<Rightarrow> (nat \<Rightarrow> bool) \<Rightarrow> 'h cabinet \<Rightarrow> nat list \<Rightarrow> 'h cabinet \<Rightarrow> bool" where
  "seen_keys regs level c xs c' \<longleftrightarrow>
     (\<exists>h. sys c' = put_chips h (sys c) \<and> regs h = regs (chips (hw (sys c)))) \<and>
     (\<forall>i. check_amr c' i = (if i \<in> set xs then tl (check_amr c i) @ [of_bool (level i)] else check_amr c i)) \<and>
     (\<forall>i\<in>set xs. key_status (key c' i) = (if 4 < (\<Sum>x\<leftarrow>check_amr c' i. uint x) then key_out else key_in)) \<and>
     (\<forall>i. (key c' i)\<lparr>key_status := 0\<rparr> = (key c i)\<lparr>key_status := 0\<rparr>) \<and> check_elec c' = check_elec c"

lemma check_key_spec:
  assumes e: "expander xfer on_bus regs" "on_bus bus (ucast a)" and q: "reads_quiet xfer regs"
    and w: "wired (sys c) (stat_dev b) bus a" and p: "board_pos b = 0" and l: "\<And>i. i < 6 \<Longrightarrow> length (check_amr c i) = 7"
  shows "\<exists>c'. check_key xfer b c = Some c' \<and>
    seen_keys regs (\<lambda>i. pin_bit regs (chips (hw (sys c))) bus (ucast a) REGISTER_0_INPUT_PORT (8 + i)) c [0..<6] c'"
proof -
  let ?lv = "\<lambda>i. pin_bit regs (chips (hw (sys c))) bus (ucast a) REGISTER_0_INPUT_PORT (8 + i)"
  have sl: "slots b = [0..<6]" by (simp add: slots_def p APP_NUM_MAIN_def)
  show ?thesis unfolding check_key_def sl
  proof (rule for_each_rule [where I = "seen_keys regs ?lv c"])
    show "seen_keys regs ?lv c [] c" by (auto simp: seen_keys_def intro: exI [of _ "chips (hw (sys c))"])
    fix xs i ys c1
    assume sp: "[0..<6] = xs @ i # ys" and I: "seen_keys regs ?lv c xs c1"
    have i: "i < 6" using arg_cong [OF sp, of set] by auto
    have nx: "i \<notin> set xs" using arg_cong [OF sp, of distinct] by simp
    obtain h where h: "sys c1 = put_chips h (sys c)" "regs h = regs (chips (hw (sys c)))" using I by (auto simp: seen_keys_def)
    obtain h' where g: "get_level xfer 1 i b (sys c1) = Some (of_bool (?lv i), put_chips h' (sys c1))" "regs h' = regs (chips (hw (sys c)))"
      using get_level_spec [OF e q _ p i, of "sys c1" 1] w h by (auto simp: pin_bit_def)
    have wi: "check_amr c1 i = check_amr c i" "length (check_amr c i) = 7" using I nx l [OF i] by (simp_all add: seen_keys_def)
    let ?w = "tl (check_amr c i) @ [of_bool (?lv i)]"
    have upd: "(tl (check_amr c i) @ [last (check_amr c i)])[6 := of_bool (?lv i)] = ?w" using wi(2) by (simp add: list_update_append)
    define c2 where "c2 = upd_key i (\<lambda>k. k\<lparr>key_status := if (\<Sum>x\<leftarrow>?w. uint x) > 4 then key_out else key_in\<rparr>)
        ((put_sys (put_chips h' (sys c1)) c1)\<lparr>check_amr := (check_amr c1)(i := ?w)\<rparr>)"
    have "sample_key xfer b i c1 = Some c2"
      using g(1) i wi upd by (simp add: sample_key_def get_amr_def APP_NUM_def shift_sum_window add.commute c2_def)
    moreover have "seen_keys regs ?lv c (xs @ [i]) c2"
      using I g(2) h nx unfolding seen_keys_def c2_def by (auto intro: exI [of _ h'])
    ultimately show "\<exists>c2. sample_key xfer b i c1 = Some c2 \<and> seen_keys regs ?lv c (xs @ [i]) c2" by blast
  qed
qed

definition seen_locks :: "('h \<Rightarrow> nat \<Rightarrow> u16 \<Rightarrow> u8 \<Rightarrow> u8) \<Rightarrow> (nat \<Rightarrow> bool) \<Rightarrow> 'h cabinet \<Rightarrow> nat list \<Rightarrow> 'h cabinet \<Rightarrow> bool" where
  "seen_locks regs level c xs c' \<longleftrightarrow>
     (\<exists>h. sys c' = put_chips h (sys c) \<and> regs h = regs (chips (hw (sys c)))) \<and>
     (\<forall>i. check_elec c' i = (if i \<in> set xs then tl (check_elec c i) @ [of_bool (level i)] else check_elec c i)) \<and>
     (\<forall>i\<in>set xs. lock_status (key c' i) = (if 4 < (\<Sum>x\<leftarrow>check_elec c' i. uint x) then lock else unlock)) \<and>
     (\<forall>i. (key c' i)\<lparr>lock_status := 0\<rparr> = (key c i)\<lparr>lock_status := 0\<rparr>) \<and> check_amr c' = check_amr c"

lemma check_lock_spec:
  assumes e: "expander xfer on_bus regs" "on_bus bus (ucast a)" and q: "reads_quiet xfer regs"
    and w: "wired (sys c) (stat_dev b) bus a" and p: "board_pos b = 0" and l: "\<And>i. i < 6 \<Longrightarrow> length (check_elec c i) = 7"
  shows "\<exists>c'. check_lock xfer b c = Some c' \<and>
    seen_locks regs (\<lambda>i. pin_bit regs (chips (hw (sys c))) bus (ucast a) REGISTER_0_INPUT_PORT i) c [0..<6] c'"
proof -
  let ?lv = "\<lambda>i. pin_bit regs (chips (hw (sys c))) bus (ucast a) REGISTER_0_INPUT_PORT i"
  have sl: "slots b = [0..<6]" by (simp add: slots_def p APP_NUM_MAIN_def)
  show ?thesis unfolding check_lock_def sl
  proof (rule for_each_rule [where I = "seen_locks regs ?lv c"])
    show "seen_locks regs ?lv c [] c" by (auto simp: seen_locks_def intro: exI [of _ "chips (hw (sys c))"])
    fix xs i ys c1
    assume sp: "[0..<6] = xs @ i # ys" and I: "seen_locks regs ?lv c xs c1"
    have i: "i < 6" using arg_cong [OF sp, of set] by auto
    have nx: "i \<notin> set xs" using arg_cong [OF sp, of distinct] by simp
    obtain h where h: "sys c1 = put_chips h (sys c)" "regs h = regs (chips (hw (sys c)))" using I by (auto simp: seen_locks_def)
    obtain h' where g: "get_level xfer 0 i b (sys c1) = Some (of_bool (?lv i), put_chips h' (sys c1))" "regs h' = regs (chips (hw (sys c)))"
      using get_level_spec [OF e q _ p i, of "sys c1" 0] w h by (auto simp: pin_bit_def)
    have wi: "check_elec c1 i = check_elec c i" "length (check_elec c i) = 7" using I nx l [OF i] by (simp_all add: seen_locks_def)
    let ?w = "tl (check_elec c i) @ [of_bool (?lv i)]"
    have upd: "(tl (check_elec c i) @ [last (check_elec c i)])[6 := of_bool (?lv i)] = ?w" using wi(2) by (simp add: list_update_append)
    define c2 where "c2 = upd_key i (\<lambda>k. k\<lparr>lock_status := if (\<Sum>x\<leftarrow>?w. uint x) > 4 then lock else unlock\<rparr>)
        ((put_sys (put_chips h' (sys c1)) c1)\<lparr>check_elec := (check_elec c1)(i := ?w)\<rparr>)"
    have "sample_lock xfer b i c1 = Some c2"
      using g(1) i wi upd by (simp add: sample_lock_def get_lock_def APP_NUM_def shift_sum_window add.commute c2_def)
    moreover have "seen_locks regs ?lv c (xs @ [i]) c2"
      using I g(2) h nx unfolding seen_locks_def c2_def by (auto intro: exI [of _ h'])
    ultimately show "\<exists>c2. sample_lock xfer b i c1 = Some c2 \<and> seen_locks regs ?lv c (xs @ [i]) c2" by blast
  qed
qed

text \<open>
  Rounds of the sampling thread. Before each round the sensors have changed as they like: \<open>h\<close> is the state of the hardware
  when the round begins.
\<close>

fun sample_rounds :: "'h xfer \<Rightarrow> board \<Rightarrow> 'h list \<Rightarrow> 'h cabinet \<Rightarrow> 'h cabinet option" where
  "sample_rounds xfer b [] c = Some c"
| "sample_rounds xfer b (h # hs) c = do {
     c \<leftarrow> check_key xfer b (put_sys (put_chips h (sys c)) c);
     c \<leftarrow> check_lock xfer b c;
     sample_rounds xfer b hs c }"

definition sensor :: "('h \<Rightarrow> nat \<Rightarrow> u16 \<Rightarrow> u8 \<Rightarrow> u8) \<Rightarrow> nat \<Rightarrow> u8 \<Rightarrow> nat \<Rightarrow> 'h \<Rightarrow> bool" where
  "sensor regs bus a off h = pin_bit regs h bus (ucast a) REGISTER_0_INPUT_PORT off"

lemma round_spec:
  assumes e: "expander xfer on_bus regs" "on_bus bus (ucast a)" and q: "reads_quiet xfer regs"
    and w: "wired (sys c) (stat_dev b) bus a" and p: "board_pos b = 0"
    and l: "\<And>i. i < 6 \<Longrightarrow> length (check_amr c i) = 7" "\<And>i. i < 6 \<Longrightarrow> length (check_elec c i) = 7"
  obtains c1 c' where "check_key xfer b (put_sys (put_chips h (sys c)) c) = Some c1" "check_lock xfer b c1 = Some c'"
    "wired (sys c') (stat_dev b) bus a"
    "\<And>i. i < 6 \<Longrightarrow> check_amr c' i = tl (check_amr c i) @ [of_bool (sensor regs bus a (8 + i) h)]"
    "\<And>i. i < 6 \<Longrightarrow> check_elec c' i = tl (check_elec c i) @ [of_bool (sensor regs bus a i h)]"
    "\<And>i. i < 6 \<Longrightarrow> key_status (key c' i) = (if 4 < (\<Sum>x\<leftarrow>check_amr c' i. uint x) then key_out else key_in)"
    "\<And>i. i < 6 \<Longrightarrow> lock_status (key c' i) = (if 4 < (\<Sum>x\<leftarrow>check_elec c' i. uint x) then lock else unlock)"
proof -
  let ?c = "put_sys (put_chips h (sys c)) c"
  obtain c1 where 1: "check_key xfer b ?c = Some c1" and s1: "seen_keys regs (\<lambda>i. sensor regs bus a (8 + i) h) ?c [0..<6] c1"
    using check_key_spec [OF e q, of ?c b] w p l by (auto simp: sensor_def)
  obtain h1 where h1: "sys c1 = put_chips h1 (sys ?c)" "regs h1 = regs h" using s1 by (auto simp: seen_keys_def)
  have ce: "check_elec c1 = check_elec c" using s1 by (simp add: seen_keys_def)
  obtain c' where 2: "check_lock xfer b c1 = Some c'" and s2: "seen_locks regs (\<lambda>i. sensor regs bus a i h) c1 [0..<6] c'"
    using check_lock_spec [OF e q, of c1 b] w p l ce h1 by (auto simp: sensor_def pin_bit_def)
  have ks: "key_status (key c' i) = key_status (key c1 i)" for i
  proof -
    have "(key c' i)\<lparr>lock_status := 0\<rparr> = (key c1 i)\<lparr>lock_status := 0\<rparr>" using s2 by (simp add: seen_locks_def)
    then have "key_status ((key c' i)\<lparr>lock_status := 0\<rparr>) = key_status ((key c1 i)\<lparr>lock_status := 0\<rparr>)" by simp
    then show ?thesis by simp
  qed
  have ca: "check_amr c' = check_amr c1" using s2 by (simp add: seen_locks_def)
  show thesis
  proof (rule that [OF 1 2])
    show "wired (sys c') (stat_dev b) bus a" using s2 h1 w by (auto simp: seen_locks_def)
  qed (use s1 s2 ks ca ce in \<open>auto simp: seen_keys_def seen_locks_def\<close>)
qed

lemma rounds_spec:
  assumes e: "expander xfer on_bus regs" "on_bus bus (ucast a)" and q: "reads_quiet xfer regs" and p: "board_pos b = 0"
  shows "wired (sys c) (stat_dev b) bus a \<Longrightarrow> (\<And>i. i < 6 \<Longrightarrow> length (check_amr c i) = 7 \<and> length (check_elec c i) = 7) \<Longrightarrow>
    \<exists>c'. sample_rounds xfer b hs c = Some c' \<and> (\<forall>i<6.
      check_amr c' i = drop (length hs) (check_amr c i @ map (\<lambda>h. of_bool (sensor regs bus a (8 + i) h)) hs) \<and>
      check_elec c' i = drop (length hs) (check_elec c i @ map (\<lambda>h. of_bool (sensor regs bus a i h)) hs) \<and>
      (hs \<noteq> [] \<longrightarrow> key_status (key c' i) = (if 4 < (\<Sum>x\<leftarrow>check_amr c' i. uint x) then key_out else key_in) \<and>
        lock_status (key c' i) = (if 4 < (\<Sum>x\<leftarrow>check_elec c' i. uint x) then lock else unlock)))"
proof (induction hs arbitrary: c)
  case (Cons h hs)
  have l: "\<And>i. i < 6 \<Longrightarrow> length (check_amr c i) = 7" "\<And>i. i < 6 \<Longrightarrow> length (check_elec c i) = 7" using Cons.prems(2) by simp_all
  obtain c1 c2 where c2: "check_key xfer b (put_sys (put_chips h (sys c)) c) = Some c1" "check_lock xfer b c1 = Some c2"
    "wired (sys c2) (stat_dev b) bus a"
    "\<And>i. i < 6 \<Longrightarrow> check_amr c2 i = tl (check_amr c i) @ [of_bool (sensor regs bus a (8 + i) h)]"
    "\<And>i. i < 6 \<Longrightarrow> check_elec c2 i = tl (check_elec c i) @ [of_bool (sensor regs bus a i h)]"
    "\<And>i. i < 6 \<Longrightarrow> key_status (key c2 i) = (if 4 < (\<Sum>x\<leftarrow>check_amr c2 i. uint x) then key_out else key_in)"
    "\<And>i. i < 6 \<Longrightarrow> lock_status (key c2 i) = (if 4 < (\<Sum>x\<leftarrow>check_elec c2 i. uint x) then lock else unlock)"
    by (rule round_spec [OF e q Cons.prems(1) p, where h = h]) (simp_all add: l)
  have ne: "check_amr c i \<noteq> []" "check_elec c i \<noteq> []" if "i < 6" for i using l [OF that] by auto
  have t: "drop (length hs) ((tl w @ [x]) @ ys) = drop (length (h # hs)) (w @ x # ys)" if "w \<noteq> []" for w x and ys :: "u8 list"
    using that by (cases w) simp_all
  obtain c' where c': "sample_rounds xfer b hs c2 = Some c'" and I: "\<forall>i<6.
      check_amr c' i = drop (length hs) (check_amr c2 i @ map (\<lambda>h. of_bool (sensor regs bus a (8 + i) h)) hs) \<and>
      check_elec c' i = drop (length hs) (check_elec c2 i @ map (\<lambda>h. of_bool (sensor regs bus a i h)) hs) \<and>
      (hs \<noteq> [] \<longrightarrow> key_status (key c' i) = (if 4 < (\<Sum>x\<leftarrow>check_amr c' i. uint x) then key_out else key_in) \<and>
        lock_status (key c' i) = (if 4 < (\<Sum>x\<leftarrow>check_elec c' i. uint x) then lock else unlock))"
    using Cons.IH [OF c2(3)] c2(4,5) l by auto
  have "c' = c2" if "hs = []" using c' that by simp
  then show ?case using c' c2 I t ne by (intro exI [of _ c']) (cases hs, auto)
qed simp

lemma window_verdict:
  "7 \<le> length hs \<Longrightarrow> length w = 7 \<Longrightarrow>
   4 < (\<Sum>x\<leftarrow>drop (length hs) (w @ map (\<lambda>h. of_bool (f h) :: u8) hs). uint x) \<longleftrightarrow> mostly (map f (drop (length hs - 7) hs))"
proof -
  assume l: "7 \<le> length hs" "length w = 7"
  then have "drop (length hs) (w @ map (\<lambda>h. of_bool (f h) :: u8) hs) = map of_bool (map f (drop (length hs - 7) hs))"
    by (simp add: drop_map comp_def)
  then show ?thesis unfolding mostly_def by (simp only: sum_of_bools) presburger
qed

text \<open>
  C31: debouncing of the sensors. Whatever the sensors did, after at least seven rounds of the sampling thread every slot whose
  presence sensor was high in at least five of the last seven rounds is marked as taken, every other one as present,
  and its lock is marked closed by the same rule for its lock sensor. Every round returns.
\<close>

theorem sensors_debounced:
  assumes "expander xfer on_bus regs" "on_bus bus (ucast a)" "reads_quiet xfer regs"
    and "wired (sys c) (stat_dev b) bus a" "board_pos b = 0" "7 \<le> length hs"
    and l: "\<And>i. i < 6 \<Longrightarrow> length (check_amr c i) = 7 \<and> length (check_elec c i) = 7"
  shows "\<exists>c'. sample_rounds xfer b hs c = Some c' \<and> (\<forall>i<6.
    key_status (key c' i) = (if mostly (map (sensor regs bus a (8 + i)) (drop (length hs - 7) hs)) then key_out else key_in) \<and>
    lock_status (key c' i) = (if mostly (map (sensor regs bus a i) (drop (length hs - 7) hs)) then lock else unlock))"
proof -
  have "hs \<noteq> []" using assms(6) by auto
  moreover obtain c' where "sample_rounds xfer b hs c = Some c'" "\<forall>i<6.
      check_amr c' i = drop (length hs) (check_amr c i @ map (\<lambda>h. of_bool (sensor regs bus a (8 + i) h)) hs) \<and>
      check_elec c' i = drop (length hs) (check_elec c i @ map (\<lambda>h. of_bool (sensor regs bus a i h)) hs) \<and>
      (hs \<noteq> [] \<longrightarrow> key_status (key c' i) = (if 4 < (\<Sum>x\<leftarrow>check_amr c' i. uint x) then key_out else key_in) \<and>
        lock_status (key c' i) = (if 4 < (\<Sum>x\<leftarrow>check_elec c' i. uint x) then lock else unlock))"
    using rounds_spec [OF assms(1-3,5,4) l] by blast
  ultimately show ?thesis using window_verdict [OF assms(6)] l by (intro exI [of _ c']) simp
qed

lemma register_file_quiet: "reads_quiet register_file (\<lambda>h. h)"
  by (auto simp: reads_quiet_def register_file_def Let_def)

definition one_board :: board where
  "one_board = \<lparr>led = Some 4, stat_dev = Some 4, elec = Some 4, board_pos = 0\<rparr>"

definition empty_cabinet :: "(nat \<Rightarrow> u16 \<Rightarrow> u8 \<Rightarrow> u8) cabinet" where
  "empty_cabinet = \<lparr>sys = opened_expander,
     key = (\<lambda>_. \<lparr>cur_rfid_code = replicate 5 0xFF, last_rfid_code = replicate 5 0xFF, user_ch = replicate 11 CHR 0x00, user_code = replicate 5 0,
                  key_status = key_in, last_key_status = key_out, lock_status = unlock\<rparr>),
     check_amr = (\<lambda>_. replicate 7 0), check_elec = (\<lambda>_. replicate 7 0), check_id = (\<lambda>_. 0),
     rx_buffer = replicate 129 CHR 0x00, printed = []\<rparr>"

lemma empty_cabinet_wired: "wired (sys empty_cabinet) (Some 4) 1 0x21"
  by (simp add: wired_def empty_cabinet_def opened_expander_def registered_expander_def one_expander_def nca_of_def
      rt_object_get_type_def class_defs zero_device_def)

definition eight_rounds :: "(nat \<Rightarrow> u16 \<Rightarrow> u8 \<Rightarrow> u8) list" where
  "eight_rounds = replicate 8 (\<lambda>_ _ _. 1)"

theorem sensors_debounced_witness:
  "\<exists>c'. sample_rounds register_file one_board eight_rounds empty_cabinet = Some c' \<and> (\<forall>i<6.
    key_status (key c' i) = (if mostly (map (sensor (\<lambda>h. h) 1 0x21 (8 + i)) (drop (length eight_rounds - 7) eight_rounds)) then key_out else key_in) \<and>
    lock_status (key c' i) = (if mostly (map (sensor (\<lambda>h. h) 1 0x21 i) (drop (length eight_rounds - 7) eight_rounds)) then lock else unlock))"
  using empty_cabinet_wired
  by (intro sensors_debounced [OF register_file_expander _ register_file_quiet])
    (simp_all add: one_board_def empty_cabinet_def eight_rounds_def)

section \<open>Lamps\<close>

text \<open>The two lamps of a slot show a status; everything that is not named keeps its output, polarity and direction.\<close>

definition output_level :: "('h \<Rightarrow> nat \<Rightarrow> u16 \<Rightarrow> u8 \<Rightarrow> u8) \<Rightarrow> nat \<Rightarrow> u8 \<Rightarrow> nat \<Rightarrow> 'h \<Rightarrow> bool" where
  "output_level regs bus a off h = pin_bit regs h bus (ucast a) REGISTER_0_OUTPUT_PORT off"

definition shows_status :: "('h \<Rightarrow> nat \<Rightarrow> u16 \<Rightarrow> u8 \<Rightarrow> u8) \<Rightarrow> nat \<Rightarrow> u8 \<Rightarrow> nat \<Rightarrow> u8 \<Rightarrow> 'h \<Rightarrow> bool" where
  "shows_status regs bus a i s h \<longleftrightarrow>
     output_level regs bus a i h = (s = key_in) \<and> output_level regs bus a (8 + i) h = (s = key_out)"

definition only_pins :: "('h \<Rightarrow> nat \<Rightarrow> u16 \<Rightarrow> u8 \<Rightarrow> u8) \<Rightarrow> nat \<Rightarrow> u8 \<Rightarrow> nat set \<Rightarrow> 'h \<Rightarrow> 'h \<Rightarrow> bool" where
  "only_pins regs bus a S h h' \<longleftrightarrow>
     (\<forall>bus' a' r i. r \<in> {2, 4, 6} \<and> i < 16 \<and> \<not> (bus' = bus \<and> a' = ucast a \<and> i \<in> S) \<longrightarrow>
        pin_bit regs h' bus' a' r i = pin_bit regs h bus' a' r i)"

lemma only_pins_refl [simp]: "only_pins regs bus a S h h"
  by (simp add: only_pins_def)

lemma only_pins_trans: "only_pins regs bus a S h h1 \<Longrightarrow> only_pins regs bus a T h1 h2 \<Longrightarrow> only_pins regs bus a (S \<union> T) h h2"
  by (auto simp: only_pins_def)

lemma pin_changed_only: "pin_changed regs bus (ucast a) r off v h h' \<Longrightarrow> only_pins regs bus a {off} h h'"
  by (auto simp: pin_changed_def only_pins_def)

lemma only_pins_lamp: "only_pins regs bus a S h h' \<Longrightarrow> off < 16 \<Longrightarrow> off \<notin> S \<Longrightarrow> output_level regs bus a off h' = output_level regs bus a off h"
  by (simp add: only_pins_def output_level_def register_defs)

lemma led_only_spec:
  assumes e: "expander xfer on_bus regs" "on_bus bus (ucast a)" and w: "wired io (led b) bus a" and p: "board_pos b = 0" and i: "i < 6"
  obtains h where "(if s = key_in then led_only_red xfer i b io else led_only_green xfer i b io) = Some (RT_EOK, put_chips h io)"
    "output_level regs bus a i h = (s = key_in)" "output_level regs bus a (8 + i) h = (s \<noteq> key_in)" "only_pins regs bus a {i, 8 + i} (chips (hw io)) h"
proof -
  have off: "i < 16" "8 + i < 16" and n: "pin_name 0 (int i) = Some (fst (pin_list ! i))" "pin_name 1 (int i) = Some (fst (pin_list ! (8 + i)))"
    using i pin_name_list [of 0 i] pin_name_list [of 1 i] by simp_all
  let ?l = "if s = key_in then PIN_HIGH else PIN_LOW" and ?m = "if s = key_in then PIN_LOW else PIN_HIGH"
  obtain h1 where h1: "pin_write xfer (led b) ?l (fst (pin_list ! i)) io = Some (put_chips h1 io)"
    "pin_changed regs bus (ucast a) REGISTER_0_OUTPUT_PORT i (?l \<noteq> 0) (chips (hw io)) h1"
    using pin_write_spec [OF e w off(1)] .
  obtain h2 where h2: "pin_write xfer (led b) ?m (fst (pin_list ! (8 + i))) (put_chips h1 io) = Some (put_chips h2 (put_chips h1 io))"
    "pin_changed regs bus (ucast a) REGISTER_0_OUTPUT_PORT (8 + i) (?m \<noteq> 0) (chips (hw (put_chips h1 io))) h2"
    using pin_write_spec [OF e _ off(2), of "put_chips h1 io" "led b"] w by auto
  have "only_pins regs bus a ({i} \<union> {8 + i}) (chips (hw io)) h2"
    using pin_changed_only [OF h1(2)] pin_changed_only [OF h2(2)] by (intro only_pins_trans) simp_all
  moreover have "output_level regs bus a i h2 = (s = key_in)" "output_level regs bus a (8 + i) h2 = (s \<noteq> key_in)"
    using h1(2) h2(2) i by (auto simp: output_level_def pin_changed_def register_defs PIN_LOW_def PIN_HIGH_def)
  ultimately show thesis using h1(1) h2(1) n i p
    by (intro that [of h2]) (auto simp: led_only_red_def led_only_green_def APP_NUM_def insert_commute)
qed

text \<open>The slots whose status is not the one that was shown last, and the codes that are printed for them.\<close>

definition changed :: "'h cabinet \<Rightarrow> nat \<Rightarrow> bool" where
  "changed c i \<longleftrightarrow> key_status (key c i) \<in> {key_in, key_out} \<and> key_status (key c i) \<noteq> last_key_status (key c i)"

definition prints_code :: "'h cabinet \<Rightarrow> nat \<Rightarrow> bool" where
  "prints_code c i \<longleftrightarrow> changed c i \<and> key_status (key c i) = key_in \<and> last_rfid_code (key c i) \<noteq> cur_rfid_code (key c i)"

definition lamp_pins :: "nat set \<Rightarrow> nat set" where
  "lamp_pins S = S \<union> (\<lambda>i. 8 + i) ` S"

definition lamps_set :: "('h \<Rightarrow> nat \<Rightarrow> u16 \<Rightarrow> u8 \<Rightarrow> u8) \<Rightarrow> nat \<Rightarrow> u8 \<Rightarrow> 'h cabinet \<Rightarrow> nat list \<Rightarrow> 'h cabinet \<Rightarrow> bool" where
  "lamps_set regs bus a c xs c' \<longleftrightarrow>
     (\<exists>h. sys c' = put_chips h (sys c) \<and> only_pins regs bus a (lamp_pins {i \<in> set xs. changed c i}) (chips (hw (sys c))) h \<and>
        (\<forall>i\<in>set xs. changed c i \<longrightarrow> shows_status regs bus a i (key_status (key c i)) h)) \<and>
     (\<forall>i. key_status (key c' i) = key_status (key c i)) \<and>
     (\<forall>i. last_key_status (key c' i) = (if i \<in> set xs \<and> changed c i then key_status (key c i) else last_key_status (key c i))) \<and>
     (\<forall>i. i \<notin> set xs \<longrightarrow> key c' i = key c i) \<and>
     printed c' = printed c @ map (\<lambda>i. (i, cur_rfid_code (key c i))) (filter (prints_code c) xs)"

lemma show_key_unchanged: "i < 6 \<Longrightarrow> \<not> changed c i \<Longrightarrow> show_key xfer b i c = Some c"
  by (auto simp: show_key_def changed_def APP_NUM_def)

lemma show_key_changed:
  assumes "i < 6" "changed c i"
    and "(if key_status (key c i) = key_in then led_only_red xfer i b (sys c) else led_only_green xfer i b (sys c)) = Some (RT_EOK, io)"
  obtains c' where "show_key xfer b i c = Some c'" "sys c' = io" "\<And>j. j \<noteq> i \<Longrightarrow> key c' j = key c j"
    "key_status (key c' i) = key_status (key c i)" "last_key_status (key c' i) = key_status (key c i)"
    "printed c' = printed c @ (if prints_code c i then [(i, cur_rfid_code (key c i))] else [])"
proof (cases "key_status (key c i) = key_in")
  case True
  let ?c = "upd_key i (\<lambda>k. k\<lparr>last_key_status := key_status k\<rparr>) (put_sys io c)"
  have ne: "key_in \<noteq> key_out" by (simp add: status_defs)
  have "show_key xfer b i c = Some (snd (rfid_printf i ?c))"
    using assms True ne by (auto simp: show_key_def changed_def APP_NUM_def rfid_printf_def Let_def)
  then show thesis
    by (rule that) (use assms(2) True in \<open>auto simp: rfid_printf_def Let_def prints_code_def\<close>)
next
  case False
  then have k: "key_status (key c i) = key_out" "key_out \<noteq> key_in" using assms(2) by (auto simp: changed_def)
  then have "show_key xfer b i c = Some (upd_key i (\<lambda>k. k\<lparr>last_key_status := key_status k\<rparr>) (put_sys io c))"
    using assms by (auto simp: show_key_def changed_def APP_NUM_def)
  then show thesis by (rule that) (use k in \<open>auto simp: prints_code_def\<close>)
qed

lemma key_status_led_spec:
  assumes e: "expander xfer on_bus regs" "on_bus bus (ucast a)" and w: "wired (sys c) (led b) bus a" and p: "board_pos b = 0"
  shows "\<exists>c'. key_status_led xfer b c = Some c' \<and> lamps_set regs bus a c [0..<6] c'"
proof -
  have sl: "slots b = [0..<6]" by (simp add: slots_def p APP_NUM_MAIN_def)
  show ?thesis unfolding key_status_led_def sl
  proof (rule for_each_rule [where I = "lamps_set regs bus a c"])
    show "lamps_set regs bus a c [] c" by (auto simp: lamps_set_def intro: exI [of _ "chips (hw (sys c))"])
    fix xs i ys c1
    assume sp: "[0..<6] = xs @ i # ys" and I: "lamps_set regs bus a c xs c1"
    have i: "i < 6" and xs: "\<forall>x\<in>set xs. x < 6" using arg_cong [OF sp, of set] by (auto dest: equalityD2)
    have nx: "i \<notin> set xs" using arg_cong [OF sp, of distinct] by simp
    obtain h where h: "sys c1 = put_chips h (sys c)" "only_pins regs bus a (lamp_pins {i \<in> set xs. changed c i}) (chips (hw (sys c))) h"
      "\<forall>i\<in>set xs. changed c i \<longrightarrow> shows_status regs bus a i (key_status (key c i)) h" using I by (auto simp: lamps_set_def)
    have k: "key c1 i = key c i" using I nx by (simp add: lamps_set_def)
    show "\<exists>c2. show_key xfer b i c1 = Some c2 \<and> lamps_set regs bus a c (xs @ [i]) c2"
    proof (cases "changed c i")
      case False
      then have "show_key xfer b i c1 = Some c1" using show_key_unchanged [OF i, of c1] k by (simp add: changed_def)
      moreover have "{j. (j = i \<or> j \<in> set xs) \<and> changed c j} = {j \<in> set xs. changed c j}" using False by auto
      ultimately show ?thesis using I False by (auto simp: lamps_set_def prints_code_def)
    next
      case True
      then have ch: "changed c1 i" using k by (simp add: changed_def)
      obtain h2 where h2: "(if key_status (key c i) = key_in then led_only_red xfer i b (sys c1) else led_only_green xfer i b (sys c1)) =
          Some (RT_EOK, put_chips h2 (sys c1))" "output_level regs bus a i h2 = (key_status (key c i) = key_in)"
        "output_level regs bus a (8 + i) h2 = (key_status (key c i) \<noteq> key_in)" "only_pins regs bus a {i, 8 + i} (chips (hw (sys c1))) h2"
        using led_only_spec [OF e, of "sys c1" b i "key_status (key c i)"] w h(1) p i by auto
      obtain c2 where c2: "show_key xfer b i c1 = Some c2" "sys c2 = put_chips h2 (sys c1)" "\<And>j. j \<noteq> i \<Longrightarrow> key c2 j = key c1 j"
        "key_status (key c2 i) = key_status (key c1 i)" "last_key_status (key c2 i) = key_status (key c1 i)"
        "printed c2 = printed c1 @ (if prints_code c1 i then [(i, cur_rfid_code (key c1 i))] else [])"
        using show_key_changed [OF i ch, of xfer b "put_chips h2 (sys c1)"] h2(1) k by auto
      have "only_pins regs bus a (lamp_pins {i \<in> set xs. changed c i} \<union> {i, 8 + i}) (chips (hw (sys c))) h2"
        using only_pins_trans [OF h(2), of "{i, 8 + i}" h2] h2(4) h(1) by simp
      moreover have "lamp_pins {i \<in> set xs. changed c i} \<union> {i, 8 + i} = lamp_pins {j \<in> set (xs @ [i]). changed c j}"
        using True by (auto simp: lamp_pins_def)
      ultimately have o: "only_pins regs bus a (lamp_pins {j \<in> set (xs @ [i]). changed c j}) (chips (hw (sys c))) h2" by simp
      have s1: "shows_status regs bus a j (key_status (key c j)) h2" if "j \<in> set xs" "changed c j" for j
      proof -
        have "j < 6" "j \<noteq> i" using that xs nx by auto
        then show ?thesis
          using h(1,3) that only_pins_lamp [OF h2(4), of j] only_pins_lamp [OF h2(4), of "8 + j"] i by (simp add: shows_status_def)
      qed
      have s2: "shows_status regs bus a i (key_status (key c i)) h2"
        using h2(2,3) True by (auto simp: shows_status_def changed_def status_defs)
      have "prints_code c1 i = prints_code c i" using k by (simp add: prints_code_def changed_def)
      then have pr: "printed c2 = printed c @ map (\<lambda>i. (i, cur_rfid_code (key c i))) (filter (prints_code c) (xs @ [i]))"
        using I c2(6) k by (simp add: lamps_set_def)
      have ks: "key_status (key c2 j) = key_status (key c j)"
        "last_key_status (key c2 j) = (if j \<in> set (xs @ [i]) \<and> changed c j then key_status (key c j) else last_key_status (key c j))"
        "j \<notin> set (xs @ [i]) \<longrightarrow> key c2 j = key c j" for j
        using I c2(3) [of j] c2(4,5) k True by (cases "j = i", simp_all add: lamps_set_def)+
      have "\<forall>j\<in>set (xs @ [i]). changed c j \<longrightarrow> shows_status regs bus a j (key_status (key c j)) h2" using s1 s2 by simp
      moreover have "sys c2 = put_chips h2 (sys c)" using c2(2) h(1) by simp
      ultimately have "lamps_set regs bus a c (xs @ [i]) c2"
        unfolding lamps_set_def using o pr ks by blast
      with c2(1) show ?thesis by blast
    qed
  qed
qed

section \<open>Magnets\<close>

text \<open>A delay of the running thread leaves the object headers of devices alone.\<close>

lemma schedule_remove_objs: "rt_schedule_remove_thread t k = Some k' \<Longrightarrow> objs k' = objs k"
  by (auto simp: rt_schedule_remove_thread_def Let_def split: bind_splits)

lemma schedule_insert_objs: "rt_schedule_insert_thread t k = Some k' \<Longrightarrow> objs k' = objs k"
  by (auto simp: rt_schedule_insert_thread_def Let_def split: bind_splits if_splits)

lemma schedule_objs: "rt_schedule k = Some k' \<Longrightarrow> objs k' = objs k"
  by (auto simp: rt_schedule_def rt_schedule_insert_thread_def rt_schedule_remove_thread_def
      Let_def split: if_splits bind_splits prod.splits)

lemma timer_stop_header: "rt_timer_stop t k = Some (r, k') \<Longrightarrow> objs k' (ODevice d) = objs k (ODevice d)"
  by (auto simp: rt_timer_stop_def rt_timer_remove_def Let_def split: bind_splits if_splits)

lemma thread_suspend_header: "rt_thread_suspend t k = Some (r, k') \<Longrightarrow> objs k' (ODevice d) = objs k (ODevice d)"
  by (auto simp: rt_thread_suspend_def Let_def split: bind_splits if_splits dest!: timer_stop_header schedule_remove_objs)

lemma thread_resume_header: "rt_thread_resume t k = Some (r, k') \<Longrightarrow> objs k' (ODevice d) = objs k (ODevice d)"
  by (auto simp: rt_thread_resume_def Let_def split: bind_splits if_splits dest!: timer_stop_header schedule_insert_objs)

lemma timer_start_header: "rt_timer_start t k = Some (r, k') \<Longrightarrow> objs k' (ODevice d) = objs k (ODevice d)"
  by (auto simp: rt_timer_start_def rt_timer_remove_def Let_def split: bind_splits if_splits dest!: thread_resume_header schedule_objs)

lemma mdelay_header: "rt_thread_mdelay ms k = Some k' \<Longrightarrow> objs k' (ODevice d) = objs k (ODevice d)"
  by (auto simp: rt_thread_mdelay_def rt_thread_sleep_def sleep_for_def arm_thread_timer_def rt_timer_control_def
      split: bind_splits dest!: schedule_objs timer_start_header [where d = d] thread_suspend_header [where d = d])

lemma mdelay_returns:
  assumes wf: "kernel_wf k" and c: "current k = Some t" "st k t = RT_THREAD_RUNNING"
    and short: "unat (rt_tick_from_millisecond ms) < half"
  obtains k' where "rt_thread_mdelay ms k = Some k'" "kernel_wf k'"
proof -
  have "runnable (st k t)" using c by simp
  then obtain k1 where k1: "sleep_for t (rt_tick_from_millisecond ms) k = Some k1" "kernel_wf k1" "current k1 = current k"
    using sleep_for_spec [OF wf _ short] by metis
  obtain k' where "rt_schedule k1 = Some k'" "kernel_wf k'" using rt_schedule_kernel [OF k1(2)] k1(3) c by auto
  moreover have "rt_object_get_type (OThread t) k = RT_Object_Class_Thread" using kernel_wfD(2) [OF wf, of t] c by (simp add: thread_objs_def)
  ultimately show thesis using c k1(1) that by (simp add: rt_thread_mdelay_def rt_thread_sleep_def rt_thread_self_def)
qed

lemma wired_kern: "objs k (ODevice (the dev)) = objs (kern io) (ODevice (the dev)) \<Longrightarrow> wired (io\<lparr>kern := k\<rparr>) dev bus a = wired io dev bus a"
  by (auto simp: wired_def nca_of_def rt_object_get_type_def)

definition is_output :: "('h \<Rightarrow> nat \<Rightarrow> u16 \<Rightarrow> u8 \<Rightarrow> u8) \<Rightarrow> nat \<Rightarrow> u8 \<Rightarrow> nat \<Rightarrow> 'h \<Rightarrow> bool" where
  "is_output regs bus a off h \<longleftrightarrow> \<not> pin_bit regs h bus (ucast a) REGISTER_0_CONFIGURATION_PORT off"

text \<open>The pin that is pulsed and the pin that stays low.\<close>

definition pulse_pin :: "u8 \<Rightarrow> nat \<Rightarrow> nat" where
  "pulse_pin act i = (if act = unlock then i else 8 + i)"

definition rest_pin :: "u8 \<Rightarrow> nat \<Rightarrow> nat" where
  "rest_pin act i = (if act = unlock then 8 + i else i)"

text \<open>
  While the caller sleeps the other threads leave the device of the magnets registered and open and its expander alone.
\<close>

definition leaves_alone :: "('h \<Rightarrow> nat \<Rightarrow> u16 \<Rightarrow> u8 \<Rightarrow> u8) \<Rightarrow> oid option \<Rightarrow> nat \<Rightarrow> u8 \<Rightarrow> ('h nca_io \<Rightarrow> 'h nca_io) \<Rightarrow> bool" where
  "leaves_alone regs dev bus a others \<longleftrightarrow> (\<forall>io. wired io dev bus a \<longrightarrow> wired (others io) dev bus a \<and>
     (\<forall>r\<in>{2, 4, 6}. \<forall>i<16. pin_bit regs (chips (hw (others io))) bus (ucast a) r i = pin_bit regs (chips (hw io)) bus (ucast a) r i))"

lemma elec_toggle_start:
  assumes e: "expander xfer on_bus regs" "on_bus bus (ucast a)" and w: "wired io (elec b) bus a" and pq: "p < 16" "q < 16" "p \<noteq> q"
  obtains h1 h2 h3 h where "pin_mode xfer (elec b) OUTPUT (fst (pin_list ! q)) io = Some (put_chips h1 io)"
    "pin_write xfer (elec b) PIN_LOW (fst (pin_list ! q)) (put_chips h1 io) = Some (put_chips h2 io)"
    "pin_mode xfer (elec b) OUTPUT (fst (pin_list ! p)) (put_chips h2 io) = Some (put_chips h3 io)"
    "pin_write xfer (elec b) PIN_HIGH (fst (pin_list ! p)) (put_chips h3 io) = Some (put_chips h io)"
    "output_level regs bus a p h" "\<not> output_level regs bus a q h" "is_output regs bus a p h" "is_output regs bus a q h"
    "only_pins regs bus a {p, q} (chips (hw io)) h"
proof -
  obtain h1 where h1: "pin_mode xfer (elec b) OUTPUT (fst (pin_list ! q)) io = Some (put_chips h1 io)"
    "pin_changed regs bus (ucast a) REGISTER_0_CONFIGURATION_PORT q False (chips (hw io)) h1"
    using pin_mode_spec [OF e w pq(2)] .
  obtain h2 where h2: "pin_write xfer (elec b) PIN_LOW (fst (pin_list ! q)) (put_chips h1 io) = Some (put_chips h2 (put_chips h1 io))"
    "pin_changed regs bus (ucast a) REGISTER_0_OUTPUT_PORT q (PIN_LOW \<noteq> 0) h1 h2"
    using pin_write_spec [OF e _ pq(2), of "put_chips h1 io" "elec b" PIN_LOW] w by auto
  obtain h3 where h3: "pin_mode xfer (elec b) OUTPUT (fst (pin_list ! p)) (put_chips h2 io) = Some (put_chips h3 (put_chips h2 io))"
    "pin_changed regs bus (ucast a) REGISTER_0_CONFIGURATION_PORT p False h2 h3"
    using pin_mode_spec [OF e _ pq(1), of "put_chips h2 io" "elec b"] w by auto
  obtain h where h: "pin_write xfer (elec b) PIN_HIGH (fst (pin_list ! p)) (put_chips h3 io) = Some (put_chips h (put_chips h3 io))"
    "pin_changed regs bus (ucast a) REGISTER_0_OUTPUT_PORT p (PIN_HIGH \<noteq> 0) h3 h"
    using pin_write_spec [OF e _ pq(1), of "put_chips h3 io" "elec b" PIN_HIGH] w by auto
  have "only_pins regs bus a (({q} \<union> {q}) \<union> ({p} \<union> {p})) (chips (hw io)) h"
    by (intro only_pins_trans pin_changed_only) (use h1(2) h2(2) h3(2) h(2) in simp_all)
  then have "only_pins regs bus a {p, q} (chips (hw io)) h" by (simp add: insert_commute)
  moreover have "output_level regs bus a p h" "\<not> output_level regs bus a q h" "is_output regs bus a p h" "is_output regs bus a q h"
    using h1(2) h2(2) h3(2) h(2) pq by (auto simp: output_level_def is_output_def pin_changed_def register_defs PIN_LOW_def PIN_HIGH_def)
  ultimately show thesis using that [of h1 h2 h3 h] h1(1) h2(1) h3(1) h(1) by simp
qed

section \<open>Properties of lamps and magnets\<close>

text \<open>
  C32: the lamps follow the status. One pass of the lamp thread returns; each slot whose status differs from the one shown last
  gets its red lamp on and its green lamp off when the key is present, the other way round when it is taken; all other lamps
  and all other pins of all expanders keep their state. Afterwards the status counts as shown, and a code is printed for exactly
  the keys that came back with a code not printed before.
\<close>

theorem lamps_follow_status:
  assumes "expander xfer on_bus regs" "on_bus bus (ucast a)" "wired (sys c) (led b) bus a" "board_pos b = 0"
  shows "\<exists>c' h. key_status_led xfer b c = Some c' \<and> sys c' = put_chips h (sys c) \<and>
    (\<forall>i<6. changed c i \<longrightarrow> shows_status regs bus a i (key_status (key c i)) h) \<and>
    only_pins regs bus a (lamp_pins {i. i < 6 \<and> changed c i}) (chips (hw (sys c))) h \<and>
    (\<forall>i<6. key_status (key c' i) = key_status (key c i) \<and>
       (key_status (key c i) \<in> {key_in, key_out} \<longrightarrow> last_key_status (key c' i) = key_status (key c i))) \<and>
    printed c' = printed c @ map (\<lambda>i. (i, cur_rfid_code (key c i))) (filter (prints_code c) [0..<6])"
proof -
  obtain c' where c': "key_status_led xfer b c = Some c'" and l: "lamps_set regs bus a c [0..<6] c'"
    using key_status_led_spec [OF assms] by blast
  obtain h where h: "sys c' = put_chips h (sys c)" "only_pins regs bus a (lamp_pins {i \<in> set [0..<6]. changed c i}) (chips (hw (sys c))) h"
    "\<forall>i\<in>set [0..<6]. changed c i \<longrightarrow> shows_status regs bus a i (key_status (key c i)) h" using l unfolding lamps_set_def by blast
  have "\<forall>i<6. key_status (key c' i) = key_status (key c i) \<and>
       (key_status (key c i) \<in> {key_in, key_out} \<longrightarrow> last_key_status (key c' i) = key_status (key c i))"
    using l by (auto simp: lamps_set_def changed_def)
  moreover have "printed c' = printed c @ map (\<lambda>i. (i, cur_rfid_code (key c i))) (filter (prints_code c) [0..<6])"
    using l by (simp add: lamps_set_def)
  ultimately show ?thesis using c' h by (intro exI [of _ c'] exI [of _ h]) simp
qed

theorem lamps_follow_status_witness:
  "\<exists>c' h. key_status_led register_file one_board empty_cabinet = Some c' \<and> sys c' = put_chips h (sys empty_cabinet) \<and>
    (\<forall>i<6. changed empty_cabinet i \<longrightarrow> shows_status (\<lambda>h. h) 1 0x21 i (key_status (key empty_cabinet i)) h) \<and>
    only_pins (\<lambda>h. h) 1 0x21 (lamp_pins {i. i < 6 \<and> changed empty_cabinet i}) (chips (hw (sys empty_cabinet))) h \<and>
    (\<forall>i<6. key_status (key c' i) = key_status (key empty_cabinet i) \<and>
       (key_status (key empty_cabinet i) \<in> {key_in, key_out} \<longrightarrow> last_key_status (key c' i) = key_status (key empty_cabinet i))) \<and>
    printed c' = printed empty_cabinet @ map (\<lambda>i. (i, cur_rfid_code (key empty_cabinet i))) (filter (prints_code empty_cabinet) [0..<6])"
  using empty_cabinet_wired by (intro lamps_follow_status [OF register_file_expander]) (simp_all add: one_board_def)

lemma elec_action_pulse:
  assumes e: "expander xfer on_bus regs" "on_bus bus (ucast a)" and w: "wired io (elec b) bus a" and b: "board_pos b = 0"
    and i: "i < 6" and act: "act \<in> {unlock, lock}"
    and k: "kernel_wf (kern io)" "current (kern io) = Some t" "st (kern io) t = RT_THREAD_RUNNING"
    and o: "leaves_alone regs (elec b) bus a others"
  obtains h h' k where "kernel_wf k" "elec_action xfer others [b] (int i) act io = Some (RT_EOK, put_chips h' (others ((put_chips h io)\<lparr>kern := k\<rparr>)))"
    "is_output regs bus a (pulse_pin act i) h" "is_output regs bus a (rest_pin act i) h"
    "output_level regs bus a (pulse_pin act i) h" "\<not> output_level regs bus a (rest_pin act i) h"
    "only_pins regs bus a {pulse_pin act i, rest_pin act i} (chips (hw io)) h"
    "\<not> output_level regs bus a (pulse_pin act i) h'" "\<not> output_level regs bus a (rest_pin act i) h'"
    "only_pins regs bus a {pulse_pin act i} (chips (hw (others ((put_chips h io)\<lparr>kern := k\<rparr>)))) h'"
    "wired (others ((put_chips h io)\<lparr>kern := k\<rparr>)) (elec b) bus a"
proof -
  have "unat (rt_tick_from_millisecond 50) < half" by (simp add: rt_tick_from_millisecond_def RT_TICK_PER_SECOND_def half_def)
  then obtain k where d: "rt_thread_mdelay 50 (kern io) = Some k" "kernel_wf k" using mdelay_returns [OF k] by blast
  define p q where pq: "p = pulse_pin act i" "q = rest_pin act i"
  have lt: "p < 16" "q < 16" "p \<noteq> q" using i by (simp_all add: pq pulse_pin_def rest_pin_def)
  have n: "pin_name 0 (int i) = Some (fst (pin_list ! i))" "pin_name 1 (int i) = Some (fst (pin_list ! (8 + i)))"
    using i pin_name_list [of 0 i] pin_name_list [of 1 i] by simp_all
  obtain h1 h2 h3 h where h: "pin_mode xfer (elec b) OUTPUT (fst (pin_list ! q)) io = Some (put_chips h1 io)"
    "pin_write xfer (elec b) PIN_LOW (fst (pin_list ! q)) (put_chips h1 io) = Some (put_chips h2 io)"
    "pin_mode xfer (elec b) OUTPUT (fst (pin_list ! p)) (put_chips h2 io) = Some (put_chips h3 io)"
    "pin_write xfer (elec b) PIN_HIGH (fst (pin_list ! p)) (put_chips h3 io) = Some (put_chips h io)"
    "output_level regs bus a p h" "\<not> output_level regs bus a q h" "is_output regs bus a p h" "is_output regs bus a q h"
    "only_pins regs bus a {p, q} (chips (hw io)) h"
    using elec_toggle_start [OF e w lt] .
  let ?io0 = "(put_chips h io)\<lparr>kern := k\<rparr>"
  have w0: "wired ?io0 (elec b) bus a" using w mdelay_header [OF d(1)] wired_kern [of k "elec b" "put_chips h io"] by simp
  then have w1: "wired (others ?io0) (elec b) bus a" and keep: "output_level regs bus a q (chips (hw (others ?io0))) = output_level regs bus a q h"
    using o lt by (auto simp: leaves_alone_def output_level_def register_defs)
  obtain h' where h': "pin_write xfer (elec b) PIN_LOW (fst (pin_list ! p)) (others ?io0) = Some (put_chips h' (others ?io0))"
    "pin_changed regs bus (ucast a) REGISTER_0_OUTPUT_PORT p (PIN_LOW \<noteq> 0) (chips (hw (others ?io0))) h'"
    using pin_write_spec [OF e w1 lt(1)] .
  have f: "\<not> output_level regs bus a p h'" "\<not> output_level regs bus a q h'" "only_pins regs bus a {p} (chips (hw (others ?io0))) h'"
    using h'(2) keep h(6) lt pin_changed_only [OF h'(2)] by (auto simp: output_level_def pin_changed_def register_defs PIN_LOW_def)
  have "lock \<noteq> unlock" by (simp add: status_defs)
  then have "elec_toggle xfer others b act i io = Some (put_chips h' (others ?io0))"
    using act n h(1-4) h'(1) d b by (auto simp: elec_toggle_def pq pulse_pin_def rest_pin_def mdelay_def)
  then have "elec_action xfer others [b] (int i) act io = Some (RT_EOK, put_chips h' (others ?io0))"
    using i b by (simp add: elec_action_def APP_NUM_def)
  then show thesis using that [OF d(2)] h f w1 unfolding pq [symmetric] by blast
qed

text \<open>
  C33: moving a magnet. \<open>elec_action\<close> on slot \<open>i\<close> returns; while the caller waits out the pulse, both pins of the magnet are outputs,
  the pin for the wanted direction is high and the other one is low; afterwards both are low. No other pin of any expander
  is touched by the call. The kernel is well formed and the caller is the running thread.
\<close>

theorem magnet_pulse:
  assumes e: "expander xfer on_bus regs" "on_bus bus (ucast a)" and w: "wired io (elec b) bus a" and b: "board_pos b = 0"
    and i: "i < 6" and act: "act \<in> {unlock, lock}"
    and k: "kernel_wf (kern io)" "current (kern io) = Some t" "st (kern io) t = RT_THREAD_RUNNING"
    and o: "leaves_alone regs (elec b) bus a others"
  shows "\<exists>h h' k. let io1 = others ((put_chips h io)\<lparr>kern := k\<rparr>); p = pulse_pin act i; q = rest_pin act i in
    elec_action xfer others [b] (int i) act io = Some (RT_EOK, put_chips h' io1) \<and>
    is_output regs bus a p h \<and> is_output regs bus a q h \<and> output_level regs bus a p h \<and> \<not> output_level regs bus a q h \<and>
    only_pins regs bus a {p, q} (chips (hw io)) h \<and>
    \<not> output_level regs bus a p h' \<and> \<not> output_level regs bus a q h' \<and> only_pins regs bus a {p} (chips (hw io1)) h'"
  using elec_action_pulse [OF e w b i act k o] unfolding Let_def by metis

definition running_expander :: "(nat \<Rightarrow> u16 \<Rightarrow> u8 \<Rightarrow> u8) nca_io" where
  "running_expander = opened_expander\<lparr>kern :=
     upd_obj (ODevice 4) (\<lambda>ob. ob\<lparr>otype := RT_Object_Class_Device OR RT_Object_Class_Static\<rparr>) sample\<rparr>"

lemma running_expander_wired: "wired running_expander (Some 4) 1 0x21"
  by (simp add: wired_def running_expander_def opened_expander_def registered_expander_def one_expander_def nca_of_def
      rt_object_get_type_def class_defs zero_device_def)

lemma kernel_wf_device_header: "kernel_wf (upd_obj (ODevice d) f k) = kernel_wf k"
  by (simp add: kernel_wf_def objs_wf_def thread_objs_def timers_wf_def rt_object_get_type_def rt_object_is_systemobject_def lock_ok_def)

theorem magnet_pulse_witness:
  "\<exists>h h' k. let io1 = id ((put_chips h running_expander)\<lparr>kern := k\<rparr>); p = pulse_pin lock 3; q = rest_pin lock 3 in
    elec_action register_file id [one_board] (int 3) lock running_expander = Some (RT_EOK, put_chips h' io1) \<and>
    is_output (\<lambda>h. h) 1 0x21 p h \<and> is_output (\<lambda>h. h) 1 0x21 q h \<and> output_level (\<lambda>h. h) 1 0x21 p h \<and> \<not> output_level (\<lambda>h. h) 1 0x21 q h \<and>
    only_pins (\<lambda>h. h) 1 0x21 {p, q} (chips (hw running_expander)) h \<and>
    \<not> output_level (\<lambda>h. h) 1 0x21 p h' \<and> \<not> output_level (\<lambda>h. h) 1 0x21 q h' \<and> only_pins (\<lambda>h. h) 1 0x21 {p} (chips (hw io1)) h'"
proof (rule magnet_pulse [OF register_file_expander])
  show "wired running_expander (elec one_board) 1 0x21" using running_expander_wired by (simp add: one_board_def)
  show "kernel_wf (kern running_expander)" using sample_wf by (simp add: running_expander_def kernel_wf_device_header)
  show "current (kern running_expander) = Some 5" by (simp add: running_expander_def)
  show "st (kern running_expander) 5 = RT_THREAD_RUNNING" by (simp add: running_expander_def three_def RT_THREAD_RUNNING_def)
qed (simp_all add: one_board_def leaves_alone_def)

end
