(* ===== verification/Rfid.thy ===== *)
theory Rfid
  imports Cabinet
begin

text \<open>
  The reader of the key codes, \<^verbatim>\<open>applications/M606_module/M606_tool.c\<close>. The reader sends lines of the form
  \<^verbatim>\<open>{0123456789,\<dots>,}\<close>, one group of ten hexadecimal digits for each slot. Every packet that the serial driver reports is a
  message in the queue of the reader; \<open>rfid_get\<close> waits for the message and reads the packet. Here the packets come in a
  list, with \<open>None\<close> for a call of \<open>rt_mq_recv\<close> that fails. What the thread does between the packets is complete.

  An array access outside its array is \<open>None\<close>, with one exception that the hardware permits: the last number that \<open>str2hex\<close>
  stores reaches over the end of the array \<open>code\<close> into the status bytes behind it, and that is in the model.
\<close>

section \<open>Text functions of the C library\<close>

definition is_space :: "char \<Rightarrow> bool" where
  "is_space ch \<longleftrightarrow> ch \<in> set [CHR '' '', CHR 0x09, CHR 0x0A, CHR 0x0B, CHR 0x0C, CHR 0x0D]"

definition hex_value :: "char \<Rightarrow> nat option" where
  "hex_value ch =
     (let n = of_char ch :: nat in
      if 48 \<le> n \<and> n \<le> 57 then Some (n - 48)
      else if 65 \<le> n \<and> n \<le> 70 then Some (n - 55)
      else if 97 \<le> n \<and> n \<le> 102 then Some (n - 87)
      else None)"

text \<open>
  \<^verbatim>\<open>sscanf(str, "%02X", &v)\<close>: white space, then at most two characters of a hexadecimal number, which may have a sign; the two
  characters \<^verbatim>\<open>0x\<close> are no number. \<open>None\<close>: nothing is stored.
\<close>

definition sscanf_02X :: "string \<Rightarrow> u32 option" where
  "sscanf_02X str =
     (case take 2 (dropWhile is_space str) of
        [] \<Rightarrow> None
      | [a] \<Rightarrow> map_option of_nat (hex_value a)
      | a # b # _ \<Rightarrow>
          (if a = CHR ''+'' then map_option of_nat (hex_value b)
           else if a = CHR ''-'' then map_option (\<lambda>n. - of_nat n) (hex_value b)
           else if a = CHR ''0'' \<and> (b = CHR ''x'' \<or> b = CHR ''X'') then None
           else do { n \<leftarrow> hex_value a; Some (case hex_value b of None \<Rightarrow> of_nat n | Some m \<Rightarrow> of_nat (16 * n + m)) }))"

definition delim :: "char \<Rightarrow> bool" where
  "delim ch \<longleftrightarrow> ch \<in> set ''{,}''"

text \<open>\<^verbatim>\<open>strtok(\<dots>, "{,}")\<close>: the next token and the text behind the delimiter that ends it.\<close>

definition strtok :: "string \<Rightarrow> (string \<times> string) option" where
  "strtok s =
     (let s = dropWhile delim s in
      if s = [] then None else Some (takeWhile (\<lambda>ch. \<not> delim ch) s, tl (dropWhile (\<lambda>ch. \<not> delim ch) s)))"

definition c_str :: "string \<Rightarrow> string" where
  "c_str s = takeWhile (\<lambda>ch. ch \<noteq> CHR 0x00) s"

text \<open>\<open>rt_strncpy\<close> fills all of its \<open>n\<close> characters, with zeros behind the text.\<close>

definition strncpy_fill :: "nat \<Rightarrow> string \<Rightarrow> string" where
  "strncpy_fill n src = (let s = take n (c_str src) in s @ replicate (n - length s) CHR 0x00)"

section \<open>The reader (M606_tool.c)\<close>

definition M606_RFID_NUM :: nat where "M606_RFID_NUM = 6"
definition ONE_DATA_MAXLEN :: nat where "ONE_DATA_MAXLEN = 80"
definition RT_SERIAL_RB_BUFSZ :: nat where "RT_SERIAL_RB_BUFSZ = 128"

text \<open>The packet replaces the front of the static buffer; no terminator is added.\<close>

definition rfid_get :: "string option \<Rightarrow> 'h cabinet \<Rightarrow> 'h cabinet option" where
  "rfid_get msg c = (case msg of
     None \<Rightarrow> Some c
   | Some p \<Rightarrow> do {
       rt_assert (length p \<le> RT_SERIAL_RB_BUFSZ + 1);
       Some (c\<lparr>rx_buffer := p @ drop (length p) (rx_buffer c)\<rparr>) })"

definition store32 :: "nat \<Rightarrow> u32 \<Rightarrow> u8 list \<Rightarrow> u8 list" where
  "store32 i v out =
     out[i := ucast v, i + 1 := ucast (drop_bit 8 v), i + 2 := ucast (drop_bit 16 v), i + 3 := ucast (drop_bit 24 v)]"

text \<open>\<open>out\<close> is the memory from the target on.\<close>

definition str2hex :: "string \<Rightarrow> u8 list \<Rightarrow> (int \<times> u8 list) option" where
  "str2hex str out = do {
     rt_assert (CHR 0x00 \<in> set str);
     let s = c_str str;
     let ret = length s div 2 + length s mod 2;
     out \<leftarrow> for_each [0..<ret] (\<lambda>i out. do {
       rt_assert (i + 4 \<le> length out);
       Some (case sscanf_02X (drop (2 * i) s) of None \<Rightarrow> out | Some v \<Rightarrow> store32 i v out) }) out;
     Some (int ret, out) }"

text \<open>The body of the loop of \<open>code_split\<close>: a token of another length leaves its slot as it is.\<close>

definition take_code :: "nat \<Rightarrow> string \<Rightarrow> 'h cabinet \<Rightarrow> 'h cabinet option" where
  "take_code i ret c =
     (if length ret \<noteq> 10 then Some c
      else do {
        rt_assert (i < APP_NUM);
        let k = key c i;
        let ch = ret @ drop 10 (user_ch k);
        (_, out) \<leftarrow> str2hex ch (user_code k @ [key_status k, last_key_status k, lock_status k]);
        Some (upd_key i (\<lambda>k. k\<lparr>user_ch := ch, user_code := take 5 out,
          key_status := out ! 5, last_key_status := out ! 6, lock_status := out ! 7\<rparr>) c) })"

fun split_loop :: "nat \<Rightarrow> nat \<Rightarrow> string \<Rightarrow> 'h cabinet \<Rightarrow> 'h cabinet option" where
  "split_loop 0 i s c = Some c"
| "split_loop (Suc n) i s c = (case strtok s of
     None \<Rightarrow> Some c
   | Some (ret, s) \<Rightarrow> take_code i ret c \<bind> split_loop n (i + 1) s)"

definition code_split :: "string \<Rightarrow> nat \<Rightarrow> 'h cabinet \<Rightarrow> 'h cabinet option" where
  "code_split ch pos c = split_loop M606_RFID_NUM pos (c_str ch) c"

definition get_frame :: "string option list \<Rightarrow> 'h cabinet \<Rightarrow> (string \<times> string option list \<times> 'h cabinet) option" where
  "get_frame msgs c = (case msgs of
     [] \<Rightarrow> None
   | msg # msgs \<Rightarrow> do { c \<leftarrow> rfid_get msg c; Some (strncpy_fill ONE_DATA_MAXLEN (rx_buffer c), msgs, c) })"

text \<open>The second loop of \<open>scan_rfid\<close>.\<close>

definition filter_code :: "nat \<Rightarrow> 'h cabinet \<Rightarrow> 'h cabinet option" where
  "filter_code i c = do {
     rt_assert (i < APP_NUM);
     if user_code (key c i) \<noteq> cur_rfid_code (key c i) \<and> check_id c i < 2
     then Some (c\<lparr>check_id := (check_id c)(i := check_id c i + 1)\<rparr>)
     else Some (upd_key i (\<lambda>k. k\<lparr>last_rfid_code := cur_rfid_code k, cur_rfid_code := user_code k\<rparr>)
       (c\<lparr>check_id := (check_id c)(i := 0)\<rparr>)) }"

text \<open>
  Eighty characters without a zero make \<^verbatim>\<open>strlen(data)\<close> run on behind the array; \<open>beyond\<close> is the number of characters that it
  counts there.
\<close>

definition strlen_data :: "nat \<Rightarrow> string \<Rightarrow> nat" where
  "strlen_data beyond data = (if CHR 0x00 \<in> set data then length (c_str data) else length data + beyond)"

definition scan_rfid :: "nat \<Rightarrow> nat \<Rightarrow> string option list \<Rightarrow> 'h cabinet \<Rightarrow> (rt_err_t \<times> string option list \<times> 'h cabinet) option" where
  "scan_rfid beyond pos msgs c = do {
     (data, msgs, c) \<leftarrow> get_frame msgs c;
     (data, msgs, c) \<leftarrow>
       (if strlen_data beyond data \<noteq> ONE_DATA_MAXLEN + 1 \<and> strlen_data beyond data \<noteq> ONE_DATA_MAXLEN then get_frame msgs c
        else Some (data, msgs, c));
     c \<leftarrow> code_split (data[ONE_DATA_MAXLEN - 1 := CHR 0x00]) pos c;
     c \<leftarrow> for_each [pos..<M606_RFID_NUM + pos] filter_code c;
     Some (RT_EOK, msgs, c) }"

section \<open>Frames\<close>

text \<open>The line that the reader sends for seven codes of five bytes, with small or with capital letters.\<close>

definition hex_byte :: "bool \<Rightarrow> u8 \<Rightarrow> string" where
  "hex_byte l b = [digit_char l (unat b div 16), digit_char l (unat b mod 16)]"

definition code_text :: "bool \<Rightarrow> u8 list \<Rightarrow> string" where
  "code_text l code = concat (map (hex_byte l) code)"

definition frame :: "bool \<Rightarrow> u8 list list \<Rightarrow> string" where
  "frame l codes = ''{'' @ concat (map (\<lambda>code. code_text l code @ '','') codes) @ ''}''"

definition codes_ok :: "u8 list list \<Rightarrow> bool" where
  "codes_ok codes \<longleftrightarrow> length codes = 7 \<and> list_all (\<lambda>code. length code = 5) codes"

lemma digit_char_hex:
  "d < 16 \<Longrightarrow> hex_value (digit_char l d) = Some d \<and> \<not> is_space (digit_char l d) \<and> \<not> delim (digit_char l d) \<and>
     digit_char l d \<notin> {CHR 0x00, CHR ''+'', CHR ''-'', CHR ''x'', CHR ''X''}"
proof -
  have "\<forall>l. \<forall>d\<in>set [0..<16]. hex_value (digit_char l d) = Some d \<and> \<not> is_space (digit_char l d) \<and> \<not> delim (digit_char l d) \<and>
     digit_char l d \<notin> set [CHR 0x00, CHR ''+'', CHR ''-'', CHR ''x'', CHR ''X'']" by code_simp
  then show "d < 16 \<Longrightarrow> ?thesis" by simp
qed

lemma unat_u8: "unat (b :: u8) div 16 < 16" "unat (b :: u8) mod 16 < 16"
proof -
  have "unat b < 2 ^ 8" using unsigned_less [of b] by simp
  then show "unat (b :: u8) div 16 < 16" "unat (b :: u8) mod 16 < 16" by (simp_all add: less_mult_imp_div_less)
qed

lemma sscanf_hex_byte: "sscanf_02X (hex_byte l b @ s) = Some (ucast b)"
proof -
  have "16 * (unat b div 16) + unat b mod 16 = unat b" by simp
  then have "of_nat (16 * (unat b div 16) + unat b mod 16) = (ucast b :: u32)" by (simp only: of_nat_unat)
  then show ?thesis
    using digit_char_hex [OF unat_u8(1), of l b] digit_char_hex [OF unat_u8(2), of l b]
    by (simp add: sscanf_02X_def hex_byte_def del: of_nat_add of_nat_mult)
qed

lemma code_text_chars: "ch \<in> set (code_text l code) \<Longrightarrow> \<not> delim ch \<and> ch \<noteq> CHR 0x00"
proof -
  assume "ch \<in> set (code_text l code)"
  then obtain b :: u8 where "ch = digit_char l (unat b div 16) \<or> ch = digit_char l (unat b mod 16)"
    by (auto simp: code_text_def hex_byte_def)
  then obtain d where "d < 16" "ch = digit_char l d" using unat_u8 [of b] by blast
  then show ?thesis using digit_char_hex [of d l] by simp
qed

lemma length_code_text [simp]: "length (code_text l code) = 2 * length code"
  by (induction code) (simp_all add: code_text_def hex_byte_def)

lemma length_5: "length xs = 5 \<longleftrightarrow> (\<exists>a b c d e. xs = [a, b, c, d, e])"
  by (auto simp: numeral_eq_Suc length_Suc_conv)

text \<open>Ten digits fill the five bytes, and the last number clears the three bytes behind them.\<close>

lemma str2hex_code:
  assumes "length code = 5" "length out = 8"
  shows "str2hex (code_text l code @ CHR 0x00 # s) out = Some (5, code @ [0, 0, 0])"
proof -
  obtain a b c d e where code: "code = [a, b, c, d, e]" using assms(1) by (auto simp: length_5)
  obtain o0 o1 o2 o3 o4 o5 o6 o7 where out: "out = [o0, o1, o2, o3, o4, o5, o6, o7]"
    using assms(2) by (auto simp: numeral_eq_Suc length_Suc_conv)
  have byte: "ucast (ucast v :: u32) = v" "ucast (drop_bit 8 (ucast v :: u32)) = (0 :: u8)"
    "ucast (drop_bit 16 (ucast v :: u32)) = (0 :: u8)" "ucast (drop_bit 24 (ucast v :: u32)) = (0 :: u8)" for v :: u8
    by (rule bit_word_eqI, auto simp: bit_simps dest: bit_imp_le_length)+
  have scan: "sscanf_02X (drop 0 (code_text l code)) = Some (ucast a)" "sscanf_02X (drop 2 (code_text l code)) = Some (ucast b)"
    "sscanf_02X (drop 4 (code_text l code)) = Some (ucast c)" "sscanf_02X (drop 6 (code_text l code)) = Some (ucast d)"
    "sscanf_02X (drop 8 (code_text l code)) = Some (ucast e)"
    using sscanf_hex_byte [of l a "code_text l [b, c, d, e]"] sscanf_hex_byte [of l b "code_text l [c, d, e]"]
      sscanf_hex_byte [of l c "code_text l [d, e]"] sscanf_hex_byte [of l d "code_text l [e]"] sscanf_hex_byte [of l e "[]"]
    by (simp_all add: code code_text_def hex_byte_def)
  have up: "[0..<5] = [0, 1, 2, 3, 4 :: nat]" by (simp add: upt_rec)
  have z: "c_str (code_text l code @ CHR 0x00 # s) = code_text l code" "length (code_text l code) = 10"
    using code_text_chars assms(1) by (simp_all add: c_str_def takeWhile_append2)
  show ?thesis
    using scan by (simp add: str2hex_def z up out) (simp add: code store32_def byte)
qed

text \<open>The sizes of the arrays and the terminator of the text, which no operation writes.\<close>

definition key_shape :: "key_info \<Rightarrow> bool" where
  "key_shape k \<longleftrightarrow> length (cur_rfid_code k) = 5 \<and> length (last_rfid_code k) = 5 \<and> length (user_code k) = 5 \<and>
     length (user_ch k) = 11 \<and> drop 10 (user_ch k) = [CHR 0x00]"

definition scanned :: "bool \<Rightarrow> u8 list \<Rightarrow> key_info \<Rightarrow> key_info" where
  "scanned l code k = k\<lparr>user_ch := code_text l code @ [CHR 0x00], user_code := code,
     key_status := 0, last_key_status := 0, lock_status := 0\<rparr>"

lemma take_code_scanned:
  assumes "i < 6" "key_shape (key c i)" "length code = 5"
  shows "take_code i (code_text l code) c = Some (upd_key i (scanned l code) c)"
proof -
  let ?k = "key c i"
  have d: "drop 10 (user_ch ?k) = [CHR 0x00]" and "length (user_code ?k) = 5" using assms(2) by (simp_all add: key_shape_def)
  then have "str2hex (code_text l code @ [CHR 0x00]) (user_code ?k @ [key_status ?k, last_key_status ?k, lock_status ?k]) =
      Some (5, code @ [0, 0, 0])"
    using str2hex_code [OF assms(3), where s = "[]"] by simp
  moreover have "take 5 (code @ [0, 0, 0]) = code" "(code @ [0, 0, 0]) ! 5 = 0" "(code @ [0, 0, 0]) ! 6 = 0" "(code @ [0, 0, 0]) ! 7 = 0"
    using assms(3) by (simp_all add: nth_append)
  ultimately show ?thesis using assms(1,3) d by (simp add: take_code_def APP_NUM_def scanned_def Let_def)
qed

lemma strtok_skip: "delim d \<Longrightarrow> strtok (d # s) = strtok s"
  by (simp add: strtok_def)

lemma strtok_token: "t \<noteq> [] \<Longrightarrow> (\<And>ch. ch \<in> set t \<Longrightarrow> \<not> delim ch) \<Longrightarrow> delim d \<Longrightarrow> strtok (t @ d # s) = Some (t, s)"
  by (cases t) (auto simp: strtok_def takeWhile_append2 dropWhile_append2)

lemma split_loop_skip: "delim d \<Longrightarrow> split_loop n i (d # s) c = split_loop n i s c"
  by (cases n) (simp_all add: strtok_skip)

lemma split_loop_codes:
  assumes "n \<le> length codes" "list_all (\<lambda>code. length code = 5) codes" "i + n \<le> 6" "\<And>j. j < 6 \<Longrightarrow> key_shape (key c j)"
  shows "split_loop n i (concat (map (\<lambda>code. code_text l code @ '','') codes) @ s) c =
    Some (c\<lparr>key := \<lambda>j. if i \<le> j \<and> j < i + n then scanned l (codes ! (j - i)) (key c j) else key c j\<rparr>)"
  using assms
proof (induction n arbitrary: i c codes)
  case 0
  have "(\<lambda>j. if i \<le> j \<and> j < i + 0 then scanned l (codes ! (j - i)) (key c j) else key c j) = key c" by (rule ext) auto
  then show ?case by simp
next
  case (Suc n)
  then obtain code rest where codes: "codes = code # rest" by (cases codes) auto
  let ?c = "upd_key i (scanned l code) c"
  have "key_shape (scanned l code k)" if "key_shape k" for k
    using that Suc.prems(2) codes by (auto simp: key_shape_def scanned_def)
  then have shape: "key_shape (key ?c j)" if "j < 6" for j using Suc.prems(4) that by simp
  have "code \<noteq> []" using Suc.prems(2) codes by auto
  then have "code_text l code \<noteq> []" using length_code_text [of l code] by (metis length_0_conv mult_is_0 zero_neq_numeral)
  then have "strtok (concat (map (\<lambda>code. code_text l code @ '','') codes) @ s) =
      Some (code_text l code, concat (map (\<lambda>code. code_text l code @ '','') rest) @ s)"
    using strtok_token [of "code_text l code" "CHR '',''"] code_text_chars by (simp add: codes delim_def)
  moreover have "take_code i (code_text l code) c = Some ?c"
    using Suc.prems codes by (intro take_code_scanned) auto
  moreover have "split_loop n (i + 1) (concat (map (\<lambda>code. code_text l code @ '','') rest) @ s) ?c =
      Some (?c\<lparr>key := \<lambda>j. if i + 1 \<le> j \<and> j < i + 1 + n then scanned l (rest ! (j - (i + 1))) (key ?c j) else key ?c j\<rparr>)"
    using Suc.prems(1-3) codes shape by (intro Suc.IH) simp_all
  moreover have "(\<lambda>j. if i + 1 \<le> j \<and> j < i + 1 + n then scanned l (rest ! (j - (i + 1))) (key ?c j) else key ?c j) =
      (\<lambda>j. if i \<le> j \<and> j < i + Suc n then scanned l (codes ! (j - i)) (key c j) else key c j)"
    by (auto simp: fun_eq_iff codes nth_Cons')
  ultimately show ?case by simp
qed

section \<open>The filter\<close>

text \<open>What a frame does to the code of a slot and to the number of differing frames in a row.\<close>

definition filtered :: "key_info \<Rightarrow> u8 \<Rightarrow> key_info \<times> u8" where
  "filtered k n =
     (if user_code k \<noteq> cur_rfid_code k \<and> n < 2 then (k, n + 1)
      else (k\<lparr>last_rfid_code := cur_rfid_code k, cur_rfid_code := user_code k\<rparr>, 0))"

lemma filter_codes:
  "distinct is \<Longrightarrow> \<forall>i\<in>set is. i < 6 \<Longrightarrow> for_each is filter_code c =
     Some (c\<lparr>key := \<lambda>i. if i \<in> set is then fst (filtered (key c i) (check_id c i)) else key c i,
             check_id := \<lambda>i. if i \<in> set is then snd (filtered (key c i) (check_id c i)) else check_id c i\<rparr>)"
proof (induction "is" arbitrary: c)
  case (Cons i "is")
  have one: "filter_code i c = Some (c\<lparr>key := (key c)(i := fst (filtered (key c i) (check_id c i))),
      check_id := (check_id c)(i := snd (filtered (key c i) (check_id c i)))\<rparr>)"
    using Cons.prems by (simp add: filter_code_def filtered_def APP_NUM_def)
  show ?case using Cons by (simp add: one) (auto simp: fun_eq_iff intro!: cabinet.fold_congs)
qed simp

text \<open>A frame with at least one more character behind it, as the serial driver delivers it.\<close>

definition frame_ok :: "bool \<times> u8 list list \<times> string \<Rightarrow> bool" where
  "frame_ok f \<longleftrightarrow> (case f of (l, codes, end) \<Rightarrow> codes_ok codes \<and> end \<noteq> [] \<and> hd end \<noteq> CHR 0x00 \<and> length end \<le> 50)"

definition packet :: "bool \<times> u8 list list \<times> string \<Rightarrow> string option" where
  "packet f = (case f of (l, codes, end) \<Rightarrow> Some (frame l codes @ end))"

definition after_frame :: "bool \<times> u8 list list \<times> string \<Rightarrow> key_info \<Rightarrow> nat \<Rightarrow> u8 \<Rightarrow> key_info \<times> u8" where
  "after_frame f k i n = (case f of (l, codes, end) \<Rightarrow> filtered (scanned l (codes ! i) k) n)"

lemma length_frame: "codes_ok codes \<Longrightarrow> length (frame l codes) = 79"
proof -
  have "list_all (\<lambda>code. length code = 5) codes \<Longrightarrow> length (concat (map (\<lambda>code. code_text l code @ '','') codes)) = 11 * length codes"
    by (induction codes) simp_all
  then show "codes_ok codes \<Longrightarrow> ?thesis" by (simp add: codes_ok_def frame_def)
qed

lemma frame_chars: "ch \<in> set (frame l codes) \<Longrightarrow> ch \<noteq> CHR 0x00"
  by (auto simp: frame_def dest: code_text_chars split: if_splits)

lemma code_split_frame:
  assumes "codes_ok codes" "\<And>j. j < 6 \<Longrightarrow> key_shape (key c j)"
  shows "code_split (frame l codes @ [CHR 0x00]) 0 c =
    Some (c\<lparr>key := \<lambda>j. if j < 6 then scanned l (codes ! j) (key c j) else key c j\<rparr>)"
proof -
  have "c_str (frame l codes @ [CHR 0x00]) = frame l codes"
    using frame_chars by (simp add: c_str_def takeWhile_append2)
  then show ?thesis
    using assms split_loop_codes [of 6 codes 0 c l "''}''"]
    by (simp add: code_split_def split_loop_skip M606_RFID_NUM_def codes_ok_def frame_def delim_def cong: if_cong)
qed

lemma scan_frame:
  assumes f: "frame_ok f" and shape: "\<And>j. j < 6 \<Longrightarrow> key_shape (key c j)" and "beyond \<le> 1"
  obtains rx where "scan_rfid beyond 0 (packet f # msgs) c = Some (RT_EOK, msgs, c\<lparr>rx_buffer := rx,
    key := \<lambda>i. if i < 6 then fst (after_frame f (key c i) i (check_id c i)) else key c i,
    check_id := \<lambda>i. if i < 6 then snd (after_frame f (key c i) i (check_id c i)) else check_id c i\<rparr>)"
proof -
  obtain l codes ch "end" where f': "f = (l, codes, ch # end)" "codes_ok codes" "ch \<noteq> CHR 0x00" "length end < 50"
    using f by (cases f) (auto simp: frame_ok_def neq_Nil_conv)
  let ?p = "frame l codes @ ch # end"
  let ?rx = "?p @ drop (length ?p) (rx_buffer c)"
  have n: "length (frame l codes) = 79" using length_frame [OF f'(2)] .
  have "takeWhile (\<lambda>ch. ch \<noteq> CHR 0x00) ?rx = frame l codes @ ch # takeWhile (\<lambda>ch. ch \<noteq> CHR 0x00) (end @ drop (length ?p) (rx_buffer c))"
    using frame_chars f'(3) by (simp add: takeWhile_append2)
  then have data: "strncpy_fill 80 ?rx = frame l codes @ [ch]" using n by (simp add: strncpy_fill_def c_str_def)
  have "CHR 0x00 \<notin> set (frame l codes @ [ch])" using frame_chars f'(3) by auto
  then have len: "strlen_data beyond (frame l codes @ [ch]) = 81 \<or> strlen_data beyond (frame l codes @ [ch]) = 80"
    using n assms(3) by (auto simp: strlen_data_def)
  let ?c = "c\<lparr>rx_buffer := ?rx\<rparr>"
  let ?d = "?c\<lparr>key := \<lambda>j. if j < 6 then scanned l (codes ! j) (key c j) else key c j\<rparr>"
  have get: "get_frame (packet f # msgs) c = Some (frame l codes @ [ch], msgs, ?c)"
    using f' n data by (simp add: get_frame_def rfid_get_def packet_def RT_SERIAL_RB_BUFSZ_def ONE_DATA_MAXLEN_def)
  have upd: "(frame l codes @ [ch])[79 := CHR 0x00] = frame l codes @ [CHR 0x00]"
    using n by (simp add: list_update_append)
  have split: "code_split (frame l codes @ [CHR 0x00]) 0 ?c = Some ?d"
    using code_split_frame [OF f'(2), of ?c l] shape by (simp cong: if_cong)
  have filter: "for_each [0..<6] filter_code ?d = Some (?d\<lparr>
      key := \<lambda>i. if i < 6 then fst (after_frame f (key c i) i (check_id c i)) else key c i,
      check_id := \<lambda>i. if i < 6 then snd (after_frame f (key c i) i (check_id c i)) else check_id c i\<rparr>)"
    using filter_codes [of "[0..<6]" ?d] by (simp add: f'(1) after_frame_def cong: if_cong)
  show thesis
    using get upd split filter len by (intro that [of ?rx]) (auto simp: scan_rfid_def M606_RFID_NUM_def ONE_DATA_MAXLEN_def)
qed

text \<open>The loop of \<^verbatim>\<open>rfid_entry\<close>, run \<open>n\<close> times; there is one board, whose reader starts at slot 0.\<close>

fun rfid_rounds :: "nat \<Rightarrow> nat \<Rightarrow> string option list \<Rightarrow> 'h cabinet \<Rightarrow> (string option list \<times> 'h cabinet) option" where
  "rfid_rounds beyond 0 msgs c = Some (msgs, c)"
| "rfid_rounds beyond (Suc n) msgs c = do {
     (_, msgs, c) \<leftarrow> scan_rfid beyond 0 msgs c;
     rfid_rounds beyond n msgs c }"

text \<open>
  The reference: a code that differs from the current one replaces it when it is the third of a row of frames that differ
  from the current one.
\<close>

definition vote :: "u8 list \<Rightarrow> u8 list \<times> u8 \<Rightarrow> u8 list \<times> u8" where
  "vote code = (\<lambda>(cur, n). if code \<noteq> cur \<and> n < 2 then (cur, n + 1) else (code, 0))"

definition seen :: "(bool \<times> u8 list list \<times> string) list \<Rightarrow> nat \<Rightarrow> u8 list list" where
  "seen fs i = map (\<lambda>(l, codes, end). codes ! i) fs"

definition status_cleared :: "key_info \<Rightarrow> bool" where
  "status_cleared k \<longleftrightarrow> key_status k = 0 \<and> last_key_status k = 0 \<and> lock_status k = 0"

lemma after_frame_vote:
  assumes "frame_ok f" "i < 6"
  shows "(cur_rfid_code (fst (after_frame f k i n)), snd (after_frame f k i n)) = vote (hd (seen [f] i)) (cur_rfid_code k, n)"
    "user_code (fst (after_frame f k i n)) = hd (seen [f] i)" "status_cleared (fst (after_frame f k i n))"
    "key_shape k \<Longrightarrow> key_shape (fst (after_frame f k i n))"
  using assms
  by (cases f; auto simp: after_frame_def filtered_def scanned_def vote_def seen_def status_cleared_def key_shape_def frame_ok_def
      codes_ok_def list_all_length)+

lemma rfid_rounds_vote:
  assumes "list_all frame_ok fs" "\<And>j. j < 6 \<Longrightarrow> key_shape (key c j)" "beyond \<le> 1"
  shows "\<exists>c'. rfid_rounds beyond (length fs) (map packet fs @ msgs) c = Some (msgs, c') \<and> sys c' = sys c \<and> (\<forall>i<6.
    (cur_rfid_code (key c' i), check_id c' i) = fold vote (seen fs i) (cur_rfid_code (key c i), check_id c i) \<and>
    (fs \<noteq> [] \<longrightarrow> user_code (key c' i) = last (seen fs i) \<and> status_cleared (key c' i)))"
  using assms(1,2)
proof (induction fs arbitrary: c)
  case (Cons f fs)
  have f: "frame_ok f" using Cons.prems(1) by simp
  obtain rx where s: "scan_rfid beyond 0 (packet f # (map packet fs @ msgs)) c = Some (RT_EOK, map packet fs @ msgs, c\<lparr>rx_buffer := rx,
    key := \<lambda>i. if i < 6 then fst (after_frame f (key c i) i (check_id c i)) else key c i,
    check_id := \<lambda>i. if i < 6 then snd (after_frame f (key c i) i (check_id c i)) else check_id c i\<rparr>)" (is "_ = Some (_, _, ?d)")
    by (rule scan_frame [OF f Cons.prems(2) assms(3)])
  note step = after_frame_vote [OF f]
  have "\<exists>c'. rfid_rounds beyond (length fs) (map packet fs @ msgs) ?d = Some (msgs, c') \<and> sys c' = sys ?d \<and> (\<forall>i<6.
    (cur_rfid_code (key c' i), check_id c' i) = fold vote (seen fs i) (cur_rfid_code (key ?d i), check_id ?d i) \<and>
    (fs \<noteq> [] \<longrightarrow> user_code (key c' i) = last (seen fs i) \<and> status_cleared (key c' i)))"
    using Cons.prems step(4) by (intro Cons.IH) simp_all
  then obtain c' where c': "rfid_rounds beyond (length fs) (map packet fs @ msgs) ?d = Some (msgs, c')" "sys c' = sys c"
    "\<And>i. i < 6 \<Longrightarrow> (cur_rfid_code (key c' i), check_id c' i) = fold vote (seen fs i) (cur_rfid_code (key ?d i), check_id ?d i)"
    "\<And>i. i < 6 \<Longrightarrow> fs \<noteq> [] \<Longrightarrow> user_code (key c' i) = last (seen fs i) \<and> status_cleared (key c' i)" by auto
  have cons: "seen (f # fs) i = hd (seen [f] i) # seen fs i" and seen_empty: "seen fs i = [] \<longleftrightarrow> fs = []" "last (seen [f] i) = hd (seen [f] i)" for i by (simp_all add: seen_def)
  have head: "(cur_rfid_code (key ?d i), check_id ?d i) = vote (hd (seen [f] i)) (cur_rfid_code (key c i), check_id c i)" if "i < 6" for i
    using step(1) [OF that] that by simp
  have "c' = ?d" if "fs = []" using c'(1) that by simp
  then have "user_code (key c' i) = last (seen (f # fs) i) \<and> status_cleared (key c' i)" if "i < 6" for i
    using step(2,3) [OF that] c'(4) [OF that] that by (cases "fs = []") (simp_all add: cons seen_empty)
  moreover have "(cur_rfid_code (key c' i), check_id c' i) = fold vote (seen (f # fs) i) (cur_rfid_code (key c i), check_id c i)"
    if "i < 6" for i using c'(3) [OF that] unfolding head [OF that] by (simp add: cons)
  ultimately show ?case using s c'(1,2) by (intro exI [of _ c']) simp
qed (simp add: seen_def)

lemma vote_count: "n \<le> 2 \<Longrightarrow> snd (fold vote xs (cur, n)) \<le> 2"
proof (induction xs arbitrary: cur n)
  case (Cons x xs)
  have "n < 2 \<Longrightarrow> n + 1 \<le> 2" by (simp add: word_less_nat_alt word_le_nat_alt unat_word_ariths)
  then show ?case using Cons by (simp add: vote_def)
qed simp

lemma vote_settles:
  assumes "n \<le> 2"
  shows "fold vote (xs @ [x, x, x]) (cur, n) = (x, 0)"
proof -
  obtain cur' n' where s: "fold vote xs (cur, n) = (cur', n')" by force
  then have "unat n' \<le> 2" using vote_count [OF assms, of xs cur] by (simp add: word_le_nat_alt)
  then have "unat n' \<in> {0, 1, 2}" by auto
  then have "n' \<in> {0, 1, 2}" by (auto simp: word_unat_eq_iff)
  then show ?thesis using s by (auto simp: vote_def)
qed

lemma vote_calm:
  fixes n :: nat
  assumes "n \<le> 2" "\<And>k. k + 2 < n + length xs \<Longrightarrow>
    (replicate n False @ map (\<lambda>x. x = cur) xs) ! k \<or> (replicate n False @ map (\<lambda>x. x = cur) xs) ! (k + 1) \<or>
    (replicate n False @ map (\<lambda>x. x = cur) xs) ! (k + 2)"
  shows "fst (fold vote xs (cur, of_nat n)) = cur"
  using assms
proof (induction xs arbitrary: n)
  case (Cons x xs)
  show ?case
  proof (cases "x = cur")
    case True
    have "map (\<lambda>x. x = cur) xs ! k \<or> map (\<lambda>x. x = cur) xs ! (k + 1) \<or> map (\<lambda>x. x = cur) xs ! (k + 2)" if "k + 2 < length xs" for k
      using Cons.prems(2) [of "n + 1 + k"] that by (simp add: nth_append)
    then show ?thesis using Cons.IH [of 0] True by (simp add: vote_def)
  next
    case False
    have shift: "replicate n False @ map (\<lambda>x. x = cur) (x # xs) = replicate (Suc n) False @ map (\<lambda>x. x = cur) xs"
      using False by (simp add: replicate_app_Cons_same)
    have n: "n < 2" using Cons.prems(1) Cons.prems(2) [of 0] False by (cases "n = 2") (auto simp: numeral_2_eq_2)
    then have "fst (fold vote xs (cur, of_nat (Suc n))) = cur"
      using Cons.prems(2) unfolding shift by (intro Cons.IH) auto
    moreover have "(of_nat n :: u8) < 2" using n by (simp add: word_less_nat_alt unat_of_nat)
    then have "vote x (cur, of_nat n) = (cur, of_nat (Suc n))" using False by (simp add: vote_def)
    ultimately show ?thesis by (simp del: of_nat_Suc)
  qed
qed simp

section \<open>Arrays keep their shape\<close>

definition cabinet_shape :: "'h cabinet \<Rightarrow> bool" where
  "cabinet_shape c \<longleftrightarrow> length (rx_buffer c) = RT_SERIAL_RB_BUFSZ + 1 \<and> (\<forall>i<APP_NUM. key_shape (key c i) \<and>
     length (check_amr c i) = 7 \<and> length (check_elec c i) = 7 \<and> check_id c i \<le> 2)"

definition packet_fits :: "string option \<Rightarrow> bool" where
  "packet_fits m = (case m of None \<Rightarrow> True | Some p \<Rightarrow> length p \<le> RT_SERIAL_RB_BUFSZ + 1)"

lemma str2hex_safe:
  assumes "CHR 0x00 \<in> set str" "length str \<le> 11" "length out = 8"
  shows "\<exists>n out'. str2hex str out = Some (n, out') \<and> length out' = 8"
proof -
  have "length (c_str str) < length str"
    using assms(1) by (auto simp: c_str_def dest!: split_list) (simp add: takeWhile_tail length_takeWhile_le le_imp_less_Suc trans_le_add1)
  then have ret: "length (c_str str) div 2 + length (c_str str) mod 2 \<le> 5" using assms(2) by presburger
  let ?f = "\<lambda>i out. do {
     rt_assert (i + 4 \<le> length out);
     Some (case sscanf_02X (drop (2 * i) (c_str str)) of None \<Rightarrow> out | Some v \<Rightarrow> store32 i v out) }"
  let ?r = "[0..<length (c_str str) div 2 + length (c_str str) mod 2]"
  have "\<exists>out'. for_each ?r ?f out = Some out' \<and> length out' = 8"
  proof (rule for_each_rule [where I = "\<lambda>_ out. length out = 8"])
    fix xs i ys and s :: "u8 list"
    assume "?r = xs @ i # ys" "length s = 8"
    then have "i \<in> set ?r" by (metis in_set_conv_decomp)
    then have "i \<le> 4" using ret by auto
    then show "\<exists>s'. ?f i s = Some s' \<and> length s' = 8" using \<open>length s = 8\<close> by (auto simp: store32_def split: option.split)
  qed (rule assms(3))
  then show ?thesis using assms(1) by (auto simp: str2hex_def Let_def)
qed

lemma take_code_safe:
  assumes "i < 6" "cabinet_shape c"
  shows "\<exists>c'. take_code i ret c = Some c' \<and> cabinet_shape c' \<and> sys c' = sys c \<and> printed c' = printed c"
proof (cases "length ret = 10")
  case True
  let ?k = "key c i"
  have k: "key_shape ?k" using assms by (simp add: cabinet_shape_def APP_NUM_def)
  then have d: "drop 10 (user_ch ?k) = [CHR 0x00]" by (simp add: key_shape_def)
  obtain n out where out: "str2hex (ret @ [CHR 0x00]) (user_code ?k @ [key_status ?k, last_key_status ?k, lock_status ?k]) = Some (n, out)"
    "length out = 8"
    using str2hex_safe [of "ret @ [CHR 0x00]" "user_code ?k @ [key_status ?k, last_key_status ?k, lock_status ?k]"] True k
    by (auto simp: key_shape_def)
  let ?c = "upd_key i (\<lambda>k. k\<lparr>user_ch := ret @ [CHR 0x00], user_code := take 5 out,
          key_status := out ! 5, last_key_status := out ! 6, lock_status := out ! 7\<rparr>) c"
  have "take_code i ret c = Some ?c" using out d True assms(1) by (simp add: take_code_def APP_NUM_def Let_def)
  moreover have "cabinet_shape ?c" using assms out(2) True k by (auto simp: cabinet_shape_def key_shape_def)
  ultimately show ?thesis by simp
qed (simp add: take_code_def assms)

lemma split_loop_safe:
  assumes "i + n \<le> 6" "cabinet_shape c"
  shows "\<exists>c'. split_loop n i s c = Some c' \<and> cabinet_shape c' \<and> sys c' = sys c \<and> printed c' = printed c"
  using assms
proof (induction n arbitrary: i s c)
  case (Suc n)
  show ?case
  proof (cases "strtok s")
    case None
    with Suc.prems show ?thesis by simp
  next
    case (Some r)
    moreover obtain c1 where c1: "take_code i (fst r) c = Some c1" "cabinet_shape c1" "sys c1 = sys c" "printed c1 = printed c"
      using take_code_safe [of i c "fst r"] Suc.prems by auto
    moreover obtain c' where "split_loop n (i + 1) (snd r) c1 = Some c'" "cabinet_shape c'" "sys c' = sys c1" "printed c' = printed c1"
      using Suc.IH [of "i + 1" c1 "snd r"] Suc.prems(1) c1(2) by auto
    ultimately show ?thesis by (auto simp: split_beta)
  qed
qed simp

lemma filtered_shape: "key_shape k \<Longrightarrow> n \<le> 2 \<Longrightarrow> key_shape (fst (filtered k n)) \<and> snd (filtered k n) \<le> 2"
proof -
  have "n < 2 \<Longrightarrow> n + 1 \<le> 2" for n :: u8 by (simp add: word_less_nat_alt word_le_nat_alt unat_word_ariths)
  then show "key_shape k \<Longrightarrow> n \<le> 2 \<Longrightarrow> ?thesis" by (simp add: filtered_def key_shape_def)
qed

lemma get_frame_safe:
  assumes "cabinet_shape c" "packet_fits m"
  shows "\<exists>data c'. get_frame (m # msgs) c = Some (data, msgs, c') \<and> cabinet_shape c' \<and> sys c' = sys c \<and> printed c' = printed c"
  using assms by (cases m) (auto simp: get_frame_def rfid_get_def packet_fits_def cabinet_shape_def)

lemma scan_rest:
  assumes "cabinet_shape c"
  shows "\<exists>c'. (do { c \<leftarrow> code_split d 0 c; c \<leftarrow> for_each [0..<6] filter_code c; Some (RT_EOK, ms, c) }) = Some (RT_EOK, ms, c') \<and>
      cabinet_shape c' \<and> sys c' = sys c \<and> printed c' = printed c"
proof -
  obtain c3 where "code_split d 0 c = Some c3" "cabinet_shape c3" "sys c3 = sys c" "printed c3 = printed c"
    using split_loop_safe [of 0 6 c "c_str d"] assms by (auto simp: code_split_def M606_RFID_NUM_def)
  then show ?thesis using filter_codes [of "[0..<6]" c3] filtered_shape by (auto simp: cabinet_shape_def APP_NUM_def)
qed

lemma get_frame_shape: "get_frame msgs c = Some (d, ms, c') \<Longrightarrow> cabinet_shape c \<Longrightarrow> cabinet_shape c'"
  by (auto simp: get_frame_def rfid_get_def cabinet_shape_def split: list.splits option.splits bind_splits)

lemma scan_rfid_shape:
  assumes "scan_rfid beyond 0 msgs c = Some (r, ms, c')" "cabinet_shape c"
  shows "cabinet_shape c'"
proof -
  obtain d ms1 c1 where 1: "get_frame msgs c = Some (d, ms1, c1)"
    using assms(1) by (auto simp: scan_rfid_def split: bind_splits)
  obtain d2 ms2 c2 where 2: "(if strlen_data beyond d \<noteq> ONE_DATA_MAXLEN + 1 \<and> strlen_data beyond d \<noteq> ONE_DATA_MAXLEN then get_frame ms1 c1
        else Some (d, ms1, c1)) = Some (d2, ms2, c2)"
    using assms(1) 1 by (auto simp: scan_rfid_def split: bind_splits)
  have "cabinet_shape c2" using 1 2 get_frame_shape assms(2) by (metis Pair_inject option.inject)
  moreover have "(do { c \<leftarrow> code_split (d2[ONE_DATA_MAXLEN - 1 := CHR 0x00]) 0 c2; c \<leftarrow> for_each [0..<6] filter_code c; Some (RT_EOK, ms2, c) }) =
      Some (r, ms, c')"
    using assms(1) by (simp add: scan_rfid_def 1 2 [simplified] M606_RFID_NUM_def del: split_paired_All)
  ultimately show ?thesis using scan_rest [of c2 "d2[ONE_DATA_MAXLEN - 1 := CHR 0x00]" ms2] by (metis Pair_inject option.inject)
qed

text \<open>
  Whatever the reader sends, a round of the reader thread returns: with packets of any text that fit the receive buffer, no
  array is left except for the status bytes that \<open>str2hex\<close> overwrites. The round takes one or two packets, touches nothing
  outside the variables of the reader, and keeps the shape of the arrays.
\<close>

lemma scan_rfid_safe:
  assumes "cabinet_shape c" "packet_fits m" "packet_fits m'"
  shows "\<exists>n c'. scan_rfid beyond 0 (m # m' # msgs) c = Some (RT_EOK, drop n (m # m' # msgs), c') \<and> n \<in> {1, 2} \<and>
    cabinet_shape c' \<and> sys c' = sys c \<and> printed c' = printed c"
proof -
  obtain data c1 where g: "get_frame (m # m' # msgs) c = Some (data, m' # msgs, c1)" "cabinet_shape c1" "sys c1 = sys c" "printed c1 = printed c"
    using get_frame_safe [OF assms(1,2)] by blast
  obtain data' c2 where g': "get_frame (m' # msgs) c1 = Some (data', msgs, c2)" "cabinet_shape c2" "sys c2 = sys c1" "printed c2 = printed c1"
    using get_frame_safe [OF g(2) assms(3)] by blast
  show ?thesis
  proof (cases "strlen_data beyond data \<noteq> ONE_DATA_MAXLEN + 1 \<and> strlen_data beyond data \<noteq> ONE_DATA_MAXLEN")
    case True
    then show ?thesis using g g' scan_rest [OF g'(2), of "data'[79 := CHR 0x00]" msgs]
      by (intro exI [of _ 2]) (simp add: scan_rfid_def M606_RFID_NUM_def ONE_DATA_MAXLEN_def)
  next
    case False
    then show ?thesis using g scan_rest [OF g(2), of "data[79 := CHR 0x00]" "m' # msgs"]
      by (intro exI [of _ 1]) (auto simp add: scan_rfid_def M606_RFID_NUM_def ONE_DATA_MAXLEN_def)
  qed
qed

section \<open>Properties\<close>


definition test_frame :: "u8 \<Rightarrow> bool \<times> u8 list list \<times> string" where
  "test_frame v = (True, replicate 7 [v, 0x12, 0xAB, 0, 0xFF], [CHR 0x0A])"

lemma empty_cabinet_shape: "key_shape (key empty_cabinet i)"
  by (simp add: key_shape_def empty_cabinet_def)




end
