(* ===== verification/Application.thy ===== *)
theory Application
  imports Rfid Semaphore
begin

text \<open>
  The threads of the application, \<^verbatim>\<open>applications/app\<close>, and the start of the reader, \<^verbatim>\<open>M606_init.c\<close>: the lamp thread, the sensor
  thread, the magnet thread, the reader thread and the shell command that opens a lock. Each endless loop is given by its body.
  The last part follows the interleaving of the threads: any order of complete passes, with any activity of the rest of the
  system between them, is a run of \<open>app_step\<close>.
\<close>

section \<open>The shell command operate_lock\<close>

text \<open>\<open>atoi\<close>; a number outside the range of \<open>int\<close> has no defined value.\<close>

definition atoi :: "string \<Rightarrow> int option" where
  "atoi s =
     (let s = dropWhile is_space s;
          neg = (s \<noteq> [] \<and> hd s = CHR ''-'');
          s = (if s \<noteq> [] \<and> (hd s = CHR ''-'' \<or> hd s = CHR ''+'') then tl s else s);
          n = int (digits_value (takeWhile is_digit s));
          n = (if neg then - n else n)
      in if - (2 ^ 31) \<le> n \<and> n < 2 ^ 31 then Some n else None)"

definition operate_lock ::
  "'h xfer \<Rightarrow> ('h nca_io \<Rightarrow> 'h nca_io) \<Rightarrow> board list \<Rightarrow> string list \<Rightarrow> 'h nca_io \<Rightarrow> (rt_err_t \<times> 'h nca_io) option" where
  "operate_lock xfer others boards argv io =
     (if length argv = 2 then do {
        i \<leftarrow> atoi (argv ! 1);
        if i \<ge> 0 \<and> i < int APP_NUM then do {
          io \<leftarrow> mdelay others 500 io;
          (_, io) \<leftarrow> elec_action xfer others boards i unlock io;
          io \<leftarrow> mdelay others 1000 io;
          (_, io) \<leftarrow> elec_action xfer others boards i lock io;
          Some (RT_EOK, io) }
        else Some (- RT_ERROR, io) }
      else Some (- RT_ERROR, io))"

section \<open>Thread bodies\<close>

fun each_board :: "board list \<Rightarrow> (board \<Rightarrow> 's \<Rightarrow> 's option) \<Rightarrow> 's \<Rightarrow> 's option" where
  "each_board [] f s = Some s"
| "each_board (b # bs) f s = f b s \<bind> each_board bs f"

text \<open>The first loop of each entry function; an error is only logged.\<close>

definition led_start :: "'h xfer \<Rightarrow> board list \<Rightarrow> 'h cabinet \<Rightarrow> 'h cabinet option" where
  "led_start xfer = (\<lambda>bs. each_board bs (\<lambda>b c. do { (_, io) \<leftarrow> led_init xfer (led b) (sys c); Some (put_sys io c) }))"

definition stat_start :: "'h xfer \<Rightarrow> board list \<Rightarrow> 'h cabinet \<Rightarrow> 'h cabinet option" where
  "stat_start xfer = (\<lambda>bs. each_board bs (\<lambda>b c. do { (_, c) \<leftarrow> stat_init xfer (stat_dev b) c; Some c }))"

definition elec_start :: "'h xfer \<Rightarrow> board list \<Rightarrow> 'h cabinet \<Rightarrow> 'h cabinet option" where
  "elec_start xfer = (\<lambda>bs. each_board bs (\<lambda>b c. do { (_, io) \<leftarrow> elec_init xfer (elec b) (sys c); Some (put_sys io c) }))"

text \<open>The lamp thread once it has the token of \<^verbatim>\<open>app_flag\<close>; the sensor thread releases one after each round.\<close>

definition led_pass :: "'h xfer \<Rightarrow> board list \<Rightarrow> 'h cabinet \<Rightarrow> 'h cabinet option" where
  "led_pass xfer bs c = each_board bs (key_status_led xfer) c"

definition stat_pass :: "'h xfer \<Rightarrow> oid \<Rightarrow> board list \<Rightarrow> 'h cabinet \<Rightarrow> 'h cabinet option" where
  "stat_pass xfer app_flag bs c = do {
     c \<leftarrow> each_board bs (check_key xfer) c;
     c \<leftarrow> each_board bs (check_lock xfer) c;
     (_, k) \<leftarrow> rt_sem_release app_flag (kern (sys c));
     Some (put_sys ((sys c)\<lparr>kern := k\<rparr>) c) }"

section \<open>Start\<close>

text \<open>The static variables before the program starts, and the loop of \<open>rt_hw_M606_init\<close> over the keys.\<close>

definition static_cabinet :: "'h nca_io \<Rightarrow> 'h cabinet" where
  "static_cabinet io = \<lparr>sys = io,
     key = (\<lambda>_. \<lparr>cur_rfid_code = replicate 5 0, last_rfid_code = replicate 5 0, user_ch = replicate 11 CHR 0x00,
       user_code = replicate 5 0, key_status = 0, last_key_status = 0, lock_status = 0\<rparr>),
     check_amr = (\<lambda>_. replicate 7 0), check_elec = (\<lambda>_. replicate 7 0), check_id = (\<lambda>_. 0),
     rx_buffer = replicate (RT_SERIAL_RB_BUFSZ + 1) CHR 0x00, printed = []\<rparr>"

definition clear_codes :: "'h cabinet \<Rightarrow> 'h cabinet option" where
  "clear_codes c = for_each [0..<APP_NUM] (\<lambda>i. for_each [0..<5] (\<lambda>j c.
     Some (upd_key i (\<lambda>k. k\<lparr>cur_rfid_code := (cur_rfid_code k)[j := 0xFF], last_rfid_code := (last_rfid_code k)[j := 0xFF]\<rparr>) c))) c"

text \<open>
  \<open>app_open\<close>: the devices of the board by their names, the semaphore, and the five threads in the order of \<^verbatim>\<open>obj\<close>. The memory
  that the allocator gives for the semaphore and for each thread and its stack is an argument.
\<close>

record app_module =
  mod_name :: string
  mod_entry :: nat
  mod_stack_size :: u32
  mod_priority :: u8
  mod_tick :: u32

definition obj :: "app_module list" where
  "obj =
     [\<lparr>mod_name = ''LED'', mod_entry = 0, mod_stack_size = 1024, mod_priority = 21, mod_tick = 15\<rparr>,
      \<lparr>mod_name = ''STAT'', mod_entry = 1, mod_stack_size = 1024, mod_priority = 21, mod_tick = 15\<rparr>,
      \<lparr>mod_name = ''ELEC'', mod_entry = 2, mod_stack_size = 1024, mod_priority = 21, mod_tick = 15\<rparr>,
      \<lparr>mod_name = ''RFID'', mod_entry = 3, mod_stack_size = 2048, mod_priority = 20, mod_tick = 15\<rparr>,
      \<lparr>mod_name = ''FLASH'', mod_entry = 4, mod_stack_size = 1024, mod_priority = 18, mod_tick = 15\<rparr>]"

fun open_modules :: "app_module list \<Rightarrow> (tid option \<times> u32 option) list \<Rightarrow> kernel \<Rightarrow> (rt_err_t \<times> kernel) option" where
  "open_modules [] mems k = Some (RT_EOK, k)"
| "open_modules (m # ms) [] k = None"
| "open_modules (m # ms) (mem # mems) k = do {
     (t, k) \<leftarrow> rt_thread_create (fst mem) (snd mem) (mod_name m) (mod_entry m) 0 (mod_stack_size m) (mod_priority m) (mod_tick m) k;
     case t of
       None \<Rightarrow> Some (- RT_ERROR, k)
     | Some t \<Rightarrow> do { (_, k) \<leftarrow> rt_thread_startup t k; open_modules ms mems k } }"

definition app_open ::
  "oid option \<Rightarrow> (tid option \<times> u32 option) list \<Rightarrow> 'h nca_io \<Rightarrow> (rt_err_t \<times> board \<times> oid option \<times> oid option \<times> 'h nca_io) option" where
  "app_open sem_mem mems io = do {
     (led_d, io) \<leftarrow> rt_device_find ''LED0'' io;
     (stat_d, io) \<leftarrow> rt_device_find ''STAT0'' io;
     (elec_d, io) \<leftarrow> rt_device_find ''ELEC0'' io;
     (M606, io) \<leftarrow> rt_device_find ''M606_0'' io;
     (app_flag, k) \<leftarrow> rt_sem_create sem_mem ''app_flag'' 0 RT_IPC_FLAG_FIFO (kern io);
     (r, k) \<leftarrow> open_modules obj mems k;
     Some (r, \<lparr>led = led_d, stat_dev = stat_d, elec = elec_d, board_pos = 0\<rparr>, M606, app_flag, io\<lparr>kern := k\<rparr>) }"

section \<open>Runs of the application\<close>

text \<open>
  One step is a complete pass of one thread, or anything that the kernel, the drivers and the hardware do. \<open>beyond\<close>, the
  packets and \<^verbatim>\<open>app_flag\<close> may differ from step to step.
\<close>

inductive app_step :: "'h xfer \<Rightarrow> board list \<Rightarrow> 'h cabinet \<Rightarrow> 'h cabinet \<Rightarrow> bool" for xfer bs where
  led_begin: "led_start xfer bs c = Some c' \<Longrightarrow> app_step xfer bs c c'"
| led_loop: "led_pass xfer bs c = Some c' \<Longrightarrow> app_step xfer bs c c'"
| stat_begin: "stat_start xfer bs c = Some c' \<Longrightarrow> app_step xfer bs c c'"
| stat_loop: "stat_pass xfer flag bs c = Some c' \<Longrightarrow> app_step xfer bs c c'"
| elec_begin: "elec_start xfer bs c = Some c' \<Longrightarrow> app_step xfer bs c c'"
| rfid_loop: "scan_rfid beyond 0 msgs c = Some (r, msgs', c') \<Longrightarrow> app_step xfer bs c c'"
| command: "operate_lock xfer others bs argv (sys c) = Some (r, io) \<Longrightarrow> app_step xfer bs c (put_sys io c)"
| system: "app_step xfer bs c (put_sys io c)"

inductive app_reach :: "'h xfer \<Rightarrow> board list \<Rightarrow> 'h cabinet \<Rightarrow> bool" for xfer bs where
  start: "clear_codes (static_cabinet io) = Some c \<Longrightarrow> app_reach xfer bs c"
| step: "app_reach xfer bs c \<Longrightarrow> app_step xfer bs c c' \<Longrightarrow> app_reach xfer bs c'"

section \<open>The shape of the arrays in every state\<close>

lemma for_each_keeps:
  assumes "\<And>i s s'. f i s = Some s' \<Longrightarrow> I s \<Longrightarrow> I s'"
  shows "for_each is f s = Some s' \<Longrightarrow> I s \<Longrightarrow> I s'"
  by (induction "is" arbitrary: s) (auto split: bind_splits dest: assms)

lemma each_board_keeps:
  assumes "\<And>b s s'. f b s = Some s' \<Longrightarrow> I s \<Longrightarrow> I s'"
  shows "each_board bs f s = Some s' \<Longrightarrow> I s \<Longrightarrow> I s'"
  by (induction bs arbitrary: s) (auto split: bind_splits dest: assms)

lemma shape_put_sys [simp]: "cabinet_shape (put_sys io c) = cabinet_shape c"
  by (simp add: cabinet_shape_def)

lemma shape_status:
  "cabinet_shape c \<Longrightarrow> (key_shape (key c i) \<Longrightarrow> key_shape k) \<Longrightarrow> cabinet_shape ((put_sys io c)\<lparr>key := (key c)(i := k)\<rparr>)"
  by (auto simp: cabinet_shape_def)

lemma length_shift_sum: "length (fst (shift_sum n w s)) = length w"
  by (induction n arbitrary: w s) (simp_all add: Let_def)

lemma sample_key_shape: "sample_key xfer b i c = Some c' \<Longrightarrow> cabinet_shape c \<Longrightarrow> cabinet_shape c'"
  using length_shift_sum [of 6 "check_amr c i"]
  by (fastforce simp: sample_key_def cabinet_shape_def key_shape_def split_beta Let_def split: bind_splits)

lemma sample_lock_shape: "sample_lock xfer b i c = Some c' \<Longrightarrow> cabinet_shape c \<Longrightarrow> cabinet_shape c'"
  using length_shift_sum [of 6 "check_elec c i"]
  by (fastforce simp: sample_lock_def cabinet_shape_def key_shape_def split_beta Let_def split: bind_splits)

lemma rfid_printf_shape: "cabinet_shape c \<Longrightarrow> cabinet_shape (snd (rfid_printf i c))"
  by (auto simp: rfid_printf_def cabinet_shape_def key_shape_def Let_def)

lemma show_key_shape:
  assumes "show_key xfer b i c = Some c'" "cabinet_shape c"
  shows "cabinet_shape c'"
proof -
  have shown: "cabinet_shape ((put_sys io c)\<lparr>key := (key c)(i := (key c i)\<lparr>last_key_status := v\<rparr>)\<rparr>)"
    if "cabinet_shape c" for c :: "'a cabinet" and io v
    using that by (rule shape_status) (simp add: key_shape_def)
  obtain c1 where c1: "(if key_status (key c i) = key_in \<and> last_key_status (key c i) \<noteq> key_in then do {
            (_, io) \<leftarrow> led_only_red xfer i b (sys c);
            let c = upd_key i (\<lambda>k. k\<lparr>last_key_status := key_status k\<rparr>) (put_sys io c);
            Some (snd (rfid_printf i c)) }
          else Some c) = Some c1"
    using assms(1) unfolding show_key_def by (auto split del: if_split split: bind_splits)
  then have "cabinet_shape c1"
    using assms(2) by (auto split: if_splits bind_splits intro!: rfid_printf_shape shown simp: Let_def)
  moreover have "(if key_status (key c1 i) = key_out \<and> last_key_status (key c1 i) \<noteq> key_out then do {
       (_, io) \<leftarrow> led_only_green xfer i b (sys c1);
       Some (upd_key i (\<lambda>k. k\<lparr>last_key_status := key_status k\<rparr>) (put_sys io c1)) }
     else Some c1) = Some c'"
    using assms(1) c1 unfolding show_key_def by (auto split del: if_split split: bind_splits)
  ultimately show ?thesis by (auto split: if_splits bind_splits intro!: shown)
qed

lemma stat_init_shape: "stat_init xfer dev c = Some (r, c') \<Longrightarrow> cabinet_shape c \<Longrightarrow> cabinet_shape c'"
  by (auto simp: stat_init_def key_shape_def split: bind_splits if_splits intro!: shape_status
      dest!: for_each_keeps [where I = cabinet_shape, rotated 1])

lemma static_cabinet_shape: "cabinet_shape (static_cabinet io)"
  by (simp add: cabinet_shape_def key_shape_def static_cabinet_def)

lemma clear_codes_shape:
  assumes "clear_codes (static_cabinet io) = Some c"
  shows "cabinet_shape c"
proof -
  have "cabinet_shape c'" if "for_each [0..<5] (\<lambda>j c. Some (upd_key i (\<lambda>k. k\<lparr>cur_rfid_code := (cur_rfid_code k)[j := 0xFF],
      last_rfid_code := (last_rfid_code k)[j := 0xFF]\<rparr>) c)) c = Some c'" "cabinet_shape c" for i and c c' :: "'a cabinet"
    using that by (rule for_each_keeps [rotated 1]) (auto simp: cabinet_shape_def key_shape_def)
  then show ?thesis
    using for_each_keeps [where I = cabinet_shape, OF _ assms [unfolded clear_codes_def]] static_cabinet_shape by blast
qed

lemma pass_shape:
  "key_status_led xfer b c = Some c' \<Longrightarrow> cabinet_shape c \<Longrightarrow> cabinet_shape c'"
  "check_key xfer b c = Some c' \<Longrightarrow> cabinet_shape c \<Longrightarrow> cabinet_shape c'"
  "check_lock xfer b c = Some c' \<Longrightarrow> cabinet_shape c \<Longrightarrow> cabinet_shape c'"
  unfolding key_status_led_def check_key_def check_lock_def
  by (auto elim!: for_each_keeps [where I = cabinet_shape, rotated 1] intro: show_key_shape sample_key_shape sample_lock_shape)

lemma app_step_shape: "app_step xfer bs c c' \<Longrightarrow> cabinet_shape c \<Longrightarrow> cabinet_shape c'"
proof (induction rule: app_step.induct)
  case (led_begin c c')
  then show ?case unfolding led_start_def by (rule each_board_keeps [rotated 1]) (auto split: bind_splits)
next
  case (led_loop c c')
  then show ?case unfolding led_pass_def
    by (rule each_board_keeps [rotated 1]) (rule pass_shape(1))
next
  case (stat_begin c c')
  then show ?case unfolding stat_start_def by (rule each_board_keeps [rotated 1]) (auto split: bind_splits intro: stat_init_shape)
next
  case (stat_loop flag c c')
  obtain c1 c2 where c12: "each_board bs (check_key xfer) c = Some c1" "each_board bs (check_lock xfer) c1 = Some c2"
    "cabinet_shape c' = cabinet_shape c2"
    using stat_loop(1) by (auto simp: stat_pass_def split: bind_splits)
  have "cabinet_shape c1" using c12(1) stat_loop(2)
    by (rule each_board_keeps [rotated 1]) (rule pass_shape(2))
  with c12(2) have "cabinet_shape c2"
    by (rule each_board_keeps [rotated 1]) (rule pass_shape(3))
  then show ?case using c12(3) by simp
next
  case (elec_begin c c')
  then show ?case unfolding elec_start_def by (rule each_board_keeps [rotated 1]) (auto split: bind_splits)
qed (auto intro: scan_rfid_shape)

section \<open>The command moves one magnet\<close>

text \<open>The rest of the system gives the processor back to the thread that slept.\<close>

definition resumes :: "tid \<Rightarrow> ('h nca_io \<Rightarrow> 'h nca_io) \<Rightarrow> bool" where
  "resumes t others \<longleftrightarrow> (\<forall>io. kernel_wf (kern io) \<longrightarrow>
     kernel_wf (kern (others io)) \<and> current (kern (others io)) = Some t \<and> st (kern (others io)) t = RT_THREAD_RUNNING)"

definition running_in :: "tid \<Rightarrow> kernel \<Rightarrow> bool" where
  "running_in t k \<longleftrightarrow> kernel_wf k \<and> current k = Some t \<and> st k t = RT_THREAD_RUNNING"

lemma mdelay_resumes:
  assumes r: "running_in t (kern io)" "resumes t others" and w: "wired io dev bus a" "leaves_alone regs dev bus a others"
    and short: "unat (rt_tick_from_millisecond ms) < half"
  obtains io' where "mdelay others ms io = Some io'" "running_in t (kern io')" "wired io' dev bus a"
proof -
  obtain k where k: "rt_thread_mdelay ms (kern io) = Some k" "kernel_wf k"
    using mdelay_returns [OF _ _ _ short] r(1) by (metis running_in_def)
  have "wired (io\<lparr>kern := k\<rparr>) dev bus a" using w(1) mdelay_header [OF k(1)] wired_kern [of k dev io] by simp
  then show thesis using k r(2) w(2) that [of "others (io\<lparr>kern := k\<rparr>)"]
    by (simp add: mdelay_def resumes_def running_in_def leaves_alone_def)
qed

lemma elec_action_resumes:
  assumes e: "expander xfer on_bus regs" "on_bus bus (ucast a)" and w: "wired io (elec b) bus a" and b: "board_pos b = 0"
    and i: "i < 6" and act: "act \<in> {unlock, lock}" and r: "running_in t (kern io)" "resumes t others"
    and o: "leaves_alone regs (elec b) bus a others"
  obtains io' where "elec_action xfer others [b] (int i) act io = Some (RT_EOK, io')" "running_in t (kern io')" "wired io' (elec b) bus a"
    "\<not> output_level regs bus a i (chips (hw io'))" "\<not> output_level regs bus a (8 + i) (chips (hw io'))"
proof -
  have k: "kernel_wf (kern io)" "current (kern io) = Some t" "st (kern io) t = RT_THREAD_RUNNING" using r(1) by (simp_all add: running_in_def)
  obtain h h' k where f: "kernel_wf k" "elec_action xfer others [b] (int i) act io = Some (RT_EOK, put_chips h' (others ((put_chips h io)\<lparr>kern := k\<rparr>)))"
    "\<not> output_level regs bus a (pulse_pin act i) h'" "\<not> output_level regs bus a (rest_pin act i) h'"
    "wired (others ((put_chips h io)\<lparr>kern := k\<rparr>)) (elec b) bus a"
    using elec_action_pulse [OF e w b i act k o] by metis
  moreover have "{pulse_pin act i, rest_pin act i} = {i, 8 + i}" using act by (auto simp: pulse_pin_def rest_pin_def)
  ultimately have "\<not> output_level regs bus a i h'" "\<not> output_level regs bus a (8 + i) h'" by (metis insert_iff singletonD)+
  then show thesis using that [OF f(2)] f(1,5) r(2) by (simp add: resumes_def running_in_def)
qed

section \<open>Properties\<close>


lemma for_each_total: "(\<And>i s. \<exists>s'. f i s = Some s') \<Longrightarrow> \<exists>s'. for_each is f s = Some s'"
  by (rule for_each_rule [where I = "\<lambda>_ _. True", simplified])

lemma clear_codes_returns: "\<exists>c. clear_codes (static_cabinet io) = Some c"
  unfolding clear_codes_def by (rule for_each_total) (rule for_each_total, simp)




end
